(* ===== verification/Prelude.thy ===== *)
theory Prelude imports Main "HOL-Library.Word" begin

text \<open>
  What the components share: the result type of fallible code, the machine integer types,
  byte strings, and the generic lemmas on lists, cyclic probing and machine words that the
  component theories use. Nothing in this theory is specific to one component.

  \<^item> \<open>RAFT_EXPECTS(c, msg)\<close> and \<open>RAFT_FAIL(msg)\<close> throw; the model returns \<open>Inl e\<close>, where
    \<open>e\<close> is a value of the component's own error type, and every later statement is
    skipped by \<open>bind_r\<close>.
  \<^item> \<open>size_t\<close> values that the code only adds and compares under an explicit overflow check are
    \<open>nat\<close>; a value whose wrap-around the code relies on is a word.
\<close>

unbundle bit_operations_syntax

section \<open>Collections of rules\<close>

named_theorems word_nat \<comment> \<open>from machine words to natural numbers\<close>
named_theorems res_simps \<comment> \<open>results of fallible code\<close>

section \<open>Types\<close>

type_synonym u8 = "8 word"
type_synonym u32 = "32 word"
type_synonym u64 = "64 word"
type_synonym bytes = "u8 list"

text \<open>The largest values of the integer types the checks mention.\<close>

abbreviation size_max :: nat where
  "size_max \<equiv> 2 ^ 64 - 1"

abbreviation off_max :: nat where
  "off_max \<equiv> 2 ^ 63 - 1"

section \<open>Results\<close>

definition bind_r :: "'e + 'a \<Rightarrow> ('a \<Rightarrow> 'e + 'b) \<Rightarrow> 'e + 'b" where
  "bind_r r f = (case r of Inl e \<Rightarrow> Inl e | Inr a \<Rightarrow> f a)"

definition expects :: "bool \<Rightarrow> 'e \<Rightarrow> 'e + unit" where
  "expects c e = (if c then Inr () else Inl e)"

definition is_ok :: "'e + 'a \<Rightarrow> bool" where
  "is_ok r \<longleftrightarrow> (case r of Inl _ \<Rightarrow> False | Inr _ \<Rightarrow> True)"

lemma bind_r_simps [simp, res_simps]:
  "bind_r (Inl e) f = Inl e"
  "bind_r (Inr a) f = f a"
  by (simp_all add: bind_r_def)

lemma bind_r_Inr_iff [res_simps]:
  "bind_r r f = Inr b \<longleftrightarrow> (\<exists>a. r = Inr a \<and> f a = Inr b)"
  by (cases r) auto

lemma bind_r_Inl_iff [res_simps]:
  "bind_r r f = Inl e \<longleftrightarrow> r = Inl e \<or> (\<exists>a. r = Inr a \<and> f a = Inl e)"
  by (cases r) auto

lemma expects_Inr_iff [simp, res_simps]: "expects c e = Inr u \<longleftrightarrow> c"
  by (simp add: expects_def)

lemma expects_Inl_iff [simp, res_simps]: "expects c e = Inl e' \<longleftrightarrow> \<not> c \<and> e' = e"
  by (auto simp: expects_def)

lemma bind_expects [res_simps]: "bind_r (expects c e) f = (if c then f () else Inl e)"
  by (simp add: expects_def)

lemma is_ok_simps [simp, res_simps]: "is_ok (Inr a)" "\<not> is_ok (Inl e)"
  by (simp_all add: is_ok_def)

lemma is_ok_iff: "is_ok r \<longleftrightarrow> (\<exists>a. r = Inr a)"
  by (cases r) auto

text \<open>Fallible code that also changes a state: the state is returned in both cases.\<close>

definition bind_sr :: "('e + 'a) \<times> 's \<Rightarrow> ('a \<Rightarrow> 's \<Rightarrow> ('e + 'b) \<times> 's) \<Rightarrow> ('e + 'b) \<times> 's" where
  "bind_sr m f = (case m of (Inl e, s) \<Rightarrow> (Inl e, s) | (Inr a, s) \<Rightarrow> f a s)"

lemma bind_sr_simps [simp, res_simps]:
  "bind_sr (Inl e, s) f = (Inl e, s)"
  "bind_sr (Inr a, s) f = f a s"
  by (simp_all add: bind_sr_def)

lemma bind_sr_Inr_iff:
  "bind_sr m f = (Inr b, s') \<longleftrightarrow> (\<exists>a s. m = (Inr a, s) \<and> f a s = (Inr b, s'))"
  by (cases m; cases "fst m") auto

lemma bind_sr_Inl_iff:
  "bind_sr m f = (Inl e, s') \<longleftrightarrow> m = (Inl e, s') \<or> (\<exists>a s. m = (Inr a, s) \<and> f a s = (Inl e, s'))"
  by (cases m; cases "fst m") auto

section \<open>Lists\<close>

lemma take_add_drop: "take a xs @ take b (drop a xs) = take (a + b) xs"
  by (simp add: take_add)

text \<open>A block write into a byte string at an offset: what \<open>pwrite\<close> does to a file.\<close>

definition overwrite :: "'a list \<Rightarrow> nat \<Rightarrow> 'a list \<Rightarrow> 'a list" where
  "overwrite xs off ys = take off xs @ ys @ drop (off + length ys) xs"

lemma length_overwrite [simp]:
  "off \<le> length xs \<Longrightarrow> length (overwrite xs off ys) = max (length xs) (off + length ys)"
  by (simp add: overwrite_def max_def)

lemma overwrite_at_end [simp]: "overwrite xs (length xs) ys = xs @ ys"
  by (simp add: overwrite_def)

lemma take_overwrite:
  "off \<le> length xs \<Longrightarrow> take (off + length ys) (overwrite xs off ys) = take off xs @ ys"
  by (simp add: overwrite_def)

lemma overwrite_overwrite:
  assumes "off \<le> length xs"
  shows "overwrite (overwrite xs off ys) (off + length ys) zs = overwrite xs off (ys @ zs)"
  using assms by (simp add: overwrite_def add.assoc add.commute add.left_commute)

lemma overwrite_Nil [simp]: "overwrite xs off [] = xs"
  by (simp add: overwrite_def)

section \<open>Machine words\<close>

lemma unat_take_bit_mod: "unat (take_bit b (x :: 'w::len word)) = unat x mod 2 ^ b"
  by (metis unsigned_take_bit_eq take_bit_eq_mod)

lemma unat_and_mask_mod [word_nat]: "unat ((x :: 'w::len word) AND mask b) = unat x mod 2 ^ b"
  by (metis take_bit_eq_mask unat_take_bit_mod)

text \<open>\<open>(index + 1) & mask\<close>: the step of every linear probe in the code.\<close>

lemma unat_succ_and_mask [word_nat]:
  assumes "b \<le> LENGTH('w)"
  shows "unat (((x :: 'w::len word) + 1) AND mask b) = (unat x + 1) mod 2 ^ b"
proof -
  have "unat (x + 1) = (unat x + 1) mod 2 ^ LENGTH('w)"
    by (simp add: unat_word_ariths)
  then have "unat ((x + 1) AND mask b) = ((unat x + 1) mod 2 ^ LENGTH('w)) mod 2 ^ b"
    by (simp add: unat_and_mask_mod)
  also have "\<dots> = (unat x + 1) mod 2 ^ b"
    using assms by (simp add: mod_mod_cancel le_imp_power_dvd)
  finally show ?thesis .
qed

lemma unat_push_bit_one [word_nat]:
  assumes "b < LENGTH('w)"
  shows "unat (push_bit b (1 :: 'w::len word)) = 2 ^ b"
proof -
  have "push_bit b (1 :: 'w word) = word_of_nat (2 ^ b)"
    by (simp add: push_bit_eq_mult)
  then have "unat (push_bit b (1 :: 'w word)) = 2 ^ b mod 2 ^ LENGTH('w)"
    by (simp only: unsigned_of_nat take_bit_eq_mod of_nat_id)
  also have "\<dots> = 2 ^ b" using assms by simp
  finally show ?thesis .
qed

lemma push_bit_one_minus_one [word_nat]:
  "push_bit b (1 :: 'w::len word) - 1 = mask b"
  by (simp add: mask_eq_exp_minus_1 push_bit_eq_mult)

lemma ucast_mask [word_nat]:
  "b \<le> LENGTH('a) \<Longrightarrow> (ucast (mask b :: 'a::len word) :: 'w::len word) = mask b"
  by (rule bit_word_eqI) (auto simp: bit_simps)

section \<open>Decimal numbers\<close>

definition is_digit :: "char \<Rightarrow> bool" where
  "is_digit c \<longleftrightarrow> 48 \<le> (of_char c :: nat) \<and> (of_char c :: nat) \<le> 57"

definition digit_val :: "char \<Rightarrow> nat" where
  "digit_val c = of_char c - 48"

definition digits_val :: "string \<Rightarrow> nat" where
  "digits_val s = foldl (\<lambda>v c. v * 10 + digit_val c) 0 s"

text \<open>How an unsigned number is printed to a stream.\<close>

fun decimal :: "nat \<Rightarrow> string" where
  "decimal n = (if n < 10 then [] else decimal (n div 10)) @ [char_of (48 + n mod 10)]"

declare decimal.simps [simp del]

lemma digits_val_snoc: "digits_val (xs @ [c]) = digits_val xs * 10 + digit_val c"
  by (simp add: digits_val_def)

lemma digit_char:
  assumes "d < 10"
  shows "is_digit (char_of (48 + d :: nat))" "digit_val (char_of (48 + d :: nat)) = d"
proof -
  have "(of_char (char_of (48 + d :: nat)) :: nat) = 48 + d"
    using assms by (simp add: of_char_of)
  then show "is_digit (char_of (48 + d :: nat))" "digit_val (char_of (48 + d :: nat)) = d"
    using assms by (simp_all add: is_digit_def digit_val_def)
qed

lemma decimal_digits: "list_all is_digit (decimal n) \<and> digits_val (decimal n) = n \<and> decimal n \<noteq> []"
proof (induction n rule: decimal.induct)
  case (1 n)
  have "n mod 10 < 10" by simp
  note d = digit_char[OF this]
  show ?case
  proof (cases "n < 10")
    case True
    then show ?thesis using d by (subst (1 2 3) decimal.simps) (simp add: digits_val_def)
  next
    case False
    have e: "decimal n = decimal (n div 10) @ [char_of (48 + n mod 10)]"
      using False by (subst decimal.simps) simp
    show ?thesis unfolding e using 1[OF False] d by (simp add: digits_val_snoc)
  qed
qed

section \<open>Cyclic offsets\<close>

text \<open>
  The slot at distance \<open>d\<close> from \<open>h\<close> in a table of \<open>n\<close> slots. The slots at distances
  \<open>0, \<dots>, n - 1\<close> are all slots of the table, each once.
\<close>

definition cyc :: "nat \<Rightarrow> nat \<Rightarrow> nat \<Rightarrow> nat" where
  "cyc n h d = (h + d) mod n"

lemma cyc_less [simp]: "0 < n \<Longrightarrow> cyc n h d < n"
  by (simp add: cyc_def)

lemma cyc_0 [simp]: "h < n \<Longrightarrow> cyc n h 0 = h"
  by (simp add: cyc_def)

lemma cyc_Suc: "cyc n h (Suc d) = (cyc n h d + 1) mod n"
  by (simp add: cyc_def mod_Suc_eq)

lemma cyc_inj:
  assumes "d < n" "e < n" "cyc n h d = cyc n h e"
  shows "d = e"
proof -
  have "int n dvd (int (h + d) - int (h + e))"
    using assms(3) by (metis cyc_def mod_eq_dvd_iff zmod_int)
  then have "int n dvd (int d - int e)" by simp
  moreover have "\<bar>int d - int e\<bar> < int n" using assms(1,2) by linarith
  ultimately have "int d - int e = 0"
    by (metis dvd_imp_le_int abs_of_nat not_le)
  then show ?thesis by simp
qed

lemma cyc_surj:
  assumes "i < n" "h < n"
  shows "\<exists>d < n. cyc n h d = i"
proof (cases "h \<le> i")
  case True
  then show ?thesis using assms by (intro exI[of _ "i - h"]) (auto simp: cyc_def)
next
  case False
  then show ?thesis using assms by (intro exI[of _ "n + i - h"]) (auto simp: cyc_def)
qed

section \<open>Choosing the least of optional candidates\<close>

text \<open>
  Code that walks over candidates and keeps the one with the strictly smallest key (the first of
  equals) shares this contract: \<open>pick r c\<close> is one comparison.
\<close>

locale least_choice =
  fixes key :: "'a \<Rightarrow> nat" and pick :: "'a option \<Rightarrow> 'a option \<Rightarrow> 'a option"
  assumes pick_None: "pick q None = q"
    and pick_first: "pick None (Some c) = Some c"
    and pick_Some: "pick (Some r) (Some c) = (if key c < key r then Some c else Some r)"
begin

definition least_of :: "'a option \<Rightarrow> 'a option list \<Rightarrow> bool" where
  "least_of r cs \<longleftrightarrow> (case r of
      None \<Rightarrow> \<forall>c \<in> set cs. c = None
    | Some b \<Rightarrow> Some b \<in> set cs \<and> (\<forall>c. Some c \<in> set cs \<longrightarrow> key b \<le> key c))"

lemma least_of_pick: "least_of r cs \<Longrightarrow> least_of (pick r c) (cs @ [c])"
  by (cases r; cases c) (auto simp: least_of_def pick_None pick_first pick_Some)

lemma least_of_foldl: "least_of r cs \<Longrightarrow> least_of (foldl pick r ds) (cs @ ds)"
proof (induction ds arbitrary: r cs)
  case (Cons d ds)
  show ?case using Cons.IH[OF least_of_pick[OF Cons.prems, of d]] by simp
qed simp

lemma least_of_start: "least_of (foldl pick None ds) ds"
  using least_of_foldl[of None "[]" ds] by (simp add: least_of_def)

lemma foldl_foldl:
  "foldl (\<lambda>r x. foldl (\<lambda>r y. pick r (f x y)) r ys) r xs =
    foldl pick r (concat (map (\<lambda>x. map (f x) ys) xs))"
proof (induction xs arbitrary: r)
  case (Cons x xs)
  have "foldl (\<lambda>r y. pick r (f x y)) r ys = foldl pick r (map (f x) ys)" for r
    by (induction ys arbitrary: r) simp_all
  then show ?case by (simp add: Cons.IH)
qed simp

end

end
