(* ===== verification/CagraHashmap.thy ===== *)
theory CagraHashmap imports Prelude begin

text \<open>
  The open-addressing hash set that CAGRA's search kernels use for the visited nodes
  (\<^verbatim>\<open>cpp/src/neighbors/detail/cagra/hashmap.hpp\<close>). A table is a word list of \<open>2 ^ bitlen\<close>
  slots, an empty slot holds the all-ones word, and removing a key sets the most significant
  bit of its slot. The file is compiled with \<open>HASHMAP_LINEAR_PROBING\<close>, so the double-hashing
  branch is dead code and is not modelled. \<open>atomicCAS\<close> is one atomic step on the table.
\<close>

section \<open>The operations\<close>

text \<open>\<open>~static_cast<IdxT>(0)\<close> and \<open>gen_index_msb_1_mask<IdxT>::value\<close>.\<close>

definition hashval_empty :: "'w::len word" where
  "hashval_empty = NOT 0"

definition msb_1_mask :: "'w::len word" where
  "msb_1_mask = push_bit (LENGTH('w) - 1) 1"

definition get_size :: "nat \<Rightarrow> u32" where
  "get_size bitlen = push_bit bitlen 1"

text \<open>The mask is computed in \<open>uint32_t\<close> and widened where it meets an \<open>IdxT\<close>.\<close>

definition bit_mask :: "nat \<Rightarrow> 'w::len word" where
  "bit_mask bitlen = ucast (get_size bitlen - 1)"

definition home_index :: "nat \<Rightarrow> 'w::len word \<Rightarrow> 'w word" where
  "home_index bitlen key = (key XOR drop_bit bitlen key) AND bit_mask bitlen"

text \<open>\<open>atomicCAS(&t[i], expected, desired)\<close>: the old value and the table afterwards.\<close>

definition atomic_cas :: "'a list \<Rightarrow> nat \<Rightarrow> 'a \<Rightarrow> 'a \<Rightarrow> 'a \<times> 'a list" where
  "atomic_cas t i expected desired =
     (t ! i, if t ! i = expected then t[i := desired] else t)"

text \<open>
  All threads of the block together: thread \<open>tid\<close> writes the slots \<open>tid - FIRST_TID\<close>,
  \<open>tid - FIRST_TID + (blockDim - FIRST_TID)\<close>, and so on. \<open>init_thread\<close> is the loop of one
  thread, with the slots that are left as its measure.
\<close>

function init_thread :: "nat \<Rightarrow> nat \<Rightarrow> nat \<Rightarrow> 'w::len word list \<Rightarrow> 'w word list" where
  "init_thread bitlen stride i t =
     (if i < unat (get_size bitlen) \<and> 0 < stride
      then init_thread bitlen stride (i + stride) (t[i := hashval_empty]) else t)"
  by pat_completeness auto
termination
  by (relation "measure (\<lambda>(bitlen, stride, i, t). unat (get_size bitlen) - i)") auto

declare init_thread.simps [simp del]

definition hm_init :: "nat \<Rightarrow> nat \<Rightarrow> nat \<Rightarrow> 'w::len word list \<Rightarrow> 'w word list" where
  "hm_init bitlen first_tid block_dim t =
     fold (\<lambda>tid t. if tid < first_tid then t
                   else init_thread bitlen (block_dim - first_tid) (tid - first_tid) t)
       [0..<block_dim] t"

text \<open>
  The probing loop of \<open>insert\<close>; \<open>fuel\<close> is \<open>size - i\<close>. With \<open>SUPPORT_REMOVE\<close> a second
  compare-and-swap tries to revive the slot of this very key; its result is stored in a
  \<open>uint32_t\<close>, whatever \<open>IdxT\<close> is.
\<close>

primrec insert_loop :: "bool \<Rightarrow> nat \<Rightarrow> 'w::len word \<Rightarrow> nat \<Rightarrow> 'w word list \<Rightarrow> 'w word \<Rightarrow>
    u32 \<times> 'w word list" where
  "insert_loop sr bitlen key 0 t index = (0, t)"
| "insert_loop sr bitlen key (Suc fuel) t index =
     (let removed_key = key OR msb_1_mask;
          (old, t1) = atomic_cas t (unat index) hashval_empty key;
          next = (index + 1) AND bit_mask bitlen
      in if old = hashval_empty then (1, t1)
         else if old = key then (0, t1)
         else if sr then
           (let (old_w, t2) = atomic_cas t1 (unat index) removed_key key;
                old32 = (ucast old_w :: u32)
            in if ucast old32 = removed_key then (1, t2)
               else if ucast old32 = key then (0, t2)
               else insert_loop sr bitlen key fuel t2 next)
         else insert_loop sr bitlen key fuel t1 next)"

definition hm_insert :: "bool \<Rightarrow> nat \<Rightarrow> 'w::len word list \<Rightarrow> 'w word \<Rightarrow> u32 \<times> 'w word list" where
  "hm_insert sr bitlen t key =
     insert_loop sr bitlen key (unat (get_size bitlen)) t (home_index bitlen key)"

primrec search_loop :: "bool \<Rightarrow> nat \<Rightarrow> 'w::len word \<Rightarrow> nat \<Rightarrow> 'w word list \<Rightarrow> 'w word \<Rightarrow> u32" where
  "search_loop sr bitlen key 0 t index = 0"
| "search_loop sr bitlen key (Suc fuel) t index =
     (let removed_key = key OR msb_1_mask; val = t ! unat index
      in if val = key then 1
         else if val = hashval_empty then 0
         else if sr \<and> val = removed_key then 0
         else search_loop sr bitlen key fuel t ((index + 1) AND bit_mask bitlen))"

definition hm_search :: "bool \<Rightarrow> nat \<Rightarrow> 'w::len word list \<Rightarrow> 'w word \<Rightarrow> u32" where
  "hm_search sr bitlen t key =
     search_loop sr bitlen key (unat (get_size bitlen)) t (home_index bitlen key)"

primrec remove_loop :: "nat \<Rightarrow> 'w::len word \<Rightarrow> nat \<Rightarrow> 'w word list \<Rightarrow> 'w word \<Rightarrow>
    u32 \<times> 'w word list" where
  "remove_loop bitlen key 0 t index = (0, t)"
| "remove_loop bitlen key (Suc fuel) t index =
     (let removed_key = key OR msb_1_mask;
          (old_w, t1) = atomic_cas t (unat index) key removed_key;
          old32 = (ucast old_w :: u32)
      in if ucast old32 = key then (1, t1)
         else if ucast old32 = (hashval_empty :: 'w word) then (0, t1)
         else remove_loop bitlen key fuel t1 ((index + 1) AND bit_mask bitlen))"

definition hm_remove :: "nat \<Rightarrow> 'w::len word list \<Rightarrow> 'w word \<Rightarrow> u32 \<times> 'w word list" where
  "hm_remove bitlen t key =
     remove_loop bitlen key (unat (get_size bitlen)) t (home_index bitlen key)"

text \<open>
  The team overload: lane 0 of the team inserts, the butterfly of \<open>__shfl_xor_sync\<close> ORs the
  result over the team. It calls \<open>insert(table, bitlen, key)\<close>, so \<open>SUPPORT_REMOVE\<close> takes its
  default 0 in the call, whatever the overload was instantiated with. \<open>hm_team_or\<close> is the
  butterfly over the values of \<open>2 ^ k\<close> lanes.
\<close>

primrec hm_team_or :: "nat \<Rightarrow> (nat \<Rightarrow> 'w::len word) \<Rightarrow> (nat \<Rightarrow> 'w word)" where
  "hm_team_or 0 r = r"
| "hm_team_or (Suc k) r = (\<lambda>lane. hm_team_or k r lane OR hm_team_or k r (lane XOR 2 ^ k))"

definition hm_insert_team :: "bool \<Rightarrow> nat \<Rightarrow> nat \<Rightarrow> 'w::len word list \<Rightarrow> 'w word \<Rightarrow>
    (nat \<Rightarrow> u32) \<times> 'w word list" where
  "hm_insert_team sr log2_team bitlen t key =
     (let (ret, t1) = hm_insert False bitlen t key;
          lanes = (\<lambda>lane. if lane mod 2 ^ log2_team = 0 then ucast ret else (0 :: 'w word))
      in (\<lambda>lane. ucast (hm_team_or log2_team lanes lane), t1))"

section \<open>The contract of a probed table\<close>

text \<open>
  What linear probing relies on, over any key type. \<open>norm\<close> maps the content of a slot to the
  key the slot belongs to (a removed slot still belongs to its key), \<open>home k\<close> is the first
  slot of the probe sequence of \<open>k\<close>.
\<close>

locale probed_table =
  fixes n :: nat and empty_val :: 'k and norm :: "'k \<Rightarrow> 'k" and home :: "'k \<Rightarrow> nat"
  assumes n_pos: "0 < n"
    and home_less: "home k < n"
    and norm_idem: "norm (norm k) = norm k"
begin

definition slot :: "'k \<Rightarrow> nat \<Rightarrow> nat" where
  "slot k d = cyc n (home k) d"

definition keys_of :: "'k list \<Rightarrow> 'k set" where
  "keys_of t = norm ` {x \<in> set t. x \<noteq> empty_val}"

definition live_of :: "'k list \<Rightarrow> 'k set" where
  "live_of t = {x \<in> set t. x \<noteq> empty_val \<and> norm x = x}"

definition reachable_slots :: "'k list \<Rightarrow> bool" where
  "reachable_slots t \<longleftrightarrow> (\<forall>i < n. t ! i \<noteq> empty_val \<longrightarrow>
     (\<forall>d < n. slot (norm (t ! i)) d = i \<longrightarrow> (\<forall>e < d. t ! slot (norm (t ! i)) e \<noteq> empty_val)))"

definition one_slot_each :: "'k list \<Rightarrow> bool" where
  "one_slot_each t \<longleftrightarrow> (\<forall>i < n. \<forall>j < n.
     t ! i \<noteq> empty_val \<and> t ! j \<noteq> empty_val \<and> norm (t ! i) = norm (t ! j) \<longrightarrow> i = j)"

definition table_inv :: "'k list \<Rightarrow> bool" where
  "table_inv t \<longleftrightarrow> length t = n \<and> reachable_slots t \<and> one_slot_each t"

definition passed :: "'k list \<Rightarrow> 'k \<Rightarrow> nat \<Rightarrow> bool" where
  "passed t k d \<longleftrightarrow> (\<forall>e < d. t ! slot k e \<noteq> empty_val \<and> norm (t ! slot k e) \<noteq> k)"

lemma slot_less [simp]: "slot k d < n"
  by (simp add: slot_def n_pos)

lemma slot_surj: "i < n \<Longrightarrow> \<exists>d < n. slot k d = i"
  by (simp add: slot_def cyc_surj home_less)

lemma slot_inj: "d < n \<Longrightarrow> e < n \<Longrightarrow> slot k d = slot k e \<Longrightarrow> d = e"
  by (auto simp: slot_def dest: cyc_inj)

lemma passed_0 [simp]: "passed t k 0"
  by (simp add: passed_def)

lemma passed_Suc:
  "passed t k (Suc d) \<longleftrightarrow> passed t k d \<and> t ! slot k d \<noteq> empty_val \<and> norm (t ! slot k d) \<noteq> k"
  by (auto simp: passed_def less_Suc_eq)

lemma mem_keys_iff:
  "length t = n \<Longrightarrow> k \<in> keys_of t \<longleftrightarrow> (\<exists>i < n. t ! i \<noteq> empty_val \<and> norm (t ! i) = k)"
  by (fastforce simp: keys_of_def in_set_conv_nth)

lemma mem_live_iff:
  "length t = n \<Longrightarrow> k \<in> live_of t \<longleftrightarrow> (\<exists>i < n. t ! i = k \<and> k \<noteq> empty_val \<and> norm k = k)"
  by (auto simp: live_of_def in_set_conv_nth)

lemma live_subset_keys: "live_of t \<subseteq> keys_of t"
  unfolding live_of_def keys_of_def by force

text \<open>A key that is stored is found before the first empty slot of its probe sequence.\<close>

lemma not_key_at_empty:
  assumes inv: "table_inv t" and p: "passed t k d" and d: "d < n" and e: "t ! slot k d = empty_val"
  shows "k \<notin> keys_of t"
proof
  assume "k \<in> keys_of t"
  then obtain i where i: "i < n" "t ! i \<noteq> empty_val" "norm (t ! i) = k"
    using inv by (auto simp: table_inv_def mem_keys_iff)
  obtain c where c: "c < n" "slot k c = i" using slot_surj[OF i(1)] by blast
  have "c \<noteq> d" using c e i by auto
  moreover have "\<not> c < d" using p c i by (auto simp: passed_def)
  ultimately have "d < c" by simp
  then have "t ! slot k d \<noteq> empty_val"
    using inv i c by (auto simp: table_inv_def reachable_slots_def)
  then show False using e by simp
qed

lemma not_key_at_end:
  assumes "length t = n" "passed t k n"
  shows "k \<notin> keys_of t" and "empty_val \<notin> set t"
proof -
  have all: "t ! i \<noteq> empty_val \<and> norm (t ! i) \<noteq> k" if "i < n" for i
    using slot_surj[OF that, of k] assms(2) by (auto simp: passed_def)
  show "k \<notin> keys_of t" using all assms(1) by (auto simp: mem_keys_iff)
  show "empty_val \<notin> set t" using all assms(1) by (auto simp: in_set_conv_nth)
qed

lemma fill_empty_inv:
  assumes inv: "table_inv t" and p: "passed t k d" and d: "d < n" and e: "t ! slot k d = empty_val"
    and k: "norm k = k"
  shows "table_inv (t[slot k d := k])"
proof -
  let ?s = "slot k d"
  let ?t = "t[?s := k]"
  have len: "length t = n" using inv by (simp add: table_inv_def)
  have s: "?s < n" by simp
  have mono: "?t ! i \<noteq> empty_val" if "t ! i \<noteq> empty_val" "i < n" for i
    using that e len by (cases "i = ?s") auto
  have "reachable_slots ?t"
    unfolding reachable_slots_def
  proof (intro allI impI)
    fix i c c'
    assume i: "i < n" "?t ! i \<noteq> empty_val" and c: "c < n" "slot (norm (?t ! i)) c = i" and c': "c' < c"
    have less: "slot x c' < n" for x by simp
    show "?t ! slot (norm (?t ! i)) c' \<noteq> empty_val"
    proof (cases "i = ?s")
      case True
      then have ti: "?t ! i = k" using len s by simp
      then have "c = d" using True c d k slot_inj by metis
      then have "t ! slot k c' \<noteq> empty_val" using p c' by (auto simp: passed_def)
      then show ?thesis using ti k mono less by simp
    next
      case False
      then have ti: "?t ! i = t ! i" by simp
      then have "t ! slot (norm (t ! i)) c' \<noteq> empty_val"
        using inv i c c' by (auto simp: table_inv_def reachable_slots_def)
      then show ?thesis using ti mono less by simp
    qed
  qed
  moreover have "one_slot_each ?t"
  proof -
    have "k \<notin> keys_of t" by (rule not_key_at_empty[OF inv p d e])
    then have no: "norm (t ! i) \<noteq> k" if "i < n" "t ! i \<noteq> empty_val" for i
      using that len by (auto simp: mem_keys_iff)
    show ?thesis
      unfolding one_slot_each_def
    proof (intro allI impI)
      fix i j
      assume ij: "i < n" "j < n"
        and h: "?t ! i \<noteq> empty_val \<and> ?t ! j \<noteq> empty_val \<and> norm (?t ! i) = norm (?t ! j)"
      show "i = j"
      proof (cases "i = ?s \<or> j = ?s")
        case True
        show ?thesis
        proof (rule ccontr)
          assume "i \<noteq> j"
          then show False using True h no[OF ij(1)] no[OF ij(2)] k len s ij by (auto split: if_splits)
        qed
      next
        case False
        then show ?thesis using h ij inv by (auto simp: table_inv_def one_slot_each_def)
      qed
    qed
  qed
  ultimately show ?thesis using len by (simp add: table_inv_def)
qed

text \<open>A slot may be rewritten in place as long as it stays with its key.\<close>

lemma rewrite_slot_inv:
  assumes inv: "table_inv t" and i: "i < n" "t ! i \<noteq> empty_val"
    and v: "v \<noteq> empty_val" "norm v = norm (t ! i)"
  shows "table_inv (t[i := v])"
proof -
  have len: "length t = n" using inv by (simp add: table_inv_def)
  have nth: "norm (t[i := v] ! j) = norm (t ! j)" "(t[i := v] ! j = empty_val) = (t ! j = empty_val)"
    if "j < n" for j
    using that len i v by (cases "j = i"; simp)+
  have "reachable_slots (t[i := v])"
    unfolding reachable_slots_def
  proof (intro allI impI)
    fix j c e
    assume j: "j < n" "t[i := v] ! j \<noteq> empty_val"
      and c: "c < n" "slot (norm (t[i := v] ! j)) c = j" and e: "e < c"
    have "t ! slot (norm (t ! j)) e \<noteq> empty_val"
      using inv j c e by (auto simp: nth table_inv_def reachable_slots_def)
    then show "t[i := v] ! slot (norm (t[i := v] ! j)) e \<noteq> empty_val"
      using j(1) slot_less by (simp only: nth not_False_eq_True)
  qed
  moreover have "one_slot_each (t[i := v])"
    unfolding one_slot_each_def
  proof (intro allI impI)
    fix j j'
    assume j: "j < n" "j' < n" and h: "t[i := v] ! j \<noteq> empty_val \<and> t[i := v] ! j' \<noteq> empty_val
      \<and> norm (t[i := v] ! j) = norm (t[i := v] ! j')"
    show "j = j'"
      using inv j h nth[OF j(1)] nth[OF j(2)] unfolding table_inv_def one_slot_each_def by metis
  qed
  ultimately show ?thesis using len by (simp add: table_inv_def)
qed

lemma live_fill_empty:
  assumes "length t = n" "i < n" "t ! i = empty_val" "k \<noteq> empty_val" "norm k = k"
  shows "live_of (t[i := k]) = insert k (live_of t)"
proof (rule set_eqI)
  fix x
  show "x \<in> live_of (t[i := k]) \<longleftrightarrow> x \<in> insert k (live_of t)"
    using assms by (auto simp: mem_live_iff nth_list_update split: if_splits)
qed

lemma live_revive:
  assumes "length t = n" "i < n" "norm (t ! i) = k" "t ! i \<noteq> k" "k \<noteq> empty_val" "norm k = k"
  shows "live_of (t[i := k]) = insert k (live_of t)"
proof (rule set_eqI)
  fix x
  show "x \<in> live_of (t[i := k]) \<longleftrightarrow> x \<in> insert k (live_of t)"
    using assms by (auto simp: mem_live_iff nth_list_update split: if_splits)
qed

lemma live_kill:
  assumes inv: "table_inv t" and i: "i < n" "t ! i = k" and k: "k \<noteq> empty_val" "norm k = k"
    and v: "norm v = k" "v \<noteq> k"
  shows "live_of (t[i := v]) = live_of t - {k}"
proof (rule set_eqI)
  fix x
  have len: "length t = n" using inv by (simp add: table_inv_def)
  have uniq: "j = i" if "j < n" "t ! j = k" for j
    using inv i k that unfolding table_inv_def one_slot_each_def by metis
  show "x \<in> live_of (t[i := v]) \<longleftrightarrow> x \<in> live_of t - {k}"
  proof
    assume "x \<in> live_of (t[i := v])"
    then obtain j where j: "j < n" "t[i := v] ! j = x" "x \<noteq> empty_val" "norm x = x"
      using len by (auto simp: mem_live_iff)
    have "j \<noteq> i" using j(2,4) len i(1) v by auto
    then have "t ! j = x" using j(2) by simp
    moreover have "x \<noteq> k" using uniq[OF j(1)] \<open>j \<noteq> i\<close> calculation by blast
    ultimately show "x \<in> live_of t - {k}" using j len by (auto simp: mem_live_iff)
  next
    assume "x \<in> live_of t - {k}"
    then obtain j where j: "j < n" "t ! j = x" "x \<noteq> empty_val" "norm x = x" "x \<noteq> k"
      using len by (auto simp: mem_live_iff)
    have "j \<noteq> i" using j(2,5) i(2) by blast
    then have "t[i := v] ! j = x" using j(2) by simp
    then show "x \<in> live_of (t[i := v])"
      using j len mem_live_iff[of "t[i := v]" x] length_list_update[of t i v] by metis
  qed
qed

lemma found_unique:
  assumes "table_inv t" "i < n" "t ! i \<noteq> empty_val" "norm (t ! i) = k"
  shows "k \<in> live_of t \<longleftrightarrow> t ! i = k"
proof -
  have len: "length t = n" using assms(1) by (simp add: table_inv_def)
  have "j = i" if "j < n" "t ! j = k" "norm k = k" "k \<noteq> empty_val" for j
  proof -
    have "one_slot_each t" using assms(1) by (simp add: table_inv_def)
    moreover have "t ! j \<noteq> empty_val" "norm (t ! j) = norm (t ! i)" using that assms(4) by simp_all
    ultimately show ?thesis using that(1) assms(2,3) unfolding one_slot_each_def by blast
  qed
  then have "k \<in> live_of t \<Longrightarrow> t ! i = k" using len by (auto simp: mem_live_iff)
  moreover have "norm k = k" using assms(4) norm_idem by metis
  then have "t ! i = k \<Longrightarrow> k \<in> live_of t" using assms(2,3) len unfolding mem_live_iff[OF len] by blast
  ultimately show ?thesis by blast
qed

end

section \<open>The interpretations\<close>

text \<open>
  With removal a slot belongs to the key without its top bit; without removal every slot
  belongs to the key it holds.
\<close>

definition strip_msb :: "'w::len word \<Rightarrow> 'w word" where
  "strip_msb x = x AND NOT msb_1_mask"

definition slot_key :: "bool \<Rightarrow> 'w::len word \<Rightarrow> 'w word" where
  "slot_key sr x = (if sr then strip_msb x else x)"

lemma bit_msb_1_mask: "bit (msb_1_mask :: 'w::len word) i \<longleftrightarrow> i = LENGTH('w) - 1"
  by (auto simp: msb_1_mask_def bit_simps)

lemma slot_key_idem: "slot_key sr (slot_key sr x) = slot_key sr x"
  by (simp add: slot_key_def strip_msb_def and.assoc)

lemma unat_get_size: "bitlen < 32 \<Longrightarrow> unat (get_size bitlen) = 2 ^ bitlen"
  unfolding get_size_def by (rule unat_push_bit_one) simp

lemma bit_mask_eq: "bitlen < 32 \<Longrightarrow> (bit_mask bitlen :: 'w::len word) = mask bitlen"
  unfolding bit_mask_def get_size_def push_bit_one_minus_one by (rule ucast_mask) simp

lemma unat_and_bit_mask_less: "unat (x AND (bit_mask bitlen :: 'w::len word)) < 2 ^ bitlen"
proof (cases "bitlen < 32")
  case True
  then show ?thesis by (simp add: bit_mask_eq unat_and_mask_mod)
next
  case False
  have "unat (x AND (bit_mask bitlen :: 'w word)) \<le> unat (bit_mask bitlen :: 'w word)"
    by (rule word_and_le1 [THEN word_le_nat_alt [THEN iffD1]])
  also have "\<dots> \<le> unat (get_size bitlen - 1)"
    by (simp add: bit_mask_def unsigned_ucast_eq)
  also have "\<dots> < 2 ^ 32" using unsigned_less[of "get_size bitlen - 1"] by simp
  also have "\<dots> \<le> 2 ^ bitlen" using False by (intro power_increasing) simp_all
  finally show ?thesis .
qed

interpretation hm: probed_table "2 ^ bitlen" "hashval_empty :: 'w::len word" "slot_key sr"
    "\<lambda>k. unat (home_index bitlen k)" for bitlen :: nat and sr :: bool
  by unfold_locales (simp_all add: home_index_def unat_and_bit_mask_less slot_key_idem)

text \<open>The keys the table is meant for: not the empty mark and, with removal, without the top
  bit and with a removed form that is not the empty mark.\<close>

definition valid_key :: "bool \<Rightarrow> 'w::len word \<Rightarrow> bool" where
  "valid_key sr k \<longleftrightarrow> k \<noteq> hashval_empty \<and>
     (sr \<longrightarrow> k AND msb_1_mask = 0 \<and> k OR msb_1_mask \<noteq> hashval_empty)"

lemma valid_key_slot_key: "valid_key sr k \<Longrightarrow> slot_key sr k = k"
proof -
  assume "valid_key sr k"
  then have "sr \<Longrightarrow> k AND msb_1_mask = 0" by (simp add: valid_key_def)
  then have "sr \<Longrightarrow> strip_msb k = k"
    unfolding strip_msb_def by (metis bit.conj_disj_distrib and.right_neutral bit.disj_cancel_right or.left_neutral)
  then show ?thesis by (simp add: slot_key_def)
qed

lemma strip_removed: "k AND msb_1_mask = 0 \<Longrightarrow> strip_msb (k OR msb_1_mask) = (k :: 'w::len word)"
proof -
  assume "k AND msb_1_mask = 0"
  then have "\<not> bit k (LENGTH('w) - 1)"
    by (metis bit_0_eq bit_and_iff bit_msb_1_mask bot_apply bot_bool_def)
  then show ?thesis
    by (intro bit_word_eqI) (auto simp: strip_msb_def bit_simps bit_msb_1_mask)
qed

lemma removed_neq: "valid_key True k \<Longrightarrow> k OR msb_1_mask \<noteq> (k :: 'w::len word)"
proof
  assume v: "valid_key True k" and e: "k OR msb_1_mask = k"
  have "k AND msb_1_mask = 0" using v by (simp add: valid_key_def)
  then have "(msb_1_mask :: 'w word) = 0" using e by (metis or_eq_0_iff and.commute bit.conj_disj_distrib
    and.idem or.left_neutral)
  then have "\<not> bit (msb_1_mask :: 'w word) (LENGTH('w) - 1)" by simp
  then show False by (simp add: bit_msb_1_mask)
qed

lemma slot_of_key:
  assumes "k AND msb_1_mask = 0" "strip_msb v = k"
  shows "v = k \<or> v = (k OR msb_1_mask :: 'w::len word)"
proof (cases "bit v (LENGTH('w) - 1)")
  case True
  then have "v = (v AND NOT msb_1_mask) OR msb_1_mask"
    by (intro bit_word_eqI) (auto simp: bit_simps bit_msb_1_mask)
  then show ?thesis using assms by (simp add: strip_msb_def)
next
  case False
  then have "v = v AND NOT msb_1_mask"
    by (intro bit_word_eqI) (auto simp: bit_simps bit_msb_1_mask)
  then show ?thesis using assms by (simp add: strip_msb_def)
qed

section \<open>Correctness of the operations\<close>

text \<open>A well-formed table, and the set of keys it represents.\<close>

definition hm_table :: "bool \<Rightarrow> nat \<Rightarrow> 'w::len word list \<Rightarrow> bool" where
  "hm_table sr bitlen t \<longleftrightarrow> hm.table_inv bitlen sr t"

definition hm_contents :: "bool \<Rightarrow> 'w::len word list \<Rightarrow> 'w word set" where
  "hm_contents sr t = {x \<in> set t. x \<noteq> hashval_empty \<and> slot_key sr x = x}"

text \<open>The sizes for which the 32-bit arithmetic of the code is the arithmetic of the table; the
  code keeps a slot's old value in 32 bits where removal is supported.\<close>

definition hm_widths :: "bool \<Rightarrow> nat \<Rightarrow> 'w::len word itself \<Rightarrow> bool" where
  "hm_widths sr bitlen _ \<longleftrightarrow> bitlen < 32 \<and> bitlen \<le> LENGTH('w) \<and> (sr \<longrightarrow> LENGTH('w) \<le> 32)"

lemma live_eq_contents: "hm.live_of sr t = hm_contents sr t"
  by (simp add: hm.live_of_def hm_contents_def)

lemma next_slot:
  assumes "bitlen < 32" "bitlen \<le> LENGTH('w)" "unat (index :: 'w::len word) = hm.slot bitlen k d"
  shows "unat ((index + 1) AND bit_mask bitlen) = hm.slot bitlen k (Suc d)"
  using assms by (simp add: bit_mask_eq unat_succ_and_mask hm.slot_def cyc_Suc)

lemma first_slot: "unat (home_index bitlen k) = hm.slot bitlen k 0"
  by (simp add: hm.slot_def hm.home_less)

lemma through_32: "LENGTH('w) \<le> 32 \<Longrightarrow> ucast (ucast (x :: 'w::len word) :: u32) = x"
  by (simp add: ucast_down_ucast_id is_down)

definition insert_post :: "bool \<Rightarrow> nat \<Rightarrow> 'w::len word \<Rightarrow> 'w word list \<Rightarrow> u32 \<times> 'w word list \<Rightarrow> bool" where
  "insert_post sr bitlen k t res \<longleftrightarrow> hm_table sr bitlen (snd res) \<and>
     (fst res = 1 \<and> k \<notin> hm_contents sr t \<and> hm_contents sr (snd res) = insert k (hm_contents sr t) \<or>
      fst res = 0 \<and> snd res = t \<and>
        (k \<in> hm_contents sr t \<or> hashval_empty \<notin> set t \<and> k \<notin> slot_key sr ` set t))"

lemma insert_loop_post:
  fixes key :: "'w::len word"
  assumes w: "hm_widths sr bitlen TYPE('w word)" and v: "valid_key sr key"
    and inv: "hm_table sr bitlen t"
    and p: "hm.passed bitlen sr t key d" and f: "d + fuel = 2 ^ bitlen"
    and i: "0 < fuel \<Longrightarrow> unat index = hm.slot bitlen key d"
  shows "insert_post sr bitlen key t (insert_loop sr bitlen key fuel t index)"
  using p f i
proof (induction fuel arbitrary: d index)
  case 0
  have len: "length t = 2 ^ bitlen" using inv by (simp add: hm_table_def hm.table_inv_def)
  note atend = hm.not_key_at_end[OF len, of sr key]
  have "key \<notin> slot_key sr ` set t" "hashval_empty \<notin> set t"
    using 0 atend by (auto simp: hm.keys_of_def)
  then show ?case using inv by (auto simp: insert_post_def)
next
  case (Suc fuel)
  have b: "bitlen < 32" "bitlen \<le> LENGTH('w)" using w by (auto simp: hm_widths_def)
  have inv': "hm.table_inv bitlen sr t" using inv by (simp add: hm_table_def)
  have len: "length t = 2 ^ bitlen" using inv' by (simp add: hm.table_inv_def)
  have d: "d < 2 ^ bitlen" using Suc.prems(2) by simp
  have ix: "unat index = hm.slot bitlen key d" using Suc.prems(3) by simp
  have ix_less: "unat index < 2 ^ bitlen" using ix hm.slot_less by metis
  have kn: "slot_key sr key = key" by (rule valid_key_slot_key[OF v])
  have ke: "key \<noteq> hashval_empty" using v by (simp add: valid_key_def)
  let ?old = "t ! unat index"
  consider (empty) "?old = hashval_empty" | (same) "?old = key" "?old \<noteq> hashval_empty"
    | (revive) sr "?old = key OR msb_1_mask" "?old \<noteq> hashval_empty" "?old \<noteq> key"
    | (other) "?old \<noteq> hashval_empty" "?old \<noteq> key" "sr \<Longrightarrow> ?old \<noteq> key OR msb_1_mask"
    by blast
  then show ?case
  proof cases
    case empty
    have t1: "t[unat index := key] = t[hm.slot bitlen key d := key]" using ix by simp
    have "hm.table_inv bitlen sr (t[unat index := key])"
      unfolding t1 using hm.fill_empty_inv[OF inv' Suc.prems(1) d _ kn] empty ix by simp
    moreover have "hm_contents sr (t[unat index := key]) = insert key (hm_contents sr t)"
      using hm.live_fill_empty[OF len ix_less empty ke kn] by (simp add: live_eq_contents)
    moreover have "key \<notin> hm_contents sr t"
      using hm.not_key_at_empty[OF inv' Suc.prems(1) d] empty ix hm.live_subset_keys[of sr t]
      by (auto simp: live_eq_contents)
    ultimately show ?thesis
      using empty by (simp add: insert_post_def hm_table_def atomic_cas_def)
  next
    case same
    have "key \<in> hm_contents sr t"
      using same ix_less len kn by (auto simp: hm_contents_def in_set_conv_nth)
    then show ?thesis using same inv by (simp add: insert_post_def atomic_cas_def)
  next
    case revive
    have m: "key AND msb_1_mask = 0" using v revive(1) by (simp add: valid_key_def)
    have nk: "slot_key sr ?old = key" using revive m by (simp add: slot_key_def strip_removed)
    have w32: "LENGTH('w) \<le> 32" using w revive(1) by (simp add: hm_widths_def)
    have "hm.table_inv bitlen sr (t[unat index := key])"
      using hm.rewrite_slot_inv[OF inv' ix_less revive(3) ke] nk kn by simp
    moreover have "hm_contents sr (t[unat index := key]) = insert key (hm_contents sr t)"
      using hm.live_revive[OF len ix_less nk revive(4) ke kn] by (simp add: live_eq_contents)
    moreover have "key \<notin> hm_contents sr t"
      using hm.found_unique[OF inv' ix_less revive(3) nk] revive(4) by (simp add: live_eq_contents)
    ultimately show ?thesis
      using revive by (simp add: insert_post_def hm_table_def atomic_cas_def through_32[OF w32])
  next
    case other
    have nk: "slot_key sr ?old \<noteq> key"
      using other v slot_of_key[of key ?old] by (auto simp: slot_key_def valid_key_def)
    have p': "hm.passed bitlen sr t key (Suc d)"
      using Suc.prems(1) other(1) nk ix by (simp add: hm.passed_Suc)
    have post: "insert_post sr bitlen key t
            (insert_loop sr bitlen key fuel t ((index + 1) AND bit_mask bitlen))"
      by (rule Suc.IH[OF p']) (use Suc.prems(2) next_slot[OF b ix] in auto)
    have step: "insert_loop sr bitlen key (Suc fuel) t index =
        insert_loop sr bitlen key fuel t ((index + 1) AND bit_mask bitlen)"
    proof (cases sr)
      case True
      have o32: "ucast (ucast ?old :: u32) = ?old"
        using w True by (simp add: hm_widths_def through_32)
      have "atomic_cas t (unat index) hashval_empty key = (?old, t)"
        "atomic_cas t (unat index) (key OR msb_1_mask) key = (?old, t)"
        using other(1) other(3)[OF True] by (simp_all only: atomic_cas_def if_False)
      then show ?thesis using other(1,2) other(3)[OF True] True
        by (simp only: insert_loop.simps Let_def prod.case o32 if_True if_False)
    next
      case False
      then show ?thesis using other(1,2) by (simp add: atomic_cas_def Let_def)
    qed
    show ?thesis unfolding step by (rule post)
  qed
qed

lemma insert_correct:
  fixes key :: "'w::len word"
  assumes w: "hm_widths sr bitlen TYPE('w word)" and "valid_key sr key" and "hm_table sr bitlen t"
  shows "insert_post sr bitlen key t (hm_insert sr bitlen t key)"
proof -
  have sz: "unat (get_size bitlen) = 2 ^ bitlen" using w by (simp add: hm_widths_def unat_get_size)
  show ?thesis
    unfolding hm_insert_def sz
    by (rule insert_loop_post[OF assms hm.passed_0]) (rule add_0, rule first_slot)
qed

lemma search_loop_iff:
  fixes key :: "'w::len word"
  assumes w: "hm_widths sr bitlen TYPE('w word)" and v: "valid_key sr key"
    and inv: "hm_table sr bitlen t"
    and p: "hm.passed bitlen sr t key d" and f: "d + fuel = 2 ^ bitlen"
    and i: "0 < fuel \<Longrightarrow> unat index = hm.slot bitlen key d"
  shows "search_loop sr bitlen key fuel t index = (if key \<in> hm_contents sr t then 1 else 0)"
  using p f i
proof (induction fuel arbitrary: d index)
  case 0
  have len: "length t = 2 ^ bitlen" using inv by (simp add: hm_table_def hm.table_inv_def)
  have "key \<notin> hm_contents sr t"
    using 0 hm.not_key_at_end(1)[OF len, of sr key] hm.live_subset_keys[of sr t]
    by (auto simp: live_eq_contents)
  then show ?case by simp
next
  case (Suc fuel)
  have b: "bitlen < 32" "bitlen \<le> LENGTH('w)" using w by (auto simp: hm_widths_def)
  have inv': "hm.table_inv bitlen sr t" using inv by (simp add: hm_table_def)
  have len: "length t = 2 ^ bitlen" using inv' by (simp add: hm.table_inv_def)
  have d: "d < 2 ^ bitlen" using Suc.prems(2) by simp
  have ix: "unat index = hm.slot bitlen key d" using Suc.prems(3) by simp
  have ix_less: "unat index < 2 ^ bitlen" using ix hm.slot_less by metis
  have kn: "slot_key sr key = key" by (rule valid_key_slot_key[OF v])
  have ke: "key \<noteq> hashval_empty" using v by (simp add: valid_key_def)
  let ?val = "t ! unat index"
  consider (same) "?val = key" | (empty) "?val = hashval_empty" "?val \<noteq> key"
    | (dead) sr "?val = key OR msb_1_mask" "?val \<noteq> hashval_empty" "?val \<noteq> key"
    | (other) "?val \<noteq> hashval_empty" "?val \<noteq> key" "sr \<Longrightarrow> ?val \<noteq> key OR msb_1_mask"
    by blast
  then show ?case
  proof cases
    case same
    have "key \<in> hm_contents sr t"
      using same ix_less len kn ke by (auto simp: hm_contents_def in_set_conv_nth)
    then show ?thesis using same by simp
  next
    case empty
    have "key \<notin> hm_contents sr t"
      using hm.not_key_at_empty[OF inv' Suc.prems(1) d] empty ix hm.live_subset_keys[of sr t]
      by (auto simp: live_eq_contents)
    then show ?thesis using empty by simp
  next
    case dead
    have nk: "slot_key sr ?val = key"
      using dead v by (simp add: slot_key_def strip_removed valid_key_def)
    have "key \<notin> hm_contents sr t"
      using hm.found_unique[OF inv' ix_less dead(3) nk] dead(4) by (simp add: live_eq_contents)
    then show ?thesis using dead by simp
  next
    case other
    have nk: "slot_key sr ?val \<noteq> key"
      using other v slot_of_key[of key ?val] by (auto simp: slot_key_def valid_key_def)
    have p': "hm.passed bitlen sr t key (Suc d)"
      using Suc.prems(1) other(1) nk ix by (simp add: hm.passed_Suc)
    have "search_loop sr bitlen key fuel t ((index + 1) AND bit_mask bitlen) =
        (if key \<in> hm_contents sr t then 1 else 0)"
      by (rule Suc.IH[OF p']) (use Suc.prems(2) next_slot[OF b ix] in auto)
    moreover have "\<not> (sr \<and> ?val = key OR msb_1_mask)" using other(3) by blast
    ultimately show ?thesis using other(1,2) by (simp only: search_loop.simps Let_def if_False)
  qed
qed

lemma search_correct:
  fixes key :: "'w::len word"
  assumes w: "hm_widths sr bitlen TYPE('w word)" and "valid_key sr key" and "hm_table sr bitlen t"
  shows "hm_search sr bitlen t key = (if key \<in> hm_contents sr t then 1 else 0)"
proof -
  have sz: "unat (get_size bitlen) = 2 ^ bitlen" using w by (simp add: hm_widths_def unat_get_size)
  show ?thesis
    unfolding hm_search_def sz
    by (rule search_loop_iff[OF assms hm.passed_0]) (rule add_0, rule first_slot)
qed

text \<open>\<open>remove\<close> finds the live slot of its key; on the way it passes the slots of other keys
  and, unlike \<open>search\<close>, its own slot if it is already removed.\<close>

definition passed_live :: "bool \<Rightarrow> nat \<Rightarrow> 'w::len word list \<Rightarrow> 'w word \<Rightarrow> nat \<Rightarrow> bool" where
  "passed_live sr bitlen t k d \<longleftrightarrow>
     (\<forall>e < d. t ! hm.slot bitlen k e \<noteq> hashval_empty \<and> t ! hm.slot bitlen k e \<noteq> k)"

definition remove_post :: "nat \<Rightarrow> 'w::len word \<Rightarrow> 'w word list \<Rightarrow> u32 \<times> 'w word list \<Rightarrow> bool" where
  "remove_post bitlen k t res \<longleftrightarrow> hm_table True bitlen (snd res) \<and>
     hm_contents True (snd res) = hm_contents True t - {k} \<and>
     (fst res = 1 \<and> k \<in> hm_contents True t \<or> fst res = 0 \<and> snd res = t \<and> k \<notin> hm_contents True t)"

lemma live_slot_before_empty:
  assumes inv: "hm_table True bitlen t" and p: "passed_live True bitlen t k d"
    and d: "d < 2 ^ bitlen" and e: "t ! hm.slot bitlen k d = hashval_empty"
    and kn: "slot_key True k = k"
  shows "k \<notin> hm_contents True t"
proof
  assume "k \<in> hm_contents True t"
  moreover have inv': "hm.table_inv bitlen True t" using inv by (simp add: hm_table_def)
  moreover have len: "length t = 2 ^ bitlen" using inv' by (simp add: hm.table_inv_def)
  ultimately obtain i where i: "i < 2 ^ bitlen" "t ! i = k" "k \<noteq> hashval_empty"
    by (auto simp: hm_contents_def in_set_conv_nth)
  obtain c where c: "c < 2 ^ bitlen" "hm.slot bitlen k c = i" using hm.slot_surj[OF i(1)] by blast
  have "c \<noteq> d" using c e i by auto
  moreover have "\<not> c < d" using p c i by (auto simp: passed_live_def)
  ultimately have "d < c" by simp
  moreover have "hm.reachable_slots bitlen True t" using inv' by (simp add: hm.table_inv_def)
  ultimately have "t ! hm.slot bitlen k d \<noteq> hashval_empty"
    unfolding hm.reachable_slots_def using i c kn by metis
  then show False using e by simp
qed

lemma remove_loop_post:
  fixes key :: "'w::len word"
  assumes w: "hm_widths True bitlen TYPE('w word)" and v: "valid_key True key"
    and inv: "hm_table True bitlen t"
    and p: "passed_live True bitlen t key d" and f: "d + fuel = 2 ^ bitlen"
    and i: "0 < fuel \<Longrightarrow> unat index = hm.slot bitlen key d"
  shows "remove_post bitlen key t (remove_loop bitlen key fuel t index)"
  using p f i
proof (induction fuel arbitrary: d index)
  case 0
  have len: "length t = 2 ^ bitlen" using inv by (simp add: hm_table_def hm.table_inv_def)
  have "t ! j \<noteq> key" if "j < 2 ^ bitlen" for j
    using hm.slot_surj[OF that, of key] 0 by (auto simp: passed_live_def)
  then have "key \<notin> hm_contents True t" using len by (auto simp: hm_contents_def in_set_conv_nth)
  then show ?case using inv by (auto simp: remove_post_def)
next
  case (Suc fuel)
  have b: "bitlen < 32" "bitlen \<le> LENGTH('w)" using w by (auto simp: hm_widths_def)
  have w32: "LENGTH('w) \<le> 32" using w by (simp add: hm_widths_def)
  have inv': "hm.table_inv bitlen True t" using inv by (simp add: hm_table_def)
  have len: "length t = 2 ^ bitlen" using inv' by (simp add: hm.table_inv_def)
  have d: "d < 2 ^ bitlen" using Suc.prems(2) by simp
  have ix: "unat index = hm.slot bitlen key d" using Suc.prems(3) by simp
  have ix_less: "unat index < 2 ^ bitlen" using ix hm.slot_less by metis
  have kn: "slot_key True key = key" by (rule valid_key_slot_key[OF v])
  have ke: "key \<noteq> hashval_empty" using v by (simp add: valid_key_def)
  have rm: "slot_key True (key OR msb_1_mask) = key" "key OR msb_1_mask \<noteq> hashval_empty"
    using v by (simp_all add: slot_key_def strip_removed valid_key_def)
  let ?old = "t ! unat index"
  have o32: "ucast (ucast ?old :: u32) = ?old" by (rule through_32[OF w32])
  consider (same) "?old = key" | (empty) "?old = hashval_empty" "?old \<noteq> key"
    | (other) "?old \<noteq> hashval_empty" "?old \<noteq> key"
    by blast
  then show ?case
  proof cases
    case same
    have "key \<in> hm_contents True t"
      using same ix_less len kn ke by (auto simp: hm_contents_def in_set_conv_nth)
    moreover have "hm.table_inv bitlen True (t[unat index := key OR msb_1_mask])"
      by (rule hm.rewrite_slot_inv[OF inv' ix_less]) (simp_all only: same ke rm kn not_False_eq_True)
    moreover have "hm_contents True (t[unat index := key OR msb_1_mask]) = hm_contents True t - {key}"
      using hm.live_kill[OF inv' ix_less same ke kn rm(1) removed_neq[OF v]]
      by (simp only: live_eq_contents)
    ultimately show ?thesis using same by (simp add: remove_post_def hm_table_def atomic_cas_def through_32[OF w32])
  next
    case empty
    have "key \<notin> hm_contents True t"
      using live_slot_before_empty[OF inv Suc.prems(1) d _ kn] empty ix by simp
    then show ?thesis using empty inv by (simp add: remove_post_def atomic_cas_def through_32[OF w32])
  next
    case other
    have p': "passed_live True bitlen t key (Suc d)"
      using Suc.prems(1) other ix by (simp add: passed_live_def less_Suc_eq all_conj_distrib)
    have post: "remove_post bitlen key t
            (remove_loop bitlen key fuel t ((index + 1) AND bit_mask bitlen))"
      by (rule Suc.IH[OF p']) (use Suc.prems(2) next_slot[OF b ix] in auto)
    have "atomic_cas t (unat index) key (key OR msb_1_mask) = (?old, t)"
      using other by (simp only: atomic_cas_def if_False)
    then have step: "remove_loop bitlen key (Suc fuel) t index =
        remove_loop bitlen key fuel t ((index + 1) AND bit_mask bitlen)"
      using other by (simp only: remove_loop.simps Let_def prod.case o32 if_False)
    show ?thesis unfolding step by (rule post)
  qed
qed

lemma remove_correct:
  fixes key :: "'w::len word"
  assumes w: "hm_widths True bitlen TYPE('w word)" and "valid_key True key" and "hm_table True bitlen t"
  shows "remove_post bitlen key t (hm_remove bitlen t key)"
proof -
  have sz: "unat (get_size bitlen) = 2 ^ bitlen" using w by (simp add: hm_widths_def unat_get_size)
  have p0: "passed_live True bitlen t key 0" by (simp add: passed_live_def)
  show ?thesis
    unfolding hm_remove_def sz
    by (rule remove_loop_post[OF assms p0]) (rule add_0, rule first_slot)
qed

section \<open>Threads inserting concurrently\<close>

text \<open>
  The threads of a block insert their neighbours into the shared table at the same time; the only
  interaction is \<open>atomicCAS\<close>. A thread is probing, at an index with the number of probes it has
  left, or has returned. One step is one iteration of the loop of one thread (without removal).
\<close>

datatype 'k inserter = Probing 'k 'k nat | Returned 'k u32

inductive insert_step :: "nat \<Rightarrow> 'w::len word list \<times> 'w word inserter list \<Rightarrow>
    'w word list \<times> 'w word inserter list \<Rightarrow> bool" for bitlen where
  exhausted: "j < length ts \<Longrightarrow> ts ! j = Probing key index 0 \<Longrightarrow>
     insert_step bitlen (t, ts) (t, ts[j := Returned key 0])"
| claimed: "j < length ts \<Longrightarrow> ts ! j = Probing key index (Suc fuel) \<Longrightarrow>
     atomic_cas t (unat index) hashval_empty key = (old, t') \<Longrightarrow> old = hashval_empty \<Longrightarrow>
     insert_step bitlen (t, ts) (t', ts[j := Returned key 1])"
| present: "j < length ts \<Longrightarrow> ts ! j = Probing key index (Suc fuel) \<Longrightarrow>
     atomic_cas t (unat index) hashval_empty key = (old, t') \<Longrightarrow> old \<noteq> hashval_empty \<Longrightarrow>
     old = key \<Longrightarrow> insert_step bitlen (t, ts) (t', ts[j := Returned key 0])"
| onward: "j < length ts \<Longrightarrow> ts ! j = Probing key index (Suc fuel) \<Longrightarrow>
     atomic_cas t (unat index) hashval_empty key = (old, t') \<Longrightarrow> old \<noteq> hashval_empty \<Longrightarrow>
     old \<noteq> key \<Longrightarrow>
     insert_step bitlen (t, ts) (t', ts[j := Probing key ((index + 1) AND bit_mask bitlen) fuel])"

inductive_cases insert_stepE: "insert_step bitlen (t, ts) (t', ts')"

inductive insert_reach :: "nat \<Rightarrow> 'w::len word list \<times> 'w word inserter list \<Rightarrow>
    'w word list \<times> 'w word inserter list \<Rightarrow> bool" for bitlen s0 where
  reach_start: "insert_reach bitlen s0 s0"
| reach_step: "insert_reach bitlen s0 s \<Longrightarrow> insert_step bitlen s s' \<Longrightarrow> insert_reach bitlen s0 s'"

definition start_inserter :: "nat \<Rightarrow> 'w::len word \<Rightarrow> 'w word inserter" where
  "start_inserter bitlen key = Probing key (home_index bitlen key) (unat (get_size bitlen))"

text \<open>What one thread knows of the table: the slots it has passed are taken by other keys.\<close>

primrec inserter_ok :: "nat \<Rightarrow> 'w::len word set \<Rightarrow> 'w word list \<Rightarrow> 'w word inserter \<Rightarrow> bool" where
  "inserter_ok bitlen c0 t (Probing k index fuel) \<longleftrightarrow> k \<noteq> hashval_empty \<and>
     (\<exists>d. d + fuel = 2 ^ bitlen \<and> hm.passed bitlen False t k d \<and>
          (0 < fuel \<longrightarrow> unat index = hm.slot bitlen k d))"
| "inserter_ok bitlen c0 t (Returned k r) \<longleftrightarrow>
     (r = 1 \<and> k \<notin> c0 \<and> k \<in> hm_contents False t \<or>
      r = 0 \<and> (k \<in> hm_contents False t \<or> hashval_empty \<notin> set t))"

definition insert_inv :: "nat \<Rightarrow> 'w::len word set \<Rightarrow> 'w word list \<times> 'w word inserter list \<Rightarrow> bool" where
  "insert_inv bitlen c0 s \<longleftrightarrow> hm_table False bitlen (fst s) \<and>
     (\<forall>j < length (snd s). inserter_ok bitlen c0 (fst s) (snd s ! j)) \<and>
     hm_contents False (fst s) = c0 \<union> {k. Returned k 1 \<in> set (snd s)} \<and>
     (\<forall>j < length (snd s). \<forall>j' < length (snd s). \<forall>k.
        snd s ! j = Returned k 1 \<and> snd s ! j' = Returned k 1 \<longrightarrow> j = j')"

lemma contents_nomove: "hm_contents False t = {x \<in> set t. x \<noteq> hashval_empty}"
  by (simp add: hm_contents_def slot_key_def)

lemma returned_update:
  assumes "j < length ts" "ts ! j = Probing a b c"
  shows "Returned k r \<in> set (ts[j := th]) \<longleftrightarrow> Returned k r \<in> set ts \<or> th = Returned k r"
proof
  assume "Returned k r \<in> set (ts[j := th])"
  then show "Returned k r \<in> set ts \<or> th = Returned k r" using set_update_subset_insert by fastforce
next
  assume h: "Returned k r \<in> set ts \<or> th = Returned k r"
  show "Returned k r \<in> set (ts[j := th])"
  proof (cases "th = Returned k r")
    case True
    then show ?thesis using assms(1) by (simp add: set_update_memI)
  next
    case False
    then obtain i where i: "i < length ts" "ts ! i = Returned k r" using h by (auto simp: in_set_conv_nth)
    then have "i \<noteq> j" using assms(2) by auto
    then have "ts[j := th] ! i = Returned k r" using i by simp
    then show ?thesis using i(1) by (metis length_list_update nth_mem)
  qed
qed

text \<open>Filling an empty slot keeps what the other threads know.\<close>

lemma inserter_ok_fill:
  assumes len: "length t = 2 ^ bitlen" and i: "i < 2 ^ bitlen" "t ! i = hashval_empty"
    and k: "k \<noteq> hashval_empty" and ok: "inserter_ok bitlen c0 t th"
  shows "inserter_ok bitlen c0 (t[i := k]) th"
proof -
  have sub: "hm_contents False t \<subseteq> hm_contents False (t[i := k])"
    using hm.live_fill_empty[OF len i k, of False] by (auto simp: slot_key_def live_eq_contents)
  show ?thesis
  proof (cases th)
    case (Probing k' index fuel)
    have keep: "hm.passed bitlen False (t[i := k]) k' d" if p: "hm.passed bitlen False t k' d" for d
      unfolding hm.passed_def
    proof (intro allI impI)
      fix e assume "e < d"
      then have "t ! hm.slot bitlen k' e \<noteq> hashval_empty \<and> slot_key False (t ! hm.slot bitlen k' e) \<noteq> k'"
        using p unfolding hm.passed_def by blast
      moreover then have "i \<noteq> hm.slot bitlen k' e" using i(2) by blast
      ultimately show "t[i := k] ! hm.slot bitlen k' e \<noteq> hashval_empty
          \<and> slot_key False (t[i := k] ! hm.slot bitlen k' e) \<noteq> k'"
        by simp
    qed
    from ok[unfolded Probing inserter_ok.simps] obtain d where
      "k' \<noteq> hashval_empty" "d + fuel = 2 ^ bitlen" "hm.passed bitlen False t k' d"
      "0 < fuel \<longrightarrow> unat index = hm.slot bitlen k' d" by blast
    then show ?thesis unfolding Probing inserter_ok.simps using keep by blast
  next
    case (Returned k' r)
    have "hashval_empty \<notin> set t \<Longrightarrow> hashval_empty \<notin> set (t[i := k])"
      using i len by (metis nth_mem)
    then show ?thesis using ok sub Returned by auto
  qed
qed

lemma insert_step_inv:
  fixes s :: "'w::len word list \<times> 'w word inserter list"
  assumes w: "bitlen < 32" "bitlen \<le> LENGTH('w)" and inv: "insert_inv bitlen c0 s"
    and st: "insert_step bitlen s s'"
  shows "insert_inv bitlen c0 s'"
  using st
proof cases
  case (exhausted j ts key index t)
  obtain d where d: "d = 2 ^ bitlen" "hm.passed bitlen False t key d"
    using inv exhausted by (fastforce simp: insert_inv_def)
  have len: "length t = 2 ^ bitlen" using inv exhausted by (simp add: insert_inv_def hm_table_def hm.table_inv_def)
  have "hashval_empty \<notin> set t" using hm.not_key_at_end(2)[OF len d(2)[unfolded d(1)]] .
  moreover have "Returned k 1 \<in> set (ts[j := Returned key 0]) \<longleftrightarrow> Returned k 1 \<in> set ts" for k
    using exhausted by (simp add: returned_update)
  ultimately show ?thesis
    using inv exhausted by (simp add: insert_inv_def nth_list_update)
next
  case (claimed j ts key index fuel t old t')
  have ok: "\<forall>j < length ts. inserter_ok bitlen c0 t (ts ! j)" using inv claimed by (simp add: insert_inv_def)
  have tab: "hm.table_inv bitlen False t" using inv claimed by (simp add: insert_inv_def hm_table_def)
  then have len: "length t = 2 ^ bitlen" by (simp add: hm.table_inv_def)
  obtain d where d: "key \<noteq> hashval_empty" "d + Suc fuel = 2 ^ bitlen" "hm.passed bitlen False t key d"
      "unat index = hm.slot bitlen key d"
    using ok claimed by fastforce
  have dl: "d < 2 ^ bitlen" using d(2) by simp
  have ie: "t ! hm.slot bitlen key d = hashval_empty" and t': "t' = t[hm.slot bitlen key d := key]"
    using claimed d(4) by (auto simp: atomic_cas_def)
  have kn: "slot_key False key = key" by (simp add: slot_key_def)
  have "hm.table_inv bitlen False t'" unfolding t' by (rule hm.fill_empty_inv[OF tab d(3) dl ie kn])
  moreover have cont: "hm_contents False t' = insert key (hm_contents False t)"
    unfolding t' using hm.live_fill_empty[OF len hm.slot_less ie d(1) kn] by (simp only: live_eq_contents)
  moreover have fresh: "key \<notin> hm_contents False t"
    using hm.not_key_at_empty[OF tab d(3) dl ie] hm.live_subset_keys[of False t]
    by (auto simp: live_eq_contents)
  moreover have ok': "\<forall>j < length ts. inserter_ok bitlen c0 t' (ts ! j)"
    unfolding t' using ok inserter_ok_fill[OF len hm.slot_less ie d(1)] by blast
  moreover have c0: "key \<notin> c0" "\<And>i. i < length ts \<Longrightarrow> ts ! i \<noteq> Returned key 1"
    using fresh inv claimed by (auto simp: insert_inv_def)
  moreover have "Returned k 1 \<in> set (ts[j := Returned key 1]) \<longleftrightarrow> Returned k 1 \<in> set ts \<or> k = key" for k
    using claimed by (auto simp: returned_update)
  ultimately show ?thesis
    using inv claimed by (auto simp: insert_inv_def hm_table_def nth_list_update split: if_splits)
next
  case (present j ts key index fuel t old t')
  have t': "t' = t" using present by (simp add: atomic_cas_def split: if_splits)
  obtain d where d: "key \<noteq> hashval_empty" "unat index = hm.slot bitlen key d"
    using inv present by (fastforce simp: insert_inv_def)
  have "unat index < length t"
    using inv present hm.slot_less[of bitlen key d] d(2) unfolding insert_inv_def hm_table_def hm.table_inv_def
    by simp
  then have "key \<in> hm_contents False t" using present d(1) by (auto simp: contents_nomove atomic_cas_def)
  moreover have "Returned k 1 \<in> set (ts[j := Returned key 0]) \<longleftrightarrow> Returned k 1 \<in> set ts" for k
    using present by (simp add: returned_update)
  ultimately show ?thesis
    using inv present t' by (simp add: insert_inv_def nth_list_update)
next
  case (onward j ts key index fuel t old t')
  let ?next = "(index + 1) AND bit_mask bitlen"
  have t': "t' = t" using onward by (simp add: atomic_cas_def split: if_splits)
  obtain d where d: "key \<noteq> hashval_empty" "d + Suc fuel = 2 ^ bitlen" "hm.passed bitlen False t key d"
      "unat index = hm.slot bitlen key d"
    using inv onward by (fastforce simp: insert_inv_def)
  have "t ! hm.slot bitlen key d \<noteq> hashval_empty" "t ! hm.slot bitlen key d \<noteq> key"
    using onward d(4) by (auto simp: atomic_cas_def)
  then have "hm.passed bitlen False t key (Suc d)" using d(3) by (simp add: hm.passed_Suc slot_key_def)
  moreover have "Suc d + fuel = 2 ^ bitlen" using d(2) by simp
  moreover have "unat ?next = hm.slot bitlen key (Suc d)" by (rule next_slot[OF w d(4)])
  ultimately have "inserter_ok bitlen c0 t (Probing key ?next fuel)"
    unfolding inserter_ok.simps using d(1) by blast
  moreover have "Returned k 1 \<in> set (ts[j := Probing key ?next fuel]) \<longleftrightarrow> Returned k 1 \<in> set ts" for k
    using onward by (simp add: returned_update)
  ultimately show ?thesis
    using inv onward t' by (simp add: insert_inv_def nth_list_update del: inserter_ok.simps)
qed

lemma insert_reach_inv:
  fixes s0 :: "'w::len word list \<times> 'w word inserter list"
  assumes "bitlen < 32" "bitlen \<le> LENGTH('w)" "insert_reach bitlen s0 s" "insert_inv bitlen c0 s0"
  shows "insert_inv bitlen c0 s"
  using assms(3,4)
proof (induction rule: insert_reach.induct)
  case (reach_step s s')
  then show ?case by (blast intro: insert_step_inv[OF assms(1,2)])
qed

section \<open>Initialisation\<close>

lemma length_init_thread [simp]: "length (init_thread bitlen s i t) = length t"
proof (induction bitlen s i t rule: init_thread.induct)
  case (1 bitlen s i t)
  then show ?case by (subst init_thread.simps) simp
qed

lemma init_thread_nth:
  assumes "0 < s" "length t = unat (get_size bitlen)" "j < length t"
  shows "init_thread bitlen s i t ! j =
    (if i \<le> j \<and> (j - i) mod s = 0 then hashval_empty else t ! j)"
  using assms
proof (induction bitlen s i t rule: init_thread.induct)
  case (1 bitlen s i t)
  show ?case
  proof (cases "i < unat (get_size bitlen)")
    case True
    have split_j: "i \<le> j \<and> (j - i) mod s = 0 \<longleftrightarrow> j = i \<or> i + s \<le> j \<and> (j - (i + s)) mod s = 0"
    proof (cases "i + s \<le> j")
      case True
      then have "(j - i) mod s = (j - (i + s)) mod s" by (simp add: le_mod_geq)
      then show ?thesis using True 1(2) by simp
    next
      case False
      then show ?thesis using 1(2) by (cases "i \<le> j") (auto dest: mod_less)
    qed
    have "init_thread bitlen s i t ! j = init_thread bitlen s (i + s) (t[i := hashval_empty]) ! j"
      using True 1(2) by (subst init_thread.simps) simp
    also have "\<dots> = (if i + s \<le> j \<and> (j - (i + s)) mod s = 0 then hashval_empty
        else t[i := hashval_empty] ! j)"
      using 1 True by simp
    finally show ?thesis using split_j 1(4) by (auto simp: nth_list_update)
  next
    case False
    then show ?thesis using 1 by (subst init_thread.simps) auto
  qed
qed

lemma hm_init_empty:
  assumes b: "bitlen < 32" and ft: "first_tid < block_dim" and len: "length t = 2 ^ bitlen"
  shows "hm_init bitlen first_tid block_dim t = replicate (2 ^ bitlen) hashval_empty"
proof (rule nth_equalityI)
  let ?s = "block_dim - first_tid"
  let ?step = "\<lambda>tid t. if tid < first_tid then t else init_thread bitlen ?s (tid - first_tid) t"
  let ?hit = "\<lambda>tids j. \<exists>tid \<in> set tids. first_tid \<le> tid \<and> tid - first_tid \<le> j \<and>
    (j - (tid - first_tid)) mod ?s = 0"
  have sz: "length t = unat (get_size bitlen)" using len b by (simp add: unat_get_size)
  have lf: "length (fold ?step tids u) = length u" for tids and u :: "'a word list"
    by (induction tids arbitrary: u) auto
  then show "length (hm_init bitlen first_tid block_dim t) =
      length (replicate (2 ^ bitlen) (hashval_empty :: 'a word))"
    using len by (simp add: hm_init_def)
  have nth: "fold ?step tids u ! j = (if ?hit tids j then hashval_empty else u ! j)"
    if "length u = unat (get_size bitlen)" "j < length u" for tids j and u :: "'a word list"
    using that
  proof (induction tids arbitrary: u)
    case (Cons tid tids)
    show ?case
    proof (cases "tid < first_tid")
      case True
      then show ?thesis using Cons by simp
    next
      case False
      have "init_thread bitlen ?s (tid - first_tid) u ! j =
          (if tid - first_tid \<le> j \<and> (j - (tid - first_tid)) mod ?s = 0 then hashval_empty else u ! j)"
        using init_thread_nth[of ?s u bitlen j] ft Cons.prems by simp
      then show ?thesis using Cons False by (auto simp del: diff_diff_right)
    qed
  qed simp
  fix j
  assume "j < length (hm_init bitlen first_tid block_dim t)"
  then have j: "j < length t" by (simp add: hm_init_def lf)
  have "?hit [0..<block_dim] j"
  proof (rule bexI[of _ "first_tid + j mod ?s"])
    have "j mod ?s < ?s" using ft by simp
    then show "first_tid + j mod ?s \<in> set [0..<block_dim]" by simp
    show "first_tid \<le> first_tid + j mod ?s \<and> first_tid + j mod ?s - first_tid \<le> j \<and>
        (j - (first_tid + j mod ?s - first_tid)) mod ?s = 0"
      by (simp add: minus_mod_eq_mult_div)
  qed
  then show "hm_init bitlen first_tid block_dim t ! j = replicate (2 ^ bitlen) hashval_empty ! j"
    using nth[OF sz j, of "[0..<block_dim]"] j len unfolding hm_init_def by simp
qed

lemma fresh_table: "hm_table sr bitlen (replicate (2 ^ bitlen) hashval_empty)"
  by (simp add: hm_table_def hm.table_inv_def hm.reachable_slots_def hm.one_slot_each_def)

lemma fresh_contents: "hm_contents sr (replicate (2 ^ bitlen) hashval_empty) = {}"
  by (auto simp: hm_contents_def)

section \<open>Runs of operations\<close>

datatype 'k hm_op = Ins 'k | Look 'k | Del 'k

primrec op_key :: "'k hm_op \<Rightarrow> 'k" where
  "op_key (Ins k) = k"
| "op_key (Look k) = k"
| "op_key (Del k) = k"

primrec hm_exec :: "nat \<Rightarrow> 'w::len word list \<Rightarrow> 'w word hm_op \<Rightarrow> u32 \<times> 'w word list" where
  "hm_exec bitlen t (Ins k) = hm_insert True bitlen t k"
| "hm_exec bitlen t (Look k) = (hm_search True bitlen t k, t)"
| "hm_exec bitlen t (Del k) = hm_remove bitlen t k"

fun hm_run :: "nat \<Rightarrow> 'w::len word list \<Rightarrow> 'w word hm_op list \<Rightarrow> u32 list" where
  "hm_run bitlen t [] = []"
| "hm_run bitlen t (op # ops) = (let (r, t') = hm_exec bitlen t op in r # hm_run bitlen t' ops)"

text \<open>The set the table stands for: what each operation answers and leaves.\<close>

primrec set_exec :: "'k set \<Rightarrow> 'k hm_op \<Rightarrow> u32 \<times> 'k set" where
  "set_exec S (Ins k) = (if k \<in> S then 0 else 1, insert k S)"
| "set_exec S (Look k) = (if k \<in> S then 1 else 0, S)"
| "set_exec S (Del k) = (if k \<in> S then 1 else 0, S - {k})"

fun set_run :: "'k set \<Rightarrow> 'k hm_op list \<Rightarrow> u32 list" where
  "set_run S [] = []"
| "set_run S (op # ops) = (let (r, S') = set_exec S op in r # set_run S' ops)"

lemma set_insert_loop:
  "set t \<subseteq> A \<Longrightarrow> key \<in> A \<Longrightarrow> set (snd (insert_loop sr bitlen key fuel t index)) \<subseteq> A"
proof (induction fuel arbitrary: t index)
  case (Suc fuel)
  then show ?case by (cases sr) (simp_all add: atomic_cas_def Let_def set_update_subsetI)
qed simp

lemma set_remove_loop:
  "set t \<subseteq> A \<Longrightarrow> key OR msb_1_mask \<in> A \<Longrightarrow> set (snd (remove_loop bitlen key fuel t index)) \<subseteq> A"
proof (induction fuel arbitrary: t index)
  case (Suc fuel)
  then show ?case by (simp add: atomic_cas_def Let_def set_update_subsetI)
qed simp

text \<open>A table without an empty slot holds as many keys as it has slots.\<close>

lemma full_table_keys:
  assumes "hm_table sr bitlen t" "hashval_empty \<notin> set t"
  shows "card (slot_key sr ` set t) = 2 ^ bitlen"
proof -
  have len: "length t = 2 ^ bitlen" and one: "hm.one_slot_each bitlen sr t"
    using assms(1) by (simp_all add: hm_table_def hm.table_inv_def)
  have ne: "i < 2 ^ bitlen \<Longrightarrow> t ! i \<noteq> hashval_empty" for i using assms(2) len by (metis nth_mem)
  have "slot_key sr ` set t = (\<lambda>i. slot_key sr (t ! i)) ` {..<2 ^ bitlen}"
    using len by (auto simp: set_conv_nth image_iff)
  moreover have "inj_on (\<lambda>i. slot_key sr (t ! i)) {..<2 ^ bitlen}"
    using one ne by (auto simp: inj_on_def hm.one_slot_each_def)
  ultimately show ?thesis by (simp add: card_image)
qed

lemma set_insert: "set (snd (hm_insert sr bitlen t k)) \<subseteq> insert k (set t)"
  unfolding hm_insert_def by (rule set_insert_loop) auto

lemma set_remove: "set (snd (hm_remove bitlen t k)) \<subseteq> insert (k OR msb_1_mask) (set t)"
  unfolding hm_remove_def by (rule set_remove_loop) auto

lemma slot_keys_subset:
  assumes "Y \<subseteq> insert x X" "slot_key sr ` (X - {hashval_empty}) \<subseteq> K" "slot_key sr x \<in> K"
  shows "slot_key sr ` (Y - {hashval_empty}) \<subseteq> K"
proof
  fix z
  assume "z \<in> slot_key sr ` (Y - {hashval_empty})"
  then obtain y where y: "y \<in> Y" "y \<noteq> hashval_empty" "z = slot_key sr y" by blast
  show "z \<in> K"
  proof (cases "y = x")
    case False
    then have "y \<in> X - {hashval_empty}" using y assms(1) by blast
    then show ?thesis using assms(2) y(3) by blast
  qed (use y assms(3) in simp)
qed

text \<open>One operation on a table whose slots belong to the keys \<open>K\<close>, no more of them than slots.\<close>

lemma hm_exec_refines:
  fixes t :: "'w::len word list"
  assumes w: "hm_widths True bitlen TYPE('w word)" and inv: "hm_table True bitlen t"
    and v: "valid_key True (op_key op)" and K: "slot_key True ` (set t - {hashval_empty}) \<subseteq> K"
    and k: "op_key op \<in> K" and cK: "finite K" "card K \<le> 2 ^ bitlen"
  shows "fst (hm_exec bitlen t op) = fst (set_exec (hm_contents True t) op) \<and>
    hm_table True bitlen (snd (hm_exec bitlen t op)) \<and>
    hm_contents True (snd (hm_exec bitlen t op)) = snd (set_exec (hm_contents True t) op) \<and>
    slot_key True ` (set (snd (hm_exec bitlen t op)) - {hashval_empty}) \<subseteq> K"
proof (cases op)
  case (Ins key)
  have key: "valid_key True key" "key \<in> K" using v k Ins by simp_all
  note post = insert_correct[OF w key(1) inv]
  have room: "\<not> (hashval_empty \<notin> set t \<and> key \<notin> slot_key True ` set t)"
  proof
    assume h: "hashval_empty \<notin> set t \<and> key \<notin> slot_key True ` set t"
    then have "slot_key True ` set t \<subseteq> K - {key}" using K by auto
    then have "card (slot_key True ` set t) \<le> card (K - {key})" using cK(1) by (intro card_mono) auto
    also have "\<dots> < card K" using cK(1) key(2) by (rule card_Diff1_less)
    finally show False using full_table_keys[OF inv] h cK(2) by simp
  qed
  have "slot_key True ` (set (snd (hm_insert True bitlen t key)) - {hashval_empty}) \<subseteq> K"
    by (rule slot_keys_subset[OF set_insert K]) (simp only: key(2) valid_key_slot_key[OF key(1)])
  then show ?thesis using post room Ins by (auto simp: insert_post_def)
next
  case (Look key)
  then show ?thesis using search_correct[OF w _ inv, of key] v inv K by simp
next
  case (Del key)
  have key: "valid_key True key" "key \<in> K" using v k Del by simp_all
  note post = remove_correct[OF w key(1) inv]
  have "slot_key True (key OR msb_1_mask) \<in> K"
    using key by (simp add: slot_key_def strip_removed valid_key_def)
  then have "slot_key True ` (set (snd (hm_remove bitlen t key)) - {hashval_empty}) \<subseteq> K"
    by (rule slot_keys_subset[OF set_remove K])
  then show ?thesis using post Del by (auto simp: remove_post_def)
qed

lemma hm_run_refines:
  fixes t :: "'w::len word list"
  assumes w: "hm_widths True bitlen TYPE('w word)" and inv: "hm_table True bitlen t"
    and v: "\<forall>op \<in> set ops. valid_key True (op_key op)"
    and K: "slot_key True ` (set t - {hashval_empty}) \<subseteq> K" "op_key ` set ops \<subseteq> K"
    and cK: "finite K" "card K \<le> 2 ^ bitlen"
  shows "hm_run bitlen t ops = set_run (hm_contents True t) ops"
  using inv v K
proof (induction ops arbitrary: t)
  case (Cons op ops)
  have "fst (hm_exec bitlen t op) = fst (set_exec (hm_contents True t) op)"
    "hm_table True bitlen (snd (hm_exec bitlen t op))"
    "hm_contents True (snd (hm_exec bitlen t op)) = snd (set_exec (hm_contents True t) op)"
    "slot_key True ` (set (snd (hm_exec bitlen t op)) - {hashval_empty}) \<subseteq> K"
    using hm_exec_refines[OF w Cons.prems(1) _ Cons.prems(3) _ cK, of op] Cons.prems(2,4) by auto
  then show ?case
    using Cons.IH[of "snd (hm_exec bitlen t op)"] Cons.prems(2,4)
    by (simp add: Let_def split_beta)
qed simp

section \<open>The team overload\<close>

text \<open>After \<open>k\<close> rounds the value of lane 0 has reached the first \<open>2 ^ k\<close> lanes of the team.\<close>

lemma xor_bit_range:
  assumes "k < K"
  shows "(m :: nat) mod 2 ^ K < 2 ^ Suc k \<longleftrightarrow> m mod 2 ^ K < 2 ^ k \<or> (m XOR 2 ^ k) mod 2 ^ K < 2 ^ k"
proof -
  have lt: "x mod 2 ^ K < 2 ^ j \<longleftrightarrow> (\<forall>i. j \<le> i \<and> i < K \<longrightarrow> \<not> bit x i)" if "j \<le> K" for x j :: nat
  proof -
    have "x mod 2 ^ K < 2 ^ j \<longleftrightarrow> take_bit j (take_bit K x) = take_bit K x"
      unfolding take_bit_eq_mod[symmetric] by (rule take_bit_nat_eq_self_iff[symmetric])
    also have "\<dots> \<longleftrightarrow> (\<forall>i. bit (take_bit j (take_bit K x)) i = bit (take_bit K x) i)"
      by (metis bit_eqI)
    also have "\<dots> \<longleftrightarrow> (\<forall>i. j \<le> i \<and> i < K \<longrightarrow> \<not> bit x i)"
      unfolding bit_take_bit_iff by (metis not_less)
    finally show ?thesis .
  qed
  have b: "bit (m XOR 2 ^ k) i \<longleftrightarrow> bit m i \<noteq> (i = k)" for i
    by (auto simp: bit_xor_iff bit_exp_iff)
  have q2: "(m XOR 2 ^ k) mod 2 ^ K < 2 ^ k \<longleftrightarrow> (\<forall>i. k \<le> i \<and> i < K \<longrightarrow> bit m i = (i = k))"
    using lt[of k "m XOR 2 ^ k"] assms by (auto simp: b)
  have q1: "m mod 2 ^ K < 2 ^ k \<longleftrightarrow> (\<forall>i. k \<le> i \<and> i < K \<longrightarrow> \<not> bit m i)"
    using lt assms by simp
  have q3: "m mod 2 ^ K < 2 ^ Suc k \<longleftrightarrow> (\<forall>i. Suc k \<le> i \<and> i < K \<longrightarrow> \<not> bit m i)"
    by (rule lt) (use assms in simp)
  have split: "k \<le> i \<longleftrightarrow> i = k \<or> Suc k \<le> i" for i by auto
  show ?thesis unfolding q1 q2 q3 split using assms by (cases "bit m k") force+
qed

lemma hm_team_or_reach:
  assumes "k \<le> K"
  shows "hm_team_or k (\<lambda>lane. if lane mod 2 ^ K = 0 then v else 0) lane =
    (if lane mod 2 ^ K < 2 ^ k then v else (0 :: 'w::len word))"
  using assms
proof (induction k arbitrary: lane)
  case (Suc k)
  then show ?case using xor_bit_range[of k K lane] by auto
qed simp

section \<open>Properties\<close>

text \<open>
  C1: A run of inserts, searches and removes on a freshly initialised table (block of any size,
  any first participating thread) answers exactly as the set of the inserted and not removed keys
  does, as long as the operations use at most as many distinct valid keys as the table has slots:
  no key is lost behind a collision, none is reported twice as new, and a removed key can come back.
\<close>

theorem hashmap_refines_set:
  fixes t0 :: "'w::len word list"
  assumes "hm_widths True bitlen TYPE('w word)" and "first_tid < block_dim"
    and "length t0 = 2 ^ bitlen" and "\<forall>op \<in> set ops. valid_key True (op_key op)"
    and "card (op_key ` set ops) \<le> 2 ^ bitlen"
  shows "hm_run bitlen (hm_init bitlen first_tid block_dim t0) ops = set_run {} ops"
proof -
  have init: "hm_init bitlen first_tid block_dim t0 = replicate (2 ^ bitlen) hashval_empty"
    using assms by (intro hm_init_empty) (simp_all add: hm_widths_def)
  have "slot_key True ` (set (replicate (2 ^ bitlen) (hashval_empty :: 'w word)) - {hashval_empty})
      \<subseteq> op_key ` set ops" by auto
  then show ?thesis
    unfolding init using hm_run_refines[OF assms(1) fresh_table assms(4) _ order_refl _ assms(5)]
    by (simp add: fresh_contents)
qed

theorem hashmap_refines_set_witness:
  "hm_run 2 (hm_init 2 1 3 [7, 7, 7, 7 :: u32])
     [Ins 1, Ins 5, Look 5, Del 1, Look 5, Look 1, Ins 1, Ins (9 :: u32)] =
   set_run {} [Ins 1, Ins 5, Look 5, Del 1, Look 5, Look 1, Ins 1, Ins (9 :: u32)]"
  by (rule hashmap_refines_set)
    (simp_all add: hm_widths_def valid_key_def hashval_empty_def msb_1_mask_def card_insert_if)

text \<open>
  Insertion without removal support, at any key width: it answers 1 exactly when the key is
  new and a slot is free, adds exactly that key, keeps every other key reachable, and otherwise
  leaves the table as it was; a later search finds the key exactly if it is present.
\<close>

theorem hashmap_insert_search:
  fixes key key' :: "'w::len word"
  assumes "hm_widths False bitlen TYPE('w word)" and "key \<noteq> hashval_empty" and "key' \<noteq> hashval_empty"
    and "hm_table False bitlen t"
  shows "let (r, t') = hm_insert False bitlen t key;
             added = key \<notin> hm_contents False t \<and> hashval_empty \<in> set t
         in r = (if added then 1 else 0) \<and> hm_table False bitlen t' \<and>
            (if added then hm_contents False t' = insert key (hm_contents False t) else t' = t) \<and>
            hm_search False bitlen t' key' = (if key' \<in> hm_contents False t' then 1 else 0)"
proof -
  have v: "valid_key False key" "valid_key False key'" using assms by (simp_all add: valid_key_def)
  note post = insert_correct[OF assms(1) v(1) assms(4)]
  have tab: "hm_table False bitlen (snd (hm_insert False bitlen t key))"
    using post by (simp add: insert_post_def)
  have full: "hashval_empty \<in> set t" if new: "fst (hm_insert False bitlen t key) = 1"
  proof (rule ccontr)
    assume ne: "hashval_empty \<notin> set t"
    have inv: "hm_table False bitlen t" by (rule assms(4))
    have c: "card (hm_contents False t) = 2 ^ bitlen"
    proof -
      have "hm_contents False t = set t" using ne by (auto simp: contents_nomove)
      moreover have "slot_key False ` set t = set t" by (simp add: slot_key_def)
      ultimately show ?thesis using full_table_keys[OF inv ne] by simp
    qed
    have len: "length (snd (hm_insert False bitlen t key)) = 2 ^ bitlen"
      using tab by (simp add: hm_table_def hm.table_inv_def)
    have "hm_contents False (snd (hm_insert False bitlen t key)) \<subseteq> set (snd (hm_insert False bitlen t key))"
      by (auto simp: contents_nomove)
    then have "card (hm_contents False (snd (hm_insert False bitlen t key))) \<le> 2 ^ bitlen"
      using card_mono[OF finite_set] card_length len by (metis order_trans)
    moreover have "key \<notin> hm_contents False t"
      "hm_contents False (snd (hm_insert False bitlen t key)) = insert key (hm_contents False t)"
      using post new by (simp_all add: insert_post_def)
    moreover have "finite (hm_contents False t)" by (simp add: contents_nomove)
    ultimately show False using c by simp
  qed
  show ?thesis
    using post full tab search_correct[OF assms(1) v(2) tab]
    by (auto simp: insert_post_def contents_nomove Let_def split_beta slot_key_def)
qed

theorem hashmap_insert_search_witness:
  "let (r, t') = hm_insert False 2 (replicate 4 hashval_empty) (9 :: u64);
       added = (9 :: u64) \<notin> hm_contents False (replicate 4 hashval_empty) \<and>
         hashval_empty \<in> set (replicate 4 (hashval_empty :: u64))
   in r = (if added then 1 else 0) \<and> hm_table False 2 t' \<and>
      (if added then hm_contents False t' = insert 9 (hm_contents False (replicate 4 hashval_empty))
       else t' = replicate 4 hashval_empty) \<and>
      hm_search False 2 t' 5 = (if 5 \<in> hm_contents False t' then 1 else 0)"
  using fresh_table[of False 2, where ?'a = 64]
  by (intro hashmap_insert_search) (simp_all add: hm_widths_def hashval_empty_def)

text \<open>
  Removal (32-bit keys): it answers 1 exactly if the key is present, takes exactly that key
  out, and every other key stays reachable; searching the removed key afterwards answers 0.
\<close>

theorem hashmap_remove:
  fixes key key' :: "'w::len word"
  assumes "hm_widths True bitlen TYPE('w word)" and "valid_key True key" and "valid_key True key'"
    and "hm_table True bitlen t"
  shows "let (r, t') = hm_remove bitlen t key
         in r = (if key \<in> hm_contents True t then 1 else 0) \<and> hm_table True bitlen t' \<and>
            hm_contents True t' = hm_contents True t - {key} \<and>
            hm_search True bitlen t' key' = (if key' \<in> hm_contents True t \<and> key' \<noteq> key then 1 else 0)"
proof -
  note post = remove_correct[OF assms(1,2,4)]
  have tab: "hm_table True bitlen (snd (hm_remove bitlen t key))" using post by (simp add: remove_post_def)
  show ?thesis
    using post search_correct[OF assms(1,3) tab] by (auto simp: remove_post_def Let_def split_beta)
qed

theorem hashmap_remove_witness:
  "let (r, t') = hm_remove 2 (replicate 4 hashval_empty) (9 :: u32)
   in r = (if 9 \<in> hm_contents True (replicate 4 (hashval_empty :: u32)) then 1 else 0) \<and>
      hm_table True 2 t' \<and>
      hm_contents True t' = hm_contents True (replicate 4 hashval_empty) - {9} \<and>
      hm_search True 2 t' 5 =
        (if 5 \<in> hm_contents True (replicate 4 (hashval_empty :: u32)) \<and> (5 :: u32) \<noteq> 9 then 1 else 0)"
  using fresh_table[of True 2, where ?'a = 32]
  by (intro hashmap_remove) (simp_all add: hm_widths_def valid_key_def hashval_empty_def msb_1_mask_def)

text \<open>A thread inserts the key it was started with.\<close>

primrec inserter_key :: "'w inserter \<Rightarrow> 'w" where
  "inserter_key (Probing k index fuel) = k"
| "inserter_key (Returned k r) = k"

lemma insert_reach_keys:
  assumes "insert_reach bitlen s0 s"
  shows "map inserter_key (snd s) = map inserter_key (snd s0)"
  using assms
proof induction
  case (reach_step s s')
  have "map inserter_key (snd s') = map inserter_key (snd s)"
    using reach_step.hyps(2) by cases (auto simp: map_update, (metis inserter_key.simps(1) list_update_id map_update nth_map)+)
  then show ?case using reach_step.IH by simp
qed simp

lemma start_inv:
  fixes t0 :: "'w::len word list"
  assumes "bitlen < 32" "hm_table False bitlen t0" "hashval_empty \<notin> set keys"
  shows "insert_inv bitlen (hm_contents False t0) (t0, map (start_inserter bitlen) keys)"
proof -
  have ok: "inserter_ok bitlen (hm_contents False t0) t0 (start_inserter bitlen k)" if "k \<in> set keys" for k
  proof -
    have "k \<noteq> hashval_empty" using that assms(3) by blast
    then show ?thesis
      unfolding start_inserter_def inserter_ok.simps unat_get_size[OF assms(1)]
      using hm.passed_0 first_slot add_0 by blast
  qed
  have none: "Returned k r \<notin> set (map (start_inserter bitlen) keys)" for k r
    by (auto simp: start_inserter_def)
  then have "\<nexists>j k r. j < length keys \<and> start_inserter bitlen (keys ! j) = Returned k r"
    by (simp add: start_inserter_def)
  moreover have "{k. Returned k 1 \<in> set (map (start_inserter bitlen) keys)} = {}"
    using none by blast
  ultimately show ?thesis using assms(2) ok nth_mem unfolding insert_inv_def by (simp add: nth_mem)
qed

text \<open>
  C5: Concurrent insertion of any keys but the empty marker, under any interleaving of the threads' compare-and-swaps from a
  well-formed table. At every moment the table is well-formed and its set is the old set with exactly the keys
  that have been won (answer 1) so far; a won key was not in the old set, and it is won by one thread only; a
  thread answers for its own key, and with 0 only if its key is in the set or the table is full. So once all
  threads have answered and a slot is free, the set is the old set with all keys, and every new key has exactly
  one winner.
\<close>

theorem concurrent_insert_one_winner:
  fixes t0 :: "'w::len word list"
  assumes "bitlen < 32" and "bitlen \<le> LENGTH('w)" and "hm_table False bitlen t0"
    and "hashval_empty \<notin> set keys"
    and "insert_reach bitlen (t0, map (start_inserter bitlen) keys) (t, ts)"
  shows "hm_table False bitlen t \<and> map inserter_key ts = keys \<and>
    hm_contents False t = hm_contents False t0 \<union> {k. Returned k 1 \<in> set ts} \<and>
    (\<forall>j < length ts. \<forall>j' < length ts. \<forall>k. ts ! j = Returned k 1 \<and> ts ! j' = Returned k 1 \<longrightarrow> j = j') \<and>
    (\<forall>k. Returned k 1 \<in> set ts \<longrightarrow> k \<notin> hm_contents False t0 \<and> k \<in> hm_contents False t) \<and>
    (\<forall>k. Returned k 0 \<in> set ts \<longrightarrow> k \<in> hm_contents False t \<or> hashval_empty \<notin> set t) \<and>
    ((\<forall>th \<in> set ts. \<exists>k r. th = Returned k r) \<and> hashval_empty \<in> set t \<longrightarrow>
       hm_contents False t = hm_contents False t0 \<union> set keys \<and>
       (\<forall>k \<in> set keys - hm_contents False t0. \<exists>!j. j < length keys \<and> ts ! j = Returned k 1))"
proof -
  have inv: "insert_inv bitlen (hm_contents False t0) (t, ts)"
    by (rule insert_reach_inv[OF assms(1,2,5) start_inv[OF assms(1,3,4)]])
  then have ok: "inserter_ok bitlen (hm_contents False t0) t th" if "th \<in> set ts" for th
    using that by (auto simp: insert_inv_def in_set_conv_nth)
  have keys: "map inserter_key ts = keys"
    using insert_reach_keys[OF assms(5)] by (simp add: start_inserter_def comp_def)
  then have lk: "length ts = length keys" "set keys = inserter_key ` set ts" by (metis length_map, metis list.set_map)
  have set: "hm_contents False t = hm_contents False t0 \<union> {k. Returned k 1 \<in> set ts}"
    and one: "\<And>j j' k. j < length ts \<Longrightarrow> j' < length ts \<Longrightarrow> ts ! j = Returned k 1 \<Longrightarrow> ts ! j' = Returned k 1 \<Longrightarrow> j = j'"
    using inv by (auto simp: insert_inv_def)
  have all: "hm_contents False t = hm_contents False t0 \<union> set keys \<and> (\<forall>k \<in> set keys - hm_contents False t0. \<exists>!j. j < length keys \<and> ts ! j = Returned k 1)"
    if answered: "\<forall>th \<in> set ts. \<exists>k r. th = Returned k r" and free: "hashval_empty \<in> set t"
  proof
    have "k \<in> hm_contents False t" if k: "k \<in> set keys" for k
    proof -
      obtain th where "th \<in> set ts" "inserter_key th = k" using k lk(2) by auto
      then obtain r where "Returned k r \<in> set ts" using answered by fastforce
      then show ?thesis using ok free by fastforce
    qed
    moreover have "k \<in> set keys" if "Returned k 1 \<in> set ts" for k
      using imageI[OF that, of inserter_key] lk(2) by simp
    ultimately show u: "hm_contents False t = hm_contents False t0 \<union> set keys" using set by blast
    show "\<forall>k \<in> set keys - hm_contents False t0. \<exists>!j. j < length keys \<and> ts ! j = Returned k 1"
    proof
      fix k assume k: "k \<in> set keys - hm_contents False t0"
      then have "Returned k 1 \<in> set ts" using u set by blast
      then obtain j where "j < length ts" "ts ! j = Returned k 1" by (auto simp: in_set_conv_nth)
      then show "\<exists>!j. j < length keys \<and> ts ! j = Returned k 1" using one lk(1) by (intro ex1I[of _ j]) auto
    qed
  qed
  have "hm_table False bitlen t" "\<forall>k. Returned k 1 \<in> set ts \<longrightarrow> k \<notin> hm_contents False t0 \<and> k \<in> hm_contents False t"
    "\<forall>k. Returned k 0 \<in> set ts \<longrightarrow> k \<in> hm_contents False t \<or> hashval_empty \<notin> set t"
    using inv ok by (fastforce simp: insert_inv_def)+
  then show ?thesis using keys set one all by blast
qed

lemma two_thread_run:
  "insert_reach 1 (replicate 2 hashval_empty, map (start_inserter 1) [1, 1 :: u32])
     ([hashval_empty, 1], [Returned 1 1, Returned 1 0])"
proof -
  let ?s0 = "(replicate 2 (hashval_empty :: u32), [Probing 1 1 2, Probing 1 1 (2 :: nat)])"
  let ?s1 = "([hashval_empty :: u32, 1], [Returned 1 1, Probing 1 1 2])"
  have start: "map (start_inserter 1) [1, 1 :: u32] = [Probing 1 1 2, Probing 1 1 2]" by code_simp
  have "insert_step 1 ?s0 ?s1"
    using insert_step.claimed[of 0 "[Probing 1 1 2, Probing 1 1 2]" "1 :: u32" 1 1
        "replicate 2 hashval_empty" hashval_empty "[hashval_empty, 1]" 1]
    by (simp add: atomic_cas_def numeral_2_eq_2)
  moreover have "insert_step 1 ?s1 ([hashval_empty, 1], [Returned 1 1, Returned 1 0])"
    using insert_step.present[of 1 "[Returned 1 1, Probing 1 1 2]" "1 :: u32" 1 1
        "[hashval_empty, 1]" 1 "[hashval_empty, 1]" 1]
    by (simp add: atomic_cas_def numeral_2_eq_2 hashval_empty_def)
  ultimately show ?thesis
    unfolding start by (blast intro: reach_start reach_step)
qed

theorem concurrent_insert_one_winner_witness:
  "hm_contents False [hashval_empty, 1 :: u32] = hm_contents False (replicate 2 hashval_empty) \<union> {1} \<and>
    (\<exists>!j. j < 2 \<and> [Returned (1 :: u32) 1, Returned 1 0] ! j = Returned 1 1)"
proof -
  have one: "hashval_empty \<notin> set [1, 1 :: u32]" by (simp add: hashval_empty_def)
  note h = concurrent_insert_one_winner[OF _ _ _ one two_thread_run]
  have fresh: "hm_table False 1 (replicate 2 hashval_empty :: u32 list)" "hm_contents False (replicate 2 hashval_empty :: u32 list) = {}"
    using fresh_table[of False 1, where ?'a = 32] by (simp_all add: hm_contents_def)
  have "\<forall>th \<in> set [Returned (1 :: u32) 1, Returned 1 0]. \<exists>k r. th = Returned k r" by simp
  then show ?thesis using h fresh by (simp add: numeral_2_eq_2)
qed

text \<open>
  The team overload inserts once and gives every lane of the team lane 0's answer.
\<close>

theorem team_insert_broadcast:
  fixes key :: "'w::len word"
  assumes "32 \<le> LENGTH('w)"
  shows "hm_insert_team sr log2_team bitlen t key =
    (\<lambda>lane. fst (hm_insert False bitlen t key), snd (hm_insert False bitlen t key))"
proof -
  have "ucast (ucast r :: 'w word) = (r :: u32)" for r
    using assms by (simp add: ucast_up_ucast_id is_up)
  then show ?thesis
    by (simp add: hm_insert_team_def split_beta Let_def hm_team_or_reach)
qed

theorem team_insert_broadcast_witness:
  "hm_insert_team True 3 2 (replicate 4 hashval_empty) (9 :: u32) =
    (\<lambda>lane. fst (hm_insert False 2 (replicate 4 hashval_empty) (9 :: u32)),
     snd (hm_insert False 2 (replicate 4 hashval_empty) (9 :: u32)))"
  by (rule team_insert_broadcast) simp

text \<open>
  Where the code falls short of its contract. \<open>remove\<close> keeps the old slot value in 32 bits: a
  64-bit key beyond 32 bits is taken out but reported as not found. A key whose removed form is the
  empty mark turns its slot empty again, which cuts the probe sequence of a colliding key. And the
  team overload never revives a removed key, since it drops \<open>SUPPORT_REMOVE\<close>.
\<close>

lemma remove_reports_absent_64:
  "hm_remove 1 [0x100000000, hashval_empty :: u64] 0x100000000 =
    (0, [0x8000000100000000, hashval_empty])"
  by code_simp

lemma removed_max_key_cuts_chain:
  "let (_, t1) = hm_insert True 2 (replicate 4 hashval_empty) (0x7FFFFFFF :: u32);
       (_, t2) = hm_insert True 2 t1 5;
       (_, t3) = hm_remove 2 t2 0x7FFFFFFF
   in hm_search True 2 t2 5 = 1 \<and> 5 \<in> set t3 \<and> hm_search True 2 t3 5 = 0"
  by code_simp

lemma team_insert_never_revives:
  "let (_, t1) = hm_insert True 2 (replicate 4 hashval_empty) (5 :: u32);
       (_, t2) = hm_remove 2 t1 5
   in hm_insert True 2 t2 5 = (1, [5, hashval_empty, hashval_empty, hashval_empty]) \<and>
      snd (hm_insert_team True 0 2 t2 5) = [5 OR msb_1_mask, 5, hashval_empty, hashval_empty]"
  by code_simp

end
