(* ===== verification/HostMemory.thy ===== *)
theory HostMemory imports Prelude "HOL-Library.Code_Target_Nat" begin

text \<open>
  How much host memory the process may use
  (\<^verbatim>\<open>cpp/src/util/host_memory.cpp\<close>): parsing of the \<^verbatim>\<open>/proc\<close> files, resolution of the
  process's cgroups against the mount table, the walk from the leaf cgroup to the mount point, and
  the combination with the host-wide figure. The file system is a map from paths to contents; a
  path is the list of the elements \<^verbatim>\<open>std::filesystem::path\<close> iterates over: the root directory
  \<open>''/''\<close> first if there is one, and an empty last element if the path ends in a separator.
\<close>

section \<open>Characters, tokens and lines\<close>

definition is_space :: "char \<Rightarrow> bool" where
  "is_space c \<longleftrightarrow> c \<in> set [CHR '' '', CHR 0x09, CHR 0x0A, CHR 0x0B, CHR 0x0C, CHR 0x0D]"

text \<open>\<open>remove_prefix\<close> and \<open>remove_suffix\<close> while a space is in front or at the back.\<close>

definition trim :: "string \<Rightarrow> string" where
  "trim s = rev (dropWhile is_space (rev (dropWhile is_space s)))"

text \<open>\<open>std::from_chars\<close> to a \<open>size_t\<close>: digits only, the whole text, no overflow.\<close>

definition parse_size :: "string \<Rightarrow> nat option" where
  "parse_size s = (let t = trim s in
     if t = [] \<or> \<not> list_all is_digit t \<or> size_max < digits_val t then None
     else Some (digits_val t))"

text \<open>\<open>stream >> token\<close>: skip spaces, then take characters up to the next space.\<close>

definition next_token :: "string \<Rightarrow> (string \<times> string) option" where
  "next_token s = (let t = dropWhile is_space s in
     if t = [] then None
     else Some (takeWhile (\<lambda>c. \<not> is_space c) t, dropWhile (\<lambda>c. \<not> is_space c) t))"

lemma next_token_shorter: "next_token s = Some (tok, rest) \<Longrightarrow> length rest < length s"
proof -
  assume h: "next_token s = Some (tok, rest)"
  obtain c t where t: "dropWhile is_space s = c # t"
    using h by (cases "dropWhile is_space s") (auto simp: next_token_def Let_def)
  have "\<not> is_space c" using t by (metis hd_dropWhile list.discI list.sel(1))
  then have "rest = dropWhile (\<lambda>c. \<not> is_space c) t" using h t by (auto simp: next_token_def)
  then have "length rest \<le> length t" by (simp add: length_dropWhile_le)
  also have "\<dots> < length (dropWhile is_space s)" using t by simp
  also have "\<dots> \<le> length s" by (rule length_dropWhile_le)
  finally show ?thesis .
qed

function split_whitespace :: "string \<Rightarrow> string list" where
  "split_whitespace s = (case next_token s of None \<Rightarrow> []
     | Some (tok, rest) \<Rightarrow> tok # split_whitespace rest)"
  by pat_completeness auto
termination
  by (relation "measure length") (auto dest: next_token_shorter)

declare split_whitespace.simps [simp del]

text \<open>The lines \<open>std::getline\<close> delivers: no empty line after a final newline.\<close>

fun split_lines :: "string \<Rightarrow> string \<Rightarrow> string list" where
  "split_lines acc [] = (if acc = [] then [] else [rev acc])"
| "split_lines acc (c # cs) =
     (if c = CHR 0x0A then rev acc # split_lines [] cs else split_lines (c # acc) cs)"

definition file_lines :: "string option \<Rightarrow> string list" where
  "file_lines f = (case f of None \<Rightarrow> [] | Some s \<Rightarrow> split_lines [] s)"

section \<open>Paths\<close>

type_synonym path = "string list"
type_synonym filesys = "path \<rightharpoonup> string"

fun split_slash :: "string \<Rightarrow> string \<Rightarrow> string list" where
  "split_slash acc [] = [rev acc]"
| "split_slash acc (c # cs) =
     (if c = CHR ''/'' then rev acc # split_slash [] cs else split_slash (c # acc) cs)"

definition path_of :: "string \<Rightarrow> path" where
  "path_of s =
     (let parts = split_slash [] s;
          root = (if s \<noteq> [] \<and> hd s = CHR ''/'' then [''/''] else []);
          names = filter (\<lambda>n. n \<noteq> []) parts;
          trailing = (if names \<noteq> [] \<and> last parts = [] then [''''] else [])
      in root @ names @ trailing)"

definition has_root :: "path \<Rightarrow> bool" where
  "has_root p \<longleftrightarrow> p \<noteq> [] \<and> hd p = ''/''"

definition relative_path :: "path \<Rightarrow> path" where
  "relative_path p = (if has_root p then tl p else p)"

definition parent_path :: "path \<Rightarrow> path" where
  "parent_path p = (if relative_path p = [] then p else butlast p)"

text \<open>The operator \<open>/\<close> on paths.\<close>

definition path_append :: "path \<Rightarrow> path \<Rightarrow> path" where
  "path_append p q =
     (if has_root q then q
      else let base = (if p \<noteq> [] \<and> last p = [] then butlast p else p)
           in if q = [] then (if base = [] \<or> base = [''/''] then base else base @ [''''])
              else base @ q)"

text \<open>
  \<open>lexically_normal\<close>, from left to right: \<open>acc\<close> holds the names kept so far in reverse, the flag
  says that the normal form so far ends in a separator.
\<close>

definition ends_open :: "path \<Rightarrow> bool" where
  "ends_open acc \<longleftrightarrow> acc \<noteq> [] \<and> hd acc \<noteq> ''..''"

fun normal_names :: "bool \<Rightarrow> path \<Rightarrow> bool \<Rightarrow> path \<Rightarrow> path \<times> bool" where
  "normal_names rooted acc trailing [] = (rev acc, trailing)"
| "normal_names rooted acc trailing (n # ns) =
     (if n = [] \<or> n = ''.'' then normal_names rooted acc (ends_open acc) ns
      else if n = ''..'' then
        (if ends_open acc then normal_names rooted (tl acc) (ends_open (tl acc)) ns
         else if rooted \<and> acc = [] then normal_names rooted [] False ns
         else normal_names rooted (n # acc) False ns)
      else normal_names rooted (n # acc) False ns)"

definition lexically_normal :: "path \<Rightarrow> path" where
  "lexically_normal p =
     (if p = [] then []
      else let (names, trailing) = normal_names (has_root p) [] False (relative_path p);
               res = (if has_root p then [''/''] else []) @ names @ (if trailing then [''''] else [])
           in if res = [] then [''.''] else res)"

fun mismatch_rest :: "path \<Rightarrow> path \<Rightarrow> path \<times> path" where
  "mismatch_rest (x # xs) (y # ys) = (if x = y then mismatch_rest xs ys else (x # xs, y # ys))"
| "mismatch_rest xs ys = (xs, ys)"

definition is_path_prefix :: "path \<Rightarrow> path \<Rightarrow> bool" where
  "is_path_prefix prefix p \<longleftrightarrow> fst (mismatch_rest prefix p) = []"

definition lexically_relative :: "path \<Rightarrow> path \<Rightarrow> path" where
  "lexically_relative p base =
     (if has_root p \<noteq> has_root base then []
      else let (a, b) = mismatch_rest p base;
               ups = length (filter (\<lambda>n. n \<notin> {[], ''.'', ''..''}) b);
               downs = length (filter (\<lambda>n. n = ''..'') b)
           in if a = [] \<and> b = [] then [''.'']
              else if ups = downs \<and> (a = [] \<or> hd a = []) then [''.'']
              else if ups < downs then []
              else replicate (ups - downs) ''..'' @ a)"

section \<open>The parsers\<close>

datatype cgroup_version = V1 | V2

record cgroup_membership =
  cm_version :: cgroup_version
  cm_path :: path

record cgroup_mount =
  mt_version :: cgroup_version
  mt_root :: path
  mt_point :: path

record cgroup_memory_info =
  cg_limit :: nat
  cg_current :: nat
  cg_reclaimable_file :: nat
  cg_working_set :: nat
  cg_available :: nat
  cg_version :: cgroup_version
  cg_path :: path

definition read_first_token :: "filesys \<Rightarrow> path \<Rightarrow> string option" where
  "read_first_token fs p = (case fs p of None \<Rightarrow> None | Some s \<Rightarrow> map_option fst (next_token s))"

function contains_controller :: "string \<Rightarrow> string \<Rightarrow> bool" where
  "contains_controller controllers expected =
     (if controllers = [] then False
      else let controller = takeWhile (\<lambda>c. c \<noteq> CHR '','') controllers;
               rest = dropWhile (\<lambda>c. c \<noteq> CHR '','') controllers
           in if controller = expected then True
              else if rest = [] then False
              else contains_controller (tl rest) expected)"
  by pat_completeness auto
termination
proof (relation "measure (length \<circ> fst)", goal_cases)
  case (2 controllers expected controller rest)
  then have "length rest \<le> length controllers" by (simp add: length_dropWhile_le)
  moreover have "rest \<noteq> []" using 2 by simp
  ultimately show ?case by (cases rest) simp_all
qed simp

declare contains_controller.simps [simp del]

definition is_octal :: "char \<Rightarrow> bool" where
  "is_octal c \<longleftrightarrow> 48 \<le> (of_char c :: nat) \<and> (of_char c :: nat) \<le> 55"

fun unescape_mount_path :: "string \<Rightarrow> string" where
  "unescape_mount_path (c # d1 # d2 # d3 # cs) =
     (if c = CHR 0x5C \<and> is_octal d1 \<and> is_octal d2 \<and> is_octal d3
      then char_of (digit_val d1 * 64 + digit_val d2 * 8 + digit_val d3) # unescape_mount_path cs
      else c # unescape_mount_path (d1 # d2 # d3 # cs))"
| "unescape_mount_path (c # cs) = c # unescape_mount_path cs"
| "unescape_mount_path [] = []"

definition parse_membership_line :: "string \<Rightarrow> cgroup_membership option" where
  "parse_membership_line line =
     (let hierarchy = takeWhile (\<lambda>c. c \<noteq> CHR '':'') line;
          after1 = dropWhile (\<lambda>c. c \<noteq> CHR '':'') line;
          controllers = takeWhile (\<lambda>c. c \<noteq> CHR '':'') (tl after1);
          after2 = dropWhile (\<lambda>c. c \<noteq> CHR '':'') (tl after1);
          cgroup_path = tl after2
      in if after1 = [] \<or> after2 = [] then None
         else if cgroup_path = [] \<or> hd cgroup_path \<noteq> CHR ''/'' then None
         else if hierarchy = ''0'' \<and> controllers = [] then
           Some \<lparr>cm_version = V2, cm_path = path_of cgroup_path\<rparr>
         else if contains_controller controllers ''memory'' then
           Some \<lparr>cm_version = V1, cm_path = path_of cgroup_path\<rparr>
         else None)"

definition parse_cgroup_memberships :: "filesys \<Rightarrow> path \<Rightarrow> cgroup_membership list" where
  "parse_cgroup_memberships fs p = List.map_filter parse_membership_line (file_lines (fs p))"

text \<open>\<open>line.find(" - ")\<close>: what is before and after the first occurrence.\<close>

fun split_dash :: "string \<Rightarrow> string \<Rightarrow> (string \<times> string) option" where
  "split_dash acc (a # b # c # cs) =
     (if a = CHR '' '' \<and> b = CHR ''-'' \<and> c = CHR '' '' then Some (rev acc, cs)
      else split_dash (a # acc) (b # c # cs))"
| "split_dash acc _ = None"

definition parse_mount_line :: "string \<Rightarrow> cgroup_mount option" where
  "parse_mount_line line =
     (case split_dash [] line of None \<Rightarrow> None
      | Some (l, r) \<Rightarrow>
        (let left = split_whitespace l; right = split_whitespace r
         in if length left < 6 \<or> length right < 3 then None
            else let version =
                  (if right ! 0 = ''cgroup2'' then Some V2
                   else if right ! 0 = ''cgroup'' \<and> (contains_controller (left ! 5) ''memory'' \<or>
                     contains_controller (right ! 2) ''memory'') then Some V1
                   else None)
              in (case version of None \<Rightarrow> None
                  | Some v \<Rightarrow> Some \<lparr>mt_version = v,
                      mt_root = lexically_normal (path_of (unescape_mount_path (left ! 3))),
                      mt_point = lexically_normal (path_of (unescape_mount_path (left ! 4)))\<rparr>)))"

definition parse_cgroup_mounts :: "filesys \<Rightarrow> path \<Rightarrow> cgroup_mount list" where
  "parse_cgroup_mounts fs p = List.map_filter parse_mount_line (file_lines (fs p))"

section \<open>Resolution and inspection\<close>

definition resolve_cgroup_path :: "cgroup_membership \<Rightarrow> cgroup_mount \<Rightarrow> path option" where
  "resolve_cgroup_path membership mount =
     (if cm_version membership \<noteq> mt_version mount then None
      else let member_path = lexically_normal (cm_path membership)
           in if is_path_prefix (mt_root mount) member_path then
                (let relative = lexically_relative member_path (mt_root mount)
                 in if relative = [] then None
                    else if relative = [''.''] then Some (mt_point mount)
                    else Some (lexically_normal (path_append (mt_point mount) relative)))
              else Some (lexically_normal (path_append (mt_point mount) (relative_path member_path))))"

definition is_v1_unlimited :: "nat \<Rightarrow> bool" where
  "is_v1_unlimited limit \<longleftrightarrow> (2 ^ 63 - 1) div 2 \<le> limit"

definition subtract_saturating :: "nat \<Rightarrow> nat \<Rightarrow> nat" where
  "subtract_saturating value amount = (if amount < value then value - amount else 0)"

record memory_stat =
  ms_file :: "nat option"
  ms_shmem :: nat
  ms_file_dirty :: nat
  ms_file_writeback :: nat
  ms_unevictable :: nat
  ms_inactive_file :: "nat option"
  ms_total_inactive_file :: "nat option"

definition stat_zero :: memory_stat where
  "stat_zero = \<lparr>ms_file = None, ms_shmem = 0, ms_file_dirty = 0, ms_file_writeback = 0,
     ms_unevictable = 0, ms_inactive_file = None, ms_total_inactive_file = None\<rparr>"

definition stat_key :: "memory_stat \<Rightarrow> string \<Rightarrow> nat \<Rightarrow> memory_stat" where
  "stat_key m key v =
     (if key = ''file'' then m\<lparr>ms_file := Some v\<rparr>
      else if key = ''shmem'' then m\<lparr>ms_shmem := v\<rparr>
      else if key = ''file_dirty'' then m\<lparr>ms_file_dirty := v\<rparr>
      else if key = ''file_writeback'' then m\<lparr>ms_file_writeback := v\<rparr>
      else if key = ''unevictable'' then m\<lparr>ms_unevictable := v\<rparr>
      else if key = ''inactive_file'' then m\<lparr>ms_inactive_file := Some v\<rparr>
      else if key = ''total_inactive_file'' then m\<lparr>ms_total_inactive_file := Some v\<rparr>
      else m)"

fun read_stat :: "memory_stat \<Rightarrow> string list \<Rightarrow> memory_stat" where
  "read_stat m (key # value # rest) =
     (case parse_size value of None \<Rightarrow> read_stat m rest
      | Some v \<Rightarrow> read_stat (stat_key m key v) rest)"
| "read_stat m _ = m"

definition get_reclaimable_file_memory :: "filesys \<Rightarrow> path \<Rightarrow> cgroup_version \<Rightarrow> nat" where
  "get_reclaimable_file_memory fs p version =
     (let m = (case fs (path_append p [''memory.stat'']) of None \<Rightarrow> stat_zero
                | Some s \<Rightarrow> read_stat stat_zero (split_whitespace s))
      in case (version, ms_total_inactive_file m, ms_file m) of
           (V1, Some tot, _) \<Rightarrow> tot
         | (V2, _, Some clean) \<Rightarrow>
             subtract_saturating (subtract_saturating (subtract_saturating
               (subtract_saturating clean (ms_shmem m)) (ms_file_dirty m))
               (ms_file_writeback m)) (ms_unevictable m)
         | _ \<Rightarrow> (case ms_inactive_file m of None \<Rightarrow> 0 | Some v \<Rightarrow> v))"

text \<open>What one level of the hierarchy offers: the body of the loop up to the comparison.\<close>

definition level_info :: "filesys \<Rightarrow> cgroup_version \<Rightarrow> path \<Rightarrow> cgroup_memory_info option" where
  "level_info fs version p =
     (let limit_token = read_first_token fs
            (path_append p [if version = V2 then ''memory.max'' else ''memory.limit_in_bytes'']);
          current_token = read_first_token fs
            (path_append p [if version = V2 then ''memory.current'' else ''memory.usage_in_bytes''])
      in case (limit_token, current_token) of
           (Some lt, Some ct) \<Rightarrow>
             (if lt = ''max'' then None
              else case (parse_size lt, parse_size ct) of
                (Some limit, Some current) \<Rightarrow>
                  (if version = V1 \<and> is_v1_unlimited limit then None
                   else let reclaimable = min current (get_reclaimable_file_memory fs p version);
                            working_set = current - reclaimable;
                            available = (if working_set < limit then limit - working_set else 0)
                        in Some \<lparr>cg_limit = limit, cg_current = current,
                             cg_reclaimable_file = reclaimable, cg_working_set = working_set,
                             cg_available = available, cg_version = version, cg_path = p\<rparr>)
              | _ \<Rightarrow> None)
         | _ \<Rightarrow> None)"

definition tighter :: "cgroup_memory_info option \<Rightarrow> cgroup_memory_info option \<Rightarrow> cgroup_memory_info option" where
  "tighter result candidate =
     (case candidate of None \<Rightarrow> result
      | Some c \<Rightarrow> (case result of None \<Rightarrow> Some c
                  | Some r \<Rightarrow> if cg_available c < cg_available r then Some c else Some r))"

text \<open>The loop \<open>while (true)\<close> from the leaf up; the path gets shorter or the loop breaks.\<close>

function inspect_loop :: "filesys \<Rightarrow> cgroup_version \<Rightarrow> path \<Rightarrow> path \<Rightarrow> cgroup_memory_info option \<Rightarrow>
    cgroup_memory_info option" where
  "inspect_loop fs version mount_point current_path result =
     (let result' = tighter result (level_info fs version current_path);
          parent = parent_path current_path
      in if current_path = mount_point then result'
         else if parent = current_path \<or> \<not> is_path_prefix mount_point parent then result'
         else inspect_loop fs version mount_point parent result')"
  by pat_completeness auto
termination
  by (relation "measure (\<lambda>(fs, v, m, p, r). length p)")
    (auto simp: parent_path_def relative_path_def has_root_def neq_Nil_conv split: if_splits)

declare inspect_loop.simps [simp del]

definition inspect_cgroup_hierarchy :: "filesys \<Rightarrow> cgroup_version \<Rightarrow> path \<Rightarrow> path \<Rightarrow>
    cgroup_memory_info option" where
  "inspect_cgroup_hierarchy fs version current_path mount_point =
     (if \<not> is_path_prefix mount_point current_path then None
      else inspect_loop fs version mount_point current_path None)"

section \<open>The public functions\<close>

datatype host_memory_error = NoMemAvailable | NoHostMemory

text \<open>\<open>stream >> n\<close> for an unsigned \<open>n\<close>: an optional sign (a minus negates modulo \<open>2 ^ 64\<close>), then
  digits; no digits or an overflow set the fail bit.\<close>

definition read_unsigned :: "string \<Rightarrow> (nat \<times> string) option" where
  "read_unsigned s =
     (let t = dropWhile is_space s;
          signed = t \<noteq> [] \<and> hd t \<in> {CHR ''+'', CHR ''-''};
          negative = t \<noteq> [] \<and> hd t = CHR ''-'';
          u = (if signed then tl t else t);
          ds = takeWhile is_digit u;
          v = digits_val ds
      in if ds = [] \<or> size_max < v then None
         else Some (if negative then (2 ^ 64 - v) mod 2 ^ 64 else v, dropWhile is_digit u))"

definition mem_available_line :: "string \<Rightarrow> nat option" where
  "mem_available_line line =
     (let key = ''MemAvailable:''
      in if take (length key) line \<noteq> key then None
         else case read_unsigned (drop (length key) line) of None \<Rightarrow> None
              | Some (kilobytes, rest) \<Rightarrow>
                 (case next_token rest of None \<Rightarrow> None
                  | Some (unit, _) \<Rightarrow>
                     if unit = ''kB'' \<and> kilobytes \<le> size_max div 1024 then Some (kilobytes * 1024)
                     else None))"

definition get_system_available_memory :: "filesys \<Rightarrow> host_memory_error + nat" where
  "get_system_available_memory fs =
     (case List.map_filter mem_available_line (file_lines (fs (path_of ''/proc/meminfo''))) of
        [] \<Rightarrow> Inl NoMemAvailable | v # _ \<Rightarrow> Inr v)"

definition cgroup_candidate :: "filesys \<Rightarrow> cgroup_membership \<Rightarrow> cgroup_mount \<Rightarrow>
    cgroup_memory_info option" where
  "cgroup_candidate fs membership mount =
     (case resolve_cgroup_path membership mount of None \<Rightarrow> None
      | Some resolved \<Rightarrow>
          inspect_cgroup_hierarchy fs (cm_version membership) resolved (mt_point mount))"

definition get_cgroup_memory_info :: "filesys \<Rightarrow> path \<Rightarrow> path \<Rightarrow> cgroup_memory_info option" where
  "get_cgroup_memory_info fs proc_self_cgroup proc_self_mountinfo =
     (let memberships = parse_cgroup_memberships fs proc_self_cgroup;
          mounts = parse_cgroup_mounts fs proc_self_mountinfo
      in foldl (\<lambda>result membership.
           foldl (\<lambda>result mount. tighter result (cgroup_candidate fs membership mount)) result mounts)
         None memberships)"

record host_memory_info =
  hi_system_available :: nat
  hi_available :: nat
  hi_cgroup_limit :: "nat option"
  hi_cgroup_current :: "nat option"
  hi_cgroup_reclaimable_file :: "nat option"
  hi_cgroup_working_set :: "nat option"

definition get_host_memory_info :: "filesys \<Rightarrow> path \<Rightarrow> path \<Rightarrow> host_memory_error + host_memory_info" where
  "get_host_memory_info fs proc_self_cgroup proc_self_mountinfo =
     bind_r (get_system_available_memory fs) (\<lambda>system_available.
       let result = \<lparr>hi_system_available = system_available, hi_available = system_available,
             hi_cgroup_limit = None, hi_cgroup_current = None, hi_cgroup_reclaimable_file = None,
             hi_cgroup_working_set = None\<rparr>
       in Inr (case get_cgroup_memory_info fs proc_self_cgroup proc_self_mountinfo of
            None \<Rightarrow> result
          | Some cgroup \<Rightarrow> result\<lparr>hi_cgroup_limit := Some (cg_limit cgroup),
              hi_cgroup_current := Some (cg_current cgroup),
              hi_cgroup_reclaimable_file := Some (cg_reclaimable_file cgroup),
              hi_cgroup_working_set := Some (cg_working_set cgroup),
              hi_available := min system_available (cg_available cgroup)\<rparr>))"

definition get_free_host_memory :: "filesys \<Rightarrow> path \<Rightarrow> path \<Rightarrow> host_memory_error + nat" where
  "get_free_host_memory fs proc_self_cgroup proc_self_mountinfo =
     bind_r (get_host_memory_info fs proc_self_cgroup proc_self_mountinfo) (\<lambda>memory.
       bind_r (expects (0 < hi_available memory) NoHostMemory) (\<lambda>_. Inr (hi_available memory)))"

section \<open>The walk through one hierarchy\<close>

interpretation tightest: least_choice cg_available tighter
  by unfold_locales (simp_all add: tighter_def)

text \<open>The paths the loop visits, from the leaf to the mount point.\<close>

function visited_levels :: "path \<Rightarrow> path \<Rightarrow> path list" where
  "visited_levels mount_point current_path =
     (let parent = parent_path current_path
      in if current_path = mount_point \<or> parent = current_path \<or> \<not> is_path_prefix mount_point parent
         then [current_path] else current_path # visited_levels mount_point parent)"
  by pat_completeness auto
termination
  by (relation "measure (\<lambda>(m, p). length p)")
    (auto simp: parent_path_def relative_path_def has_root_def neq_Nil_conv split: if_splits)

declare visited_levels.simps [simp del]

lemma inspect_loop_foldl:
  "inspect_loop fs version mount_point p r =
    foldl tighter r (map (level_info fs version) (visited_levels mount_point p))"
proof (induction fs version mount_point p r rule: inspect_loop.induct)
  case (1 fs version m p r)
  show ?case
  proof (cases "p = m \<or> parent_path p = p \<or> \<not> is_path_prefix m (parent_path p)")
    case True
    then show ?thesis
      by (subst inspect_loop.simps, subst visited_levels.simps) (auto simp: Let_def)
  next
    case False
    then have "inspect_loop fs version m p r =
        inspect_loop fs version m (parent_path p) (tighter r (level_info fs version p))"
      by (subst inspect_loop.simps) (simp add: Let_def)
    moreover have "visited_levels m p = p # visited_levels m (parent_path p)"
      using False by (subst visited_levels.simps) (simp add: Let_def)
    ultimately show ?thesis using 1 False by simp
  qed
qed

lemma mismatch_rest_prefix: "mismatch_rest (xs @ ys) (xs @ zs) = mismatch_rest ys zs"
  by (induction xs) simp_all

lemma is_path_prefix_iff: "is_path_prefix prefix p \<longleftrightarrow> (\<exists>q. p = prefix @ q)"
proof
  assume "is_path_prefix prefix p"
  then show "\<exists>q. p = prefix @ q"
    by (induction prefix p rule: mismatch_rest.induct)
      (auto simp: is_path_prefix_def split: if_splits)
next
  assume "\<exists>q. p = prefix @ q"
  then show "is_path_prefix prefix p"
    using mismatch_rest_prefix[of prefix "[]"] by (auto simp: is_path_prefix_def)
qed

text \<open>Below an absolute mount point every level down to the leaf is visited, once each.\<close>

lemma visited_levels_chain:
  assumes "has_root m"
  shows "visited_levels m (m @ q) = rev (map (\<lambda>k. m @ take k q) [0..<Suc (length q)])"
proof (induction q rule: rev_induct)
  case Nil
  then show ?case by (subst visited_levels.simps) simp
next
  case (snoc x q)
  have rel: "relative_path (m @ q @ [x]) \<noteq> []"
    using assms by (auto simp: relative_path_def has_root_def neq_Nil_conv)
  then have par: "parent_path (m @ q @ [x]) = m @ q" by (simp add: parent_path_def butlast_append)
  have "visited_levels m (m @ q @ [x]) = (m @ q @ [x]) # visited_levels m (m @ q)"
    using par is_path_prefix_iff[of m "m @ q"] by (subst visited_levels.simps) (simp add: Let_def)
  also have "\<dots> = rev (map (\<lambda>k. m @ take k (q @ [x])) [0..<Suc (length (q @ [x]))])"
    by (simp add: snoc.IH)
  finally show ?case by simp
qed

lemma parse_size_bound: "parse_size s = Some n \<Longrightarrow> n \<le> size_max"
  by (auto simp: parse_size_def Let_def split: if_splits)

lemma level_info_sane:
  assumes "level_info fs version p = Some c"
  shows "cg_working_set c + cg_reclaimable_file c = cg_current c \<and>
    cg_available c = cg_limit c - cg_working_set c \<and> cg_limit c \<le> size_max \<and>
    cg_version c = version \<and> cg_path c = p \<and>
    (version = V1 \<longrightarrow> cg_limit c < (2 ^ 63 - 1) div 2)"
  using assms
  by (auto simp: level_info_def Let_def is_v1_unlimited_def not_le
      dest!: parse_size_bound split: option.splits if_splits)

section \<open>Paths stay below their mount point\<close>

definition plain_name :: "string \<Rightarrow> bool" where
  "plain_name n \<longleftrightarrow> n \<notin> {[], ''.'', ''..'', ''/''}"

text \<open>An absolute path of plain names: what a mount point looks like after normalisation.\<close>

definition plain_absolute :: "path \<Rightarrow> bool" where
  "plain_absolute p \<longleftrightarrow> has_root p \<and> list_all plain_name (tl p)"

lemma normal_names_plain:
  assumes "\<forall>n \<in> set acc. plain_name n" "\<forall>n \<in> set ns. n \<noteq> ''/''"
    and "normal_names True acc tr ns = (names, tr')"
  shows "\<forall>n \<in> set names. plain_name n"
  using assms
proof (induction ns arbitrary: acc tr)
  case (Cons n ns)
  have tl: "\<forall>n \<in> set (tl acc). plain_name n" using Cons.prems(1) by (cases acc) simp_all
  have ns: "\<forall>n \<in> set ns. n \<noteq> ''/''" using Cons.prems(2) by simp
  consider "n = [] \<or> n = ''.''" | "n = ''..''" "ends_open acc" | "n = ''..''" "acc = []"
    | "plain_name n"
    using Cons.prems(1,2) by (cases acc) (auto simp: plain_name_def ends_open_def)
  then show ?case
  proof cases
    case 1
    then show ?thesis using Cons.IH[OF Cons.prems(1) ns] Cons.prems(3) by auto
  next
    case 2
    then show ?thesis using Cons.IH[OF tl ns] Cons.prems(3) by simp
  next
    case 3
    then show ?thesis using Cons.IH[of "[]", OF _ ns] Cons.prems(3) by (simp add: ends_open_def)
  next
    case 4
    then have "normal_names True (n # acc) False ns = (names, tr')"
      using Cons.prems(3) by (auto simp: plain_name_def)
    then show ?thesis using Cons.IH[of "n # acc", OF _ ns] Cons.prems(1) 4 by simp
  qed
qed auto

lemma normal_names_keep:
  assumes "list_all plain_name ns"
  shows "normal_names r acc tr (ns @ rest) = normal_names r (rev ns @ acc) (if ns = [] then tr else False) rest"
  using assms by (induction ns arbitrary: acc tr) (auto simp: plain_name_def)

text \<open>Appending plain names, with or without a trailing separator, to such a path.\<close>

lemma append_plain_below:
  assumes m: "plain_absolute m" and q: "list_all plain_name q" and tr: "rest \<in> {[], [[]]}"
  shows "is_path_prefix m (lexically_normal (path_append m (q @ rest)))"
proof -
  obtain ms where ms: "m = ''/'' # ms" "list_all plain_name ms"
    using m by (auto simp: plain_absolute_def has_root_def neq_Nil_conv)
  have lastm: "last m \<noteq> []" using ms by (cases ms rule: rev_cases) (auto simp: plain_name_def)
  have noroot: "\<not> has_root (q @ rest)" using q tr by (cases q) (auto simp: has_root_def plain_name_def)
  obtain x where x: "path_append m (q @ rest) = m @ q @ x" "x \<in> {[], [[]]}"
    using lastm noroot tr ms
    by (cases "q @ rest = []"; cases "ms = []") (auto simp: path_append_def Let_def)
  have "\<exists>tr'. normal_names True [] False (ms @ q @ x) = (ms @ q, tr')"
    using normal_names_keep[of "ms @ q" True "[]" False x] ms q x(2) by auto
  then obtain tr' where "normal_names True [] False (ms @ q @ x) = (ms @ q, tr')" by blast
  then have "lexically_normal (m @ q @ x) = m @ q @ (if tr' then [[]] else [])"
    using ms by (simp add: lexically_normal_def has_root_def relative_path_def)
  then show ?thesis using x by (simp add: is_path_prefix_iff)
qed

lemma normal_absolute_shape:
  assumes "has_root p" "\<forall>n \<in> set (tl p). n \<noteq> ''/''"
  shows "\<exists>names rest. lexically_normal p = ''/'' # names @ rest \<and> list_all plain_name names \<and>
    rest \<in> {[], [[]]}"
proof -
  obtain names tr where n: "normal_names True [] False (tl p) = (names, tr)" by fastforce
  have "list_all plain_name names"
    using normal_names_plain[OF _ assms(2) n] by (simp add: list_all_iff)
  moreover have "p \<noteq> []" using assms(1) by (simp add: has_root_def)
  ultimately show ?thesis
    using assms(1) n by (auto simp: lexically_normal_def relative_path_def)
qed

lemma mismatch_rest_suffix: "mismatch_rest p base = (a, b) \<Longrightarrow> \<exists>c. p = c @ a"
proof (induction p base rule: mismatch_rest.induct)
  case (1 x xs y ys)
  then show ?case by (auto split: if_splits)
qed auto

lemma resolve_below:
  assumes m: "has_root (cm_path mem)" "\<forall>n \<in> set (tl (cm_path mem)). n \<noteq> ''/''"
    and mp: "plain_absolute (mt_point mt)" and r: "resolve_cgroup_path mem mt = Some p"
  shows "is_path_prefix (mt_point mt) p"
proof -
  obtain names rest where n: "lexically_normal (cm_path mem) = ''/'' # names @ rest"
      "list_all plain_name names" "rest \<in> {[], [[]]}"
    using normal_absolute_shape[OF m] by blast
  let ?mp = "lexically_normal (cm_path mem)"
  have self: "is_path_prefix (mt_point mt) (mt_point mt)" by (simp add: is_path_prefix_iff)
  show ?thesis
  proof (cases "is_path_prefix (mt_root mt) ?mp")
    case False
    have "relative_path ?mp = names @ rest" using n by (simp add: relative_path_def has_root_def)
    then have "p = lexically_normal (path_append (mt_point mt) (names @ rest))"
      using r False by (auto simp: resolve_cgroup_path_def Let_def split: if_splits)
    then show ?thesis using append_plain_below[OF mp n(2,3)] by simp
  next
    case True
    then obtain q where q: "?mp = mt_root mt @ q" by (auto simp: is_path_prefix_iff)
    let ?rel = "lexically_relative ?mp (mt_root mt)"
    have pq: "?rel \<noteq> []" "p = (if ?rel = [''.''] then mt_point mt
        else lexically_normal (path_append (mt_point mt) ?rel))"
      using r True by (auto simp: resolve_cgroup_path_def Let_def split: if_splits)
    have root: "has_root (mt_root mt)"
      using pq(1) n by (auto simp: lexically_relative_def has_root_def split: if_splits)
    then obtain ms where ms: "mt_root mt = ''/'' # ms" by (auto simp: has_root_def neq_Nil_conv)
    have "mismatch_rest ?mp (mt_root mt) = (q, [])"
      using mismatch_rest_prefix[of "mt_root mt" q "[]"] q by (cases q) auto
    then have rel: "?rel = (if q = [] \<or> hd q = [] then [''.''] else q)"
      using n root by (simp add: lexically_relative_def has_root_def)
    show ?thesis
    proof (cases "q = [] \<or> hd q = []")
      case True
      then show ?thesis using rel pq(2) self by simp
    next
      case False
      have "names @ rest = ms @ q" using n(1) ms q by simp
      then obtain q' where "q = q' @ rest" "list_all plain_name q'"
        using n(2,3) False
        by (auto simp: append_eq_append_conv2 Cons_eq_append_conv append_eq_Cons_conv)
      moreover have "?rel \<noteq> [''.'']"
        using rel False calculation n(3) by (cases q') (auto simp: plain_name_def)
      ultimately show ?thesis using pq(2) rel False append_plain_below[OF mp _ n(3)] by auto
    qed
  qed
qed

lemma path_of_shape:
  "\<forall>n \<in> set (tl (path_of s)). n \<noteq> ''/''"
  "s \<noteq> [] \<Longrightarrow> hd s = CHR ''/'' \<Longrightarrow> has_root (path_of s)"
proof -
  have parts: "\<forall>n \<in> set (split_slash acc s). CHR ''/'' \<in> set n \<longrightarrow> CHR ''/'' \<in> set acc" for acc s
    by (induction acc s rule: split_slash.induct) auto
  then have no: "\<forall>n \<in> set (split_slash [] s). n \<noteq> ''/''" for s by fastforce
  show "\<forall>n \<in> set (tl (path_of s)). n \<noteq> ''/''"
    using no[of s] by (cases "filter (\<lambda>n. n \<noteq> []) (split_slash [] s)")
      (auto simp: path_of_def Let_def dest!: list.set_sel(2) filter_eq_ConsD)
  show "s \<noteq> [] \<Longrightarrow> hd s = CHR ''/'' \<Longrightarrow> has_root (path_of s)"
    by (simp add: path_of_def has_root_def Let_def)
qed

lemma membership_path_absolute:
  assumes "m \<in> set (parse_cgroup_memberships fs p)"
  shows "has_root (cm_path m)" "\<forall>n \<in> set (tl (cm_path m)). n \<noteq> ''/''"
proof -
  obtain line where "parse_membership_line line = Some m"
    using assms by (auto simp: parse_cgroup_memberships_def map_filter_def)
  then obtain s where "cm_path m = path_of s" "s \<noteq> []" "hd s = CHR ''/''"
    by (auto simp: parse_membership_line_def Let_def split: if_splits)
  then show "has_root (cm_path m)" "\<forall>n \<in> set (tl (cm_path m)). n \<noteq> ''/''"
    using path_of_shape by auto
qed

section \<open>Text encodings\<close>

text \<open>How the kernel writes a mount path: these characters as three octal digits.\<close>

definition octal_escape :: "char \<Rightarrow> string" where
  "octal_escape c =
     (if c \<in> {CHR '' '', CHR 0x09, CHR 0x0A, CHR 0x5C}
      then [CHR 0x5C, char_of (48 + of_char c div 64 :: nat), char_of (48 + of_char c div 8 mod 8 :: nat),
            char_of (48 + of_char c mod 8 :: nat)]
      else [c])"

lemma unescape_other: "c \<noteq> CHR 0x5C \<Longrightarrow> unescape_mount_path (c # cs) = c # unescape_mount_path cs"
  by (cases "c # cs" rule: unescape_mount_path.cases) auto

lemma octal_escapes:
  "octal_escape (CHR '' '') = [CHR 0x5C, CHR ''0'', CHR ''4'', CHR ''0'']"
  "octal_escape (CHR 0x09) = [CHR 0x5C, CHR ''0'', CHR ''1'', CHR ''1'']"
  "octal_escape (CHR 0x0A) = [CHR 0x5C, CHR ''0'', CHR ''1'', CHR ''2'']"
  "octal_escape (CHR 0x5C) = [CHR 0x5C, CHR ''1'', CHR ''3'', CHR ''4'']"
  by code_simp+

lemma char_of_codes:
  "char_of (32 :: nat) = CHR '' ''" "char_of (9 :: nat) = CHR 0x09"
  "char_of (10 :: nat) = CHR 0x0A" "char_of (92 :: nat) = CHR 0x5C"
  by code_simp+

lemma unescape_octal_escape:
  "unescape_mount_path (octal_escape c @ cs) = c # unescape_mount_path cs"
proof (cases "c \<in> {CHR '' '', CHR 0x09, CHR 0x0A, CHR 0x5C}")
  case True
  then consider "c = CHR '' ''" | "c = CHR 0x09" | "c = CHR 0x0A" | "c = CHR 0x5C" by blast
  then show ?thesis
    by cases (simp_all add: octal_escapes, simp_all add: is_octal_def digit_val_def char_of_codes)
next
  case False
  then show ?thesis by (simp add: octal_escape_def unescape_other)
qed

lemma digit_not_space: "is_digit c \<Longrightarrow> \<not> is_space c"
  by (auto simp: is_space_def is_digit_def)

lemma trim_pad:
  assumes "list_all is_space l" "list_all is_space r" "s \<noteq> []" "\<not> is_space (hd s)" "\<not> is_space (last s)"
  shows "trim (l @ s @ r) = s"
proof -
  have dw: "dropWhile is_space (l @ xs) = dropWhile is_space xs" if "list_all is_space l" for l xs
    using that by (induction l) auto
  have keep: "xs \<noteq> [] \<Longrightarrow> \<not> is_space (hd xs) \<Longrightarrow> dropWhile is_space (xs @ ys) = xs @ ys" for xs ys
    by (cases xs) auto
  have "dropWhile is_space (l @ s @ r) = s @ r" using dw[OF assms(1)] keep assms(3,4) by simp
  moreover have "dropWhile is_space (rev (s @ r)) = rev s"
    using dw[of "rev r" "rev s"] keep[of "rev s" "[]"] assms by (simp add: hd_rev list_all_iff)
  ultimately show ?thesis by (simp add: trim_def)
qed

lemma cgroup_info_folds:
  "get_cgroup_memory_info fs pc pm = foldl tighter None
    (concat (map (\<lambda>m. map (cgroup_candidate fs m) (parse_cgroup_mounts fs pm)) (parse_cgroup_memberships fs pc)))"
  "tightest.least_of (get_cgroup_memory_info fs pc pm)
    (concat (map (\<lambda>m. map (cgroup_candidate fs m) (parse_cgroup_mounts fs pm)) (parse_cgroup_memberships fs pc)))"
proof -
  show f: "get_cgroup_memory_info fs pc pm = foldl tighter None
    (concat (map (\<lambda>m. map (cgroup_candidate fs m) (parse_cgroup_mounts fs pm)) (parse_cgroup_memberships fs pc)))"
    unfolding get_cgroup_memory_info_def Let_def by (rule tightest.foldl_foldl)
  show "tightest.least_of (get_cgroup_memory_info fs pc pm)
    (concat (map (\<lambda>m. map (cgroup_candidate fs m) (parse_cgroup_mounts fs pm)) (parse_cgroup_memberships fs pc)))"
    unfolding f by (rule tightest.least_of_start)
qed

lemma cgroup_info_sane:
  assumes "get_cgroup_memory_info fs pc pm = Some b"
  shows "cg_available b = cg_limit b - cg_working_set b"
proof -
  obtain m mt where "cgroup_candidate fs m mt = Some b"
    using cgroup_info_folds(2)[of fs pc pm] assms by (auto simp: tightest.least_of_def)
  then obtain p where p: "foldl tighter None (map (level_info fs (cm_version m))
      (visited_levels (mt_point mt) p)) = Some b"
    by (auto simp: cgroup_candidate_def inspect_cgroup_hierarchy_def inspect_loop_foldl
        split: option.splits if_splits)
  have "Some b \<in> set (map (level_info fs (cm_version m)) (visited_levels (mt_point mt) p))"
    using tightest.least_of_start[of "map (level_info fs (cm_version m)) (visited_levels (mt_point mt) p)"]
    unfolding p by (simp add: tightest.least_of_def)
  then show ?thesis using level_info_sane by (metis (no_types, lifting) image_iff list.set_map)
qed

section \<open>Properties\<close>

text \<open>
  What a control group says, stated without the loop: its limit, a number that is not the version 1 sentinel
  for no limit, its usage, and the part of the usage that is file cache the kernel can take back. A control
  group is visible if it is on the way from the resolved path of a membership up to the mount point.
\<close>

definition level_figures :: "filesys \<Rightarrow> cgroup_version \<Rightarrow> path \<Rightarrow> nat \<times> nat \<times> nat \<Rightarrow> bool" where
  "level_figures fs v l = (\<lambda>(limit, usage, reclaimable). \<exists>lt ct.
     read_first_token fs (path_append l [if v = V2 then ''memory.max'' else ''memory.limit_in_bytes'']) = Some lt \<and> lt \<noteq> ''max'' \<and>
     read_first_token fs (path_append l [if v = V2 then ''memory.current'' else ''memory.usage_in_bytes'']) = Some ct \<and>
     parse_size lt = Some limit \<and> parse_size ct = Some usage \<and> \<not> (v = V1 \<and> is_v1_unlimited limit) \<and>
     reclaimable = min usage (get_reclaimable_file_memory fs l v))"

definition visible_figures :: "filesys \<Rightarrow> path \<Rightarrow> path \<Rightarrow> (nat \<times> nat \<times> nat) set" where
  "visible_figures fs pc pm = {x. \<exists>m \<in> set (parse_cgroup_memberships fs pc). \<exists>mt \<in> set (parse_cgroup_mounts fs pm). \<exists>p l.
     resolve_cgroup_path m mt = Some p \<and> is_path_prefix (mt_point mt) p \<and> l \<in> set (visited_levels (mt_point mt) p) \<and>
     level_figures fs (cm_version m) l x}"

definition headroom :: "nat \<times> nat \<times> nat \<Rightarrow> nat" where
  "headroom = (\<lambda>(limit, usage, reclaimable). limit - (usage - reclaimable))"

definition info_figures :: "cgroup_memory_info \<Rightarrow> nat \<times> nat \<times> nat" where
  "info_figures c = (cg_limit c, cg_current c, cg_reclaimable_file c)"

lemma level_info_figures:
  "level_figures fs v l x \<longleftrightarrow> (\<exists>c. level_info fs v l = Some c \<and> info_figures c = x)"
  by (cases x) (auto simp: level_figures_def level_info_def info_figures_def Let_def split: option.splits)

lemma level_info_headroom:
  "level_info fs v l = Some c \<Longrightarrow> cg_available c = headroom (info_figures c) \<and> cg_working_set c = cg_current c - cg_reclaimable_file c"
  using level_info_sane[of fs v l c] by (auto simp: headroom_def info_figures_def)

lemma candidate_least:
  assumes "resolve_cgroup_path m mt = Some p" "is_path_prefix (mt_point mt) p"
  shows "tightest.least_of (cgroup_candidate fs m mt) (map (level_info fs (cm_version m)) (visited_levels (mt_point mt) p))"
  using assms tightest.least_of_start
  by (simp add: cgroup_candidate_def inspect_cgroup_hierarchy_def inspect_loop_foldl)

text \<open>The choice over all hierarchies is a least visible level.\<close>

lemma cgroup_info_attained:
  assumes "get_cgroup_memory_info fs pc pm = Some b"
  shows "info_figures b \<in> visible_figures fs pc pm" "cg_available b = headroom (info_figures b)" "cg_working_set b = cg_current b - cg_reclaimable_file b"
proof -
  obtain m mt where m: "m \<in> set (parse_cgroup_memberships fs pc)" "mt \<in> set (parse_cgroup_mounts fs pm)" "cgroup_candidate fs m mt = Some b"
    using cgroup_info_folds(2)[of fs pc pm] assms by (auto simp: tightest.least_of_def)
  then obtain p where p: "resolve_cgroup_path m mt = Some p" "is_path_prefix (mt_point mt) p"
    by (auto simp: cgroup_candidate_def inspect_cgroup_hierarchy_def split: option.splits if_splits)
  obtain l where l: "l \<in> set (visited_levels (mt_point mt) p)" "level_info fs (cm_version m) l = Some b"
    using candidate_least[OF p, of fs] m(3) by (auto simp: tightest.least_of_def)
  show "info_figures b \<in> visible_figures fs pc pm"
    using m(1,2) p l level_info_figures unfolding visible_figures_def by blast
  show "cg_available b = headroom (info_figures b)" "cg_working_set b = cg_current b - cg_reclaimable_file b"
    using level_info_headroom[OF l(2)] by simp_all
qed

lemma cgroup_info_least:
  assumes "x \<in> visible_figures fs pc pm"
  shows "\<exists>b. get_cgroup_memory_info fs pc pm = Some b \<and> cg_available b \<le> headroom x"
proof -
  obtain m mt p l where m: "m \<in> set (parse_cgroup_memberships fs pc)" "mt \<in> set (parse_cgroup_mounts fs pm)"
    and p: "resolve_cgroup_path m mt = Some p" "is_path_prefix (mt_point mt) p"
    and l: "l \<in> set (visited_levels (mt_point mt) p)" "level_figures fs (cm_version m) l x"
    using assms by (auto simp: visible_figures_def)
  obtain c where c: "level_info fs (cm_version m) l = Some c" "info_figures c = x" using l(2) level_info_figures by blast
  then have "Some c \<in> set (map (level_info fs (cm_version m)) (visited_levels (mt_point mt) p))" using l(1) by force
  then obtain d where d: "cgroup_candidate fs m mt = Some d" "cg_available d \<le> cg_available c"
    using candidate_least[OF p, of fs] by (auto simp: tightest.least_of_def split: option.splits)
  have "Some d \<in> set (concat (map (\<lambda>m. map (cgroup_candidate fs m) (parse_cgroup_mounts fs pm)) (parse_cgroup_memberships fs pc)))"
    using m d(1) by force
  then show ?thesis
    using cgroup_info_folds(2)[of fs pc pm] d(2) level_info_headroom[OF c(1)] c(2)
    by (auto simp: tightest.least_of_def split: option.splits intro: order_trans)
qed

text \<open>
  C18: The effective memory is the least of the host-wide figure and the headroom (limit less the part of the
  usage that cannot be taken back) of every visible control group, and it is attained: without a visible limit
  it is the host-wide figure and no control group is reported; otherwise the limit, usage, reclaimable part and
  working set reported are those of a visible control group with the least headroom.
\<close>

theorem host_memory_is_tightest:
  assumes "get_host_memory_info fs pc pm = Inr info"
  shows "get_system_available_memory fs = Inr (hi_system_available info) \<and>
    (visible_figures fs pc pm = {} \<longrightarrow> hi_available info = hi_system_available info \<and> hi_cgroup_limit info = None \<and>
       hi_cgroup_current info = None \<and> hi_cgroup_reclaimable_file info = None \<and> hi_cgroup_working_set info = None) \<and>
    (visible_figures fs pc pm \<noteq> {} \<longrightarrow> (\<exists>limit usage reclaimable. (limit, usage, reclaimable) \<in> visible_figures fs pc pm \<and>
       (\<forall>x \<in> visible_figures fs pc pm. headroom (limit, usage, reclaimable) \<le> headroom x) \<and>
       hi_cgroup_limit info = Some limit \<and> hi_cgroup_current info = Some usage \<and> hi_cgroup_reclaimable_file info = Some reclaimable \<and>
       hi_cgroup_working_set info = Some (usage - reclaimable) \<and>
       hi_available info = min (hi_system_available info) (limit - (usage - reclaimable))))"
proof (cases "get_cgroup_memory_info fs pc pm")
  case None
  then have "visible_figures fs pc pm = {}" using cgroup_info_least by fastforce
  then show ?thesis using assms None by (auto simp: get_host_memory_info_def res_simps)
next
  case (Some b)
  note at = cgroup_info_attained[OF Some]
  have least: "\<forall>x \<in> visible_figures fs pc pm. headroom (info_figures b) \<le> headroom x"
    using cgroup_info_least[of _ fs pc pm] Some at(2) by fastforce
  show ?thesis
    using assms Some at least
    by (auto simp: get_host_memory_info_def res_simps info_figures_def headroom_def)
qed

text \<open>
  C22: Every visible level is inspected: below an absolute mount point the walk visits the resolved
  path, all its ancestors and the mount point itself, each once.
\<close>

theorem hierarchy_walk_complete:
  assumes "has_root m"
  shows "visited_levels m (m @ q) = rev (map (\<lambda>k. m @ take k q) [0..<Suc (length q)]) \<and>
    inspect_cgroup_hierarchy fs v (m @ q) m =
      foldl tighter None (map (level_info fs v) (rev (map (\<lambda>k. m @ take k q) [0..<Suc (length q)])))"
  using visited_levels_chain[OF assms, of q] is_path_prefix_iff[of m "m @ q"]
  by (simp add: inspect_cgroup_hierarchy_def inspect_loop_foldl)

text \<open>
  C23: A cgroup path read from \<^verbatim>\<open>/proc/self/cgroup\<close> never resolves outside the mount point it is
  resolved against, whatever dots it contains, so the inspection never leaves the mounted hierarchy.
\<close>

theorem resolved_path_below_mount:
  assumes "m \<in> set (parse_cgroup_memberships fs pc)" and "plain_absolute (mt_point mt)"
    and "resolve_cgroup_path m mt = Some p"
  shows "is_path_prefix (mt_point mt) p"
  using resolve_below[OF membership_path_absolute[OF assms(1)] assms(2,3)] .

text \<open>
  The free memory returned is positive and the smaller of the two figures; the call fails
  exactly when the system figure cannot be read or no memory is left.
\<close>

theorem free_host_memory_cases:
  "get_free_host_memory fs pc pm =
    (case get_host_memory_info fs pc pm of Inl e \<Rightarrow> Inl e
     | Inr info \<Rightarrow> if hi_available info = 0 then Inl NoHostMemory
         else Inr (min (hi_system_available info)
           (case get_cgroup_memory_info fs pc pm of None \<Rightarrow> hi_system_available info
            | Some c \<Rightarrow> cg_limit c - cg_working_set c)))"
proof (cases "get_host_memory_info fs pc pm")
  case (Inr info)
  show ?thesis
  proof (cases "get_cgroup_memory_info fs pc pm")
    case None
    then have "hi_available info = hi_system_available info"
      using Inr by (auto simp: get_host_memory_info_def res_simps)
    then show ?thesis using Inr None by (simp add: get_free_host_memory_def res_simps)
  next
    case (Some c)
    have "hi_available info = min (hi_system_available info) (cg_limit c - cg_working_set c)"
      using Inr Some cgroup_info_sane[OF Some] by (auto simp: get_host_memory_info_def res_simps)
    then show ?thesis using Inr Some by (simp add: get_free_host_memory_def res_simps)
  qed
qed (simp add: get_free_host_memory_def)

text \<open>
  A size written in decimal, with any spaces around it, parses back to itself, and to nothing
  if it does not fit a \<open>size_t\<close>.
\<close>

theorem parse_size_decimal:
  assumes "list_all is_space l" and "list_all is_space r"
  shows "parse_size (l @ decimal n @ r) = (if n \<le> size_max then Some n else None)"
proof -
  note d = decimal_digits[of n]
  have "is_digit (hd (decimal n))" "is_digit (last (decimal n))"
    using d by (auto simp: list_all_iff)
  then have "trim (l @ decimal n @ r) = decimal n"
    using d by (intro trim_pad assms) (auto dest: digit_not_space)
  then show ?thesis using d by (simp add: parse_size_def Let_def not_le)
qed

text \<open>
  Mount paths are read back exactly as the kernel escaped them.
\<close>

theorem unescape_escaped_path: "unescape_mount_path (concat (map octal_escape s)) = s"
  by (induction s) (simp_all add: unescape_octal_escape)

section \<open>The properties on a concrete machine\<close>

text \<open>
  A machine with 4 GB available, on which the process is in the cgroup \<^verbatim>\<open>/a/b\<close>: the leaf has no
  limit, its parent limits it to one million bytes.
\<close>

definition demo_fs :: filesys where
  "demo_fs = map_of
     [(path_of ''/proc/meminfo'',
        ''MemTotal: 9000 kB'' @ [CHR 0x0A] @ ''MemAvailable:    4000 kB'' @ [CHR 0x0A]),
      (path_of ''/proc/self/cgroup'', ''0::/a/b'' @ [CHR 0x0A]),
      (path_of ''/proc/self/mountinfo'',
        ''30 23 0:26 / /sys/fs/cgroup rw - cgroup2 cgroup2 rw'' @ [CHR 0x0A]),
      (path_of ''/sys/fs/cgroup/a/b/memory.max'', ''max''),
      (path_of ''/sys/fs/cgroup/a/memory.max'', ''1000000''),
      (path_of ''/sys/fs/cgroup/a/b/memory.current'', ''100''),
      (path_of ''/sys/fs/cgroup/a/memory.current'', ''900000''),
      (path_of ''/sys/fs/cgroup/a/memory.stat'', ''file 300000'' @ [CHR 0x0A] @ ''file_dirty 1'')]"

abbreviation demo_cgroup :: path where "demo_cgroup \<equiv> path_of ''/proc/self/cgroup''"
abbreviation demo_mountinfo :: path where "demo_mountinfo \<equiv> path_of ''/proc/self/mountinfo''"

definition demo_membership :: cgroup_membership where
  "demo_membership = hd (parse_cgroup_memberships demo_fs demo_cgroup)"

definition demo_mount :: cgroup_mount where
  "demo_mount = hd (parse_cgroup_mounts demo_fs demo_mountinfo)"

lemma host_memory_is_tightest_witness:
  "\<exists>info. get_host_memory_info demo_fs demo_cgroup demo_mountinfo = Inr info \<and>
     hi_available info = 399999 \<and> (1000000, 900000, 299999) \<in> visible_figures demo_fs demo_cgroup demo_mountinfo \<and>
     (\<forall>x \<in> visible_figures demo_fs demo_cgroup demo_mountinfo. 399999 \<le> headroom x)"
proof -
  have run: "get_host_memory_info demo_fs demo_cgroup demo_mountinfo =
      Inr \<lparr>hi_system_available = 4096000, hi_available = 399999, hi_cgroup_limit = Some 1000000,
        hi_cgroup_current = Some 900000, hi_cgroup_reclaimable_file = Some 299999,
        hi_cgroup_working_set = Some 600001\<rparr>"
    by code_simp
  show ?thesis using run host_memory_is_tightest[OF run] by (auto simp: headroom_def)
qed

lemma hierarchy_walk_complete_witness:
  "visited_levels [''/'', ''sys''] [''/'', ''sys'', ''a'', ''b''] =
    [[''/'', ''sys'', ''a'', ''b''], [''/'', ''sys'', ''a''], [''/'', ''sys'']]"
  using hierarchy_walk_complete[of "[''/'', ''sys'']" "[''a'', ''b'']" "\<lambda>_. None" V2]
  by (simp add: has_root_def)

lemma resolved_path_below_mount_witness:
  "resolve_cgroup_path demo_membership demo_mount = Some (path_of ''/sys/fs/cgroup/a/b'') \<and>
   is_path_prefix (mt_point demo_mount) (path_of ''/sys/fs/cgroup/a/b'')"
proof -
  have m: "demo_membership \<in> set (parse_cgroup_memberships demo_fs demo_cgroup)" by code_simp
  have p: "plain_absolute (mt_point demo_mount)" by code_simp
  have r: "resolve_cgroup_path demo_membership demo_mount = Some (path_of ''/sys/fs/cgroup/a/b'')"
    by code_simp
  show ?thesis using r resolved_path_below_mount[OF m p r] by simp
qed

lemma parse_size_decimal_witness:
  "parse_size ('' '' @ decimal 4096 @ [CHR 0x0A]) = Some 4096"
  using parse_size_decimal[of "'' ''" "[CHR 0x0A]" 4096] by (simp add: is_space_def)

end
