(* ===== verification/FileIO.thy ===== *)
theory FileIO imports Prelude begin

text \<open>
  Positional file transfers (\<^verbatim>\<open>cpp/src/util/file_io.cpp\<close>, first half, and the choice of the
  handle in \<^verbatim>\<open>cpp/src/util/kvikio_io.hpp\<close>): the \<^verbatim>\<open>pread\<close>/\<^verbatim>\<open>pwrite\<close> loops with their
  interrupted and short transfers, the check that a path still names the open file, and the two
  public transfer functions.

  The operating system is a record: what \<^verbatim>\<open>fstat\<close> answers for a descriptor, and the contents of
  each file by its identity (device and inode). A system call's outcome is not the program's
  choice, so the loops take a script of outcomes; a script that ends before the loop does gives
  \<open>None\<close>. The library kvikio is not part of the repository: its opening and transfer functions are
  the fields of the record \<open>kvikio\<close>, an argument of every definition that calls them.
\<close>

section \<open>The operating system\<close>

type_synonym identity = "nat \<times> nat" \<comment> \<open>\<^verbatim>\<open>st_dev\<close> and \<^verbatim>\<open>st_ino\<close>\<close>

record os =
  os_fstat :: "int \<Rightarrow> identity option"
  os_contents :: "identity \<Rightarrow> bytes"

datatype syscall = Interrupted | Failed | Transferred nat

text \<open>\<^verbatim>\<open>pread\<close> and \<^verbatim>\<open>pwrite\<close> on the contents: a write behind the end leaves zeros in between.\<close>

definition os_pread :: "bytes \<Rightarrow> nat \<Rightarrow> nat \<Rightarrow> bytes" where
  "os_pread fc off n = take n (drop off fc)"

definition os_pwrite :: "bytes \<Rightarrow> nat \<Rightarrow> bytes \<Rightarrow> bytes" where
  "os_pwrite fc off data =
     (if data = [] then fc
      else overwrite (fc @ replicate (off - length fc) 0) off data)"

datatype io_error =
    OffsetOverflow | OffsetRange | ReadFailed | IncompleteRead | WriteFailed | IncompleteWrite
  | ZeroBytes | NullPointer | InvalidDescriptor | NotHostMemory | StatFailed | NotOpened
  | IdentityChanged | OpenFailed | KvikioFailed | ShortRead | ShortWrite | StreamClosed
  | BufferTooBig | StreamRange | NoPosition | SeekFailed

section \<open>The POSIX loops\<close>

definition kPosixTransferSize :: nat where
  "kPosixTransferSize = 2 ^ 30"

definition checked_posix_offset :: "nat \<Rightarrow> nat \<Rightarrow> io_error + nat" where
  "checked_posix_offset file_offset buffer_offset =
     bind_r (expects (buffer_offset \<le> size_max - file_offset) OffsetOverflow) (\<lambda>_.
       let position = file_offset + buffer_offset in
       bind_r (expects (position \<le> off_max) OffsetRange) (\<lambda>_. Inr position))"

text \<open>\<open>dest\<close> holds the bytes already read: its length is the loop's \<^verbatim>\<open>bytes_read\<close>.\<close>

fun read_large_file_posix :: "bytes \<Rightarrow> nat \<Rightarrow> nat \<Rightarrow> bytes \<Rightarrow> syscall list \<Rightarrow> (io_error + bytes) option" where
  "read_large_file_posix fc file_offset total_bytes dest script =
     (if total_bytes \<le> length dest then Some (Inr dest)
      else let chunk_size = min kPosixTransferSize (total_bytes - length dest) in
        (case checked_posix_offset file_offset (length dest) of
           Inl e \<Rightarrow> Some (Inl e)
         | Inr position \<Rightarrow>
             (case script of
                [] \<Rightarrow> None
              | Interrupted # rest \<Rightarrow> read_large_file_posix fc file_offset total_bytes dest rest
              | Failed # rest \<Rightarrow> Some (Inl ReadFailed)
              | Transferred n # rest \<Rightarrow>
                  let got = os_pread fc position (min n chunk_size) in
                  if got = [] then Some (Inl IncompleteRead)
                  else read_large_file_posix fc file_offset total_bytes (dest @ got) rest)))"

fun write_large_file_posix :: "bytes \<Rightarrow> bytes \<Rightarrow> nat \<Rightarrow> nat \<Rightarrow> syscall list \<Rightarrow>
    (io_error + unit) option \<times> bytes" where
  "write_large_file_posix fc data file_offset bytes_written script =
     (if length data \<le> bytes_written then (Some (Inr ()), fc)
      else let chunk_size = min kPosixTransferSize (length data - bytes_written) in
        (case checked_posix_offset file_offset bytes_written of
           Inl e \<Rightarrow> (Some (Inl e), fc)
         | Inr position \<Rightarrow>
             (case script of
                [] \<Rightarrow> (None, fc)
              | Interrupted # rest \<Rightarrow> write_large_file_posix fc data file_offset bytes_written rest
              | Failed # rest \<Rightarrow> (Some (Inl WriteFailed), fc)
              | Transferred n # rest \<Rightarrow>
                  let done_now = min n chunk_size in
                  if done_now = 0 then (Some (Inl IncompleteWrite), fc)
                  else write_large_file_posix
                    (os_pwrite fc position (take done_now (drop bytes_written data)))
                    data file_offset (bytes_written + done_now) rest)))"

declare read_large_file_posix.simps [simp del] write_large_file_posix.simps [simp del]

section \<open>The path still names the open file\<close>

record handle =
  h_buffered :: int
  h_direct :: int

definition get_file_identity :: "os \<Rightarrow> int \<Rightarrow> io_error + identity" where
  "get_file_identity os fd =
     (case os_fstat os fd of None \<Rightarrow> Inl StatFailed | Some i \<Rightarrow> Inr i)"

definition expect_matching_file_identity :: "os \<Rightarrow> identity \<Rightarrow> int \<Rightarrow> io_error + unit" where
  "expect_matching_file_identity os expected actual_fd =
     bind_r (expects (0 \<le> actual_fd) NotOpened) (\<lambda>_.
     bind_r (get_file_identity os actual_fd) (\<lambda>actual.
       expects (fst actual = fst expected \<and> snd actual = snd expected) IdentityChanged))"

text \<open>The common tail of the two validations: the buffered descriptor, then the direct one.\<close>

definition validate_handle :: "os \<Rightarrow> identity \<Rightarrow> handle \<Rightarrow> io_error + unit" where
  "validate_handle os expected h =
     bind_r (expect_matching_file_identity os expected (h_buffered h)) (\<lambda>_.
       if 0 \<le> h_direct h \<and> h_direct h \<noteq> h_buffered h
       then expect_matching_file_identity os expected (h_direct h) else Inr ())"

definition validate_kvikio_handle_matches_fd :: "os \<Rightarrow> int \<Rightarrow> handle \<Rightarrow> io_error + unit" where
  "validate_kvikio_handle_matches_fd os fd h =
     bind_r (get_file_identity os fd) (\<lambda>expected. validate_handle os expected h)"

definition validate_kvikio_handles_match :: "os \<Rightarrow> handle \<Rightarrow> handle \<Rightarrow> io_error + unit" where
  "validate_kvikio_handles_match os expected actual =
     bind_r (get_file_identity os (h_buffered expected)) (\<lambda>i. validate_handle os i actual)"

section \<open>kvikio, and the choice of its mode\<close>

text \<open>
  \<open>kv_open\<close> opens an existing file with the given flags, \<open>kv_open_off\<close> with compatibility mode off, and
  \<open>kv_create\<close> is the opening with the flag \<^verbatim>\<open>"w"\<close>, which creates or truncates. The table \<open>os_fstat\<close>
  already answers for the descriptors that an opening will return.
  \<open>kv_pread os h size off\<close> is the buffer filled, or \<open>None\<close> when the future throws;
  \<open>kv_pwrite os h data off\<close> is the system afterwards and the count of bytes, or no count when it
  throws.
\<close>

record kvikio =
  kv_open :: "os \<Rightarrow> string \<Rightarrow> string \<Rightarrow> handle option"
  kv_open_off :: "os \<Rightarrow> string \<Rightarrow> string \<Rightarrow> handle option"
  kv_create :: "os \<Rightarrow> string \<Rightarrow> (handle \<times> os) option"
  kv_pread :: "os \<Rightarrow> handle \<Rightarrow> nat \<Rightarrow> nat \<Rightarrow> bytes option"
  kv_pwrite :: "os \<Rightarrow> handle \<Rightarrow> bytes \<Rightarrow> nat \<Rightarrow> os \<times> nat option"

datatype memory_space = HostMem | DeviceMem

definition is_kvikio_device_memory :: "memory_space option \<Rightarrow> bool" where
  "is_kvikio_device_memory p \<longleftrightarrow> p = Some DeviceMem"

definition kv_open_checked :: "kvikio \<Rightarrow> os \<Rightarrow> string \<Rightarrow> string \<Rightarrow> io_error + handle" where
  "kv_open_checked kv os path flags =
     (case kv_open kv os path flags of None \<Rightarrow> Inl OpenFailed | Some h \<Rightarrow> Inr h)"

definition open_kvikio_file_for_device_io :: "kvikio \<Rightarrow> os \<Rightarrow> string \<Rightarrow> string \<Rightarrow> io_error + handle" where
  "open_kvikio_file_for_device_io kv os path flags =
     (case kv_open_off kv os path flags of
        Some h \<Rightarrow> Inr h
      | None \<Rightarrow> kv_open_checked kv os path flags)"

definition open_kvikio_file_for_ace_io :: "kvikio \<Rightarrow> os \<Rightarrow> string \<Rightarrow> string \<Rightarrow> memory_space option \<Rightarrow>
    io_error + handle" where
  "open_kvikio_file_for_ace_io kv os path flags buffer =
     (if \<not> is_kvikio_device_memory buffer then kv_open_checked kv os path flags
      else open_kvikio_file_for_device_io kv os path flags)"

section \<open>The two transfer functions\<close>

record file_descriptor =
  fd_num :: int
  fd_path :: string

definition is_valid :: "file_descriptor \<Rightarrow> bool" where
  "is_valid fd \<longleftrightarrow> fd_num fd \<noteq> -1"

text \<open>The file a descriptor refers to, for the system calls on it.\<close>

definition fd_contents :: "os \<Rightarrow> int \<Rightarrow> bytes" where
  "fd_contents os fd = (case os_fstat os fd of None \<Rightarrow> [] | Some i \<Rightarrow> os_contents os i)"

definition put_contents :: "os \<Rightarrow> int \<Rightarrow> bytes \<Rightarrow> os" where
  "put_contents os fd fc =
     (case os_fstat os fd of None \<Rightarrow> os
      | Some i \<Rightarrow> os\<lparr>os_contents := (os_contents os)(i := fc)\<rparr>)"

definition read_large_file :: "kvikio \<Rightarrow> os \<Rightarrow> file_descriptor \<Rightarrow> memory_space option \<Rightarrow> nat \<Rightarrow> nat \<Rightarrow>
    syscall list \<Rightarrow> (io_error + bytes) option" where
  "read_large_file kv os fd dest_ptr total_bytes file_offset script =
     (if \<not> 0 < total_bytes then Some (Inl ZeroBytes)
      else if dest_ptr = None then Some (Inl NullPointer)
      else if \<not> is_valid fd then Some (Inl InvalidDescriptor)
      else if fd_path fd = [] then
        (if is_kvikio_device_memory dest_ptr then Some (Inl NotHostMemory)
         else read_large_file_posix (fd_contents os (fd_num fd)) file_offset total_bytes [] script)
      else Some (
        bind_r (open_kvikio_file_for_ace_io kv os (fd_path fd) ''r'' dest_ptr) (\<lambda>h.
        bind_r (validate_kvikio_handle_matches_fd os (fd_num fd) h) (\<lambda>_.
          case kv_pread kv os h total_bytes file_offset of
            None \<Rightarrow> Inl KvikioFailed
          | Some got \<Rightarrow> if length got = total_bytes then Inr got else Inl IncompleteRead))))"

definition write_large_file :: "kvikio \<Rightarrow> os \<Rightarrow> file_descriptor \<Rightarrow> memory_space option \<Rightarrow> bytes \<Rightarrow> nat \<Rightarrow>
    syscall list \<Rightarrow> (io_error + unit) option \<times> os" where
  "write_large_file kv os fd data_ptr data file_offset script =
     (if \<not> 0 < length data then (Some (Inl ZeroBytes), os)
      else if data_ptr = None then (Some (Inl NullPointer), os)
      else if \<not> is_valid fd then (Some (Inl InvalidDescriptor), os)
      else if fd_path fd = [] then
        (if is_kvikio_device_memory data_ptr then (Some (Inl NotHostMemory), os)
         else let (res, fc) = write_large_file_posix (fd_contents os (fd_num fd)) data file_offset 0 script
              in (res, put_contents os (fd_num fd) fc))
      else
        (case open_kvikio_file_for_ace_io kv os (fd_path fd) ''r+'' data_ptr of
           Inl e \<Rightarrow> (Some (Inl e), os)
         | Inr h \<Rightarrow>
             (case validate_kvikio_handle_matches_fd os (fd_num fd) h of
                Inl e \<Rightarrow> (Some (Inl e), os)
              | Inr _ \<Rightarrow>
                  (case kv_pwrite kv os h data file_offset of
                     (os', None) \<Rightarrow> (Some (Inl KvikioFailed), os')
                   | (os', Some n) \<Rightarrow>
                       (Some (if n = length data then Inr () else Inl IncompleteWrite), os')))))"

section \<open>The loops transfer a prefix, and everything when they return\<close>

lemma checked_posix_offset_Inr_iff:
  "checked_posix_offset fo bo = Inr p \<longleftrightarrow> bo \<le> size_max - fo \<and> fo + bo \<le> off_max \<and> p = fo + bo"
  by (auto simp: checked_posix_offset_def Let_def res_simps)

lemma checked_posix_offset_ok:
  "fo + bo \<le> off_max \<Longrightarrow> checked_posix_offset fo bo = Inr (fo + bo)"
  by (simp add: checked_posix_offset_Inr_iff)

lemma os_pwrite_Nil [simp]: "os_pwrite fc off [] = fc"
  by (simp add: os_pwrite_def)

lemma os_pwrite_append:
  "os_pwrite (os_pwrite fc off xs) (off + length xs) ys = os_pwrite fc off (xs @ ys)"
proof (cases "xs = [] \<or> ys = []")
  case False
  let ?f = "fc @ replicate (off - length fc) 0"
  have "off \<le> length ?f" by simp
  then show ?thesis
    using False overwrite_overwrite[of off ?f xs ys] by (simp add: os_pwrite_def)
qed auto

lemma length_os_pwrite:
  "data \<noteq> [] \<Longrightarrow> length (os_pwrite fc off data) = max (length fc) (off + length data)"
  by (cases "length fc \<le> off") (simp_all add: os_pwrite_def)

lemma os_pread_pwrite: "os_pread (os_pwrite fc off data) off (length data) = data"
  by (simp add: os_pread_def os_pwrite_def overwrite_def)

lemma os_pread_0 [simp]: "os_pread fc off 0 = []"
  by (simp add: os_pread_def)

lemma os_pread_split: "os_pread fc off (k + n) = os_pread fc off k @ os_pread fc (off + k) n"
  by (simp add: os_pread_def take_add add.commute)

lemma os_pread_length: "os_pread fc off (length (os_pread fc off n)) = os_pread fc off n"
  by (cases "n \<le> length fc - off") (simp_all add: os_pread_def)

lemma os_pread_append:
  "length xs = k \<Longrightarrow> os_pread fc off k = xs \<Longrightarrow>
    os_pread fc off (k + n) = xs @ os_pread fc (off + k) n"
  by (auto simp: os_pread_def take_add add.commute)

lemma take_take_drop: "take a xs @ take b (drop a xs) = take (a + b) xs"
  by (simp add: take_add)

lemma read_posix_prefix:
  assumes "read_large_file_posix fc off tot dest script = Some (Inr got)"
    and "os_pread fc off (length dest) = dest" "length dest \<le> tot"
  shows "got = os_pread fc off tot \<and> length got = tot"
  using assms
proof (induction fc off tot dest script rule: read_large_file_posix.induct)
  case (1 fc off tot dest script)
  show ?case
  proof (cases "tot \<le> length dest")
    case True
    then have "tot = length dest" using "1.prems"(3) by simp
    then show ?thesis using "1.prems" by (subst (asm) read_large_file_posix.simps) simp
  next
    case False
    let ?c = "min kPosixTransferSize (tot - length dest)"
    obtain p where p: "checked_posix_offset off (length dest) = Inr p" "p = off + length dest"
      using "1.prems"(1) False checked_posix_offset_Inr_iff
      by (subst (asm) read_large_file_posix.simps) (auto simp: Let_def split: sum.splits)
    then obtain s rest where s: "script = s # rest"
      using "1.prems"(1) False
      by (subst (asm) read_large_file_posix.simps) (auto simp: Let_def split: list.splits)
    show ?thesis
    proof (cases s)
      case Interrupted
      then have "read_large_file_posix fc off tot dest rest = Some (Inr got)"
        using "1.prems"(1) False p s by (subst (asm) read_large_file_posix.simps) (simp add: Let_def)
      then show ?thesis using "1.IH"(1)[OF False refl p(1) s Interrupted] "1.prems"(2,3) by blast
    next
      case Failed
      then show ?thesis
        using "1.prems"(1) False p s by (subst (asm) read_large_file_posix.simps) (simp add: Let_def)
    next
      case (Transferred n)
      let ?g = "os_pread fc p (min n ?c)"
      have step: "?g \<noteq> []" "read_large_file_posix fc off tot (dest @ ?g) rest = Some (Inr got)"
        using "1.prems"(1) False p s Transferred
        by (subst (asm) read_large_file_posix.simps, simp add: Let_def split: if_splits)+
      have lg: "length (dest @ ?g) \<le> tot" using False by (simp add: os_pread_def)
      have "os_pread fc off (length (dest @ ?g)) = dest @ ?g"
        using os_pread_append[OF refl "1.prems"(2), of "length ?g"] p(2)
          os_pread_length[of fc p] by simp
      then show ?thesis
        using "1.IH"(2)[OF False refl p(1) s Transferred refl step(1,2) _ lg] by blast
    qed
  qed
qed

lemma write_posix_prefix:
  assumes "write_large_file_posix (os_pwrite fc off (take k data)) data off k script = (res, fc')"
    and "k \<le> length data"
  shows "\<exists>j. k \<le> j \<and> j \<le> length data \<and> fc' = os_pwrite fc off (take j data) \<and>
    (res = Some (Inr ()) \<longrightarrow> j = length data)"
  using assms
proof (induction script arbitrary: k)
  case Nil
  then show ?case
    by (subst (asm) write_large_file_posix.simps)
      (auto simp: Let_def split: if_splits sum.splits intro!: exI[of _ k])
next
  case (Cons s rest)
  show ?case
  proof (cases "length data \<le> k \<or> (\<exists>e. checked_posix_offset off k = Inl e)")
    case True
    then show ?thesis
      using Cons.prems by (subst (asm) write_large_file_posix.simps)
        (auto simp: Let_def split: if_splits sum.splits intro!: exI[of _ k])
  next
    case False
    then obtain p where p: "checked_posix_offset off k = Inr p" by (cases "checked_posix_offset off k") auto
    then have pk: "p = off + k" by (simp add: checked_posix_offset_Inr_iff)
    show ?thesis
    proof (cases s)
      case Interrupted
      then show ?thesis
        using Cons.prems False p Cons.IH[of k]
        by (subst (asm) write_large_file_posix.simps) (simp add: Let_def)
    next
      case Failed
      then show ?thesis
        using Cons.prems False p by (subst (asm) write_large_file_posix.simps) (auto simp: Let_def)
    next
      case (Transferred n)
      obtain m where m: "m = min n (min kPosixTransferSize (length data - k))" by blast
      have le: "k + m \<le> length data" using Cons.prems(2) m by simp
      have pw: "os_pwrite (os_pwrite fc off (take k data)) p (take m (drop k data)) =
          os_pwrite fc off (take (k + m) data)"
        using os_pwrite_append[of fc off "take k data"] Cons.prems(2) pk
        by (simp add: take_take_drop min_absorb2)
      have step: "write_large_file_posix (os_pwrite fc off (take k data)) data off k (s # rest) =
          (if m = 0 then (Some (Inl IncompleteWrite), os_pwrite fc off (take k data))
           else write_large_file_posix (os_pwrite fc off (take (k + m) data)) data off (k + m) rest)"
        using False p Transferred pw by (subst write_large_file_posix.simps) (simp add: Let_def flip: m)
      show ?thesis
      proof (cases "m = 0")
        case True
        then show ?thesis using Cons.prems step by auto
      next
        case m0: False
        then have "write_large_file_posix (os_pwrite fc off (take (k + m) data)) data off (k + m) rest = (res, fc')"
          using Cons.prems(1) step by simp
        from Cons.IH[OF this le] obtain j where "k + m \<le> j" "j \<le> length data"
            "fc' = os_pwrite fc off (take j data)" "res = Some (Inr ()) \<longrightarrow> j = length data" by blast
        then show ?thesis by (intro exI[of _ j]) simp
      qed
    qed
  qed
qed

section \<open>Enough progress ends the loops\<close>

definition progresses :: "syscall list \<Rightarrow> nat \<Rightarrow> bool" where
  "progresses script n \<longleftrightarrow> Failed \<notin> set script \<and> Transferred 0 \<notin> set script \<and>
     n \<le> length (filter (\<lambda>s. s \<noteq> Interrupted) script)"

lemma progresses_simps:
  "progresses [] n \<longleftrightarrow> n = 0"
  "progresses (Interrupted # rest) n \<longleftrightarrow> progresses rest n"
  "\<not> progresses (Failed # rest) n"
  "progresses (Transferred m # rest) n \<longleftrightarrow> 0 < m \<and> progresses rest (n - 1)"
  by (auto simp: progresses_def)

lemma progresses_mono: "progresses script n \<Longrightarrow> m \<le> n \<Longrightarrow> progresses script m"
  by (simp add: progresses_def)

lemma write_posix_completes:
  assumes "off + length data \<le> off_max" "progresses script (length data - k)"
  shows "fst (write_large_file_posix fc data off k script) = Some (Inr ())"
  using assms(2)
proof (induction script arbitrary: fc k)
  case Nil
  then show ?case by (subst write_large_file_posix.simps) (simp add: progresses_simps)
next
  case (Cons s rest)
  show ?case
  proof (cases "length data \<le> k")
    case True
    then show ?thesis by (subst write_large_file_posix.simps) simp
  next
    case False
    then have p: "checked_posix_offset off k = Inr (off + k)"
      using assms(1) by (intro checked_posix_offset_ok) simp
    show ?thesis
    proof (cases s)
      case Interrupted
      then show ?thesis
        using Cons.prems Cons.IH[of k fc] False p
        by (subst write_large_file_posix.simps) (simp add: Let_def progresses_simps)
    next
      case Failed
      then show ?thesis using Cons.prems by (simp add: progresses_simps)
    next
      case (Transferred n)
      then have n: "0 < n" "progresses rest (length data - k - 1)"
        using Cons.prems by (simp_all add: progresses_simps)
      obtain m where m: "m = min n (min kPosixTransferSize (length data - k))" by blast
      have "0 < m" using n(1) False m by (simp add: kPosixTransferSize_def)
      then have "progresses rest (length data - (k + m))" by (intro progresses_mono[OF n(2)]) simp
      then show ?thesis
        using Cons.IH[of "k + m"] False p Transferred \<open>0 < m\<close>
        by (subst write_large_file_posix.simps) (simp add: Let_def flip: m)
    qed
  qed
qed

lemma read_posix_completes:
  assumes "off + tot \<le> off_max" "off + tot \<le> length fc" "progresses script (tot - length dest)"
  shows "\<exists>got. read_large_file_posix fc off tot dest script = Some (Inr got)"
  using assms(3)
proof (induction script arbitrary: dest)
  case Nil
  then show ?case by (subst read_large_file_posix.simps) (simp add: progresses_simps)
next
  case (Cons s rest)
  show ?case
  proof (cases "tot \<le> length dest")
    case True
    then show ?thesis by (subst read_large_file_posix.simps) simp
  next
    case False
    then have p: "checked_posix_offset off (length dest) = Inr (off + length dest)"
      using assms(1) by (intro checked_posix_offset_ok) simp
    show ?thesis
    proof (cases s)
      case Interrupted
      then show ?thesis
        using Cons.prems Cons.IH[of dest] False p
        by (subst read_large_file_posix.simps) (simp add: Let_def progresses_simps)
    next
      case Failed
      then show ?thesis using Cons.prems by (simp add: progresses_simps)
    next
      case (Transferred n)
      then have n: "0 < n" "progresses rest (tot - length dest - 1)"
        using Cons.prems by (simp_all add: progresses_simps)
      obtain g where g: "g = os_pread fc (off + length dest) (min n (min kPosixTransferSize (tot - length dest)))"
        by blast
      have "0 < length g" using n(1) False assms(2) g by (simp add: os_pread_def kPosixTransferSize_def)
      moreover have "tot - length (dest @ g) \<le> tot - length dest - 1"
        using calculation by (cases g) auto
      then have "progresses rest (tot - length (dest @ g))" by (rule progresses_mono[OF n(2)])
      ultimately show ?thesis
        using Cons.IH[of "dest @ g"] False p Transferred
        by (subst read_large_file_posix.simps) (simp add: Let_def flip: g)
    qed
  qed
qed

lemma read_posix_skip:
  "read_large_file_posix fc off tot dest (Interrupted # rest) = read_large_file_posix fc off tot dest rest"
proof (cases "tot \<le> length dest \<or> (\<exists>e. checked_posix_offset off (length dest) = Inl e)")
  case True
  then show ?thesis
    by (auto simp: Let_def read_large_file_posix.simps[of _ _ _ _ "Interrupted # rest"]
        read_large_file_posix.simps[of _ _ _ _ rest])
next
  case False
  then show ?thesis
    by (auto simp: Let_def read_large_file_posix.simps[of _ _ _ _ "Interrupted # rest"] split: sum.split)
qed

lemma write_posix_skip:
  "write_large_file_posix fc data off k (Interrupted # rest) = write_large_file_posix fc data off k rest"
proof (cases "length data \<le> k \<or> (\<exists>e. checked_posix_offset off k = Inl e)")
  case True
  then show ?thesis
    by (auto simp: Let_def write_large_file_posix.simps[of _ _ _ _ "Interrupted # rest"]
        write_large_file_posix.simps[of _ _ _ _ rest])
next
  case False
  then show ?thesis
    by (auto simp: Let_def write_large_file_posix.simps[of _ _ _ _ "Interrupted # rest"] split: sum.split)
qed

lemma read_posix_interrupts:
  "read_large_file_posix fc off tot dest (filter (\<lambda>s. s \<noteq> Interrupted) script) =
    read_large_file_posix fc off tot dest script"
proof (induction script arbitrary: dest)
  case (Cons s rest)
  show ?case
  proof (cases "s = Interrupted")
    case True
    then show ?thesis by (simp add: Cons.IH read_posix_skip)
  next
    case False
    then show ?thesis
      by (simp add: Let_def Cons.IH read_large_file_posix.simps[of _ _ _ _ "s # _"]
          split: sum.split syscall.split)
  qed
qed simp

lemma write_posix_interrupts:
  "write_large_file_posix fc data off k (filter (\<lambda>s. s \<noteq> Interrupted) script) =
    write_large_file_posix fc data off k script"
proof (induction script arbitrary: fc k)
  case (Cons s rest)
  show ?case
  proof (cases "s = Interrupted")
    case True
    then show ?thesis by (simp add: Cons.IH write_posix_skip)
  next
    case False
    then show ?thesis
      by (simp add: Let_def Cons.IH write_large_file_posix.simps[of _ _ _ _ "s # _"]
          split: sum.split syscall.split del: neq0_conv)
  qed
qed simp

section \<open>What validation establishes\<close>

text \<open>Every descriptor the handle has open refers to the file with identity \<open>i\<close>.\<close>

definition handle_on :: "os \<Rightarrow> handle \<Rightarrow> identity \<Rightarrow> bool" where
  "handle_on os h i \<longleftrightarrow> 0 \<le> h_buffered h \<and> os_fstat os (h_buffered h) = Some i \<and>
     (0 \<le> h_direct h \<longrightarrow> os_fstat os (h_direct h) = Some i)"

lemma expect_matching_iff:
  "expect_matching_file_identity os i fd = Inr () \<longleftrightarrow> 0 \<le> fd \<and> os_fstat os fd = Some i"
  by (cases i) (auto simp: expect_matching_file_identity_def get_file_identity_def res_simps
      split: option.splits)

lemma validate_handle_iff: "validate_handle os i h = Inr () \<longleftrightarrow> handle_on os h i"
  by (auto simp: validate_handle_def handle_on_def bind_r_Inr_iff expect_matching_iff)

lemma validate_matches_iff:
  "validate_kvikio_handle_matches_fd os fd h = Inr () \<longleftrightarrow>
    (\<exists>i. os_fstat os fd = Some i \<and> handle_on os h i)"
  by (auto simp: validate_kvikio_handle_matches_fd_def get_file_identity_def res_simps
      validate_handle_iff split: option.splits)

text \<open>
  The documented behaviour of kvikio's transfers on a handle that is open on one file: a full
  count means that all the bytes were transferred at the offset.
\<close>

definition kvikio_transfers :: "kvikio \<Rightarrow> bool" where
  "kvikio_transfers kv \<longleftrightarrow>
     (\<forall>os h i n off got. handle_on os h i \<and> kv_pread kv os h n off = Some got \<and> length got = n \<longrightarrow>
        got = os_pread (os_contents os i) off n) \<and>
     (\<forall>os h i data off os'. handle_on os h i \<and> kv_pwrite kv os h data off = (os', Some (length data)) \<longrightarrow>
        os' = os\<lparr>os_contents := (os_contents os)(i := os_pwrite (os_contents os i) off data)\<rparr>)"

lemma kvikio_reads:
  assumes "kvikio_transfers kv" "handle_on os h i" "kv_pread kv os h n off = Some got" "length got = n"
  shows "got = os_pread (os_contents os i) off n"
  using assms unfolding kvikio_transfers_def by blast

lemma kvikio_writes:
  assumes "kvikio_transfers kv" "handle_on os h i" "kv_pwrite kv os h data off = (os', Some (length data))"
  shows "os' = os\<lparr>os_contents := (os_contents os)(i := os_pwrite (os_contents os i) off data)\<rparr>"
  using assms unfolding kvikio_transfers_def by blast

lemma read_back:
  assumes "kvikio_transfers kv" "os_fstat os (fd_num fd) = Some i"
    and "read_large_file kv os fd dest n off script = Some (Inr got)"
  shows "got = os_pread (os_contents os i) off n \<and> length got = n \<and> 0 < n"
proof (cases "fd_path fd = []")
  case True
  then have "read_large_file_posix (os_contents os i) off n [] script = Some (Inr got)" "0 < n"
    using assms(2,3) by (auto simp: read_large_file_def fd_contents_def split: if_splits)
  then show ?thesis using read_posix_prefix[of "os_contents os i" off n "[]" script got] by auto
next
  case False
  then obtain h where h: "validate_kvikio_handle_matches_fd os (fd_num fd) h = Inr ()"
      "kv_pread kv os h n off = Some got" "length got = n" "0 < n"
    using assms(3)
    by (auto simp: read_large_file_def res_simps split: if_splits option.splits)
  then have "handle_on os h i" using assms(2) validate_matches_iff[of os "fd_num fd" h] by simp
  then show ?thesis using kvikio_reads[OF assms(1) _ h(2,3)] h by simp
qed

section \<open>A system to run the properties on\<close>

text \<open>
  Two files, descriptors 3 and 4 on the first and 5 on the second, and a kvikio that opens the path
  \<^verbatim>\<open>''a''\<close> with the descriptors 4 and none, and transfers everything.
\<close>

definition demo_os :: os where
  "demo_os = \<lparr>os_fstat = (\<lambda>fd. if fd = 3 \<or> fd = 4 then Some (1, 7) else if fd = 5 then Some (1, 8) else None),
     os_contents = (\<lambda>i. if i = (1, 7) then [10, 11, 12] else [])\<rparr>"

definition demo_open :: "os \<Rightarrow> string \<Rightarrow> string \<Rightarrow> handle option" where
  "demo_open os path flags = (if path = ''a'' then Some \<lparr>h_buffered = 4, h_direct = -1\<rparr> else None)"

definition demo_kvikio :: kvikio where
  "demo_kvikio = \<lparr>kv_open = demo_open, kv_open_off = (\<lambda>_ _ _. None),
     kv_create = (\<lambda>os path. if path = ''a'' \<and> os_fstat os 4 \<noteq> None then Some (\<lparr>h_buffered = 4, h_direct = -1\<rparr>, put_contents os 4 []) else None),
     kv_pread = (\<lambda>os h n off. Some (os_pread (fd_contents os (h_buffered h)) off n)),
     kv_pwrite = (\<lambda>os h data off.
       (put_contents os (h_buffered h) (os_pwrite (fd_contents os (h_buffered h)) off data), Some (length data)))\<rparr>"

lemma demo_kvikio_transfers: "kvikio_transfers demo_kvikio"
  by (auto simp: kvikio_transfers_def demo_kvikio_def handle_on_def fd_contents_def put_contents_def)

section \<open>Properties\<close>

text \<open>
  C24: A transfer through POSIX that does not fail writes all the data at the offset; one that fails
  or is cut short leaves a prefix of the data at the offset and the rest of the file as it was.
\<close>

theorem posix_write_leaves_prefix:
  assumes "write_large_file_posix fc data off 0 script = (res, fc')"
  shows "\<exists>j \<le> length data. fc' = os_pwrite fc off (take j data) \<and>
    (res = Some (Inr ()) \<longrightarrow> fc' = os_pwrite fc off data \<and> os_pread fc' off (length data) = data)"
  using write_posix_prefix[of fc off 0 data script res fc'] assms
  by (auto simp: os_pread_pwrite)

lemma posix_write_leaves_prefix_witness:
  "write_large_file_posix [1, 2, 3, 4] [8, 9] 1 0 [Interrupted, Transferred 1, Failed] =
     (Some (Inl WriteFailed), [1, 8, 3, 4]) \<and>
   (\<exists>j \<le> length [8, 9 :: u8]. [1, 8, 3, 4] = os_pwrite [1, 2, 3, 4] 1 (take j [8, 9]))"
proof -
  have run: "write_large_file_posix [1, 2, 3, 4] [8, 9] 1 0 [Interrupted, Transferred 1, Failed] =
      (Some (Inl WriteFailed), [1, 8, 3, 4])"
    by (simp add: write_large_file_posix.simps kPosixTransferSize_def checked_posix_offset_ok
        os_pwrite_def overwrite_def Let_def)
  show ?thesis using run posix_write_leaves_prefix[OF run] by blast
qed

text \<open>
  Both loops end with success whatever the sizes of the transfers and however often a signal
  interrupts them: as many system calls that move at least one byte as there are bytes are enough,
  and interrupted calls change nothing.
\<close>

theorem posix_transfers_complete:
  assumes "off + n \<le> off_max" "progresses script n"
  shows "(length data = n \<longrightarrow>
      write_large_file_posix fc data off 0 script = (Some (Inr ()), os_pwrite fc off data)) \<and>
    (off + n \<le> length fc \<longrightarrow> read_large_file_posix fc off n [] script = Some (Inr (os_pread fc off n))) \<and>
    write_large_file_posix fc data off 0 (filter (\<lambda>s. s \<noteq> Interrupted) script) =
      write_large_file_posix fc data off 0 script \<and>
    read_large_file_posix fc off n [] (filter (\<lambda>s. s \<noteq> Interrupted) script) =
      read_large_file_posix fc off n [] script"
proof (intro conjI impI)
  assume l: "length data = n"
  obtain res fc' where r: "write_large_file_posix fc data off 0 script = (res, fc')" by fastforce
  have "res = Some (Inr ())" using write_posix_completes[of off data script 0 fc] assms l r by simp
  then show "write_large_file_posix fc data off 0 script = (Some (Inr ()), os_pwrite fc off data)"
    using write_posix_prefix[of fc off 0 data script res fc'] r by auto
next
  assume "off + n \<le> length fc"
  then show "read_large_file_posix fc off n [] script = Some (Inr (os_pread fc off n))"
    using read_posix_completes[of off n fc script "[]"] assms read_posix_prefix[of fc off n "[]" script]
    by (auto simp: os_pread_def)
qed (rule write_posix_interrupts read_posix_interrupts)+

lemma posix_transfers_complete_witness:
  "write_large_file_posix [1, 2] [8, 9] 1 0 [Transferred 1, Interrupted, Transferred 5] =
     (Some (Inr ()), os_pwrite [1, 2] 1 [8, 9])"
  using posix_transfers_complete[of 1 2 "[Transferred 1, Interrupted, Transferred 5]" "[8, 9]" "[1, 2]"]
  by (simp add: progresses_def)

text \<open>
  C25: The path check accepts a handle exactly if every descriptor the handle has open refers to the
  file the caller's descriptor refers to.
\<close>

theorem handle_validation_exact:
  "(validate_kvikio_handle_matches_fd os fd h = Inr () \<longleftrightarrow>
     (\<exists>i. os_fstat os fd = Some i \<and> handle_on os h i)) \<and>
   (validate_kvikio_handles_match os h' h = Inr () \<longleftrightarrow>
     (\<exists>i. os_fstat os (h_buffered h') = Some i \<and> handle_on os h i))"
  using validate_matches_iff[of os fd h]
  by (auto simp: validate_kvikio_handles_match_def get_file_identity_def res_simps
      validate_handle_iff split: option.splits)

text \<open>
  C26: The bytes \<open>read_large_file\<close> returns are the bytes of the file its descriptor refers to, even
  if the path names another file by the time it is opened.
\<close>

theorem read_large_file_correct:
  assumes "kvikio_transfers kv" "os_fstat os (fd_num fd) = Some i"
    and "read_large_file kv os fd dest n off script = Some (Inr got)"
  shows "got = os_pread (os_contents os i) off n \<and> length got = n \<and> 0 < n"
  using assms by (rule read_back)

lemma demo_read: "read_large_file demo_kvikio demo_os \<lparr>fd_num = 3, fd_path = ''a''\<rparr> (Some HostMem) 2 1 [] =
    Some (Inr [11, 12])"
  by (simp add: read_large_file_def is_valid_def open_kvikio_file_for_ace_io_def kv_open_checked_def
      is_kvikio_device_memory_def demo_kvikio_def demo_open_def validate_kvikio_handle_matches_fd_def
      get_file_identity_def demo_os_def validate_handle_def expect_matching_file_identity_def
      fd_contents_def os_pread_def expects_def)

lemma read_large_file_correct_witness:
  "[11, 12 :: u8] = os_pread (os_contents demo_os (1, 7)) 1 2"
  using read_large_file_correct[OF demo_kvikio_transfers _ demo_read, of "(1, 7)"]
  by (simp add: demo_os_def)

text \<open>
  C27: A transfer that \<open>write_large_file\<close> reports complete has written the data, at the offset, to the
  file its descriptor refers to and to no other; reading it back returns the data.
\<close>

theorem write_large_file_correct:
  assumes "kvikio_transfers kv" "os_fstat os (fd_num fd) = Some i"
    and "write_large_file kv os fd src data off script = (Some (Inr ()), os')"
  shows "os_fstat os' = os_fstat os \<and>
    os_contents os' = (os_contents os)(i := os_pwrite (os_contents os i) off data) \<and>
    (\<forall>kv' src' script' got. kvikio_transfers kv' \<and>
       read_large_file kv' os' fd src' (length data) off script' = Some (Inr got) \<longrightarrow> got = data)"
proof -
  have os': "os' = os\<lparr>os_contents := (os_contents os)(i := os_pwrite (os_contents os i) off data)\<rparr>"
  proof (cases "fd_path fd = []")
    case True
    obtain res fc' where w: "write_large_file_posix (os_contents os i) data off 0 script = (res, fc')"
      by fastforce
    then have "res = Some (Inr ())" "os' = os\<lparr>os_contents := (os_contents os)(i := fc')\<rparr>"
      using assms(2,3) True
      by (auto simp: write_large_file_def fd_contents_def put_contents_def split: if_splits)
    then show ?thesis using write_posix_prefix[of "os_contents os i" off 0 data script res fc'] w by auto
  next
    case False
    then obtain h where h: "validate_kvikio_handle_matches_fd os (fd_num fd) h = Inr ()"
        "kv_pwrite kv os h data off = (os', Some (length data))"
      using assms(3)
      by (auto simp: write_large_file_def split: if_splits option.splits sum.splits prod.splits)
    then have "handle_on os h i" using assms(2) validate_matches_iff[of os "fd_num fd" h] by simp
    then show ?thesis using kvikio_writes[OF assms(1) _ h(2)] by simp
  qed
  then have "os_fstat os' (fd_num fd) = Some i" using assms(2) by simp
  then have "got = os_pread (os_contents os' i) off (length data)"
    if "kvikio_transfers kv'" "read_large_file kv' os' fd src' (length data) off script' = Some (Inr got)"
    for kv' src' script' got
    using read_back that by blast
  then show ?thesis using os' by (auto simp: os_pread_pwrite)
qed

lemma write_large_file_correct_witness:
  "os_contents (snd (write_large_file demo_kvikio demo_os \<lparr>fd_num = 3, fd_path = ''a''\<rparr> (Some HostMem) [9] 4 []))
     = (os_contents demo_os)((1, 7) := os_pwrite [10, 11, 12] 4 [9])"
proof -
  let ?w = "write_large_file demo_kvikio demo_os \<lparr>fd_num = 3, fd_path = ''a''\<rparr> (Some HostMem) [9] 4 []"
  have "fst ?w = Some (Inr ())"
    by (simp add: write_large_file_def is_valid_def open_kvikio_file_for_ace_io_def kv_open_checked_def
        is_kvikio_device_memory_def demo_kvikio_def demo_open_def validate_kvikio_handle_matches_fd_def
        get_file_identity_def demo_os_def validate_handle_def expect_matching_file_identity_def expects_def)
  then have run: "?w = (Some (Inr ()), snd ?w)" by (cases ?w) simp
  show ?thesis
    using write_large_file_correct[OF demo_kvikio_transfers _ run, of "(1, 7)"] by (simp add: demo_os_def)
qed

end
