(* ===== verification/KvikioStream.thy ===== *)
theory KvikioStream imports FileIO begin

text \<open>
  The sequential streams over a file: the staged output stream \<^verbatim>\<open>kvikio_ofstream\<close> and the mixed
  reader \<^verbatim>\<open>kvikio_file_reader\<close> (\<^verbatim>\<open>cpp/src/util/file_io.cpp\<close>, second half), the descriptor
  stream \<^verbatim>\<open>fd_streambuf\<close> and the write buffer \<^verbatim>\<open>buffered_ofstream\<close>
  (\<^verbatim>\<open>cpp/include/cuvs/util/file_io.hpp\<close>). The locale \<open>byte_sink\<close> is the interface every
  serializer writes through; both output streams implement it.
\<close>

section \<open>The interface of an output stream\<close>

text \<open>
  A write that returns normally has appended its bytes to the logical content; with \<open>prefix_sink\<close>, a
  write that fails has appended a prefix of them, so nothing before is damaged.
\<close>

locale byte_sink =
  fixes put :: "'s \<Rightarrow> bytes \<Rightarrow> ('e + unit) \<times> 's"
    and good :: "'s \<Rightarrow> bool" and content :: "'s \<Rightarrow> bytes"
  assumes write_ok: "good s \<Longrightarrow> put s d = (Inr u, s') \<Longrightarrow> good s' \<and> content s' = content s @ d"

locale prefix_sink = byte_sink put good content
  for put :: "'s \<Rightarrow> bytes \<Rightarrow> ('e + unit) \<times> 's" and good content +
  assumes write_err: "good s \<Longrightarrow> put s d = (Inl e, s') \<Longrightarrow>
    good s' \<and> (\<exists>k. content s' = content s @ take k d)"

text \<open>A client that writes several pieces one after the other and stops at the first error.\<close>

fun write_all :: "('s \<Rightarrow> bytes \<Rightarrow> ('e + unit) \<times> 's) \<Rightarrow> 's \<Rightarrow> bytes list \<Rightarrow> ('e + unit) \<times> 's" where
  "write_all w s [] = (Inr (), s)"
| "write_all w s (d # ds) = bind_sr (w s d) (\<lambda>_ s'. write_all w s' ds)"

context byte_sink begin

lemma write_all_ok:
  "good s \<Longrightarrow> write_all put s ds = (Inr u, s') \<Longrightarrow> good s' \<and> content s' = content s @ concat ds"
proof (induction ds arbitrary: s)
  case (Cons d ds)
  then obtain s1 where "put s d = (Inr (), s1)" "write_all put s1 ds = (Inr u, s')"
    by (auto simp: bind_sr_Inr_iff)
  then show ?case using Cons.IH write_ok[OF Cons.prems(1)] by fastforce
qed simp

end

context prefix_sink begin

lemma write_all_err:
  "good s \<Longrightarrow> write_all put s ds = (Inl e, s') \<Longrightarrow>
    good s' \<and> (\<exists>k. content s' = content s @ take k (concat ds))"
proof (induction ds arbitrary: s)
  case (Cons d ds)
  show ?case
  proof (cases "put s d")
    case (Pair r s1)
    show ?thesis
    proof (cases r)
      case (Inl x)
      then have "s' = s1" using Cons.prems(2) Pair by simp
      then have "good s'" "\<exists>k. content s' = content s @ take k d"
        using write_err[OF Cons.prems(1), of d x s1] Pair Inl by simp_all
      then obtain k where "content s' = content s @ take k d" by blast
      then have "content s' = content s @ take (min k (length d)) (concat (d # ds))"
        by (simp add: min_def)
      then show ?thesis using \<open>good s'\<close> by blast
    next
      case (Inr u)
      then have s1: "good s1" "content s1 = content s @ d"
        using write_ok[OF Cons.prems(1), of d u s1] Pair by simp_all
      moreover have "write_all put s1 ds = (Inl e, s')" using Cons.prems(2) Pair Inr by simp
      ultimately obtain k where "good s'" "content s' = content s1 @ take k (concat ds)"
        using Cons.IH by blast
      then have "content s' = content s @ take (length d + k) (concat (d # ds))" using s1 by simp
      then show ?thesis using \<open>good s'\<close> by blast
    qed
  qed
qed simp

end

section \<open>The staged output stream\<close>

text \<open>
  \<open>sb_os\<close> is the system the stream acts on; \<open>sb_staged\<close> are the bytes of \<^verbatim>\<open>[pbase(), pptr())\<close>,
  \<open>sb_size\<close> is \<^verbatim>\<open>epptr() - pbase()\<close>.
\<close>

definition kNumpyDataAlignment :: nat where
  "kNumpyDataAlignment = 4096"

definition int_max :: nat where
  "int_max = 2 ^ 31 - 1"

record sbuf =
  sb_os :: os
  sb_path :: string
  sb_handle :: handle
  sb_device :: "handle option"
  sb_size :: nat
  sb_staged :: bytes
  sb_offset :: nat
  sb_closed :: bool

definition open_sbuf :: "kvikio \<Rightarrow> os \<Rightarrow> string \<Rightarrow> nat \<Rightarrow> (io_error + sbuf) \<times> os" where
  "open_sbuf kv os path cap =
     (case kv_create kv os path of
        None \<Rightarrow> (Inl OpenFailed, os)
      | Some (h, os') \<Rightarrow>
          let buffer_size = max cap kNumpyDataAlignment in
          if buffer_size \<le> int_max
          then (Inr \<lparr>sb_os = os', sb_path = path, sb_handle = h, sb_device = None,
                  sb_size = buffer_size, sb_staged = [], sb_offset = 0, sb_closed = False\<rparr>, os')
          else (Inl OpenFailed, os'))"

definition write_at_current_offset :: "kvikio \<Rightarrow> handle \<Rightarrow> sbuf \<Rightarrow> bytes \<Rightarrow> (io_error + unit) \<times> sbuf" where
  "write_at_current_offset kv h s data =
     (if sb_closed s then (Inl StreamClosed, s)
      else case kv_pwrite kv (sb_os s) h data (sb_offset s) of
        (os', None) \<Rightarrow> (Inl KvikioFailed, s\<lparr>sb_os := os'\<rparr>)
      | (os', Some w) \<Rightarrow>
          if w = length data
          then (Inr (), s\<lparr>sb_os := os', sb_offset := sb_offset s + length data\<rparr>)
          else (Inl ShortWrite, s\<lparr>sb_os := os'\<rparr>))"

definition flush_buffer :: "kvikio \<Rightarrow> sbuf \<Rightarrow> (io_error + unit) \<times> sbuf" where
  "flush_buffer kv s =
     (if 0 < length (sb_staged s)
      then bind_sr (write_at_current_offset kv (sb_handle s) s (sb_staged s))
        (\<lambda>_ s'. (Inr (), s'\<lparr>sb_staged := []\<rparr>))
      else (Inr (), s))"

definition close_sbuf :: "kvikio \<Rightarrow> sbuf \<Rightarrow> (io_error + unit) \<times> sbuf" where
  "close_sbuf kv s =
     (if sb_closed s then (Inr (), s)
      else bind_sr (flush_buffer kv s) (\<lambda>_ s'. (Inr (), s'\<lparr>sb_closed := True\<rparr>)))"

definition bytes_written :: "sbuf \<Rightarrow> nat" where
  "bytes_written s = sb_offset s + length (sb_staged s)"

text \<open>The device handle, opened on the first write from device memory and checked once.\<close>

definition device_handle :: "kvikio \<Rightarrow> sbuf \<Rightarrow> (io_error + handle) \<times> sbuf" where
  "device_handle kv s =
     (case sb_device s of
        Some d \<Rightarrow> (Inr d, s)
      | None \<Rightarrow>
          (case open_kvikio_file_for_device_io kv (sb_os s) (sb_path s) ''r+'' of
             Inl e \<Rightarrow> (Inl e, s)
           | Inr d \<Rightarrow>
               (case validate_kvikio_handles_match (sb_os s) (sb_handle s) d of
                  Inl e \<Rightarrow> (Inl e, s\<lparr>sb_device := Some d\<rparr>)
                | Inr _ \<Rightarrow> (Inr d, s\<lparr>sb_device := Some d\<rparr>))))"

definition write_device :: "kvikio \<Rightarrow> memory_space option \<Rightarrow> sbuf \<Rightarrow> bytes \<Rightarrow> (io_error + unit) \<times> sbuf" where
  "write_device kv data_ptr s data =
     (if sb_closed s then (Inl StreamClosed, s)
      else if data_ptr = None \<and> data \<noteq> [] then (Inl NullPointer, s)
      else if data = [] then (Inr (), s)
      else bind_sr (flush_buffer kv s) (\<lambda>_ s1.
        if \<not> is_kvikio_device_memory data_ptr then write_at_current_offset kv (sb_handle s1) s1 data
        else bind_sr (device_handle kv s1) (\<lambda>d s2. write_at_current_offset kv d s2 data)))"

text \<open>\<open>overflow(ch)\<close>; no character is \<^verbatim>\<open>eof\<close>.\<close>

definition overflow :: "kvikio \<Rightarrow> sbuf \<Rightarrow> u8 option \<Rightarrow> (io_error + unit) \<times> sbuf" where
  "overflow kv s ch =
     (if sb_closed s then (Inl StreamClosed, s)
      else bind_sr (flush_buffer kv s) (\<lambda>_ s'.
        (Inr (), case ch of None \<Rightarrow> s' | Some c \<Rightarrow> s'\<lparr>sb_staged := sb_staged s' @ [c]\<rparr>)))"

definition available :: "sbuf \<Rightarrow> nat" where
  "available s = sb_size s - length (sb_staged s)"

definition make_room :: "kvikio \<Rightarrow> sbuf \<Rightarrow> (io_error + unit) \<times> sbuf" where
  "make_room kv s = (if available s = 0 then flush_buffer kv s else (Inr (), s))"

text \<open>One round of the loop of \<open>xsputn\<close> copies as much as fits, at least one byte.\<close>

lemma flush_buffer_size:
  "flush_buffer kv s = (r, s') \<Longrightarrow> sb_size s' = sb_size s"
  by (auto simp: flush_buffer_def write_at_current_offset_def bind_sr_def
      split: if_splits sum.splits prod.splits option.splits)

lemma flush_buffer_empty: "flush_buffer kv s = (Inr u, s') \<Longrightarrow> sb_staged s' = []"
  by (auto simp: flush_buffer_def bind_sr_Inr_iff split: if_splits)

lemma make_room_available:
  "make_room kv s = (Inr u, s') \<Longrightarrow> 0 < sb_size s \<Longrightarrow> 0 < available s'"
  by (auto simp: make_room_def available_def flush_buffer_size dest!: flush_buffer_empty split: if_splits)

function xsputn_loop :: "kvikio \<Rightarrow> sbuf \<Rightarrow> bytes \<Rightarrow> (io_error + unit) \<times> sbuf" where
  "xsputn_loop kv s rest =
     (if rest = [] then (Inr (), s)
      else if sb_size s \<le> length rest
      then bind_sr (flush_buffer kv s) (\<lambda>_ s'. write_at_current_offset kv (sb_handle s') s' rest)
      else (case make_room kv s of
          (Inl e, s') \<Rightarrow> (Inl e, s')
        | (Inr _, s') \<Rightarrow>
            let n = min (length rest) (available s')
            in xsputn_loop kv (s'\<lparr>sb_staged := sb_staged s' @ take n rest\<rparr>) (drop n rest)))"
  by pat_completeness auto
termination
  by (relation "measure (\<lambda>(kv, s, rest). length rest)") (auto dest!: sym[of _ "make_room _ _"] make_room_available)

declare xsputn_loop.simps [simp del]

definition xsputn :: "kvikio \<Rightarrow> sbuf \<Rightarrow> bytes \<Rightarrow> (io_error + unit) \<times> sbuf" where
  "xsputn kv s input =
     (if sb_closed s then (Inl StreamClosed, s)
      else if input = [] then (Inr (), s) else xsputn_loop kv s input)"

text \<open>\<open>sync\<close> reports \<open>-1\<close>, the destructors swallow the error.\<close>

definition sync :: "kvikio \<Rightarrow> sbuf \<Rightarrow> int \<times> sbuf" where
  "sync kv s = (case flush_buffer kv s of (Inr _, s') \<Rightarrow> (0, s') | (Inl _, s') \<Rightarrow> (-1, s'))"

definition destroy_sbuf :: "kvikio \<Rightarrow> sbuf \<Rightarrow> sbuf" where
  "destroy_sbuf kv s = snd (close_sbuf kv s)"

datatype seekdir = Beg | Cur | End

definition seekoff_out :: "sbuf \<Rightarrow> int \<Rightarrow> seekdir \<Rightarrow> bool \<Rightarrow> int" where
  "seekoff_out s off dir out = (if out \<and> dir = Cur \<and> off = 0 then int (bytes_written s) else -1)"

section \<open>The logical content of the stream\<close>

text \<open>
  Documented behaviour of kvikio on the transfers that fail or fall short: only the file of the
  handle is touched, and nothing before the offset of the transfer.
\<close>

definition kvikio_confined :: "kvikio \<Rightarrow> bool" where
  "kvikio_confined kv \<longleftrightarrow>
     (\<forall>os h i data off os' r. handle_on os h i \<and> off \<le> length (os_contents os i) \<and>
        kv_pwrite kv os h data off = (os', r) \<longrightarrow>
        os_fstat os' = os_fstat os \<and> (\<forall>k. k \<noteq> i \<longrightarrow> os_contents os' k = os_contents os k) \<and>
        take off (os_contents os' i) = take off (os_contents os i) \<and> off \<le> length (os_contents os' i))"

definition committed :: "identity \<Rightarrow> sbuf \<Rightarrow> bytes" where
  "committed i s = take (sb_offset s) (os_contents (sb_os s) i)"

definition logical :: "identity \<Rightarrow> sbuf \<Rightarrow> bytes" where
  "logical i s = committed i s @ sb_staged s"

definition sbuf_good :: "kvikio \<Rightarrow> identity \<Rightarrow> sbuf \<Rightarrow> bool" where
  "sbuf_good kv i s \<longleftrightarrow> kvikio_transfers kv \<and> kvikio_confined kv \<and>
     handle_on (sb_os s) (sb_handle s) i \<and> sb_offset s \<le> length (os_contents (sb_os s) i) \<and>
     0 < sb_size s \<and> length (sb_staged s) \<le> sb_size s \<and> (sb_closed s \<longrightarrow> sb_staged s = [])"

lemma handle_on_fstat: "os_fstat os' = os_fstat os \<Longrightarrow> handle_on os' h i = handle_on os h i"
  by (simp add: handle_on_def)

lemma take_os_pwrite:
  "off \<le> length fc \<Longrightarrow> take (off + length data) (os_pwrite fc off data) = take off fc @ data"
  by (simp add: os_pwrite_def take_overwrite)

lemma write_at_spec:
  assumes g: "sbuf_good kv i s" and h: "handle_on (sb_os s) h i"
    and w: "write_at_current_offset kv h s data = (r, s')"
  shows "sbuf_good kv i s'" "sb_staged s' = sb_staged s"
    "os_fstat (sb_os s') = os_fstat (sb_os s)"
    "sb_device s' = sb_device s" "sb_closed s' = sb_closed s" "sb_size s' = sb_size s"
    "sb_handle s' = sb_handle s"
    "r = Inr u \<Longrightarrow> committed i s' = committed i s @ data"
    "r = Inl e \<Longrightarrow> committed i s' = committed i s"
proof -
  let ?off = "sb_offset s" and ?c = "os_contents (sb_os s) i"
  obtain os' res where p: "kv_pwrite kv (sb_os s) h data ?off = (os', res)" by fastforce
  have off: "?off \<le> length ?c" using g by (simp add: sbuf_good_def)
  have conf: "os_fstat os' = os_fstat (sb_os s)" "take ?off (os_contents os' i) = take ?off ?c"
      "?off \<le> length (os_contents os' i)"
    using g h off p unfolding sbuf_good_def kvikio_confined_def by blast+
  have full: "os_contents os' i = os_pwrite ?c ?off data" if "res = Some (length data)"
    using kvikio_writes[of kv "sb_os s" h i data ?off os'] g h p that by (simp add: sbuf_good_def)
  show "sb_staged s' = sb_staged s" "os_fstat (sb_os s') = os_fstat (sb_os s)"
    "sb_device s' = sb_device s" "sb_closed s' = sb_closed s" "sb_size s' = sb_size s"
    "sb_handle s' = sb_handle s"
    using w p conf(1)
    by (auto simp: write_at_current_offset_def split: if_splits option.splits)
  show "r = Inr u \<Longrightarrow> committed i s' = committed i s @ data"
    using w p full take_os_pwrite[OF off, of data]
    by (auto simp: write_at_current_offset_def committed_def split: if_splits option.splits)
  show "r = Inl e \<Longrightarrow> committed i s' = committed i s"
    using w p conf
    by (auto simp: write_at_current_offset_def committed_def split: if_splits option.splits)
  have "?off + length data \<le> length (os_pwrite ?c ?off data)"
    using off length_os_pwrite[of data ?c ?off] by (cases "data = []") auto
  then show "sbuf_good kv i s'"
    using g w p conf full handle_on_fstat[OF conf(1), of "sb_handle s" i]
    by (auto simp: write_at_current_offset_def sbuf_good_def split: if_splits option.splits)
qed

lemma flush_spec:
  assumes g: "sbuf_good kv i s" and f: "flush_buffer kv s = (r, s')"
  shows "sbuf_good kv i s'" "logical i s' = logical i s" "sb_closed s' = sb_closed s"
    "sb_handle s' = sb_handle s" "sb_device s' = sb_device s" "sb_size s' = sb_size s"
    "os_fstat (sb_os s') = os_fstat (sb_os s)"
proof -
  have h: "handle_on (sb_os s) (sb_handle s) i" using g by (simp add: sbuf_good_def)
  have all: "sbuf_good kv i s' \<and> logical i s' = logical i s \<and> sb_closed s' = sb_closed s \<and>
      sb_handle s' = sb_handle s \<and> sb_device s' = sb_device s \<and> sb_size s' = sb_size s \<and>
      os_fstat (sb_os s') = os_fstat (sb_os s)"
  proof (cases "sb_staged s = []")
    case True
    then show ?thesis using f g by (simp add: flush_buffer_def)
  next
    case False
    obtain r1 s1 where w: "write_at_current_offset kv (sb_handle s) s (sb_staged s) = (r1, s1)" by fastforce
    note sp = write_at_spec[OF g h w]
    show ?thesis
    proof (cases r1)
      case (Inl e)
      then have "s' = s1" using f False w by (simp add: flush_buffer_def)
      then show ?thesis using sp Inl by (simp add: logical_def)
    next
      case (Inr u)
      then have "s' = s1\<lparr>sb_staged := []\<rparr>" using f False w by (simp add: flush_buffer_def)
      then show ?thesis using sp Inr by (simp add: logical_def committed_def sbuf_good_def)
    qed
  qed
  then show "sbuf_good kv i s'" "logical i s' = logical i s" "sb_closed s' = sb_closed s"
    "sb_handle s' = sb_handle s" "sb_device s' = sb_device s" "sb_size s' = sb_size s"
    "os_fstat (sb_os s') = os_fstat (sb_os s)" by blast+
qed

lemma flush_committed:
  assumes "sbuf_good kv i s" "flush_buffer kv s = (Inr u, s')"
  shows "committed i s' = logical i s" "sb_staged s' = []"
  using flush_spec(2)[OF assms] flush_buffer_empty[OF assms(2)] by (simp_all add: logical_def)

text \<open>Staging some bytes that fit.\<close>

lemma stage_spec:
  assumes "sbuf_good kv i s" "length d \<le> available s" "\<not> sb_closed s"
  shows "sbuf_good kv i (s\<lparr>sb_staged := sb_staged s @ d\<rparr>)"
    "logical i (s\<lparr>sb_staged := sb_staged s @ d\<rparr>) = logical i s @ d"
  using assms by (auto simp: sbuf_good_def logical_def committed_def available_def)

text \<open>Without failures the file ends where the stream is.\<close>

definition tight :: "identity \<Rightarrow> sbuf \<Rightarrow> bool" where
  "tight i s \<longleftrightarrow> sb_offset s = length (os_contents (sb_os s) i)"

lemma write_at_tight:
  assumes "sbuf_good kv i s" "handle_on (sb_os s) h i" "tight i s"
    and w: "write_at_current_offset kv h s data = (Inr u, s')"
  shows "tight i s'"
proof -
  obtain os' where p: "kv_pwrite kv (sb_os s) h data (sb_offset s) = (os', Some (length data))"
      "s' = s\<lparr>sb_os := os', sb_offset := sb_offset s + length data\<rparr>"
    using w by (auto simp: write_at_current_offset_def split: if_splits option.splits prod.splits)
  then have "os_contents os' i = os_pwrite (os_contents (sb_os s) i) (sb_offset s) data"
    using kvikio_writes[of kv "sb_os s" h i data "sb_offset s" os'] assms(1,2) by (simp add: sbuf_good_def)
  then show ?thesis
    using assms(3) p length_os_pwrite[of data] by (cases "data = []") (auto simp: tight_def)
qed

lemma flush_tight:
  assumes "sbuf_good kv i s" "tight i s" "flush_buffer kv s = (Inr u, s')"
  shows "tight i s'"
proof (cases "sb_staged s = []")
  case False
  then obtain s1 where w: "write_at_current_offset kv (sb_handle s) s (sb_staged s) = (Inr (), s1)"
      "s' = s1\<lparr>sb_staged := []\<rparr>"
    using assms(3) by (auto simp: flush_buffer_def bind_sr_Inr_iff)
  have "handle_on (sb_os s) (sb_handle s) i" using assms(1) by (simp add: sbuf_good_def)
  from write_at_tight[OF assms(1) this assms(2) w(1)] show ?thesis using w(2) by (simp add: tight_def)
qed (use assms in \<open>simp add: flush_buffer_def\<close>)

text \<open>Flush, then write through a handle: the common end of the large writes.\<close>

lemma flush_write_spec:
  assumes g: "sbuf_good kv i s"
    and r: "bind_sr (flush_buffer kv s) (\<lambda>_ s'. write_at_current_offset kv (sb_handle s') s' d) = (r, s')"
  shows "sbuf_good kv i s' \<and> sb_closed s' = sb_closed s \<and> sb_device s' = sb_device s \<and>
    os_fstat (sb_os s') = os_fstat (sb_os s) \<and>
    (case r of Inr _ \<Rightarrow> logical i s' = logical i s @ d \<and> (tight i s \<longrightarrow> tight i s')
     | Inl _ \<Rightarrow> logical i s' = logical i s)"
proof -
  obtain r1 s1 where f: "flush_buffer kv s = (r1, s1)" by fastforce
  note fs = flush_spec[OF g f]
  show ?thesis
  proof (cases r1)
    case (Inl e)
    then show ?thesis using r f fs by auto
  next
    case (Inr u)
    then have w: "write_at_current_offset kv (sb_handle s1) s1 d = (r, s')" using r f by simp
    have h: "handle_on (sb_os s1) (sb_handle s1) i" using fs(1) by (simp add: sbuf_good_def)
    note ws = write_at_spec[OF fs(1) h w]
    have "sb_staged s1 = []" "committed i s1 = logical i s"
      using flush_committed[OF g f[unfolded Inr]] by simp_all
    moreover have "tight i s'" if "tight i s" "r = Inr v" for v
      using write_at_tight[OF fs(1) h flush_tight[OF g that(1) f[unfolded Inr]] w[unfolded that(2)]] .
    ultimately show ?thesis
      using ws fs by (cases r) (auto simp: logical_def)
  qed
qed

lemma make_room_spec:
  assumes g: "sbuf_good kv i s" and m: "make_room kv s = (r, s')"
  shows "sbuf_good kv i s' \<and> sb_closed s' = sb_closed s \<and> logical i s' = logical i s \<and>
    sb_device s' = sb_device s \<and> os_fstat (sb_os s') = os_fstat (sb_os s) \<and>
    (r = Inr () \<and> tight i s \<longrightarrow> tight i s')"
proof (cases "available s = 0")
  case True
  then have f: "flush_buffer kv s = (r, s')" using m by (simp add: make_room_def)
  have "r = Inr () \<and> tight i s \<longrightarrow> tight i s'"
    using flush_tight[OF g] f by blast
  then show ?thesis using flush_spec[OF g f] by simp
next
  case False
  then show ?thesis using m g by (simp add: make_room_def)
qed

lemma xsputn_loop_spec:
  assumes "sbuf_good kv i s" "\<not> sb_closed s" "xsputn_loop kv s rest = (r, s')"
  shows "sbuf_good kv i s' \<and> \<not> sb_closed s' \<and> sb_device s' = sb_device s \<and>
    os_fstat (sb_os s') = os_fstat (sb_os s) \<and>
    (case r of Inr _ \<Rightarrow> logical i s' = logical i s @ rest \<and> (tight i s \<longrightarrow> tight i s')
     | Inl _ \<Rightarrow> \<exists>k. logical i s' = logical i s @ take k rest)"
  using assms
proof (induction kv s rest rule: xsputn_loop.induct)
  case (1 kv s rest)
  consider "rest = []" | "rest \<noteq> []" "sb_size s \<le> length rest" | "rest \<noteq> []" "\<not> sb_size s \<le> length rest" by blast
  then show ?case
  proof cases
    case 1
    then show ?thesis using "1.prems" by (subst (asm) xsputn_loop.simps) auto
  next
    case 2
    then have "bind_sr (flush_buffer kv s) (\<lambda>_ s'. write_at_current_offset kv (sb_handle s') s' rest) = (r, s')"
      using "1.prems"(3) by (subst (asm) xsputn_loop.simps) simp
    from flush_write_spec[OF "1.prems"(1) this] "1.prems"(2) show ?thesis
      by (cases r) (auto intro: exI[of _ 0])
  next
    case 3
    obtain r1 s1 where m: "make_room kv s = (r1, s1)" by fastforce
    have ms: "sbuf_good kv i s1" "\<not> sb_closed s1" "logical i s1 = logical i s" "sb_device s1 = sb_device s"
        "os_fstat (sb_os s1) = os_fstat (sb_os s)"
      using make_room_spec[OF "1.prems"(1) m] "1.prems"(2) by simp_all
    show ?thesis
    proof (cases r1)
      case (Inl e)
      then have "(r, s') = (Inl e, s1)"
        using 3 m "1.prems"(3) by (simp add: xsputn_loop.simps[of kv s rest])
      then have "r = Inl e" "s' = s1" by simp_all
      then show ?thesis using ms by (auto intro: exI[of _ 0])
    next
      case (Inr u)
      let ?n = "min (length rest) (available s1)"
      let ?s = "s1\<lparr>sb_staged := sb_staged s1 @ take ?n rest\<rparr>"
      have loop: "xsputn_loop kv ?s (drop ?n rest) = (r, s')"
        using 3 m Inr "1.prems"(3) by (simp add: xsputn_loop.simps[of kv s rest] Let_def)
      have st: "sbuf_good kv i ?s" "logical i ?s = logical i s @ take ?n rest"
        using stage_spec[OF ms(1) _ ms(2), of "take ?n rest"] ms(3) by simp_all
      have tg: "tight i s \<Longrightarrow> tight i ?s"
        using make_room_spec[OF "1.prems"(1) m] Inr by (simp add: tight_def)
      have sp: "take ?n rest @ take k (drop ?n rest) = take (?n + k) rest" for k
        by (simp only: take_add)
      show ?thesis
        using "1.IH"[OF 3 m[symmetric] Inr refl st(1) _ loop] ms st(2) tg sp
        by (cases r) auto
    qed
  qed
qed

lemma xsputn_spec:
  assumes "sbuf_good kv i s" "xsputn kv s d = (r, s')"
  shows "sbuf_good kv i s' \<and> sb_closed s' = sb_closed s \<and> sb_device s' = sb_device s \<and>
    os_fstat (sb_os s') = os_fstat (sb_os s) \<and>
    (case r of Inr _ \<Rightarrow> logical i s' = logical i s @ d \<and> (tight i s \<longrightarrow> tight i s')
     | Inl _ \<Rightarrow> \<exists>k. logical i s' = logical i s @ take k d)"
proof (cases "sb_closed s \<or> d = []")
  case True
  then show ?thesis using assms by (auto simp: xsputn_def intro: exI[of _ 0] split: if_splits)
next
  case False
  then show ?thesis using assms xsputn_loop_spec[OF assms(1), of d r s'] by (simp add: xsputn_def)
qed

interpretation kvs: prefix_sink "xsputn kv" "sbuf_good kv i" "logical i" for kv i
  by unfold_locales (use xsputn_spec in \<open>fastforce split: sum.splits\<close>)+

section \<open>Programs that write to the stream\<close>

text \<open>
  What a caller does with a \<^verbatim>\<open>kvikio_ofstream\<close>: ordinary output, a single character
  (\<^verbatim>\<open>sputc\<close> stores it if there is room and calls \<open>overflow\<close> if not), output from a pointer, and
  flushing. \<^verbatim>\<open>sync\<close> reports its error as \<open>-1\<close>, which
  \<^verbatim>\<open>std::ostream::flush\<close> turns into the stream's bad bit.
\<close>

datatype stream_op = Put bytes | PutChar u8 | PutDevice "memory_space option" bytes | Flush

definition stream_step :: "kvikio \<Rightarrow> sbuf \<Rightarrow> stream_op \<Rightarrow> (io_error + unit) \<times> sbuf" where
  "stream_step kv s p = (case p of
      Put d \<Rightarrow> xsputn kv s d
    | PutChar c \<Rightarrow> (if available s = 0 then overflow kv s (Some c)
                   else (Inr (), s\<lparr>sb_staged := sb_staged s @ [c]\<rparr>))
    | PutDevice q d \<Rightarrow> write_device kv q s d
    | Flush \<Rightarrow> (case sync kv s of (res, s') \<Rightarrow> (if res = 0 then Inr () else Inl KvikioFailed, s')))"

fun stream_run :: "kvikio \<Rightarrow> sbuf \<Rightarrow> stream_op list \<Rightarrow> (io_error + unit) \<times> sbuf" where
  "stream_run kv s [] = (Inr (), s)"
| "stream_run kv s (p # ps) = bind_sr (stream_step kv s p) (\<lambda>_ s'. stream_run kv s' ps)"

fun op_bytes :: "stream_op \<Rightarrow> bytes" where
  "op_bytes (Put d) = d"
| "op_bytes (PutChar c) = [c]"
| "op_bytes (PutDevice q d) = d"
| "op_bytes Flush = []"

text \<open>The state of a stream on which nothing has failed.\<close>

definition sound :: "kvikio \<Rightarrow> identity \<Rightarrow> sbuf \<Rightarrow> bool" where
  "sound kv i s \<longleftrightarrow> sbuf_good kv i s \<and> \<not> sb_closed s \<and> tight i s \<and>
     (\<forall>d. sb_device s = Some d \<longrightarrow> handle_on (sb_os s) d i)"

lemma device_handle_sound:
  assumes s: "sound kv i s" and d: "device_handle kv s = (Inr d, s')"
  shows "sound kv i s' \<and> logical i s' = logical i s \<and> sb_staged s' = sb_staged s \<and> handle_on (sb_os s') d i"
proof (cases "sb_device s")
  case (Some x)
  then show ?thesis using s d by (auto simp: device_handle_def sound_def)
next
  case None
  then have v: "validate_kvikio_handles_match (sb_os s) (sb_handle s) d = Inr ()" "s' = s\<lparr>sb_device := Some d\<rparr>"
    using d by (auto simp: device_handle_def split: sum.splits)
  have "os_fstat (sb_os s) (h_buffered (sb_handle s)) = Some i"
    using s by (simp add: sound_def sbuf_good_def handle_on_def)
  then have "handle_on (sb_os s) d i"
    using v(1) by (simp add: validate_kvikio_handles_match_def get_file_identity_def validate_handle_iff)
  then show ?thesis
    using s v(2) by (simp add: sound_def sbuf_good_def logical_def committed_def tight_def)
qed

lemma write_at_sound:
  assumes s: "sound kv i s" and h: "handle_on (sb_os s) h i" and e: "sb_staged s = []"
    and w: "write_at_current_offset kv h s d = (Inr u, s')"
  shows "sound kv i s' \<and> logical i s' = logical i s @ d"
proof -
  have g: "sbuf_good kv i s" "tight i s" using s by (simp_all add: sound_def)
  note ws = write_at_spec[OF g(1) h w] and wt = write_at_tight[OF g(1) h g(2) w]
  show ?thesis
    using s e ws wt handle_on_fstat[OF ws(3)] by (simp add: sound_def logical_def)
qed

lemma flush_sound:
  assumes s: "sound kv i s" and f: "flush_buffer kv s = (Inr u, s')"
  shows "sound kv i s' \<and> logical i s' = logical i s \<and> sb_staged s' = []"
proof -
  have g: "sbuf_good kv i s" "tight i s" using s by (simp_all add: sound_def)
  note fs = flush_spec[OF g(1) f] and ft = flush_tight[OF g f] and fc = flush_committed[OF g(1) f]
  show ?thesis using s fs ft fc handle_on_fstat[OF fs(7)] by (simp add: sound_def)
qed

lemma write_device_sound:
  assumes s: "sound kv i s" and w: "write_device kv q s d = (Inr u, s')"
  shows "sound kv i s' \<and> logical i s' = logical i s @ d"
proof (cases "d = []")
  case True
  then show ?thesis using s w by (simp add: write_device_def sound_def)
next
  case False
  then obtain s1 where f: "flush_buffer kv s = (Inr (), s1)"
      and t: "(if \<not> is_kvikio_device_memory q then write_at_current_offset kv (sb_handle s1) s1 d
        else bind_sr (device_handle kv s1) (\<lambda>x s2. write_at_current_offset kv x s2 d)) = (Inr u, s')"
    using s w by (auto simp: write_device_def sound_def bind_sr_Inr_iff split: if_splits)
  note fs = flush_sound[OF s f]
  show ?thesis
  proof (cases "is_kvikio_device_memory q")
    case True
    then obtain x s2 where x: "device_handle kv s1 = (Inr x, s2)" "write_at_current_offset kv x s2 d = (Inr u, s')"
      using t by (auto simp: bind_sr_Inr_iff)
    note ds = device_handle_sound[OF conjunct1[OF fs] x(1)]
    show ?thesis using write_at_sound[OF _ _ _ x(2), of i] ds fs by simp
  next
    case False
    then have w1: "write_at_current_offset kv (sb_handle s1) s1 d = (Inr u, s')" using t by simp
    have "handle_on (sb_os s1) (sb_handle s1) i" using fs by (simp add: sound_def sbuf_good_def)
    then show ?thesis using write_at_sound[OF _ _ _ w1, of i] fs by simp
  qed
qed

lemma stage_sound:
  assumes "sound kv i s" "length d \<le> available s"
  shows "sound kv i (s\<lparr>sb_staged := sb_staged s @ d\<rparr>) \<and> logical i (s\<lparr>sb_staged := sb_staged s @ d\<rparr>) = logical i s @ d"
  using stage_spec[of kv i s d] assms by (simp add: sound_def tight_def)

lemma overflow_sound:
  assumes s: "sound kv i s" and w: "overflow kv s (Some c) = (Inr u, s')"
  shows "sound kv i s' \<and> logical i s' = logical i s @ [c]"
proof -
  obtain s1 where f: "flush_buffer kv s = (Inr (), s1)" "s' = s1\<lparr>sb_staged := sb_staged s1 @ [c]\<rparr>"
    using s w by (auto simp: overflow_def sound_def bind_sr_Inr_iff)
  note fs = flush_sound[OF s f(1)]
  then have "length [c] \<le> available s1" by (auto simp: sound_def sbuf_good_def available_def)
  from stage_sound[OF _ this, of kv i] show ?thesis using fs f(2) by simp
qed

lemma stream_step_sound:
  assumes s: "sound kv i s" and w: "stream_step kv s p = (Inr u, s')"
  shows "sound kv i s' \<and> logical i s' = logical i s @ op_bytes p"
proof (cases p)
  case (Put d)
  have g: "sbuf_good kv i s" using s by (simp add: sound_def)
  have x: "xsputn kv s d = (Inr u, s')" using w Put by (simp add: stream_step_def)
  have "os_fstat (sb_os s') = os_fstat (sb_os s)" using xsputn_spec[OF g x] by simp
  from handle_on_fstat[OF this] show ?thesis using xsputn_spec[OF g x] s Put by (simp add: sound_def)
next
  case (PutChar c)
  then show ?thesis
    using overflow_sound[OF s, of c u s'] stage_sound[OF s, of "[c]"] s w
    by (auto simp: stream_step_def sound_def split: if_splits)
next
  case (PutDevice q d)
  then show ?thesis using write_device_sound[OF s] w by (simp add: stream_step_def)
next
  case Flush
  then obtain v where "flush_buffer kv s = (Inr v, s')"
    using w by (auto simp: stream_step_def sync_def split: prod.splits sum.splits if_splits)
  from flush_sound[OF s this] show ?thesis using Flush by simp
qed

lemma stream_run_sound:
  "sound kv i s \<Longrightarrow> stream_run kv s ps = (Inr u, s') \<Longrightarrow>
    sound kv i s' \<and> logical i s' = logical i s @ concat (map op_bytes ps)"
proof (induction ps arbitrary: s)
  case (Cons p ps)
  then obtain s1 where "stream_step kv s p = (Inr (), s1)" "stream_run kv s1 ps = (Inr u, s')"
    by (auto simp: bind_sr_Inr_iff)
  then show ?case using Cons.IH stream_step_sound[OF Cons.prems(1)] by fastforce
qed simp

text \<open>
  What a failing operation leaves: the content before it and a part of its bytes, and nothing that was
  in the file already is touched. (The device handle may now be one that failed its check.)
\<close>

lemma write_device_err:
  assumes s: "sound kv i s" and w: "write_device kv q s d = (Inl e, s')"
  shows "sbuf_good kv i s' \<and> logical i s' = logical i s"
proof -
  have g: "sbuf_good kv i s" using s by (simp add: sound_def)
  consider "s' = s" | x where "flush_buffer kv s = (Inl x, s')"
    | v s1 where "flush_buffer kv s = (Inr v, s1)" "\<not> is_kvikio_device_memory q" "write_at_current_offset kv (sb_handle s1) s1 d = (Inl e, s')"
    | v s1 where "flush_buffer kv s = (Inr v, s1)" "is_kvikio_device_memory q"
        "bind_sr (device_handle kv s1) (\<lambda>x s2. write_at_current_offset kv x s2 d) = (Inl e, s')"
    using w by (auto simp: write_device_def bind_sr_Inl_iff split: if_splits)
  then show ?thesis
  proof cases
    case (2 x)
    then show ?thesis using flush_spec[OF g] by blast
  next
    case (3 v s1)
    note fs = flush_sound[OF s 3(1)]
    then have "sbuf_good kv i s1" "handle_on (sb_os s1) (sb_handle s1) i" by (simp_all add: sound_def sbuf_good_def)
    from write_at_spec[OF this 3(3)] show ?thesis using fs by (auto simp: logical_def)
  next
    case (4 v s1)
    note fs = flush_sound[OF s 4(1)]
    then have g1: "sbuf_good kv i s1" by (simp add: sound_def)
    obtain r s2 where d: "device_handle kv s1 = (r, s2)" by fastforce
    show ?thesis
    proof (cases r)
      case (Inl x)
      then have "s' = s2" using 4(3) d by simp
      moreover have "s2 = s1 \<or> (\<exists>y. s2 = s1\<lparr>sb_device := y\<rparr>)"
        using d by (auto simp: device_handle_def split: option.splits sum.splits)
      ultimately show ?thesis using g1 fs by (auto simp: sbuf_good_def logical_def committed_def)
    next
      case (Inr x)
      note ds = device_handle_sound[OF conjunct1[OF fs] d[unfolded Inr]]
      have "write_at_current_offset kv x s2 d = (Inl e, s')" using 4(3) d Inr by simp
      moreover have "sbuf_good kv i s2" using ds by (simp add: sound_def)
      ultimately show ?thesis using write_at_spec[of kv i s2 x d "Inl e" s'] ds fs by (auto simp: logical_def)
    qed
  qed (use g in simp)
qed

lemma stream_step_err:
  assumes s: "sound kv i s" and w: "stream_step kv s p = (Inl e, s')"
  shows "sbuf_good kv i s' \<and> (\<exists>k. logical i s' = logical i s @ take k (op_bytes p))"
proof -
  have g: "sbuf_good kv i s" "\<not> sb_closed s" using s by (simp_all add: sound_def)
  show ?thesis
  proof (cases p)
    case (Put d)
    then show ?thesis using xsputn_spec[OF g(1), of d "Inl e" s'] w by (simp add: stream_step_def)
  next
    case (PutChar c)
    then obtain x where "flush_buffer kv s = (Inl x, s')"
      using w g(2) by (auto simp: stream_step_def overflow_def bind_sr_Inl_iff split: if_splits)
    from flush_spec[OF g(1) this] show ?thesis by (auto intro: exI[of _ 0])
  next
    case (PutDevice q d)
    then show ?thesis using write_device_err[OF s, of q d e s'] w by (auto simp: stream_step_def intro: exI[of _ 0])
  next
    case Flush
    then obtain x where "flush_buffer kv s = (x, s')"
      using w by (auto simp: stream_step_def sync_def split: prod.splits sum.splits if_splits)
    from flush_spec[OF g(1) this] show ?thesis by (auto intro: exI[of _ 0])
  qed
qed

lemma stream_run_err:
  "sound kv i s \<Longrightarrow> stream_run kv s ps = (Inl e, s') \<Longrightarrow>
    \<exists>ps1 p ps2 s1. ps = ps1 @ p # ps2 \<and> stream_run kv s ps1 = (Inr (), s1) \<and> sound kv i s1 \<and>
      logical i s1 = logical i s @ concat (map op_bytes ps1) \<and> stream_step kv s1 p = (Inl e, s')"
proof (induction ps arbitrary: s)
  case (Cons p ps)
  obtain r t where st: "stream_step kv s p = (r, t)" by fastforce
  show ?case
  proof (cases r)
    case (Inl x)
    then have "stream_step kv s p = (Inl e, s')" using Cons.prems(2) st by simp
    then show ?thesis using Cons.prems(1) by (intro exI[of _ "[]"] exI[of _ p] exI[of _ ps] exI[of _ s]) simp
  next
    case (Inr v)
    note ss = stream_step_sound[OF Cons.prems(1) st[unfolded Inr]]
    have "stream_run kv t ps = (Inl e, s')" using Cons.prems(2) st Inr by simp
    from Cons.IH[OF conjunct1[OF ss] this] obtain ps1 q ps2 s1 where
      "ps = ps1 @ q # ps2" "stream_run kv t ps1 = (Inr (), s1)" "sound kv i s1"
      "logical i s1 = logical i t @ concat (map op_bytes ps1)" "stream_step kv s1 q = (Inl e, s')" by blast
    then show ?thesis
      using ss st Inr by (intro exI[of _ "p # ps1"] exI[of _ q] exI[of _ ps2] exI[of _ s1]) simp
  qed
qed simp

text \<open>The position of the file never goes back.\<close>

lemma write_at_offset: "write_at_current_offset kv h s d = (r, s') \<Longrightarrow> sb_offset s \<le> sb_offset s'"
  by (auto simp: write_at_current_offset_def split: if_splits option.splits prod.splits)

lemma flush_offset: "flush_buffer kv s = (r, s') \<Longrightarrow> sb_offset s \<le> sb_offset s'"
  by (auto simp: flush_buffer_def bind_sr_def dest: write_at_offset split: if_splits prod.splits sum.splits)

lemma bind_offset:
  assumes "bind_sr (f, t) k = (r, s')" "sb_offset s \<le> sb_offset t" "\<And>a. k a t = (r, s') \<Longrightarrow> sb_offset t \<le> sb_offset s'"
  shows "sb_offset s \<le> sb_offset s'"
  using assms by (cases f) (auto intro: order_trans)

lemma xsputn_loop_offset: "xsputn_loop kv s rest = (r, s') \<Longrightarrow> sb_offset s \<le> sb_offset s'"
proof (induction kv s rest rule: xsputn_loop.induct)
  case (1 kv s rest)
  consider "rest = []" | "rest \<noteq> []" "sb_size s \<le> length rest" | "rest \<noteq> []" "\<not> sb_size s \<le> length rest" by blast
  then show ?case
  proof cases
    case 2
    obtain f t where f: "flush_buffer kv s = (f, t)" by fastforce
    have "bind_sr (f, t) (\<lambda>_ s'. write_at_current_offset kv (sb_handle s') s' rest) = (r, s')"
      using "1.prems" 2 f by (simp add: xsputn_loop.simps[of kv s rest])
    then show ?thesis by (rule bind_offset) (use f flush_offset write_at_offset in blast)+
  next
    case 3
    obtain r1 s1 where m: "make_room kv s = (r1, s1)" by fastforce
    have s1: "sb_offset s \<le> sb_offset s1" using m flush_offset[of kv s] by (auto simp: make_room_def split: if_splits)
    show ?thesis
    proof (cases r1)
      case (Inl e)
      then show ?thesis using "1.prems" 3 m s1 by (simp add: xsputn_loop.simps[of kv s rest])
    next
      case (Inr v)
      have "xsputn_loop kv (s1\<lparr>sb_staged := sb_staged s1 @ take (min (length rest) (available s1)) rest\<rparr>)
          (drop (min (length rest) (available s1)) rest) = (r, s')"
        using "1.prems" 3 m Inr by (simp add: xsputn_loop.simps[of kv s rest] Let_def)
      from "1.IH"[OF 3 m[symmetric] Inr refl this] s1 show ?thesis by simp
    qed
  qed (use "1.prems" in \<open>simp add: xsputn_loop.simps[of kv s "[]"]\<close>)
qed

lemma device_handle_offset: "device_handle kv s = (r, s') \<Longrightarrow> sb_offset s' = sb_offset s"
  by (auto simp: device_handle_def split: option.splits sum.splits)

lemma write_device_offset: "write_device kv q s d = (r, s') \<Longrightarrow> sb_offset s \<le> sb_offset s'"
proof -
  assume w: "write_device kv q s d = (r, s')"
  obtain f t where f: "flush_buffer kv s = (f, t)" by fastforce
  obtain x t2 where x: "device_handle kv t = (x, t2)" by fastforce
  let ?tail = "\<lambda>_ s1. if \<not> is_kvikio_device_memory q then write_at_current_offset kv (sb_handle s1) s1 d
        else bind_sr (device_handle kv s1) (\<lambda>x s2. write_at_current_offset kv x s2 d)"
  have ends: "sb_offset t \<le> sb_offset s'" if "?tail a t = (r, s')" for a
  proof (cases "is_kvikio_device_memory q")
    case True
    then have "bind_sr (x, t2) (\<lambda>x s2. write_at_current_offset kv x s2 d) = (r, s')" using that x by simp
    then show ?thesis by (rule bind_offset) (use device_handle_offset[OF x] write_at_offset[of kv _ t2 d r s'] in auto)
  qed (use that write_at_offset in auto)
  have "s' = s \<or> bind_sr (f, t) ?tail = (r, s')" using w f by (auto simp: write_device_def split: if_splits)
  then show ?thesis using bind_offset[OF _ flush_offset[OF f] ends] by blast
qed

lemma stream_step_offset: "stream_step kv s p = (r, s') \<Longrightarrow> sb_offset s \<le> sb_offset s'"
  by (cases p) (auto simp: stream_step_def xsputn_def overflow_def sync_def bind_sr_def
    dest: xsputn_loop_offset write_device_offset flush_offset split: if_splits prod.splits sum.splits)

text \<open>Closing writes what is staged, and the file is the content.\<close>

lemma close_sound:
  assumes s: "sound kv i s" and c: "close_sbuf kv s = (Inr v, s')"
  shows "os_contents (sb_os s') i = logical i s"
proof -
  obtain t where f: "flush_buffer kv s = (Inr (), t)" "s' = t\<lparr>sb_closed := True\<rparr>"
    using c s by (auto simp: close_sbuf_def sound_def bind_sr_Inr_iff)
  then show ?thesis
    using flush_sound[OF s f(1)] by (auto simp: sound_def tight_def logical_def committed_def)
qed

text \<open>Opening for writing truncates the file: documented behaviour of the mode \<^verbatim>\<open>"w"\<close>.\<close>

definition kvikio_creates :: "kvikio \<Rightarrow> bool" where
  "kvikio_creates kv \<longleftrightarrow> (\<forall>os path h os'. kv_create kv os path = Some (h, os') \<longrightarrow>
     (\<exists>i. handle_on os' h i \<and> os_contents os' i = []))"

lemma open_sound:
  assumes "kvikio_transfers kv" "kvikio_confined kv" "kvikio_creates kv" "open_sbuf kv os path cap = (Inr s, os')"
  shows "\<exists>i. sound kv i s \<and> logical i s = [] \<and> os_fstat (sb_os s) (h_buffered (sb_handle s)) = Some i"
proof -
  obtain h where h: "kv_create kv os path = Some (h, os')" "sb_handle s = h" "sb_os s = os'"
      "sb_device s = None" "sb_size s = max cap kNumpyDataAlignment" "sb_staged s = []" "sb_offset s = 0"
      "\<not> sb_closed s"
    using assms(4) by (auto simp: open_sbuf_def Let_def split: option.splits if_splits)
  then obtain i where "handle_on os' h i" "os_contents os' i = []"
    using assms(3) unfolding kvikio_creates_def by blast
  then show ?thesis
    using h assms(1,2)
    by (intro exI[of _ i]) (auto simp: sound_def sbuf_good_def tight_def logical_def committed_def
        kNumpyDataAlignment_def handle_on_def)
qed

section \<open>The write buffer over any stream\<close>

text \<open>\<^verbatim>\<open>buffered_ofstream\<close>; \<open>w\<close> is the write of the stream below, whose error is its lost \<^verbatim>\<open>good()\<close>.\<close>

record 's bufo =
  bo_cap :: nat
  bo_pending :: bytes
  bo_os :: 's

definition bo_flush :: "('s \<Rightarrow> bytes \<Rightarrow> ('e + unit) \<times> 's) \<Rightarrow> 's bufo \<Rightarrow> ('e + unit) \<times> 's bufo" where
  "bo_flush w b =
     (if 0 < length (bo_pending b)
      then (case w (bo_os b) (bo_pending b) of
          (Inl e, s') \<Rightarrow> (Inl e, b\<lparr>bo_os := s'\<rparr>)
        | (Inr _, s') \<Rightarrow> (Inr (), b\<lparr>bo_os := s', bo_pending := []\<rparr>))
      else (Inr (), b))"

definition bo_write :: "('s \<Rightarrow> bytes \<Rightarrow> ('e + unit) \<times> 's) \<Rightarrow> 's bufo \<Rightarrow> bytes \<Rightarrow> ('e + unit) \<times> 's bufo" where
  "bo_write w b input =
     (if bo_cap b \<le> length input
      then bind_sr (bo_flush w b) (\<lambda>_ b'. case w (bo_os b') input of
          (Inl e, s') \<Rightarrow> (Inl e, b'\<lparr>bo_os := s'\<rparr>)
        | (Inr _, s') \<Rightarrow> (Inr (), b'\<lparr>bo_os := s'\<rparr>))
      else bind_sr (if bo_cap b - length (bo_pending b) < length input then bo_flush w b else (Inr (), b))
        (\<lambda>_ b'. (Inr (), b'\<lparr>bo_pending := bo_pending b' @ input\<rparr>)))"

definition bo_good :: "('s \<Rightarrow> bool) \<Rightarrow> 's bufo \<Rightarrow> bool" where
  "bo_good g b \<longleftrightarrow> g (bo_os b) \<and> length (bo_pending b) \<le> bo_cap b"

definition bo_content :: "('s \<Rightarrow> bytes) \<Rightarrow> 's bufo \<Rightarrow> bytes" where
  "bo_content c b = c (bo_os b) @ bo_pending b"

context byte_sink begin

lemma bo_flush_spec:
  assumes "bo_good good b" "bo_flush put b = (Inr u, b')"
  shows "bo_good good b' \<and> bo_content content b' = bo_content content b \<and> bo_pending b' = [] \<and> bo_cap b' = bo_cap b \<and>
    (\<exists>x. content (bo_os b') = content (bo_os b) @ x)"
proof (cases "bo_pending b = []")
  case True
  then show ?thesis using assms by (simp add: bo_flush_def)
next
  case False
  then obtain v s' where "put (bo_os b) (bo_pending b) = (Inr v, s')" "b' = b\<lparr>bo_os := s', bo_pending := []\<rparr>"
    using assms(2) by (auto simp: bo_flush_def split: prod.splits sum.splits)
  then show ?thesis
    using assms(1) write_ok[of "bo_os b" "bo_pending b" v s'] by (simp add: bo_good_def bo_content_def)
qed

lemma bo_write_spec:
  assumes g: "bo_good good b" and w: "bo_write put b d = (Inr u, b')"
  shows "bo_good good b' \<and> bo_content content b' = bo_content content b @ d \<and>
    (\<exists>x. content (bo_os b') = content (bo_os b) @ x)"
proof (cases "bo_cap b \<le> length d")
  case True
  then obtain b1 v s' where f: "bo_flush put b = (Inr (), b1)"
      and p: "put (bo_os b1) d = (Inr v, s')" "b' = b1\<lparr>bo_os := s'\<rparr>"
  proof -
    obtain v0 b1 where f: "bo_flush put b = (Inr v0, b1)"
        and r: "(case put (bo_os b1) d of (Inl e, s') \<Rightarrow> (Inl e, b1\<lparr>bo_os := s'\<rparr>)
          | (Inr _, s') \<Rightarrow> (Inr (), b1\<lparr>bo_os := s'\<rparr>)) = (Inr u, b')"
      using w True by (auto simp: bo_write_def bind_sr_Inr_iff)
    obtain v s' where "put (bo_os b1) d = (Inr v, s')" "b' = b1\<lparr>bo_os := s'\<rparr>"
      using r by (cases "put (bo_os b1) d"; cases "fst (put (bo_os b1) d)") auto
    then show ?thesis using that f by simp
  qed
  note fs = bo_flush_spec[OF g f]
  then have "good (bo_os b1)" by (simp add: bo_good_def)
  from write_ok[OF this p(1)] show ?thesis
    using fs p(2) by (auto simp: bo_good_def bo_content_def)
next
  case False
  then obtain b1 where f: "(if bo_cap b - length (bo_pending b) < length d then bo_flush put b else (Inr (), b)) = (Inr (), b1)"
      and b': "b' = b1\<lparr>bo_pending := bo_pending b1 @ d\<rparr>"
    using w by (auto simp: bo_write_def bind_sr_Inr_iff)
  have "bo_good good b1 \<and> bo_content content b1 = bo_content content b \<and>
      length (bo_pending b1) + length d \<le> bo_cap b1 \<and> (\<exists>x. content (bo_os b1) = content (bo_os b) @ x)"
  proof (cases "bo_cap b - length (bo_pending b) < length d")
    case True
    then have "bo_flush put b = (Inr (), b1)" using f by simp
    from bo_flush_spec[OF g this] show ?thesis using False by simp
  next
    case False
    then show ?thesis using f g by (auto simp: bo_good_def)
  qed
  then show ?thesis using b' by (simp add: bo_good_def bo_content_def)
qed

lemma buffered: "byte_sink (bo_write put) (bo_good good) (bo_content content)"
  by unfold_locales (use bo_write_spec in blast)

end

context prefix_sink begin

lemma bo_flush_err:
  assumes "bo_good good b" "bo_flush put b = (Inl e, b')"
  shows "\<exists>k. content (bo_os b') = content (bo_os b) @ take k (bo_pending b)"
  using assms write_err[of "bo_os b" "bo_pending b"]
  by (auto simp: bo_flush_def bo_good_def split: if_splits prod.splits sum.splits)

lemma bo_write_err:
  assumes g: "bo_good good b" and w: "bo_write put b d = (Inl e, b')"
  shows "\<exists>k. content (bo_os b') = content (bo_os b) @ take k (bo_pending b @ d)"
proof -
  have flushed: ?thesis if f: "bo_flush put b = (Inl x, b')" for x
  proof -
    obtain k where "content (bo_os b') = content (bo_os b) @ take k (bo_pending b)" using bo_flush_err[OF g f] by blast
    then show ?thesis by (intro exI[of _ "min k (length (bo_pending b))"]) (simp add: min_def)
  qed
  have below: ?thesis if f: "bo_flush put b = (Inr v, b1)" and p: "put (bo_os b1) d = (Inl x, bo_os b')" for v b1 x
  proof -
    note fs = bo_flush_spec[OF g f]
    then have c: "good (bo_os b1)" "content (bo_os b1) = content (bo_os b) @ bo_pending b"
      by (auto simp: bo_good_def bo_content_def)
    then obtain k where "content (bo_os b') = content (bo_os b) @ bo_pending b @ take k d" using write_err[OF c(1) p] by auto
    then show ?thesis by (intro exI[of _ "length (bo_pending b) + k"]) simp
  qed
  obtain r b1 where f: "bo_flush put b = (r, b1)" by fastforce
  show ?thesis
  proof (cases r)
    case (Inl x)
    then show ?thesis using w f flushed by (auto simp: bo_write_def split: if_splits)
  next
    case (Inr v)
    obtain r2 s2 where p: "put (bo_os b1) d = (r2, s2)" by fastforce
    then show ?thesis using w f Inr below[of v b1] by (cases r2) (auto simp: bo_write_def split: if_splits)
  qed
qed

lemma bo_writes_err:
  "bo_good good b \<Longrightarrow> write_all (bo_write put) b ds = (Inl e, b') \<Longrightarrow>
    \<exists>k. content (bo_os b') = content (bo_os b) @ take k (bo_pending b @ concat ds)"
proof (induction ds arbitrary: b)
  case (Cons d ds)
  obtain r b1 where w: "bo_write put b d = (r, b1)" by fastforce
  show ?case
  proof (cases r)
    case (Inl x)
    then obtain k where "content (bo_os b') = content (bo_os b) @ take k (bo_pending b @ d)"
      using bo_write_err[OF Cons.prems(1) w[unfolded Inl]] Cons.prems(2) w Inl by (simp only: write_all.simps bind_sr_simps) blast
    then show ?thesis by (intro exI[of _ "min k (length (bo_pending b @ d))"]) (simp add: min_def)
  next
    case (Inr v)
    note ws = bo_write_spec[OF Cons.prems(1) w[unfolded Inr]]
    then obtain x where x: "content (bo_os b1) = content (bo_os b) @ x" by blast
    then have p: "x @ bo_pending b1 = bo_pending b @ d" using ws by (simp add: bo_content_def)
    obtain k where k: "content (bo_os b') = content (bo_os b1) @ take k (bo_pending b1 @ concat ds)"
      using Cons.IH[of b1] ws Cons.prems(2) w Inr by auto
    have "bo_pending b @ concat (d # ds) = x @ bo_pending b1 @ concat ds" using arg_cong[OF p, of "\<lambda>y. y @ concat ds"] by simp
    moreover have "content (bo_os b') = content (bo_os b) @ take (length x + k) (x @ bo_pending b1 @ concat ds)"
      using k x by simp
    ultimately show ?thesis by metis
  qed
qed simp

end

text \<open>On a stream on which nothing has failed, with and without the buffer.\<close>

interpretation sounds: byte_sink "xsputn kv" "sound kv i" "logical i" for kv i
  by unfold_locales (use stream_step_sound[of _ _ _ "Put _"] in \<open>simp add: stream_step_def\<close>)

interpretation bos: byte_sink "bo_write (xsputn kv)" "bo_good (sound kv i)" "bo_content (logical i)" for kv i
  by (rule sounds.buffered)

section \<open>The descriptor stream\<close>

text \<open>
  \<open>fs_pos\<close> is the position of the duplicated descriptor, \<open>fs_unread\<close> the bytes of
  \<^verbatim>\<open>[gptr(), egptr())\<close>. A script again lists the outcomes of \<^verbatim>\<open>read\<close>; \<open>None\<close> means
  that the script ended while the code was still in the loop that retries an interrupted call.
\<close>

record fd_streambuf =
  fs_valid :: bool
  fs_file :: bytes
  fs_pos :: nat
  fs_unread :: bytes
  fs_cap :: nat

definition make_istream :: "os \<Rightarrow> int \<Rightarrow> nat \<Rightarrow> io_error + fd_streambuf" where
  "make_istream os fd buffer_size =
     (if fd = -1 \<or> buffer_size = 0 then Inl InvalidDescriptor
      else Inr \<lparr>fs_valid = True, fs_file = fd_contents os fd, fs_pos = 0, fs_unread = [], fs_cap = buffer_size\<rparr>)"

fun os_read :: "fd_streambuf \<Rightarrow> syscall list \<Rightarrow> (bytes \<times> syscall list) option" where
  "os_read s [] = None"
| "os_read s (Interrupted # rest) = os_read s rest"
| "os_read s (Failed # rest) = Some ([], rest)"
| "os_read s (Transferred n # rest) = Some (os_pread (fs_file s) (fs_pos s) (min n (fs_cap s)), rest)"

definition underflow :: "fd_streambuf \<Rightarrow> syscall list \<Rightarrow> (u8 option \<times> fd_streambuf \<times> syscall list) option" where
  "underflow s script =
     (case fs_unread s of
        c # _ \<Rightarrow> Some (Some c, s, script)
      | [] \<Rightarrow>
          if \<not> fs_valid s then Some (None, s, script)
          else (case os_read s script of
              None \<Rightarrow> None
            | Some ([], rest) \<Rightarrow> Some (None, s, rest)
            | Some (c # cs, rest) \<Rightarrow>
                Some (Some c, s\<lparr>fs_unread := c # cs, fs_pos := fs_pos s + length (c # cs)\<rparr>, rest)))"

text \<open>\<^verbatim>\<open>xsgetn\<close>: copy what is buffered, refill when nothing is, until \<open>n\<close> bytes or the end.\<close>

function sgetn :: "fd_streambuf \<Rightarrow> nat \<Rightarrow> syscall list \<Rightarrow> (bytes \<times> fd_streambuf \<times> syscall list) option" where
  "sgetn s n script =
     (if n = 0 then Some ([], s, script)
      else (case underflow s script of
          None \<Rightarrow> None
        | Some (None, s1, rest) \<Rightarrow> Some ([], s1, rest)
        | Some (Some _, s1, rest) \<Rightarrow>
            let k = min n (length (fs_unread s1))
            in if k = 0 then None
               else (case sgetn (s1\<lparr>fs_unread := drop k (fs_unread s1)\<rparr>) (n - k) rest of
                   None \<Rightarrow> None
                 | Some (bs, s2, rest2) \<Rightarrow> Some (take k (fs_unread s1) @ bs, s2, rest2))))"
  by pat_completeness auto
termination by (relation "measure (\<lambda>(s, n, script). n)") auto

declare sgetn.simps [simp del]

definition seekoff_in :: "fd_streambuf \<Rightarrow> int \<Rightarrow> seekdir \<Rightarrow> bool \<Rightarrow> int \<times> fd_streambuf" where
  "seekoff_in s off dir for_input =
     (if \<not> fs_valid s \<or> \<not> for_input then (-1, s)
      else if dir = Cur \<and> off = 0 then (int (fs_pos s) - int (length (fs_unread s)), s)
      else let target = (case dir of
                  Cur \<Rightarrow> int (fs_pos s) + (off - int (length (fs_unread s)))
                | End \<Rightarrow> int (length (fs_file s)) + off
                | Beg \<Rightarrow> off)
           in if target < 0 \<or> int off_max < target then (-1, s)
              else (target, s\<lparr>fs_pos := nat target, fs_unread := []\<rparr>))"

text \<open>The stream's own position, and what its buffer must hold.\<close>

definition fs_tell :: "fd_streambuf \<Rightarrow> nat" where
  "fs_tell s = fs_pos s - length (fs_unread s)"

definition fs_ok :: "fd_streambuf \<Rightarrow> bool" where
  "fs_ok s \<longleftrightarrow> fs_valid s \<and> 0 < fs_cap s \<and> length (fs_unread s) \<le> fs_pos s \<and>
     fs_unread s = os_pread (fs_file s) (fs_tell s) (length (fs_unread s))"

lemma os_read_spec:
  "os_read s script = Some (bs, rest) \<Longrightarrow> bs = os_pread (fs_file s) (fs_pos s) (length bs)"
proof (induction s script rule: os_read.induct)
  case (4 s n rest)
  then show ?case by (auto simp: os_pread_length)
qed auto

lemma underflow_spec:
  assumes "fs_ok s" "underflow s script = Some (c, s1, rest)"
  shows "fs_ok s1 \<and> fs_file s1 = fs_file s \<and> fs_tell s1 = fs_tell s \<and> (c \<noteq> None \<longrightarrow> fs_unread s1 \<noteq> [])"
proof (cases "fs_unread s")
  case (Cons a b)
  then show ?thesis using assms by (auto simp: underflow_def)
next
  case Nil
  then obtain bs where r: "os_read s script = Some (bs, rest)"
      "s1 = (if bs = [] then s else s\<lparr>fs_unread := bs, fs_pos := fs_pos s + length bs\<rparr>)"
      "c = (if bs = [] then None else Some (hd bs))"
    using assms by (auto simp: underflow_def fs_ok_def split: option.splits list.splits)
  then show ?thesis
    using assms(1) Nil os_read_spec[OF r(1)] by (auto simp: fs_ok_def fs_tell_def)
qed

lemma fs_consume:
  assumes "fs_ok s" "k \<le> length (fs_unread s)"
  shows "fs_ok (s\<lparr>fs_unread := drop k (fs_unread s)\<rparr>)"
    "fs_tell (s\<lparr>fs_unread := drop k (fs_unread s)\<rparr>) = fs_tell s + k"
    "take k (fs_unread s) = os_pread (fs_file s) (fs_tell s) k"
proof -
  let ?u = "fs_unread s"
  have u: "?u = take (length ?u) (drop (fs_tell s) (fs_file s))" "length ?u \<le> fs_pos s"
    using assms(1) by (simp_all add: fs_ok_def os_pread_def)
  show "take k ?u = os_pread (fs_file s) (fs_tell s) k"
    using assms(2) by (subst u(1)) (simp add: os_pread_def min_absorb1)
  show t: "fs_tell (s\<lparr>fs_unread := drop k ?u\<rparr>) = fs_tell s + k"
    using u(2) assms(2) by (simp add: fs_tell_def)
  have d: "drop k ?u = os_pread (fs_file s) (fs_tell s + k) (length ?u - k)"
    by (subst u(1)) (simp add: os_pread_def drop_take add.commute)
  show "fs_ok (s\<lparr>fs_unread := drop k ?u\<rparr>)"
    unfolding fs_ok_def t using assms by (auto simp: fs_ok_def simp flip: d)
qed

text \<open>Reading returns the next bytes of the file and moves the stream's position behind them.\<close>

lemma sgetn_spec:
  assumes "fs_ok s" "sgetn s n script = Some (bs, s', rest)"
  shows "fs_ok s' \<and> fs_file s' = fs_file s \<and> fs_tell s' = fs_tell s + length bs \<and> length bs \<le> n \<and>
    bs = os_pread (fs_file s) (fs_tell s) (length bs)"
  using assms
proof (induction s n script arbitrary: bs s' rest rule: sgetn.induct)
  case (1 s n script)
  show ?case
  proof (cases "n = 0")
    case True
    then show ?thesis using "1.prems" by (simp add: sgetn.simps[of s 0 script])
  next
    case False
    then obtain c s1 r1 where u: "underflow s script = Some (c, s1, r1)"
      using "1.prems"(2) by (auto simp: sgetn.simps[of s n script] split: option.splits prod.splits)
    note us = underflow_spec[OF "1.prems"(1) u]
    show ?thesis
    proof (cases c)
      case None
      then have "bs = []" "s' = s1" using "1.prems"(2) False u by (simp_all add: sgetn.simps[of s n script])
      then show ?thesis using us by (simp)
    next
      case (Some a)
      let ?k = "min n (length (fs_unread s1))"
      have k: "?k \<noteq> 0" using us Some False by simp
      obtain bs2 where b: "sgetn (s1\<lparr>fs_unread := drop ?k (fs_unread s1)\<rparr>) (n - ?k) r1 = Some (bs2, s', rest)"
          "bs = take ?k (fs_unread s1) @ bs2"
        using "1.prems"(2) False u Some k
        by (auto simp: sgetn.simps[of s n script] Let_def split: option.splits prod.splits)
      have ok1: "fs_ok s1" using us by simp
      note fc = fs_consume[OF ok1, of ?k, simplified]
      note ih = "1.IH"[OF False u refl Some refl refl k fc(1) b(1)]
      have l: "length bs = ?k + length bs2" using b(2) by simp
      have "fs_file s1 = fs_file s" "fs_tell s1 = fs_tell s" using us by simp_all
      moreover have "bs2 = os_pread (fs_file s1) (fs_tell s1 + ?k) (length bs2)"
        using ih fc(2) by simp
      ultimately have "os_pread (fs_file s) (fs_tell s) (?k + length bs2) = take ?k (fs_unread s1) @ bs2"
        using fc(3) os_pread_split[of "fs_file s" "fs_tell s" ?k "length bs2"] by simp
      moreover have "?k + length bs2 \<le> n" using ih min.cobounded1[of n "length (fs_unread s1)"] by linarith
      ultimately show ?thesis using ih fc us b(2) l by simp
    qed
  qed
qed

section \<open>The mixed reader\<close>

record reader =
  rd_os :: os
  rd_stream :: fd_streambuf
  rd_good :: bool
  rd_handle :: handle

text \<open>\<open>posix_open\<close> is \<^verbatim>\<open>open(path, O_RDONLY)\<close>, \<open>-1\<close> when it fails.\<close>

definition open_reader :: "kvikio \<Rightarrow> os \<Rightarrow> (string \<Rightarrow> int) \<Rightarrow> string \<Rightarrow> io_error + reader" where
  "open_reader kv os posix_open path =
     (let fd = posix_open path in
      if fd = -1 then Inl OpenFailed
      else bind_r (make_istream os fd 8192) (\<lambda>st.
           bind_r (open_kvikio_file_for_device_io kv os path ''r'') (\<lambda>h.
           bind_r (validate_kvikio_handle_matches_fd os fd h) (\<lambda>_.
             Inr \<lparr>rd_os = os, rd_stream = st, rd_good = True, rd_handle = h\<rparr>))))"

text \<open>Reading metadata through \<open>stream()\<close>; a short read sets the eof and fail bits.\<close>

definition read_stream :: "reader \<Rightarrow> nat \<Rightarrow> syscall list \<Rightarrow> ((io_error + bytes) \<times> reader \<times> syscall list) option" where
  "read_stream r n script =
     (if \<not> rd_good r then Some (Inl ReadFailed, r, script)
      else case sgetn (rd_stream r) n script of
        None \<Rightarrow> None
      | Some (bs, st, rest) \<Rightarrow>
          if length bs = n then Some (Inr bs, r\<lparr>rd_stream := st\<rparr>, rest)
          else Some (Inl ReadFailed, r\<lparr>rd_stream := st, rd_good := False\<rparr>, rest))"

definition read_device :: "kvikio \<Rightarrow> reader \<Rightarrow> bool \<Rightarrow> nat \<Rightarrow> (io_error + bytes) \<times> reader" where
  "read_device kv r null_ptr n =
     (if null_ptr \<and> n \<noteq> 0 then (Inl NullPointer, r)
      else if n = 0 then (Inr [], r)
      else if off_max < n then (Inl StreamRange, r)
      else let position = (if rd_good r then fst (seekoff_in (rd_stream r) 0 Cur True) else -1) in
        if position = -1 then (Inl NoPosition, r)
        else if position < 0 then (Inl NoPosition, r)
        else (case kv_pread kv (rd_os r) (rd_handle r) n (nat position) of
            None \<Rightarrow> (Inl KvikioFailed, r)
          | Some got \<Rightarrow>
              if length got \<noteq> n then (Inl ShortRead, r)
              else let (p, st) = seekoff_in (rd_stream r) (int n) Cur True in
                if p = -1 then (Inl SeekFailed, r\<lparr>rd_good := False\<rparr>)
                else (Inr got, r\<lparr>rd_stream := st\<rparr>)))"

datatype read_op = FromStream nat | ToDevice nat

fun op_size :: "read_op \<Rightarrow> nat" where
  "op_size (FromStream n) = n"
| "op_size (ToDevice n) = n"

definition reader_step :: "kvikio \<Rightarrow> reader \<Rightarrow> read_op \<Rightarrow> syscall list \<Rightarrow>
    ((io_error + bytes) \<times> reader \<times> syscall list) option" where
  "reader_step kv r p script = (case p of
      FromStream n \<Rightarrow> read_stream r n script
    | ToDevice n \<Rightarrow> (let (res, r') = read_device kv r False n in Some (res, r', script)))"

text \<open>All reads of a program, in order, or the first error.\<close>

fun reader_run :: "kvikio \<Rightarrow> reader \<Rightarrow> read_op list \<Rightarrow> syscall list \<Rightarrow> (io_error + bytes list) option" where
  "reader_run kv r [] script = Some (Inr [])"
| "reader_run kv r (p # ps) script =
     (case reader_step kv r p script of
        None \<Rightarrow> None
      | Some (Inl e, r', rest) \<Rightarrow> Some (Inl e)
      | Some (Inr bs, r', rest) \<Rightarrow>
          (case reader_run kv r' ps rest of
             None \<Rightarrow> None | Some (Inl e) \<Rightarrow> Some (Inl e) | Some (Inr bss) \<Rightarrow> Some (Inr (bs # bss))))"

definition reader_ok :: "identity \<Rightarrow> reader \<Rightarrow> bool" where
  "reader_ok i r \<longleftrightarrow> fs_ok (rd_stream r) \<and> fs_file (rd_stream r) = os_contents (rd_os r) i \<and>
     handle_on (rd_os r) (rd_handle r) i"

lemma seek_forward:
  assumes "fs_ok s" "seekoff_in s (int n) Cur True = (p, s')" "p \<noteq> -1" "n \<noteq> 0"
  shows "fs_ok s' \<and> fs_file s' = fs_file s \<and> fs_tell s' = fs_tell s + n"
  using assms by (auto simp: seekoff_in_def fs_ok_def fs_tell_def Let_def split: if_splits)

lemma tell_position: "fs_ok s \<Longrightarrow> fst (seekoff_in s 0 Cur True) = int (fs_tell s)"
  by (simp add: seekoff_in_def fs_ok_def fs_tell_def)

lemma reader_step_spec:
  assumes ok: "reader_ok i r" and kv: "kvikio_transfers kv"
    and st: "reader_step kv r p script = Some (Inr bs, r', rest)"
  shows "reader_ok i r' \<and> rd_os r' = rd_os r \<and> length bs = op_size p \<and>
    fs_tell (rd_stream r') = fs_tell (rd_stream r) + length bs \<and>
    bs = os_pread (os_contents (rd_os r) i) (fs_tell (rd_stream r)) (length bs)"
proof (cases p)
  case (FromStream n)
  then obtain st' where "sgetn (rd_stream r) n script = Some (bs, st', rest)" "length bs = n"
      "r' = r\<lparr>rd_stream := st'\<rparr>"
    using st by (auto simp: reader_step_def read_stream_def split: if_splits option.splits)
  then show ?thesis
    using sgetn_spec[of "rd_stream r" n script bs st' rest] ok FromStream
    by (auto simp: reader_ok_def)
next
  case (ToDevice n)
  show ?thesis
  proof (cases "n = 0")
    case True
    then show ?thesis using st ToDevice ok by (auto simp: reader_step_def read_device_def)
  next
    case False
    obtain p' st' where s: "kv_pread kv (rd_os r) (rd_handle r) n (fs_tell (rd_stream r)) = Some bs"
        "length bs = n" "seekoff_in (rd_stream r) (int n) Cur True = (p', st')" "p' \<noteq> -1"
        "r' = r\<lparr>rd_stream := st'\<rparr>"
      using st ToDevice False tell_position[of "rd_stream r"] ok
      by (auto simp: reader_step_def read_device_def Let_def reader_ok_def
          split: if_splits option.splits prod.splits)
    have "bs = os_pread (os_contents (rd_os r) i) (fs_tell (rd_stream r)) n"
      using kvikio_reads[OF kv _ s(1,2)] ok by (simp add: reader_ok_def)
    then show ?thesis
      using seek_forward[OF _ s(3,4) False] s ok ToDevice by (auto simp: reader_ok_def)
  qed
qed

lemma reader_run_spec:
  assumes "reader_ok i r" "kvikio_transfers kv" "reader_run kv r ps script = Some (Inr bss)"
  shows "map length bss = map op_size ps \<and>
    concat bss = os_pread (os_contents (rd_os r) i) (fs_tell (rd_stream r)) (sum_list (map op_size ps))"
  using assms(1,3)
proof (induction ps arbitrary: r script bss)
  case (Cons p ps)
  obtain bs r' rest bss' where s: "reader_step kv r p script = Some (Inr bs, r', rest)"
      "reader_run kv r' ps rest = Some (Inr bss')" "bss = bs # bss'"
    using Cons.prems(2) by (auto split: option.splits sum.splits prod.splits)
  note ss = reader_step_spec[OF Cons.prems(1) assms(2) s(1)]
  then have ih: "map length bss' = map op_size ps"
      "concat bss' = os_pread (os_contents (rd_os r) i) (fs_tell (rd_stream r) + length bs) (sum_list (map op_size ps))"
    using Cons.IH[OF _ s(2)] by simp_all
  have "bs @ os_pread (os_contents (rd_os r) i) (fs_tell (rd_stream r) + length bs) (sum_list (map op_size ps)) =
      os_pread (os_contents (rd_os r) i) (fs_tell (rd_stream r)) (length bs + sum_list (map op_size ps))"
    using os_pread_split[of "os_contents (rd_os r) i" "fs_tell (rd_stream r)" "length bs"] ss by metis
  then show ?case using ih s(3) ss by simp
qed simp

lemma open_reader_ok:
  assumes "open_reader kv os po path = Inr r"
  shows "\<exists>i. os_fstat os (po path) = Some i \<and> reader_ok i r \<and> rd_os r = os \<and> fs_tell (rd_stream r) = 0"
proof -
  obtain st h where s: "make_istream os (po path) 8192 = Inr st"
      "validate_kvikio_handle_matches_fd os (po path) h = Inr ()"
      "r = \<lparr>rd_os = os, rd_stream = st, rd_good = True, rd_handle = h\<rparr>"
    using assms by (auto simp: open_reader_def Let_def res_simps split: if_splits)
  then obtain i where "os_fstat os (po path) = Some i" "handle_on os h i"
    using validate_matches_iff by blast
  then show ?thesis
    using s by (intro exI[of _ i])
      (auto simp: make_istream_def reader_ok_def fs_ok_def fs_tell_def fd_contents_def split: if_splits)
qed

section \<open>Properties\<close>

lemma demo_kvikio_confined: "kvikio_confined demo_kvikio"
  by (auto simp: kvikio_confined_def demo_kvikio_def handle_on_def fd_contents_def put_contents_def
      os_pwrite_def overwrite_def)

lemma demo_kvikio_creates: "kvikio_creates demo_kvikio"
  by (auto simp: kvikio_creates_def demo_kvikio_def handle_on_def put_contents_def split: if_splits)

definition demo_stream :: sbuf where
  "demo_stream = \<lparr>sb_os = put_contents demo_os 4 [], sb_path = ''a'',
     sb_handle = \<lparr>h_buffered = 4, h_direct = -1\<rparr>, sb_device = None, sb_size = 4096, sb_staged = [],
     sb_offset = 0, sb_closed = False\<rparr>"

lemma demo_opens: "open_sbuf demo_kvikio demo_os ''a'' 16 = (Inr demo_stream, put_contents demo_os 4 [])"
  by (simp add: open_sbuf_def demo_kvikio_def demo_os_def demo_stream_def kNumpyDataAlignment_def int_max_def)

text \<open>
  C19: After any mix of ordinary writes, single characters, writes from host or device pointers and
  flushes that all succeed, the stream's position is the number of bytes written, and closing it
  leaves in the file it opened exactly those bytes, in the order of the calls.
\<close>

theorem stream_file_is_concatenation:
  assumes "kvikio_transfers kv" "kvikio_confined kv" "kvikio_creates kv"
    and "open_sbuf kv os path cap = (Inr s, os1)" "stream_run kv s ps = (Inr u, s1)"
  shows "seekoff_out s1 0 Cur True = int (length (concat (map op_bytes ps))) \<and>
    (\<exists>i. os_fstat (sb_os s) (h_buffered (sb_handle s)) = Some i \<and>
      (\<forall>v s2. close_sbuf kv s1 = (Inr v, s2) \<longrightarrow>
        os_contents (sb_os s2) i = concat (map op_bytes ps)))"
proof -
  obtain i where i: "sound kv i s" "logical i s = []" "os_fstat (sb_os s) (h_buffered (sb_handle s)) = Some i"
    using open_sound[OF assms(1-4)] by blast
  then have s1: "sound kv i s1" "logical i s1 = concat (map op_bytes ps)"
    using stream_run_sound[OF i(1) assms(5)] by simp_all
  have "length (logical i s1) = bytes_written s1"
    using s1(1) by (simp add: sound_def sbuf_good_def logical_def committed_def bytes_written_def)
  moreover have "os_contents (sb_os s2) i = concat (map op_bytes ps)"
    if c: "close_sbuf kv s1 = (Inr v, s2)" for v s2
    using close_sound[OF s1(1) c] s1(2) by simp
  ultimately show ?thesis using i(3) s1(2) by (auto simp: seekoff_out_def)
qed

lemma stream_file_is_concatenation_witness:
  "os_contents (sb_os (snd (close_sbuf demo_kvikio (demo_stream\<lparr>sb_staged := [1, 2, 3]\<rparr>)))) (1, 7) = [1, 2, 3]"
proof -
  have run: "stream_run demo_kvikio demo_stream [Put [1, 2], PutChar 3] =
      (Inr (), demo_stream\<lparr>sb_staged := [1, 2, 3]\<rparr>)"
    by (simp add: stream_step_def xsputn_def demo_stream_def xsputn_loop.simps make_room_def available_def)
  have "fst (close_sbuf demo_kvikio (demo_stream\<lparr>sb_staged := [1, 2, 3]\<rparr>)) = Inr ()"
    by (simp add: close_sbuf_def demo_stream_def flush_buffer_def write_at_current_offset_def demo_kvikio_def)
  then have c: "close_sbuf demo_kvikio (demo_stream\<lparr>sb_staged := [1, 2, 3]\<rparr>) =
      (Inr (), snd (close_sbuf demo_kvikio (demo_stream\<lparr>sb_staged := [1, 2, 3]\<rparr>)))"
    by (metis prod.collapse)
  show ?thesis
    using stream_file_is_concatenation[OF demo_kvikio_transfers demo_kvikio_confined demo_kvikio_creates
        demo_opens run] c
    by (auto simp: demo_stream_def put_contents_def demo_os_def)
qed

text \<open>
  C28: When one of a series of writes from the host or a device, single characters and flushes fails, the
  file still starts with all the bytes that had been committed to it before the failing operation; what
  the file holds up to the stream's position, followed by what is staged, is all the data of the
  operations before and a prefix of that of the failing one; and a later flush that succeeds puts exactly
  that into the file.
\<close>

theorem failed_writes_keep_prefix:
  assumes "kvikio_transfers kv" "kvikio_confined kv" "kvikio_creates kv"
    and "open_sbuf kv os path cap = (Inr s, os1)" "stream_run kv s ps = (Inl e, s')"
  shows "\<exists>i ps1 p ps2 s1 k. os_fstat (sb_os s) (h_buffered (sb_handle s)) = Some i \<and> ps = ps1 @ p # ps2 \<and>
    stream_run kv s ps1 = (Inr (), s1) \<and> stream_step kv s1 p = (Inl e, s') \<and>
    sb_offset s1 = length (os_contents (sb_os s1) i) \<and>
    take (sb_offset s1) (os_contents (sb_os s') i) = os_contents (sb_os s1) i \<and>
    take (sb_offset s') (os_contents (sb_os s') i) @ sb_staged s' = concat (map op_bytes ps1) @ take k (op_bytes p) \<and>
    (\<forall>v s''. flush_buffer kv s' = (Inr v, s'') \<longrightarrow>
      take (sb_offset s'') (os_contents (sb_os s'') i) = concat (map op_bytes ps1) @ take k (op_bytes p))"
proof -
  obtain i where i: "sound kv i s" "logical i s = []" "os_fstat (sb_os s) (h_buffered (sb_handle s)) = Some i"
    using open_sound[OF assms(1-4)] by blast
  obtain ps1 p ps2 s1 where r: "ps = ps1 @ p # ps2" "stream_run kv s ps1 = (Inr (), s1)" "sound kv i s1"
      "logical i s1 = concat (map op_bytes ps1)" "stream_step kv s1 p = (Inl e, s')"
    using stream_run_err[OF i(1) assms(5)] i(2) by auto
  obtain k where k: "sbuf_good kv i s'" "logical i s' = concat (map op_bytes ps1) @ take k (op_bytes p)"
    using stream_step_err[OF r(3,5)] r(4) by auto
  have t: "sb_offset s1 = length (os_contents (sb_os s1) i)" using r(3) by (simp add: sound_def tight_def)
  have c: "committed i s1 = os_contents (sb_os s1) i" "length (committed i s1) = sb_offset s1" using t by (simp_all add: committed_def)
  have o: "sb_offset s1 \<le> sb_offset s'" "sb_offset s' \<le> length (os_contents (sb_os s') i)"
    using stream_step_offset[OF r(5)] k(1) by (simp_all add: sbuf_good_def)
  have "take (sb_offset s1) (os_contents (sb_os s') i) = take (sb_offset s1) (logical i s')"
    using o by (simp add: logical_def committed_def)
  also obtain j where "logical i s' = logical i s1 @ take j (op_bytes p)" using k(2) r(4) by auto
  then have "take (sb_offset s1) (logical i s') = os_contents (sb_os s1) i"
    using c by (simp add: logical_def)
  finally have f: "take (sb_offset s1) (os_contents (sb_os s') i) = os_contents (sb_os s1) i" .
  have l: "take (sb_offset s') (os_contents (sb_os s') i) @ sb_staged s' = concat (map op_bytes ps1) @ take k (op_bytes p)"
    using k(2) by (simp add: logical_def committed_def)
  have "\<forall>v s''. flush_buffer kv s' = (Inr v, s'') \<longrightarrow>
      take (sb_offset s'') (os_contents (sb_os s'') i) = concat (map op_bytes ps1) @ take k (op_bytes p)"
    using flush_committed(1)[OF k(1)] k(2) by (auto simp: committed_def)
  then show ?thesis using i(3) r(1,2,5) t f l by blast
qed

text \<open>
  C29: The write buffer in front of a stream is transparent: writing pieces through a buffer of any size,
  flushing it and closing the stream leaves the same file as writing the pieces to the stream directly
  and closing it, namely the pieces in order; and when a write through the buffer fails, the stream
  below holds a prefix of them.
\<close>

theorem buffered_writes_transparent:
  fixes kv :: kvikio and cap buffer_size :: nat
  assumes "kvikio_transfers kv" "kvikio_confined kv" "kvikio_creates kv" "open_sbuf kv os path cap = (Inr s, os1)"
  shows "\<exists>i. os_fstat (sb_os s) (h_buffered (sb_handle s)) = Some i \<and>
    (\<forall>u v w b1 b2 s1. write_all (bo_write (xsputn kv)) \<lparr>bo_cap = buffer_size, bo_pending = [], bo_os = s\<rparr> ds = (Inr u, b1) \<and>
        bo_flush (xsputn kv) b1 = (Inr v, b2) \<and> close_sbuf kv (bo_os b2) = (Inr w, s1) \<longrightarrow>
      os_contents (sb_os s1) i = concat ds \<and>
      (\<forall>u' w' s2 s3. write_all (xsputn kv) s ds = (Inr u', s2) \<and> close_sbuf kv s2 = (Inr w', s3) \<longrightarrow>
        os_contents (sb_os s1) i = os_contents (sb_os s3) i)) \<and>
    (\<forall>e b1. write_all (bo_write (xsputn kv)) \<lparr>bo_cap = buffer_size, bo_pending = [], bo_os = s\<rparr> ds = (Inl e, b1) \<longrightarrow>
      (\<exists>k. logical i (bo_os b1) = take k (concat ds)))"
proof -
  obtain i where i: "sound kv i s" "logical i s = []" "os_fstat (sb_os s) (h_buffered (sb_handle s)) = Some i"
    using open_sound[OF assms] by blast
  let ?b = "\<lparr>bo_cap = buffer_size, bo_pending = [], bo_os = s\<rparr>"
  have g: "bo_good (sound kv i) ?b" "bo_good (sbuf_good kv i) ?b" using i(1) by (simp_all add: bo_good_def sound_def)
  have direct: "os_contents (sb_os s3) i = concat ds"
    if "write_all (xsputn kv) s ds = (Inr u, s2)" "close_sbuf kv s2 = (Inr w, s3)" for u w s2 s3
    using sounds.write_all_ok[OF i(1) that(1)] close_sound[OF _ that(2)] i(2) by simp
  have through: "os_contents (sb_os s1) i = concat ds"
    if "write_all (bo_write (xsputn kv)) ?b ds = (Inr u, b1)" "bo_flush (xsputn kv) b1 = (Inr v, b2)"
      "close_sbuf kv (bo_os b2) = (Inr w, s1)" for u v w b1 b2 s1
  proof -
    have b1: "bo_good (sound kv i) b1" "bo_content (logical i) b1 = concat ds"
      using bos.write_all_ok[OF g(1) that(1)] i(2) by (simp_all add: bo_content_def)
    from sounds.bo_flush_spec[OF b1(1) that(2)] have "sound kv i (bo_os b2)" "logical i (bo_os b2) = concat ds"
      using b1(2) by (auto simp: bo_good_def bo_content_def)
    then show ?thesis using close_sound[OF _ that(3)] by simp
  qed
  have failed: "\<exists>k. logical i (bo_os b1) = take k (concat ds)" if "write_all (bo_write (xsputn kv)) ?b ds = (Inl e, b1)" for e b1
    using kvs.bo_writes_err[OF g(2) that] i(2) by simp
  show ?thesis
  proof (rule exI[of _ i], intro conjI allI impI; (elim conjE)?)
    fix u v w b1 b2 s1 assume r: "write_all (bo_write (xsputn kv)) ?b ds = (Inr u, b1)" "bo_flush (xsputn kv) b1 = (Inr v, b2)"
      "close_sbuf kv (bo_os b2) = (Inr w, s1)"
    show "os_contents (sb_os s1) i = concat ds" by (rule through[OF r])
    fix u' w' s2 s3 assume d: "write_all (xsputn kv) s ds = (Inr u', s2)" "close_sbuf kv s2 = (Inr w', s3)"
    show "os_contents (sb_os s1) i = os_contents (sb_os s3) i" using through[OF r] direct[OF d] by simp
  next
    fix e b1 assume "write_all (bo_write (xsputn kv)) ?b ds = (Inl e, b1)"
    then show "\<exists>k. logical i (bo_os b1) = take k (concat ds)" by (rule failed)
  qed (rule i(3))
qed

text \<open>
  C30: Reads of metadata through the stream and reads into device memory, in any order, return
  consecutive parts of one file from its start: both advance one logical position.
\<close>

theorem reader_is_sequential:
  assumes "kvikio_transfers kv" "open_reader kv os posix_open path = Inr r"
    and "reader_run kv r ps script = Some (Inr bss)"
  shows "map length bss = map op_size ps \<and>
    (\<exists>i. os_fstat os (posix_open path) = Some i \<and>
      concat bss = take (sum_list (map op_size ps)) (os_contents os i))"
proof -
  obtain i where i: "os_fstat os (posix_open path) = Some i" "reader_ok i r" "rd_os r = os"
      "fs_tell (rd_stream r) = 0"
    using open_reader_ok[OF assms(2)] by blast
  show ?thesis
    using reader_run_spec[OF i(2) assms(1,3)] i by (simp add: os_pread_def)
qed

text \<open>A full disk: every transfer throws.\<close>

definition full_kvikio :: kvikio where
  "full_kvikio = demo_kvikio\<lparr>kv_pwrite := (\<lambda>os h data off. (os, None))\<rparr>"

lemma full_kvikio_laws: "kvikio_transfers full_kvikio" "kvikio_confined full_kvikio"
  by (auto simp: kvikio_transfers_def kvikio_confined_def full_kvikio_def demo_kvikio_def handle_on_def
      fd_contents_def)

lemma demo_stream_good:
  "kvikio_transfers kv \<Longrightarrow> kvikio_confined kv \<Longrightarrow> sbuf_good kv (1, 7) demo_stream"
  by (simp add: sbuf_good_def demo_stream_def handle_on_def put_contents_def demo_os_def)

lemma full_kvikio_creates: "kvikio_creates full_kvikio"
  using demo_kvikio_creates by (simp add: kvikio_creates_def full_kvikio_def)

lemma full_opens: "open_sbuf full_kvikio demo_os ''a'' 16 = (Inr demo_stream, put_contents demo_os 4 [])"
  using demo_opens by (simp add: open_sbuf_def full_kvikio_def)

lemma failed_writes_keep_prefix_witness:
  "\<exists>k s'. stream_run full_kvikio demo_stream [Put [1], PutDevice (Some DeviceMem) [2, 3]] = (Inl KvikioFailed, s') \<and>
     take (sb_offset s') (os_contents (sb_os s') (1, 7)) @ sb_staged s' = take k [1, 2, 3]"
proof -
  let ?s = "demo_stream\<lparr>sb_staged := [1]\<rparr>" and ?ps = "[Put [1], PutDevice (Some DeviceMem) [2, 3]]"
  have run: "stream_run full_kvikio demo_stream ?ps = (Inl KvikioFailed, ?s)"
    by (simp add: stream_step_def xsputn_def demo_stream_def xsputn_loop.simps make_room_def available_def flush_buffer_def
        write_device_def write_at_current_offset_def full_kvikio_def)
  obtain i ps1 p ps2 k where o: "os_fstat (sb_os demo_stream) (h_buffered (sb_handle demo_stream)) = Some i" "?ps = ps1 @ p # ps2"
      "take (sb_offset ?s) (os_contents (sb_os ?s) i) @ sb_staged ?s = concat (map op_bytes ps1) @ take k (op_bytes p)"
    using failed_writes_keep_prefix[OF full_kvikio_laws full_kvikio_creates full_opens run] by blast
  have "i = (1, 7)" using o(1) by (simp add: demo_stream_def put_contents_def demo_os_def)
  moreover have "concat (map op_bytes ps1) @ take k (op_bytes p) =
      take (length (concat (map op_bytes ps1)) + min k (length (op_bytes p))) (concat (map op_bytes ?ps))"
    unfolding o(2) by (simp add: min_def)
  ultimately show ?thesis using run o(3) by (intro exI conjI) (assumption, simp)
qed

lemma buffered_writes_transparent_witness:
  "os_contents (sb_os (snd (close_sbuf demo_kvikio (demo_stream\<lparr>sb_staged := [1, 2, 3]\<rparr>)))) (1, 7) = concat [[1], [2, 3]]"
proof -
  let ?b = "\<lparr>bo_cap = 2, bo_pending = [], bo_os = demo_stream\<rparr>" and ?s = "demo_stream\<lparr>sb_staged := [1, 2, 3]\<rparr>"
  have run: "write_all (bo_write (xsputn demo_kvikio)) ?b [[1], [2, 3]] =
      (Inr (), \<lparr>bo_cap = 2, bo_pending = [], bo_os = ?s\<rparr>)"
    by (simp add: bo_write_def bo_flush_def xsputn_def demo_stream_def xsputn_loop.simps make_room_def available_def)
  have fl: "bo_flush (xsputn demo_kvikio) \<lparr>bo_cap = 2, bo_pending = [], bo_os = ?s\<rparr> = (Inr (), \<lparr>bo_cap = 2, bo_pending = [], bo_os = ?s\<rparr>)"
    by (simp add: bo_flush_def)
  have "fst (close_sbuf demo_kvikio ?s) = Inr ()"
    by (simp add: close_sbuf_def demo_stream_def flush_buffer_def write_at_current_offset_def demo_kvikio_def)
  then have c: "close_sbuf demo_kvikio (bo_os \<lparr>bo_cap = 2, bo_pending = [], bo_os = ?s\<rparr>) = (Inr (), snd (close_sbuf demo_kvikio ?s))"
    by (metis bufo.select_convs(3) prod.collapse)
  obtain i where i: "os_fstat (sb_os demo_stream) (h_buffered (sb_handle demo_stream)) = Some i"
      "os_contents (sb_os (snd (close_sbuf demo_kvikio ?s))) i = concat [[1], [2, 3]]"
    using buffered_writes_transparent[OF demo_kvikio_transfers demo_kvikio_confined demo_kvikio_creates demo_opens,
        of 2 "[[1], [2, 3]]"] run fl c by blast
  have "i = (1, 7)" using i(1) by (simp add: demo_stream_def put_contents_def demo_os_def)
  then show ?thesis using i(2) by simp
qed

definition demo_reader :: reader where
  "demo_reader = \<lparr>rd_os = demo_os,
     rd_stream = \<lparr>fs_valid = True, fs_file = [10, 11, 12], fs_pos = 0, fs_unread = [], fs_cap = 8192\<rparr>,
     rd_good = True, rd_handle = \<lparr>h_buffered = 4, h_direct = -1\<rparr>\<rparr>"

lemma reader_is_sequential_witness:
  "concat [[10], [11, 12 :: u8]] = take 3 (os_contents demo_os (1, 7))"
proof -
  have o: "open_reader demo_kvikio demo_os (\<lambda>_. 3) ''a'' = Inr demo_reader"
    by (simp add: open_reader_def make_istream_def open_kvikio_file_for_device_io_def kv_open_checked_def
        demo_kvikio_def demo_open_def validate_kvikio_handle_matches_fd_def get_file_identity_def demo_os_def
        validate_handle_def expect_matching_file_identity_def expects_def fd_contents_def demo_reader_def)
  have run: "reader_run demo_kvikio demo_reader [FromStream 1, ToDevice 2] [Interrupted, Transferred 2] =
      Some (Inr [[10], [11, 12]])"
    by (simp add: reader_step_def read_stream_def read_device_def demo_reader_def sgetn.simps underflow_def
        os_pread_def Let_def seekoff_in_def demo_kvikio_def fd_contents_def demo_os_def)
  show ?thesis
    using reader_is_sequential[OF demo_kvikio_transfers o run] by (auto simp: demo_os_def)
qed

section \<open>Two behaviours to know about\<close>

text \<open>
  \<^verbatim>\<open>write_device\<close> stores the device handle before it checks it. If the check fails the call throws,
  but the handle stays: the next call does not check again and writes to the other file.
\<close>

definition moved_kvikio :: kvikio where
  "moved_kvikio = demo_kvikio\<lparr>kv_open_off := (\<lambda>_ _ _. Some \<lparr>h_buffered = 5, h_direct = -1\<rparr>),
     kv_pwrite := (\<lambda>os h data off.
       (put_contents os (h_buffered h) (os_pwrite (fd_contents os (h_buffered h)) off data), Some (length data)))\<rparr>"

lemma unchecked_device_handle_is_kept:
  "\<exists>s1 s2. write_device moved_kvikio (Some DeviceMem) demo_stream [1] = (Inl IdentityChanged, s1) \<and>
     write_device moved_kvikio (Some DeviceMem) s1 [1] = (Inr (), s2) \<and>
     os_contents (sb_os s2) (1, 7) = [] \<and> os_contents (sb_os s2) (1, 8) = [1]"
  by (simp add: write_device_def demo_stream_def flush_buffer_def is_kvikio_device_memory_def device_handle_def
      open_kvikio_file_for_device_io_def moved_kvikio_def validate_kvikio_handles_match_def get_file_identity_def
      put_contents_def demo_os_def validate_handle_def expect_matching_file_identity_def expects_def
      write_at_current_offset_def os_pwrite_def overwrite_def fd_contents_def)

text \<open>
  A single character written after \<^verbatim>\<open>close()\<close> is accepted, since the put area still has room, and
  never reaches the file: the closed stream does not flush any more.
\<close>

lemma character_after_close_is_lost:
  assumes "sb_closed s" "0 < available s"
  shows "\<exists>s'. stream_step kv s (PutChar c) = (Inr (), s') \<and> sb_os s' = sb_os s \<and>
    close_sbuf kv s' = (Inr (), s') \<and> seekoff_out s' 0 Cur True = seekoff_out s 0 Cur True + 1"
  using assms by (simp add: stream_step_def close_sbuf_def seekoff_out_def bytes_written_def)

end
