(* ===== verification/NumpyFile.thy ===== *)
theory NumpyFile imports FileIO begin

text \<open>
  NumPy files (\<^verbatim>\<open>create_numpy_file\<close> and \<^verbatim>\<open>numpy_align_up\<close> of
  \<^verbatim>\<open>cpp/include/cuvs/util/file_io.hpp\<close>, \<^verbatim>\<open>cpp/include/cuvs/util/numpy_dtype.hpp\<close>) and the
  checks on serialized metadata (\<^verbatim>\<open>cpp/src/util/serialize_validation.hpp\<close>). \<^verbatim>\<open>size_t\<close> values
  whose wrap-around matters are 64-bit words. The header string of raft's serializer is an argument
  of \<open>create_numpy_file\<close>; the repository's own header writer, for \<^verbatim>\<open>half\<close>, is modelled.
\<close>

section \<open>Alignment\<close>

definition numpy_align_up :: "u64 \<Rightarrow> u64 \<Rightarrow> u64" where
  "numpy_align_up x alignment = (x + alignment - 1) AND NOT (alignment - 1)"

definition data_alignment :: u64 where \<comment> \<open>\<^verbatim>\<open>kNumpyDataAlignment\<close>\<close>
  "data_alignment = 4096"

section \<open>The header text\<close>

definition text_bytes :: "string \<Rightarrow> bytes" where
  "text_bytes s = map of_char s"

text \<open>\<^verbatim>\<open>char\<close> of the two bytes of a 16-bit length, low byte first.\<close>

definition le16 :: "nat \<Rightarrow> bytes" where
  "le16 n = [word_of_nat (n mod 256), word_of_nat (n div 256 mod 256)]"

fun shape_text :: "nat list \<Rightarrow> string" where
  "shape_text [] = ''''"
| "shape_text [d] = decimal d"
| "shape_text (d # ds) = decimal d @ '', '' @ shape_text ds"

definition numpy_dict :: "string \<Rightarrow> nat list \<Rightarrow> string" where
  "numpy_dict dtype shape =
     ''{'' @ [CHR 0x27] @ ''descr'' @ [CHR 0x27] @ '': '' @ [CHR 0x27] @ dtype @ [CHR 0x27] @
     '', '' @ [CHR 0x27] @ ''fortran_order'' @ [CHR 0x27] @ '': False, '' @
     [CHR 0x27] @ ''shape'' @ [CHR 0x27] @ '': ('' @ shape_text shape @
     (if length shape = 1 then '','' else '''') @ ''), }''"

datatype numpy_error =
    HeaderTooLarge | NotV1 | CannotOpen | SizeOverflow | NoSpace | HeaderWriteFailed

definition make_numpy_header_from_dtype :: "string \<Rightarrow> nat list \<Rightarrow> numpy_error + bytes" where
  "make_numpy_header_from_dtype dtype shape =
     (let header = text_bytes (numpy_dict dtype shape);
          preamble_size = 6 + 2 + 2;
          remainder = (preamble_size + length header + 1) mod 16;
          padded = (if remainder \<noteq> 0 then header @ replicate (16 - remainder) 32 else header) @ [10]
      in bind_r (expects (length padded \<le> 65535) HeaderTooLarge) (\<lambda>_.
           Inr ([0x93] @ text_bytes ''NUMPY'' @ [1, 0] @ le16 (length padded) @ padded)))"

section \<open>Creating the file\<close>

text \<open>The directory: the contents of the files there are.\<close>

type_synonym directory = "string \<rightharpoonup> bytes"

definition is_pad :: "u8 \<Rightarrow> bool" where
  "is_pad b \<longleftrightarrow> b = 10 \<or> b = 32"

text \<open>The header padded so that the data begin on a block boundary.\<close>

definition align_header :: "bytes \<Rightarrow> numpy_error + bytes" where
  "align_header header_str =
     bind_r (expects (10 \<le> length header_str \<and> header_str ! 6 = 1) NotV1) (\<lambda>_.
       let dict = rev (dropWhile is_pad (rev (drop 10 header_str)));
           min_total = 10 + length dict + 1;
           aligned_total = unat (numpy_align_up (word_of_nat min_total) data_alignment);
           header_len = aligned_total - 10
       in bind_r (expects (header_len \<le> 0xFFFF) HeaderTooLarge) (\<lambda>_.
            let padded_dict = dict @ replicate (header_len - length dict - 1) 32 @ [10]
            in Inr (take 8 header_str @ le16 header_len @ padded_dict)))"

definition checked_mul :: "u64 \<Rightarrow> u64 \<Rightarrow> numpy_error + u64" where
  "checked_mul lhs rhs = bind_r (expects (rhs = 0 \<or> lhs \<le> - 1 div rhs) SizeOverflow) (\<lambda>_. Inr (lhs * rhs))"

fun data_bytes_of :: "u64 \<Rightarrow> u64 list \<Rightarrow> numpy_error + u64" where
  "data_bytes_of acc [] = Inr acc"
| "data_bytes_of acc (dim # dims) = bind_r (checked_mul acc dim) (\<lambda>acc'. data_bytes_of acc' dims)"

definition alloc_bytes_of :: "nat \<Rightarrow> u64 \<Rightarrow> numpy_error + u64" where
  "alloc_bytes_of header_size data_bytes =
     (let padded_data_bytes = numpy_align_up data_bytes data_alignment
      in bind_r (expects (word_of_nat header_size \<le> - 1 - padded_data_bytes) SizeOverflow) (\<lambda>_.
           Inr (word_of_nat header_size + padded_data_bytes)))"

definition posix_fallocate :: "bytes \<Rightarrow> nat \<Rightarrow> bytes" where
  "posix_fallocate fc n = fc @ replicate (n - length fc) 0"

text \<open>
  The loop that writes the header. \<open>done\<close> bytes are written; an interrupted call is repeated, any
  other failure or an empty transfer gives up. No result means that the script of system calls
  ended in the loop.
\<close>

definition ssize_max :: nat where
  "ssize_max = 2 ^ 63 - 1"

fun write_header :: "bytes \<Rightarrow> bytes \<Rightarrow> nat \<Rightarrow> syscall list \<Rightarrow> (numpy_error + unit) option \<times> bytes" where
  "write_header fc header written [] = (if length header \<le> written then (Some (Inr ()), fc) else (None, fc))"
| "write_header fc header written (s # rest) =
     (if length header \<le> written then (Some (Inr ()), fc)
      else case s of
        Interrupted \<Rightarrow> write_header fc header written rest
      | Failed \<Rightarrow> (Some (Inl HeaderWriteFailed), fc)
      | Transferred n \<Rightarrow>
          let k = min n (min (length header - written) ssize_max)
          in if k = 0 then (Some (Inl HeaderWriteFailed), fc)
             else write_header (os_pwrite fc written (take k (drop written header))) header (written + k) rest)"

text \<open>
  \<^verbatim>\<open>create_numpy_file\<close>: \<open>header_str\<close> is what \<^verbatim>\<open>make_numpy_header_string\<close> gives, \<open>can_open\<close> and
  \<open>can_allocate\<close> say whether the system lets the file be opened and grown. The result is the size of
  the header. The \<^verbatim>\<open>unlink\<close> of a failed exclusive creation, whose result the code ignores, is taken to
  succeed.
\<close>

definition create_numpy_file :: "directory \<Rightarrow> string \<Rightarrow> numpy_error + bytes \<Rightarrow> u64 \<Rightarrow> u64 list \<Rightarrow> bool \<Rightarrow>
    bool \<Rightarrow> (nat \<Rightarrow> bool) \<Rightarrow> syscall list \<Rightarrow> (numpy_error + nat) option \<times> directory" where
  "create_numpy_file fs path header_str elem_size shape exclusive can_open can_allocate script =
     (if \<not> can_open \<or> (exclusive \<and> fs path \<noteq> None) then (Some (Inl CannotOpen), fs)
      else let fs1 = fs(path \<mapsto> []);
               cleanup = (\<lambda>fs'. if exclusive then fs'(path := None) else fs') in
        (case bind_r header_str (\<lambda>h. bind_r (align_header h) (\<lambda>header.
                bind_r (data_bytes_of elem_size shape) (\<lambda>data_bytes.
                bind_r (alloc_bytes_of (length header) data_bytes) (\<lambda>n. Inr (header, n))))) of
           Inl e \<Rightarrow> (Some (Inl e), cleanup fs1)
         | Inr (header, n) \<Rightarrow>
             if \<not> can_allocate (unat n) then (Some (Inl NoSpace), cleanup fs1)
             else (case write_header (posix_fallocate [] (unat n)) header 0 script of
                 (None, fc) \<Rightarrow> (None, fs1(path \<mapsto> fc))
               | (Some (Inl e), fc) \<Rightarrow> (Some (Inl e), cleanup (fs1(path \<mapsto> fc)))
               | (Some (Inr _), fc) \<Rightarrow> (Some (Inr (length header)), fs1(path \<mapsto> fc)))))"

section \<open>Checks on serialized metadata\<close>

definition kMaxGraphDegree :: u32 where "kMaxGraphDegree = push_bit 16 1"
definition kMaxIvfNLists :: u32 where "kMaxIvfNLists = push_bit 24 1"

fun is_mul_no_overflow :: "'w::len word \<Rightarrow> 'w word list \<Rightarrow> bool" where
  "is_mul_no_overflow a [] = True"
| "is_mul_no_overflow a (b # rest) =
     (if a \<noteq> 0 \<and> - 1 div a < b then False
      else if rest = [] then True else is_mul_no_overflow (a * b) rest)"

definition resize_string :: "nat \<Rightarrow> string \<Rightarrow> string" where
  "resize_string n s = take n s @ replicate (n - length s) (CHR 0x00)"

definition validate_serialized_dtype :: "string \<Rightarrow> string option \<Rightarrow> nat \<Rightarrow> bool" where
  "validate_serialized_dtype numpy_dtype dtype_prefix dtype_prefix_size =
     (case dtype_prefix of None \<Rightarrow> False
      | Some p \<Rightarrow> dtype_prefix_size = 4 \<and> take 4 p = resize_string dtype_prefix_size numpy_dtype)"

datatype distance_type =
    L2Expanded | L2SqrtExpanded | CosineExpanded | L1 | L2Unexpanded | L2SqrtUnexpanded | InnerProduct
  | Linf | Canberra | LpUnexpanded | CorrelationExpanded | JaccardExpanded | HellingerExpanded
  | Haversine | BrayCurtis | JensenShannon | HammingUnexpanded | KLDivergence | RusselRaoExpanded
  | DiceExpanded | BitwiseHamming | Precomputed | CustomUDF

definition distance_types :: "(distance_type \<times> int) list" where
  "distance_types =
     [(L2Expanded, 0), (L2SqrtExpanded, 1), (CosineExpanded, 2), (L1, 3), (L2Unexpanded, 4),
      (L2SqrtUnexpanded, 5), (InnerProduct, 6), (Linf, 7), (Canberra, 8), (LpUnexpanded, 9),
      (CorrelationExpanded, 10), (JaccardExpanded, 11), (HellingerExpanded, 12), (Haversine, 13),
      (BrayCurtis, 14), (JensenShannon, 15), (HammingUnexpanded, 16), (KLDivergence, 17),
      (RusselRaoExpanded, 18), (DiceExpanded, 19), (BitwiseHamming, 20), (Precomputed, 100),
      (CustomUDF, 101)]"

text \<open>A stored metric is an integer cast to the enumeration: any value is possible.\<close>

definition is_valid_distance_type :: "int \<Rightarrow> bool" where
  "is_valid_distance_type m \<longleftrightarrow> m \<in> snd ` set distance_types"

definition is_min_close :: "distance_type \<Rightarrow> bool" where
  "is_min_close metric = (case metric of InnerProduct \<Rightarrow> False | _ \<Rightarrow> True)"

datatype codebook_gen = PER_SUBSPACE | PER_CLUSTER
datatype list_layout = FLAT | INTERLEAVED

definition codebook_code :: "codebook_gen \<Rightarrow> int" where
  "codebook_code g = (case g of PER_SUBSPACE \<Rightarrow> 0 | PER_CLUSTER \<Rightarrow> 1)"

definition list_layout_code :: "list_layout \<Rightarrow> int" where
  "list_layout_code l = (case l of FLAT \<Rightarrow> 0 | INTERLEAVED \<Rightarrow> 1)"

definition is_valid_codebook_gen :: "int \<Rightarrow> bool" where
  "is_valid_codebook_gen g \<longleftrightarrow> g \<in> {codebook_code PER_SUBSPACE, codebook_code PER_CLUSTER}"

definition is_valid_list_layout :: "int \<Rightarrow> bool" where
  "is_valid_list_layout l \<longleftrightarrow> l \<in> {list_layout_code FLAT, list_layout_code INTERLEAVED}"

section \<open>Alignment: the least multiple, unless it wraps\<close>

lemma unat_and_not_mask: "unat ((x :: 'w::len word) AND NOT (mask b)) = unat x div 2 ^ b * 2 ^ b"
proof -
  have "x AND NOT (mask b) = push_bit b (drop_bit b x)"
    by (rule bit_word_eqI) (auto simp: bit_simps)
  then have "unat (x AND NOT (mask b)) = take_bit LENGTH('w) (unat x div 2 ^ b * 2 ^ b)"
    by (simp only: unsigned_push_bit_eq unat_drop_bit_eq) (simp add: push_bit_eq_mult drop_bit_eq_div)
  also have "\<dots> = unat x div 2 ^ b * 2 ^ b"
  proof (rule take_bit_nat_eq_self)
    have "unat x div 2 ^ b * 2 ^ b \<le> unat x" by simp
    moreover have "unat x < 2 ^ LENGTH('w)" by simp
    ultimately show "unat x div 2 ^ b * 2 ^ b < 2 ^ LENGTH('w)" by linarith
  qed
  finally show ?thesis .
qed

lemma unat_numpy_align_up:
  "unat (numpy_align_up x data_alignment) = (unat x + 4095) mod 2 ^ 64 div 4096 * 4096"
proof -
  have "numpy_align_up x data_alignment = (x + 4095) AND NOT (mask 12)"
    by (simp add: numpy_align_up_def data_alignment_def mask_eq_exp_minus_1 add.commute)
  moreover have "unat (x + 4095) = (unat x + 4095) mod 2 ^ 64" by (simp add: unat_word_ariths)
  ultimately show ?thesis using unat_and_not_mask[of "x + 4095" 12] by simp
qed

lemma align_up_no_wrap:
  assumes "unat x + 4095 < 2 ^ 64"
  shows "unat (numpy_align_up x data_alignment) = (unat x + 4095) div 4096 * 4096"
  using assms by (simp add: unat_numpy_align_up)

lemma align_up_wraps:
  assumes "2 ^ 64 - 4096 < unat x"
  shows "numpy_align_up x data_alignment = 0"
proof -
  have x: "unat x < 2 ^ 64" using unsigned_less[of x] by simp
  then have "(unat x + 4095) mod 2 ^ 64 = unat x + 4095 - 2 ^ 64"
    using assms by (simp add: mod_if)
  then have "unat (numpy_align_up x data_alignment) = 0"
    using x by (simp add: unat_numpy_align_up)
  then show ?thesis by (simp add: unat_eq_zero)
qed

lemma round_up_bounds: "(n :: nat) \<le> (n + 4095) div 4096 * 4096 \<and> (n + 4095) div 4096 * 4096 < n + 4096"
proof -
  have "(n + 4095) div 4096 * 4096 + (n + 4095) mod 4096 = n + 4095" by (rule div_mult_mod_eq)
  moreover have "(n + 4095) mod 4096 < 4096" by simp
  ultimately show ?thesis by linarith
qed

section \<open>The sizes\<close>

lemma unat_max_word: "unat (- 1 :: 'w::len word) = 2 ^ LENGTH('w) - 1"
  by (simp add: unsigned_minus_1_eq_mask mask_eq_exp_minus_1)

lemma le_max_minus_iff: "(x :: 'w::len word) \<le> - 1 - y \<longleftrightarrow> unat x + unat y < 2 ^ LENGTH('w)"
proof -
  have "unat (- 1 - y) = 2 ^ LENGTH('w) - 1 - unat y"
    by (simp add: unat_sub unat_max_word)
  moreover have "unat y < 2 ^ LENGTH('w)" by simp
  ultimately show ?thesis unfolding word_le_nat_alt by linarith
qed

lemma le_max_div_iff:
  assumes "(b :: 'w::len word) \<noteq> 0"
  shows "a \<le> - 1 div b \<longleftrightarrow> unat a * unat b < 2 ^ LENGTH('w)"
proof -
  have "unat (- 1 div b) = (2 ^ LENGTH('w) - 1) div unat b"
    by (simp add: unat_div unat_max_word)
  moreover have "0 < unat b" using assms by (simp add: unat_gt_0)
  ultimately have "a \<le> - 1 div b \<longleftrightarrow> unat a * unat b \<le> 2 ^ LENGTH('w) - 1"
    by (simp add: word_le_nat_alt less_eq_div_iff_mult_less_eq)
  moreover have "(0 :: nat) < 2 ^ LENGTH('w)" by simp
  ultimately show ?thesis by linarith
qed

lemma unat_mult_no_wrap: "unat a * unat b < 2 ^ LENGTH('w) \<Longrightarrow> unat ((a :: 'w::len word) * b) = unat a * unat b"
  by (simp add: unat_word_ariths)

lemma checked_mul_Inr:
  "checked_mul a b = Inr c \<Longrightarrow> unat c = unat a * unat b"
  by (cases "b = 0") (auto simp: checked_mul_def res_simps le_max_div_iff intro!: unat_mult_no_wrap
      split: if_splits)

lemma data_bytes_of_product:
  "data_bytes_of acc shape = Inr d \<Longrightarrow> unat d = unat acc * prod_list (map unat shape)"
proof (induction acc shape rule: data_bytes_of.induct)
  case (2 acc dim dims)
  then obtain a where "checked_mul acc dim = Inr a" "data_bytes_of a dims = Inr d"
    by (auto simp: bind_r_Inr_iff)
  then show ?case using 2 checked_mul_Inr by (simp add: mult.assoc)
qed simp

lemma data_bytes_of_fits:
  assumes "unat acc * prod_list (map unat shape) < 2 ^ 64" "0 \<notin> set shape"
  shows "\<exists>d. data_bytes_of acc shape = Inr d"
  using assms
proof (induction acc shape rule: data_bytes_of.induct)
  case (2 acc dim dims)
  have "0 < prod_list (map unat dims)"
    using "2.prems"(2) by (induction dims) (auto simp: unat_gt_0)
  moreover have "unat acc * unat dim * prod_list (map unat dims) < 2 ^ 64"
    using "2.prems"(1) by (simp add: mult.assoc)
  ultimately have l: "unat acc * unat dim < 2 ^ 64"
    by (metis le_less_trans less_eq_nat.simps(1) mult_le_mono2 nat_mult_1_right Suc_leI One_nat_def)
  have "dim \<noteq> 0" using "2.prems"(2) by auto
  then have c: "checked_mul acc dim = Inr (acc * dim)"
    using l le_max_div_iff[of dim acc] by (simp add: checked_mul_def expects_def)
  have "unat (acc * dim) = unat acc * unat dim" using l by (simp add: unat_mult_no_wrap)
  then show ?case using "2.IH"[of "acc * dim"] c "2.prems" by (simp add: mult.assoc)
qed simp

lemma alloc_bytes_of_spec:
  assumes "alloc_bytes_of hs d = Inr n" "hs < 2 ^ 64" "unat d + 4095 < 2 ^ 64"
  shows "unat n = hs + (unat d + 4095) div 4096 * 4096"
proof -
  let ?p = "numpy_align_up d data_alignment"
  have n: "n = word_of_nat hs + ?p" "word_of_nat hs \<le> - 1 - ?p"
    using assms(1) by (auto simp: alloc_bytes_of_def Let_def res_simps split: if_splits)
  have h: "unat (word_of_nat hs :: u64) = hs" using assms(2) by (simp add: unat_of_nat)
  have "hs + unat ?p < 2 ^ 64" using n(2) le_max_minus_iff[of "word_of_nat hs" ?p] h by simp
  then show ?thesis using n(1) h align_up_no_wrap[OF assms(3)] by (simp add: unat_word_ariths)
qed

section \<open>The padded header\<close>

lemma dropWhile_split: "\<exists>pads. xs = pads @ dropWhile f xs \<and> list_all f pads"
  by (rule exI[of _ "takeWhile f xs"]) (auto simp: list_all_iff dest: set_takeWhileD)

lemma strip_split: "\<exists>pads. xs = rev (dropWhile f (rev xs)) @ pads \<and> list_all f pads"
proof -
  obtain p where "rev xs = p @ dropWhile f (rev xs)" "list_all f p" using dropWhile_split by blast
  then have "xs = rev (dropWhile f (rev xs)) @ rev p" by (metis rev_append rev_rev_ident)
  then show ?thesis using \<open>list_all f p\<close> by (intro exI[of _ "rev p"]) (simp add: list_all_iff)
qed

lemma le16_decode: "n < 65536 \<Longrightarrow> map unat (le16 n) = [n mod 256, n div 256] \<and> unat (le16 n ! 0) + 256 * unat (le16 n ! 1) = n"
  by (simp add: le16_def unat_of_nat take_bit_eq_mod)

text \<open>What \<open>align_header\<close> makes of a header: same magic, version and dictionary, new padding.\<close>

definition realigned :: "bytes \<Rightarrow> bytes \<Rightarrow> bool" where
  "realigned h a \<longleftrightarrow> length a mod 4096 = 0 \<and> 10 < length a \<and> take 8 a = take 8 h \<and>
     unat (a ! 8) + 256 * unat (a ! 9) = length a - 10 \<and>
     (\<exists>dict pads k. drop 10 h = dict @ pads \<and> list_all is_pad pads \<and> drop 10 a = dict @ replicate k 32 @ [10])"

lemma align_header_realigned:
  assumes a: "align_header h = Inr a" and l: "length h < 2 ^ 63"
  shows "realigned h a"
proof -
  let ?dict = "rev (dropWhile is_pad (rev (drop 10 h)))"
  let ?min = "10 + length ?dict + 1"
  let ?tot = "unat (numpy_align_up (word_of_nat ?min) data_alignment)"
  have c: "10 \<le> length h" "?tot - 10 \<le> 0xFFFF"
      "a = take 8 h @ le16 (?tot - 10) @ ?dict @ replicate (?tot - 10 - length ?dict - 1) 32 @ [10]"
    using a by (auto simp: align_header_def Let_def bind_expects split: if_splits)
  obtain pads where p: "drop 10 h = ?dict @ pads" "list_all is_pad pads" using strip_split by blast
  have "length ?dict \<le> length h - 10" by (metis p(1) length_append length_drop le_add1)
  then have d: "?min < 2 ^ 63 + 2" using l c(1) by linarith
  have m: "unat (word_of_nat ?min :: u64) = ?min"
    using d by (simp only: unat_of_nat) simp
  have t: "?tot = (?min + 4095) div 4096 * 4096"
    using align_up_no_wrap[of "word_of_nat ?min"] d unfolding m by simp
  have tb: "?min \<le> ?tot" unfolding t using round_up_bounds by blast
  have la: "length a = ?tot" using c tb by (simp add: le16_def)
  have "a = (take 8 h @ le16 (?tot - 10)) @ ?dict @ replicate (?tot - 10 - length ?dict - 1) 32 @ [10]"
    using c(3) by simp
  moreover have "length (take 8 h @ le16 (?tot - 10)) = 10" using c(1) by (simp add: le16_def)
  ultimately have e: "drop 10 a = ?dict @ replicate (?tot - 10 - length ?dict - 1) 32 @ [10]"
    by (metis append_eq_conv_conj)
  have i: "a ! 8 = le16 (?tot - 10) ! 0" "a ! 9 = le16 (?tot - 10) ! 1" "take 8 a = take 8 h"
    using c(1,3) by (simp_all add: nth_append le16_def)
  have "?tot - 10 < 65536" using c(2) by simp
  then have "unat (a ! 8) + 256 * unat (a ! 9) = length a - 10"
    unfolding i la using le16_decode by blast
  moreover have "length a mod 4096 = 0" unfolding la t by simp
  moreover have "10 < length a" using la tb by linarith
  ultimately show ?thesis
    unfolding realigned_def using i(3) p e by blast
qed

lemma write_header_full:
  assumes "write_header (os_pwrite fc 0 (take k h)) h k script = (Some (Inr ()), fc')" "k \<le> length h"
  shows "fc' = os_pwrite fc 0 h"
  using assms
proof (induction script arbitrary: k)
  case (Cons s rest)
  show ?case
  proof (cases "length h \<le> k")
    case True
    then show ?thesis using Cons.prems by simp
  next
    case False
    show ?thesis
    proof (cases s)
      case (Transferred n)
      obtain m where m: "m = min n (min (length h - k) ssize_max)" by blast
      have "os_pwrite (os_pwrite fc 0 (take k h)) k (take m (drop k h)) = os_pwrite fc 0 (take (k + m) h)"
        using os_pwrite_append[of fc 0 "take k h"] Cons.prems(2) by (simp add: take_add min_absorb2)
      moreover have "k + m \<le> length h" using m Cons.prems(2) by simp
      ultimately show ?thesis
        using Cons.prems(1) Cons.IH[of "k + m"] False Transferred
        by (simp add: Let_def flip: m split: if_splits)
    qed (use Cons False in auto)
  qed
qed (simp split: if_splits)

lemma allocated_header:
  "length a \<le> n \<Longrightarrow> os_pwrite (posix_fallocate [] n) 0 a = a @ replicate (n - length a) 0"
  by (cases "a = []") (simp_all add: os_pwrite_def posix_fallocate_def overwrite_def)

lemma pad_to_16: "((n :: nat) + (16 - n mod 16)) mod 16 = 0"
proof -
  obtain q r where n: "n = 16 * q + r" "r < 16" "n mod 16 = r"
    by (metis div_mult_mod_eq mod_less_divisor mult.commute zero_less_numeral)
  then have "n + (16 - n mod 16) = 16 * (q + 1)" by simp
  then show ?thesis by simp
qed

lemma length_header:
  assumes "make_numpy_header_from_dtype dtype shape = Inr h"
  shows "length h mod 16 = 0" "length h \<le> 65545" "take 8 h = [0x93] @ text_bytes ''NUMPY'' @ [1, 0]"
    "unat (h ! 8) + 256 * unat (h ! 9) = length h - 10"
    "take (length (numpy_dict dtype shape)) (drop 10 h) = text_bytes (numpy_dict dtype shape)"
    "last h = 10"
proof -
  let ?d = "text_bytes (numpy_dict dtype shape)"
  let ?r = "(11 + length ?d) mod 16"
  let ?p = "(if ?r \<noteq> 0 then ?d @ replicate (16 - ?r) 32 else ?d) @ [10]"
  obtain p where p: "p = ?p" by blast
  have h: "length p \<le> 65535" "h = [0x93] @ text_bytes ''NUMPY'' @ [1, 0] @ le16 (length p) @ p"
    using assms p
    by (auto simp: make_numpy_header_from_dtype_def Let_def bind_expects add.commute split: if_splits)
  have ten: "h = ([0x93] @ text_bytes ''NUMPY'' @ [1, 0] @ le16 (length p)) @ p"
    using h(2) by simp
  have l10: "length ([0x93] @ text_bytes ''NUMPY'' @ [1, 0] @ le16 (length p)) = 10"
    by (simp add: text_bytes_def le16_def)
  have lh: "length h = 10 + length p" unfolding ten using l10 by simp
  show "length h \<le> 65545" using lh h(1) by simp
  show "take 8 h = [0x93] @ text_bytes ''NUMPY'' @ [1, 0]"
    using h(2) by (simp add: text_bytes_def)
  have "h ! 8 = le16 (length p) ! 0" "h ! 9 = le16 (length p) ! 1"
    using h(2) by (simp_all add: text_bytes_def le16_def)
  then show "unat (h ! 8) + 256 * unat (h ! 9) = length h - 10"
    using le16_decode[of "length p"] h(1) lh by simp
  have "drop 10 h = p" unfolding ten using l10 by (metis append_eq_conv_conj)
  then show "take (length (numpy_dict dtype shape)) (drop 10 h) = ?d"
    unfolding p by (simp add: text_bytes_def)
  show "last h = 10" unfolding ten p by simp
  have pl: "length p = (if ?r \<noteq> 0 then length ?d + (16 - ?r) + 1 else length ?d + 1)" unfolding p by simp
  show "length h mod 16 = 0"
  proof (cases "?r = 0")
    case True
    then show ?thesis using lh pl by simp
  next
    case False
    then have "length h = (11 + length ?d) + (16 - ?r)" using lh pl by simp
    then show ?thesis using pad_to_16[of "11 + length ?d"] by simp
  qed
qed

section \<open>Properties\<close>

text \<open>
  \<open>numpy_align_up\<close> gives the least multiple of the block size that is not smaller, for every size
  it can be rounded up for.
\<close>

theorem align_up_least_multiple:
  assumes "unat x + 4095 < 2 ^ 64"
  shows "unat (numpy_align_up x data_alignment) mod 4096 = 0 \<and>
    unat x \<le> unat (numpy_align_up x data_alignment) \<and>
    (\<forall>m. m mod 4096 = 0 \<and> unat x \<le> m \<longrightarrow> unat (numpy_align_up x data_alignment) \<le> m)"
proof -
  have u: "unat (numpy_align_up x data_alignment) = (unat x + 4095) div 4096 * 4096"
    by (rule align_up_no_wrap[OF assms])
  have "(unat x + 4095) div 4096 * 4096 \<le> m" if m: "m mod 4096 = 0" "unat x \<le> m" for m
  proof -
    obtain q where q: "m = q * 4096" using m(1) by (auto simp: mod_eq_0_iff_dvd dvd_def mult.commute)
    then have "(unat x + 4095) div 4096 \<le> (q * 4096 + 4095) div 4096" using m(2) by (intro div_le_mono) simp
    also have "\<dots> = q" by simp
    finally show ?thesis using q by simp
  qed
  then show ?thesis unfolding u using round_up_bounds[of "unat x"] by simp
qed

lemma align_up_least_multiple_witness: "4097 \<le> unat (numpy_align_up 4097 data_alignment)"
  using align_up_least_multiple[of 4097] by simp

text \<open>
  The header written for a type and a shape is a version 1.0 NumPy header: magic string and
  version, a length field that states the length of the rest, the dictionary, padding to a multiple
  of sixteen and a final newline.
\<close>

theorem numpy_header_well_formed:
  assumes "make_numpy_header_from_dtype dtype shape = Inr h"
  shows "length h mod 16 = 0 \<and> take 8 h = [0x93] @ text_bytes ''NUMPY'' @ [1, 0] \<and>
    unat (h ! 8) + 256 * unat (h ! 9) = length h - 10 \<and>
    take (length (numpy_dict dtype shape)) (drop 10 h) = text_bytes (numpy_dict dtype shape) \<and> last h = 10"
  using length_header[OF assms] by blast

text \<open>
  C20: A file that \<open>create_numpy_file\<close> returns normally starts with the given header re-padded (same
  magic, version and dictionary) so that the data start at the returned offset, a multiple of the
  block size; behind it is zeroed room for the data rounded up to whole blocks. No other file is
  touched.
\<close>

theorem created_file_layout:
  assumes run: "create_numpy_file fs path (Inr h) elem shape exclusive can_open can_allocate script =
      (Some (Inr hs), fs')"
    and l: "length h < 2 ^ 63" and fits: "unat elem * prod_list (map unat shape) + 4095 < 2 ^ 64"
  shows "\<exists>a n. fs' = fs(path \<mapsto> a @ replicate n 0) \<and> length a = hs \<and> realigned h a \<and> n mod 4096 = 0 \<and>
    unat elem * prod_list (map unat shape) \<le> n"
proof -
  obtain a d n fc where a: "align_header h = Inr a" and d: "data_bytes_of elem shape = Inr d"
      and n: "alloc_bytes_of (length a) d = Inr n"
      and w: "write_header (posix_fallocate [] (unat n)) a 0 script = (Some (Inr ()), fc)"
      and r: "hs = length a" "fs' = fs(path \<mapsto> fc)"
    using run
    by (auto simp: create_numpy_file_def Let_def res_simps
        split: if_splits sum.splits prod.splits option.splits)
  have ra: "realigned h a" by (rule align_header_realigned[OF a l])
  have la: "length a < 2 ^ 64"
  proof -
    have b: "unat (x :: u8) < 256" for x using unsigned_less[of x, where ?'a = nat] by simp
    have "unat (a ! 8) + 256 * unat (a ! 9) = length a - 10" using ra by (simp add: realigned_def)
    then have "length a < 65546" using b[of "a ! 8"] b[of "a ! 9"] by linarith
    then show ?thesis by simp
  qed
  have ud: "unat d = unat elem * prod_list (map unat shape)" by (rule data_bytes_of_product[OF d])
  let ?n = "(unat d + 4095) div 4096 * 4096"
  have un: "unat n = length a + ?n" using alloc_bytes_of_spec[OF n la] fits ud by simp
  have "fc = os_pwrite (posix_fallocate [] (unat n)) 0 a"
    using write_header_full[of "posix_fallocate [] (unat n)" 0 a script fc] w by simp
  then have "fc = a @ replicate ?n 0" using allocated_header[of a "unat n"] un by simp
  then show ?thesis
    using r ra ud round_up_bounds[of "unat d"] by (intro exI[of _ a] exI[of _ ?n]) simp
qed

text \<open>What an exclusive creation does to the directory.\<close>

lemma exclusive_create_failed:
  "create_numpy_file fs path header_str elem shape True can_open can_allocate script = (Some (Inl e), fs') \<Longrightarrow> fs' = fs"
  by (auto simp: create_numpy_file_def Let_def fun_upd_idem_iff
      split: if_splits sum.splits prod.splits option.splits)

lemma exclusive_create_succeeded:
  "create_numpy_file fs path header_str elem shape True can_open can_allocate script = (Some (Inr header_size), fs') \<Longrightarrow>
   fs path = None \<and> (\<exists>fc. fs' = fs(path \<mapsto> fc))"
  by (auto simp: create_numpy_file_def Let_def split: if_splits sum.splits prod.splits option.splits)

text \<open>
  C31: With the exclusive flag, a call that fails leaves the directory exactly as it was: an existing
  file is neither opened nor truncated, and a file the call created is removed again.
\<close>

theorem exclusive_creation_is_atomic:
  assumes "create_numpy_file fs path header_str elem shape True can_open can_allocate script = (Some (Inl e), fs')"
  shows "fs' = fs"
  by (rule exclusive_create_failed[OF assms])

text \<open>
  \<open>is_mul_no_overflow\<close> accepts a product exactly if every product of a prefix of the factors, as
  a natural number, fits the machine type; then the machine product is the product.
\<close>

theorem is_mul_no_overflow_exact:
  "is_mul_no_overflow (a :: 'w::len word) rest \<longleftrightarrow>
    (\<forall>k \<le> length rest. unat a * prod_list (map unat (take k rest)) < 2 ^ LENGTH('w))"
proof (induction a rest rule: is_mul_no_overflow.induct)
  case (2 a b rest)
  have first: "a \<noteq> 0 \<and> - 1 div a < b \<longleftrightarrow> \<not> unat a * unat b < 2 ^ LENGTH('w)"
    using le_max_div_iff[of a b] by (cases "a = 0") (auto simp: not_less mult.commute)
  have split: "(\<forall>k \<le> length (b # rest). P k) \<longleftrightarrow> P 0 \<and> (\<forall>k \<le> length rest. P (Suc k))" for P
    by (metis Suc_le_mono le0 length_Cons not0_implies_Suc)
  show ?case
  proof (cases "unat a * unat b < 2 ^ LENGTH('w)")
    case True
    then have u: "unat (a * b) = unat a * unat b" by (rule unat_mult_no_wrap)
    have "is_mul_no_overflow a (b # rest) \<longleftrightarrow> rest = [] \<or> is_mul_no_overflow (a * b) rest"
      using True first by auto
    also have "\<dots> \<longleftrightarrow> (\<forall>k \<le> length rest. unat (a * b) * prod_list (map unat (take k rest)) < 2 ^ LENGTH('w))"
      using "2.IH" True first by (cases "rest = []") auto
    finally show ?thesis unfolding split u by (simp add: mult.assoc)
  next
    case False
    then have "\<not> is_mul_no_overflow a (b # rest)" using first by auto
    moreover have "\<not> unat a * prod_list (map unat (take 1 (b # rest))) < 2 ^ LENGTH('w)" using False by simp
    ultimately show ?thesis by (metis One_nat_def Suc_le_mono le0 length_Cons)
  qed
qed simp

definition demo_header :: bytes where
  "demo_header = [0x93] @ text_bytes ''NUMPY'' @ [1, 0, 6, 0, 123, 125, 32, 32, 32, 10]"

lemma numpy_header_well_formed_witness:
  "\<exists>h. make_numpy_header_from_dtype ''<f2'' [2, 3] = Inr h \<and> length h mod 16 = 0"
proof -
  have "\<exists>h. make_numpy_header_from_dtype ''<f2'' [2, 3] = Inr h"
    by (simp add: make_numpy_header_from_dtype_def numpy_dict_def text_bytes_def decimal.simps Let_def bind_expects)
  then show ?thesis using numpy_header_well_formed by blast
qed

lemma demo_aligned: "\<exists>a. align_header demo_header = Inr a \<and> length a = 4096"
proof -
  have "unat (numpy_align_up 13 data_alignment) = 4096" by (simp add: align_up_no_wrap)
  then show ?thesis
    by (simp add: align_header_def demo_header_def text_bytes_def is_pad_def Let_def bind_expects le16_def)
qed

lemma demo_sizes: "data_bytes_of 4 [3] = Inr 12" "alloc_bytes_of 4096 12 = Inr 8192"
proof -
  show "data_bytes_of 4 [3] = Inr 12" by (simp add: checked_mul_def expects_def word_le_nat_alt unat_div unat_max_word)
  have "numpy_align_up 12 data_alignment = 4096" by (simp add: numpy_align_up_def data_alignment_def)
  then show "alloc_bytes_of 4096 12 = Inr 8192" by (simp add: alloc_bytes_of_def expects_def le_max_minus_iff)
qed

lemma created_file_layout_witness:
  "\<exists>fs' a n. create_numpy_file Map.empty ''x'' (Inr demo_header) 4 [3] True True (\<lambda>_. True) [Interrupted, Transferred 5000] =
     (Some (Inr 4096), fs') \<and> fs' = [''x'' \<mapsto> a @ replicate n 0] \<and> length a = 4096 \<and> 12 \<le> n"
proof -
  obtain a where a: "align_header demo_header = Inr a" "length a = 4096" using demo_aligned by blast
  note d = demo_sizes(1) and n = demo_sizes(2)
  obtain fs' where r: "create_numpy_file Map.empty ''x'' (Inr demo_header) 4 [3] True True (\<lambda>_. True)
      [Interrupted, Transferred 5000] = (Some (Inr 4096), fs')"
  proof -
    have "a \<noteq> []" using a(2) by auto
    then show ?thesis using that a d n by (simp add: create_numpy_file_def Let_def ssize_max_def)
  qed
  have l: "length demo_header < 2 ^ 63" by (simp add: demo_header_def text_bytes_def)
  show ?thesis using created_file_layout[OF r l] r by auto
qed

lemma exclusive_creation_is_atomic_witness:
  "create_numpy_file [''x'' \<mapsto> [1]] ''y'' (Inr demo_header) 4 [3] True True (\<lambda>_. False) [] =
     (Some (Inl NoSpace), [''x'' \<mapsto> [1]])"
proof -
  obtain a where a: "align_header demo_header = Inr a" "length a = 4096" using demo_aligned by blast
  note d = demo_sizes(1) and n = demo_sizes(2)
  obtain fs' where r: "create_numpy_file [''x'' \<mapsto> [1]] ''y'' (Inr demo_header) 4 [3] True True (\<lambda>_. False) [] =
      (Some (Inl NoSpace), fs')"
    using a d n by (simp add: create_numpy_file_def Let_def)
  show ?thesis using exclusive_creation_is_atomic[OF r] r by simp
qed

section \<open>Where the size check does not look\<close>

text \<open>
  The product of the shape is checked, its rounding up is not: a data size within a block of
  \<open>2 ^ 64\<close> rounds to zero, the check of the sum passes, and only the header is allocated.
\<close>

lemma rounded_size_wraps:
  assumes "2 ^ 64 - 4096 < unat d"
  shows "alloc_bytes_of hs d = Inr (word_of_nat hs)"
  using align_up_wraps[OF assms] by (simp add: alloc_bytes_of_def expects_def)

lemma rounded_size_wraps_for_a_shape:
  "data_bytes_of 1 [- 1] = Inr (- 1) \<and> alloc_bytes_of 4096 (- 1) = Inr 4096"
proof -
  have "data_bytes_of 1 [- 1] = Inr (- 1)"
    by (simp add: checked_mul_def expects_def word_le_nat_alt unat_div unat_max_word)
  moreover have "alloc_bytes_of 4096 (- 1) = Inr (word_of_nat 4096)"
    by (rule rounded_size_wraps) (simp add: unat_max_word)
  ultimately show ?thesis by simp
qed

lemma distance_codes_distinct: "distinct (map snd distance_types) \<and> distinct (map fst distance_types)"
  by code_simp

lemma is_mul_no_overflow_exact_witness:
  "\<not> is_mul_no_overflow (2 :: 8 word) [200, 0]"
proof -
  have "(1 :: nat) \<le> length [200 :: 8 word, 0]" by simp
  moreover have "\<not> unat (2 :: 8 word) * prod_list (map unat (take 1 [200 :: 8 word, 0])) < 2 ^ LENGTH(8)" by simp
  ultimately show ?thesis
    unfolding is_mul_no_overflow_exact by blast
qed

end
