(* ===== verification/DenseDataset.thy ===== *)
theory DenseDataset imports Prelude begin

text \<open>
  Dense row-major datasets: the row stride the layouts dictate and the copies into a dataset of
  another stride (\<^verbatim>\<open>cpp/include/cuvs/neighbors/common.hpp\<close>), and their serialization
  (\<^verbatim>\<open>cpp/src/neighbors/detail/dataset_serialize.hpp\<close>): tight rows on the wire whatever the
  stride and the memory they come from, restored with the padding of the layout they go to, and
  the double-buffered read into device memory as a state machine.

  Sizes are in bytes: \<open>sz\<close> is \<^verbatim>\<open>sizeof(DataT)\<close>. What the code calls in raft and CUDA is the record
  \<open>raft_lib\<close>: the arithmetic helper \<^verbatim>\<open>round_up_safe\<close>, the strided copy, the strided fill, and the
  NumPy scalar and header codec.

  Dimensions and strides are naturals: the conversions to \<^verbatim>\<open>uint32_t\<close> are exact for every dimension
  up to \<open>2 ^ 32 - 16\<close>, where the padded stride still fits.
\<close>

section \<open>The libraries the code calls\<close>

record numpy_header =
  nh_dtype :: string
  nh_fortran :: bool
  nh_shape :: "nat list"

text \<open>
  \<open>rl_copy dst off dst_stride src src_stride width n\<close> is \<^verbatim>\<open>raft::copy_matrix\<close> with all sizes in bytes,
  the destination pointer at \<open>off\<close>; \<open>rl_fill0 dst off pitch width n\<close> is \<^verbatim>\<open>cudaMemset2DAsync\<close> with zero.
\<close>

record raft_lib =
  rl_round_up :: "nat \<Rightarrow> nat \<Rightarrow> nat"
  rl_copy :: "bytes \<Rightarrow> nat \<Rightarrow> nat \<Rightarrow> bytes \<Rightarrow> nat \<Rightarrow> nat \<Rightarrow> nat \<Rightarrow> bytes"
  rl_fill0 :: "bytes \<Rightarrow> nat \<Rightarrow> nat \<Rightarrow> nat \<Rightarrow> nat \<Rightarrow> bytes"
  rl_put_u32 :: "nat \<Rightarrow> bytes"
  rl_get_u32 :: "bytes \<Rightarrow> (nat \<times> bytes) option"
  rl_put_int :: "int \<Rightarrow> bytes"
  rl_get_int :: "bytes \<Rightarrow> (int \<times> bytes) option"
  rl_put_header :: "numpy_header \<Rightarrow> bytes"
  rl_get_header :: "bytes \<Rightarrow> (numpy_header \<times> bytes) option"
  rl_dtype :: "nat \<Rightarrow> string" \<comment> \<open>\<^verbatim>\<open>get_numpy_dtype\<close> by the element code\<close>

section \<open>The stride of a layout\<close>

datatype layout = Standard | Padded

text \<open>
  \<^verbatim>\<open>layout_right_padded<16 / gcd(16, sizeof(T))>\<close>: the least multiple of its parameter that is not
  below the dimension; the contiguous layout has no padding.
\<close>

definition layout_stride :: "layout \<Rightarrow> nat \<Rightarrow> nat \<Rightarrow> nat" where
  "layout_stride lay sz dim =
     (case lay of Standard \<Rightarrow> dim
      | Padded \<Rightarrow> let p = 16 div gcd 16 sz in (dim + p - 1) div p * p)"

definition cagra_required_row_width :: "raft_lib \<Rightarrow> nat \<Rightarrow> nat \<Rightarrow> nat \<Rightarrow> nat" where
  "cagra_required_row_width rl logical_columns sz align_bytes =
     rl_round_up rl (logical_columns * sz) (lcm align_bytes sz) div sz"

text \<open>
  A source matrix: its extents, the stride it reports (zero for none) and its memory. \<open>ms_device\<close> is
  \<^verbatim>\<open>device_src\<close> of the copies; \<open>ms_accessible\<close> is what the views ask of the pointer: a device pointer
  for a device view, an address of no device for a host view.
\<close>

record matrix_src =
  ms_rows :: nat
  ms_cols :: nat
  ms_stride :: nat
  ms_data :: bytes
  ms_device :: bool
  ms_accessible :: bool

definition mdspan_row_stride_elements :: "matrix_src \<Rightarrow> nat" where
  "mdspan_row_stride_elements src = (if 0 < ms_stride src then ms_stride src else ms_cols src)"

definition matrix_row_width_matches_cagra_required :: "raft_lib \<Rightarrow> nat \<Rightarrow> matrix_src \<Rightarrow> nat \<Rightarrow> bool" where
  "matrix_row_width_matches_cagra_required rl sz m align_bytes \<longleftrightarrow>
     mdspan_row_stride_elements m = cagra_required_row_width rl (ms_cols m) sz align_bytes"

datatype dataset_error =
    StrideMismatch | NotAccessible | DimExceedsStride | SourceTooWide | UseView | NegativeRows | ElementOverflow
  | ByteOverflow | Malformed | WrongDtype | FortranOrder | WrongRank | WrongShape | WrongTag | Truncated
  | WriteFailed | BadSeek

record dense_dataset =
  dd_rows :: nat
  dd_dim :: nat
  dd_stride :: nat
  dd_data :: bytes

definition make_dense_view :: "layout \<Rightarrow> nat \<Rightarrow> bytes \<Rightarrow> nat \<Rightarrow> nat \<Rightarrow> nat \<Rightarrow> dataset_error + dense_dataset" where
  "make_dense_view lay sz ptr rows dim stride =
     bind_r (expects (rows = 0 \<or> layout_stride lay sz dim = stride) StrideMismatch) (\<lambda>_.
       Inr \<lparr>dd_rows = rows, dd_dim = dim, dd_stride = layout_stride lay sz dim, dd_data = ptr\<rparr>)"

text \<open>\<^verbatim>\<open>make_dense_array\<close>: uninitialised storage of the span of the layout, whatever was in it.\<close>

definition make_dense_array :: "layout \<Rightarrow> nat \<Rightarrow> (nat \<Rightarrow> bytes) \<Rightarrow> nat \<Rightarrow> nat \<Rightarrow> dense_dataset" where
  "make_dense_array lay sz garbage rows dim =
     \<lparr>dd_rows = rows, dd_dim = dim, dd_stride = layout_stride lay sz dim,
      dd_data = garbage (rows * layout_stride lay sz dim * sz)\<rparr>"

text \<open>
  The copy into an owning dataset of a given stride. \<open>on_device\<close> says which of the two functions it is:
  the one for device datasets refuses a device source, the one for host datasets a host source, that
  already has the stride. The two check the width of the source in a different order.
\<close>

definition make_dense_row_major_dataset_from_src :: "raft_lib \<Rightarrow> layout \<Rightarrow> nat \<Rightarrow> (nat \<Rightarrow> bytes) \<Rightarrow> bool \<Rightarrow>
    matrix_src \<Rightarrow> nat \<Rightarrow> nat \<Rightarrow> dataset_error + dense_dataset" where
  "make_dense_row_major_dataset_from_src rl lay sz garbage on_device src logical_dim target_stride =
     (let src_stride = mdspan_row_stride_elements src in
      bind_r (expects (logical_dim \<le> target_stride) DimExceedsStride) (\<lambda>_.
      bind_r (expects (on_device \<longrightarrow> ms_cols src \<le> target_stride) SourceTooWide) (\<lambda>_.
      bind_r (expects (\<not> (ms_device src = on_device \<and> src_stride = target_stride)) UseView) (\<lambda>_.
      bind_r (expects (\<not> on_device \<longrightarrow> ms_cols src \<le> target_stride) SourceTooWide) (\<lambda>_.
        let out_array = make_dense_array lay sz garbage (ms_rows src) logical_dim in
        bind_r (expects (ms_rows src = 0 \<or> dd_stride out_array = target_stride) StrideMismatch) (\<lambda>_.
          let zeroed = rl_fill0 rl (dd_data out_array) 0 (length (dd_data out_array)) (length (dd_data out_array)) 1
          in Inr (out_array\<lparr>dd_data :=
               rl_copy rl zeroed 0 (target_stride * sz) (ms_data src) (src_stride * sz) (logical_dim * sz)
                 (ms_rows src)\<rparr>)))))))"

definition make_padded_dataset :: "raft_lib \<Rightarrow> nat \<Rightarrow> (nat \<Rightarrow> bytes) \<Rightarrow> bool \<Rightarrow> matrix_src \<Rightarrow>
    dataset_error + dense_dataset" where
  "make_padded_dataset rl sz garbage on_device src =
     make_dense_row_major_dataset_from_src rl Padded sz garbage on_device src (ms_cols src)
       (cagra_required_row_width rl (ms_cols src) sz 16)"

text \<open>\<^verbatim>\<open>make_device_dense_row_major_view_from_src\<close> and its host twin.\<close>

definition make_dense_row_major_view_from_src :: "layout \<Rightarrow> nat \<Rightarrow> matrix_src \<Rightarrow> nat \<Rightarrow> dataset_error + dense_dataset" where
  "make_dense_row_major_view_from_src lay sz src logical_dim =
     bind_r (expects (ms_accessible src) NotAccessible) (\<lambda>_.
       make_dense_view lay sz (ms_data src) (ms_rows src) logical_dim (mdspan_row_stride_elements src))"

definition make_padded_dataset_view :: "raft_lib \<Rightarrow> nat \<Rightarrow> matrix_src \<Rightarrow> dataset_error + dense_dataset" where
  "make_padded_dataset_view rl sz src =
     bind_r (expects (mdspan_row_stride_elements src = cagra_required_row_width rl (ms_cols src) sz 16) StrideMismatch)
       (\<lambda>_. make_dense_row_major_view_from_src Padded sz src (ms_cols src))"

definition make_standard_dataset :: "raft_lib \<Rightarrow> nat \<Rightarrow> (nat \<Rightarrow> bytes) \<Rightarrow> bool \<Rightarrow> matrix_src \<Rightarrow>
    dataset_error + dense_dataset" where
  "make_standard_dataset rl sz garbage on_device src =
     make_dense_row_major_dataset_from_src rl Standard sz garbage on_device src (ms_cols src) (ms_cols src)"

definition make_standard_dataset_view :: "nat \<Rightarrow> matrix_src \<Rightarrow> dataset_error + dense_dataset" where
  "make_standard_dataset_view sz src =
     bind_r (expects (mdspan_row_stride_elements src = ms_cols src) StrideMismatch)
       (\<lambda>_. make_dense_row_major_view_from_src Standard sz src (ms_cols src))"

section \<open>Writing the payload\<close>

definition streamsize_max :: nat where
  "streamsize_max = 2 ^ 63 - 1"

definition dense_matrix_elements :: "nat \<Rightarrow> int \<Rightarrow> nat \<Rightarrow> dataset_error + nat" where
  "dense_matrix_elements sz n_rows dim =
     bind_r (expects (0 \<le> n_rows) NegativeRows) (\<lambda>_.
       let rows = nat n_rows in
       bind_r (expects (rows = 0 \<or> dim \<le> size_max div rows) ElementOverflow) (\<lambda>_.
         let elements = rows * dim in
         bind_r (expects (elements \<le> size_max div sz) ByteOverflow) (\<lambda>_. Inr elements)))"

text \<open>The writes of \<^verbatim>\<open>write_dense_bytes\<close>, each as long as a \<^verbatim>\<open>streamsize\<close> may be.\<close>

function write_dense_bytes :: "nat \<Rightarrow> bytes \<Rightarrow> nat \<Rightarrow> bytes list" where
  "write_dense_bytes sz data elements =
     (let chunk = min elements (streamsize_max div sz) in
      if chunk = 0 then []
      else take (chunk * sz) data # write_dense_bytes sz (drop (chunk * sz) data) (elements - chunk))"
  by pat_completeness auto
termination by (relation "measure (\<lambda>(sz, data, elements). elements)") auto

declare write_dense_bytes.simps [simp del]

record dense_view =
  dv_rows :: int
  dv_dim :: nat
  dv_stride :: nat
  dv_data :: bytes

text \<open>\<open>c\<close> rows from row \<open>i\<close> packed together: a strided copy to a tight buffer.\<close>

definition packed_rows :: "raft_lib \<Rightarrow> nat \<Rightarrow> dense_view \<Rightarrow> nat \<Rightarrow> nat \<Rightarrow> bytes" where
  "packed_rows rl sz v i c =
     rl_copy rl (replicate (c * dv_dim v * sz) 0) 0 (dv_dim v * sz) (drop (i * dv_stride v * sz) (dv_data v))
       (dv_stride v * sz) (dv_dim v * sz) c"

definition kDeviceSerializationBatchBytes :: nat where
  "kDeviceSerializationBatchBytes = 64 * 2 ^ 20"

text \<open>The loop over batches of rows; \<open>batch_rows\<close> is at least one there.\<close>

function batch_writes :: "raft_lib \<Rightarrow> nat \<Rightarrow> dense_view \<Rightarrow> nat \<Rightarrow> nat \<Rightarrow> nat \<Rightarrow> bytes list" where
  "batch_writes rl sz v n_rows batch_rows first_row =
     (if first_row < n_rows \<and> 0 < batch_rows
      then let rows = min batch_rows (n_rows - first_row)
           in take (rows * (dv_dim v * sz)) (packed_rows rl sz v first_row rows) #
              batch_writes rl sz v n_rows batch_rows (first_row + batch_rows)
      else [])"
  by pat_completeness auto
termination by (relation "measure (\<lambda>(rl, sz, v, n, b, i). n - i)") auto

declare batch_writes.simps [simp del]

definition batch_rows_of :: "nat \<Rightarrow> nat \<Rightarrow> nat \<Rightarrow> nat" where
  "batch_rows_of n_rows dim sz = min n_rows (max 1 (kDeviceSerializationBatchBytes div (dim * sz)))"

datatype placement = HostMemory | DeviceMemory

text \<open>
  The writes of \<^verbatim>\<open>serialize\<close>, in order, and how it ends: an overflow is found after the three scalars
  are written. \<open>code\<close> is the element type.
\<close>

definition payload_writes :: "raft_lib \<Rightarrow> nat \<Rightarrow> dense_view \<Rightarrow> placement \<Rightarrow> bool \<Rightarrow> nat \<Rightarrow> bytes list" where
  "payload_writes rl sz v place to_kvikio elements =
     (let n_rows = nat (dv_rows v) in
      case place of
        DeviceMemory \<Rightarrow>
          if to_kvikio then
            (if dv_stride v = dv_dim v then [take (elements * sz) (dv_data v)]
             else batch_writes rl sz v n_rows (batch_rows_of n_rows (dv_dim v) sz) 0)
          else write_dense_bytes sz (packed_rows rl sz v 0 n_rows) elements
      | HostMemory \<Rightarrow>
          if dv_stride v = dv_dim v then write_dense_bytes sz (dv_data v) elements
          else concat (map (\<lambda>row. write_dense_bytes sz (drop (row * dv_stride v * sz) (dv_data v)) (dv_dim v))
                 [0..<n_rows]))"

definition serialize :: "raft_lib \<Rightarrow> nat \<Rightarrow> nat \<Rightarrow> dense_view \<Rightarrow> placement \<Rightarrow> bool \<Rightarrow>
    bytes list \<times> (dataset_error + unit)" where
  "serialize rl sz code v place to_kvikio =
     (let scalars = [rl_put_int rl (dv_rows v), rl_put_u32 rl (dv_dim v), rl_put_u32 rl (dv_stride v)] in
      case dense_matrix_elements sz (dv_rows v) (dv_dim v) of
        Inl e \<Rightarrow> (scalars, Inl e)
      | Inr elements \<Rightarrow>
          let header = rl_put_header rl
                \<lparr>nh_dtype = rl_dtype rl code, nh_fortran = False, nh_shape = [nat (dv_rows v), dv_dim v]\<rparr>
          in (scalars @ [header] @
              (if elements = 0 then [] else payload_writes rl sz v place to_kvikio elements), Inr ()))"

definition kSerializeStridedDataset :: nat where
  "kSerializeStridedDataset = 2"

text \<open>\<open>cuda_code\<close> maps the element type to its \<^verbatim>\<open>cudaDataType_t\<close>.\<close>

definition serialize_cagra_dense_dataset :: "raft_lib \<Rightarrow> (nat \<Rightarrow> int) \<Rightarrow> nat \<Rightarrow> nat \<Rightarrow> dense_view \<Rightarrow> placement \<Rightarrow>
    bool \<Rightarrow> bytes list \<times> (dataset_error + unit)" where
  "serialize_cagra_dense_dataset rl cuda_code sz code v place to_kvikio =
     (let (ws, r) = serialize rl sz code v place to_kvikio
      in ([rl_put_u32 rl kSerializeStridedDataset, rl_put_int rl (cuda_code code)] @ ws, r))"

section \<open>Reading the payload\<close>

text \<open>The input is the rest of the stream; a reader hands out consecutive bytes of it.\<close>

function read_dense_bytes :: "nat \<Rightarrow> bytes \<Rightarrow> nat \<Rightarrow> dataset_error + bytes \<times> bytes" where
  "read_dense_bytes sz input elements =
     (let chunk = min elements (streamsize_max div sz) in
      if chunk = 0 then Inr ([], input)
      else if length input < chunk * sz then Inl Truncated
      else bind_r (read_dense_bytes sz (drop (chunk * sz) input) (elements - chunk)) (\<lambda>(bs, rest).
             Inr (take (chunk * sz) input @ bs, rest)))"
  by pat_completeness auto
termination by (relation "measure (\<lambda>(sz, input, elements). elements)") auto

declare read_dense_bytes.simps [simp del]

record dense_payload_metadata =
  pm_rows :: nat
  pm_dim :: nat
  pm_stride :: nat
  pm_elements :: nat

definition opt_get :: "'a option \<Rightarrow> dataset_error + 'a" where
  "opt_get r = (case r of None \<Rightarrow> Inl Malformed | Some x \<Rightarrow> Inr x)"

definition deserialize_dense_payload_metadata :: "raft_lib \<Rightarrow> nat \<Rightarrow> nat \<Rightarrow> bytes \<Rightarrow>
    dataset_error + dense_payload_metadata \<times> bytes" where
  "deserialize_dense_payload_metadata rl sz code input =
     bind_r (opt_get (rl_get_int rl input)) (\<lambda>(n_rows, i1).
     bind_r (opt_get (rl_get_u32 rl i1)) (\<lambda>(dim, i2).
     bind_r (opt_get (rl_get_u32 rl i2)) (\<lambda>(stride, i3).
     bind_r (expects (dim \<le> stride) DimExceedsStride) (\<lambda>_.
     bind_r (dense_matrix_elements sz n_rows dim) (\<lambda>elements.
     bind_r (dense_matrix_elements sz n_rows stride) (\<lambda>_.
     bind_r (opt_get (rl_get_header rl i3)) (\<lambda>(header, i4).
     bind_r (expects (nh_dtype header = rl_dtype rl code) WrongDtype) (\<lambda>_.
     bind_r (expects (\<not> nh_fortran header) FortranOrder) (\<lambda>_.
     bind_r (expects (length (nh_shape header) = 2) WrongRank) (\<lambda>_.
     bind_r (expects (nh_shape header ! 0 = nat n_rows \<and> nh_shape header ! 1 = dim) WrongShape) (\<lambda>_.
       Inr (\<lparr>pm_rows = nat n_rows, pm_dim = dim, pm_stride = stride, pm_elements = elements\<rparr>, i4))))))))))))"

definition deserialize_dense_payload_metadata_for :: "raft_lib \<Rightarrow> layout \<Rightarrow> nat \<Rightarrow> nat \<Rightarrow> bytes \<Rightarrow>
    dataset_error + dense_payload_metadata \<times> bytes" where
  "deserialize_dense_payload_metadata_for rl lay sz code input =
     bind_r (deserialize_dense_payload_metadata rl sz code input) (\<lambda>(m, rest).
       Inr (m\<lparr>pm_stride := layout_stride lay sz (pm_dim m)\<rparr>, rest))"

text \<open>
  What the buffer of the stream answers: whether \<^verbatim>\<open>pubseekoff\<close> to the current position and to the end
  succeed (and so give the position and the end of the input), and whether the \<^verbatim>\<open>pubseekpos\<close> that may
  follow does.
\<close>

record seek_answers =
  sk_tell :: bool
  sk_end :: bool
  sk_set :: bool

function discard :: "bytes \<Rightarrow> nat \<Rightarrow> dataset_error + bytes" where
  "discard input remaining =
     (if remaining = 0 then Inr input
      else let chunk = min remaining (64 * 1024) in
        if length input < chunk then Inl Truncated else discard (drop chunk input) (remaining - chunk))"
  by pat_completeness auto
termination by (relation "measure (\<lambda>(input, remaining). remaining)") auto

declare discard.simps [simp del]

definition skip_dense_payload :: "raft_lib \<Rightarrow> nat \<Rightarrow> nat \<Rightarrow> seek_answers \<Rightarrow> bytes \<Rightarrow> dataset_error + bytes" where
  "skip_dense_payload rl sz code sk input =
     bind_r (deserialize_dense_payload_metadata rl sz code input) (\<lambda>(m, rest).
     bind_r (expects (pm_elements m \<le> size_max div sz) ByteOverflow) (\<lambda>_.
       let remaining = pm_elements m * sz in
       if sk_tell sk \<and> remaining \<le> off_max then
         (if sk_end sk
          then bind_r (expects (remaining \<le> length rest) Truncated) (\<lambda>_.
               bind_r (expects (sk_set sk) BadSeek) (\<lambda>_. Inr (drop remaining rest)))
          else bind_r (expects (sk_set sk) BadSeek) (\<lambda>_. discard rest remaining))
       else discard rest remaining))"

section \<open>Restoring a dataset\<close>

definition make_dense_storage :: "layout \<Rightarrow> nat \<Rightarrow> (nat \<Rightarrow> bytes) \<Rightarrow> dense_payload_metadata \<Rightarrow> bytes" where
  "make_dense_storage lay sz garbage m = dd_data (make_dense_array lay sz garbage (pm_rows m) (pm_dim m))"

definition restored :: "dense_payload_metadata \<Rightarrow> bytes \<Rightarrow> dense_dataset" where
  "restored m storage = \<lparr>dd_rows = pm_rows m, dd_dim = pm_dim m, dd_stride = pm_stride m, dd_data = storage\<rparr>"

definition clear_padding :: "raft_lib \<Rightarrow> nat \<Rightarrow> dense_payload_metadata \<Rightarrow> bytes \<Rightarrow> bytes" where
  "clear_padding rl sz m storage =
     (if pm_dim m < pm_stride m \<and> 0 < pm_rows m
      then rl_fill0 rl storage (pm_dim m * sz) (pm_stride m * sz) ((pm_stride m - pm_dim m) * sz) (pm_rows m)
      else storage)"

definition deserialize_device_dense :: "raft_lib \<Rightarrow> layout \<Rightarrow> nat \<Rightarrow> nat \<Rightarrow> (nat \<Rightarrow> bytes) \<Rightarrow> bytes \<Rightarrow>
    dataset_error + dense_dataset \<times> bytes" where
  "deserialize_device_dense rl lay sz code garbage input =
     bind_r (deserialize_dense_payload_metadata_for rl lay sz code input) (\<lambda>(m, i1).
     bind_r (read_dense_bytes sz i1 (pm_elements m)) (\<lambda>(staging, rest).
       let storage = clear_padding rl sz m (make_dense_storage lay sz garbage m);
           storage2 = (if 0 < pm_elements m
             then rl_copy rl storage 0 (pm_stride m * sz) staging (pm_dim m * sz) (pm_dim m * sz) (pm_rows m)
             else storage)
       in Inr (restored m storage2, rest)))"

text \<open>The host version reads row by row into place and clears each row's padding.\<close>

fun read_rows :: "nat \<Rightarrow> dense_payload_metadata \<Rightarrow> nat list \<Rightarrow> bytes \<Rightarrow> bytes \<Rightarrow> dataset_error + bytes \<times> bytes" where
  "read_rows sz m [] storage input = Inr (storage, input)"
| "read_rows sz m (row # rows) storage input =
     bind_r (read_dense_bytes sz input (pm_dim m)) (\<lambda>(bs, rest).
       let s1 = overwrite storage (row * pm_stride m * sz) bs;
           s2 = overwrite s1 ((row * pm_stride m + pm_dim m) * sz) (replicate ((pm_stride m - pm_dim m) * sz) 0)
       in read_rows sz m rows s2 rest)"

definition deserialize_host_dense :: "raft_lib \<Rightarrow> layout \<Rightarrow> nat \<Rightarrow> nat \<Rightarrow> (nat \<Rightarrow> bytes) \<Rightarrow> bytes \<Rightarrow>
    dataset_error + dense_dataset \<times> bytes" where
  "deserialize_host_dense rl lay sz code garbage input =
     bind_r (deserialize_dense_payload_metadata_for rl lay sz code input) (\<lambda>(m, i1).
       let storage = make_dense_storage lay sz garbage m in
       bind_r (if pm_stride m = pm_dim m
               then bind_r (read_dense_bytes sz i1 (pm_elements m)) (\<lambda>(bs, rest). Inr (overwrite storage 0 bs, rest))
               else read_rows sz m [0..<pm_rows m] storage i1) (\<lambda>(s, rest).
         Inr (restored m s, rest)))"

section \<open>The double-buffered read into device memory\<close>

text \<open>
  Reads fill a packed buffer on the host's thread; the copy from the buffer into the storage is
  queued on the CUDA stream and runs some time later, in order. \<open>ds_queue\<close> holds the copies that
  have not run, each with its batch number, buffer and rows; \<open>ds_event\<close> is the batch whose copy the
  event of a slot was last recorded behind. A schedule says how many queued copies the device runs
  before each step of the host.
\<close>

record copy_cmd =
  cc_batch :: nat
  cc_slot :: nat
  cc_first :: nat
  cc_rows :: nat

record device_state =
  ds_storage :: bytes
  ds_packed :: "nat \<Rightarrow> bytes"
  ds_queue :: "copy_cmd list"
  ds_event :: "nat \<Rightarrow> nat"
  ds_in_flight :: "nat \<Rightarrow> bool"

definition run_copy :: "raft_lib \<Rightarrow> nat \<Rightarrow> dense_payload_metadata \<Rightarrow> copy_cmd \<Rightarrow> device_state \<Rightarrow> device_state" where
  "run_copy rl sz m c s =
     s\<lparr>ds_storage := rl_copy rl (ds_storage s) (cc_first c * pm_stride m * sz) (pm_stride m * sz)
         (ds_packed s (cc_slot c)) (pm_dim m * sz) (pm_dim m * sz) (cc_rows c)\<rparr>"

fun device_runs :: "raft_lib \<Rightarrow> nat \<Rightarrow> dense_payload_metadata \<Rightarrow> nat \<Rightarrow> device_state \<Rightarrow> device_state" where
  "device_runs rl sz m 0 s = s"
| "device_runs rl sz m (Suc n) s =
     (case ds_queue s of [] \<Rightarrow> s
      | c # q \<Rightarrow> device_runs rl sz m n (run_copy rl sz m c (s\<lparr>ds_queue := q\<rparr>)))"

text \<open>\<^verbatim>\<open>cudaEventSynchronize\<close>: the copies up to the one the event stands behind have run.\<close>

definition wait_event :: "raft_lib \<Rightarrow> nat \<Rightarrow> dense_payload_metadata \<Rightarrow> nat \<Rightarrow> device_state \<Rightarrow> device_state" where
  "wait_event rl sz m slot s =
     device_runs rl sz m (length (filter (\<lambda>c. cc_batch c \<le> ds_event s slot) (ds_queue s))) s"

definition host_batch :: "raft_lib \<Rightarrow> nat \<Rightarrow> dense_payload_metadata \<Rightarrow> nat \<Rightarrow> nat \<Rightarrow> nat \<Rightarrow> nat \<Rightarrow> nat \<Rightarrow>
    device_state \<Rightarrow> bytes \<Rightarrow> dataset_error + device_state \<times> bytes" where
  "host_batch rl sz m batch_rows batch_index first_row sched1 sched2 s input =
     (let slot = batch_index mod 2;
          s1 = device_runs rl sz m sched1 s;
          s2 = (if ds_in_flight s1 slot then wait_event rl sz m slot s1 else s1);
          rows = min batch_rows (pm_rows m - first_row);
          n = rows * (pm_dim m * sz) in
      if length input < n then Inl Truncated
      else let s3 = s2\<lparr>ds_packed := (ds_packed s2)(slot := overwrite (ds_packed s2 slot) 0 (take n input))\<rparr>;
               s4 = device_runs rl sz m sched2 s3;
               cmd = \<lparr>cc_batch = batch_index, cc_slot = slot, cc_first = first_row, cc_rows = rows\<rparr>
           in Inr (s4\<lparr>ds_queue := ds_queue s4 @ [cmd], ds_event := (ds_event s4)(slot := batch_index),
                     ds_in_flight := (ds_in_flight s4)(slot := True)\<rparr>, drop n input))"

text \<open>\<open>sched\<close> gives the numbers for the two places of each round.\<close>

function host_batches :: "raft_lib \<Rightarrow> nat \<Rightarrow> dense_payload_metadata \<Rightarrow> nat \<Rightarrow> nat \<Rightarrow> nat \<Rightarrow> (nat \<Rightarrow> nat \<times> nat) \<Rightarrow>
    device_state \<Rightarrow> bytes \<Rightarrow> dataset_error + device_state \<times> bytes" where
  "host_batches rl sz m batch_rows batch_index first_row sched s input =
     (if first_row < pm_rows m \<and> 0 < batch_rows
      then bind_r (host_batch rl sz m batch_rows batch_index first_row (fst (sched batch_index)) (snd (sched batch_index)) s input)
        (\<lambda>(s', rest). host_batches rl sz m batch_rows (batch_index + 1) (first_row + batch_rows) sched s' rest)
      else Inr (s, input))"
  by pat_completeness auto
termination by (relation "measure (\<lambda>(rl, sz, m, b, k, i, sched, s, input). pm_rows m - i)") auto

declare host_batches.simps [simp del]

definition sync_stream :: "raft_lib \<Rightarrow> nat \<Rightarrow> dense_payload_metadata \<Rightarrow> device_state \<Rightarrow> device_state" where
  "sync_stream rl sz m s = device_runs rl sz m (length (ds_queue s)) s"

definition deserialize_device_direct :: "raft_lib \<Rightarrow> layout \<Rightarrow> nat \<Rightarrow> nat \<Rightarrow> (nat \<Rightarrow> bytes) \<Rightarrow>
    (nat \<Rightarrow> nat \<times> nat) \<Rightarrow> bytes \<Rightarrow> dataset_error + dense_dataset \<times> bytes" where
  "deserialize_device_direct rl lay sz code garbage sched input =
     bind_r (deserialize_dense_payload_metadata_for rl lay sz code input) (\<lambda>(m, i1).
       let storage = clear_padding rl sz m (make_dense_storage lay sz garbage m);
           n = pm_elements m * sz in
       if pm_elements m = 0 then Inr (restored m storage, i1)
       else if pm_stride m = pm_dim m then
         (if length i1 < n then Inl Truncated
          else Inr (restored m (overwrite storage 0 (take n i1)), drop n i1))
       else
         (let batch_rows = batch_rows_of (pm_rows m) (pm_dim m) sz;
              packed = garbage (batch_rows * pm_dim m * sz) in
          if batch_rows = pm_rows m then
            (if length i1 < n then Inl Truncated
             else Inr (restored m (rl_copy rl storage 0 (pm_stride m * sz) (overwrite packed 0 (take n i1))
                         (pm_dim m * sz) (pm_dim m * sz) (pm_rows m)), drop n i1))
          else bind_r (host_batches rl sz m batch_rows 0 0 sched
                 \<lparr>ds_storage = storage, ds_packed = (\<lambda>_. packed), ds_queue = [], ds_event = (\<lambda>_. 0),
                  ds_in_flight = (\<lambda>_. False)\<rparr> i1) (\<lambda>(s, rest).
                 Inr (restored m (ds_storage (sync_stream rl sz m s)), rest))))"

text \<open>The dispatch on tag and element type, and the same for skipping.\<close>

definition read_tag :: "raft_lib \<Rightarrow> (nat \<Rightarrow> int) \<Rightarrow> nat \<Rightarrow> bytes \<Rightarrow> dataset_error + bytes" where
  "read_tag rl cuda_code code input =
     bind_r (opt_get (rl_get_u32 rl input)) (\<lambda>(tag, i1).
     bind_r (expects (tag = kSerializeStridedDataset) WrongTag) (\<lambda>_.
     bind_r (opt_get (rl_get_int rl i1)) (\<lambda>(dtype, i2).
     bind_r (expects (dtype = cuda_code code) WrongDtype) (\<lambda>_. Inr i2))))"

datatype input_kind = PlainStream | KvikioReader "nat \<Rightarrow> nat \<times> nat"

definition deserialize_dense_dataset :: "raft_lib \<Rightarrow> (nat \<Rightarrow> int) \<Rightarrow> layout \<Rightarrow> placement \<Rightarrow> input_kind \<Rightarrow> nat \<Rightarrow> nat \<Rightarrow>
    (nat \<Rightarrow> bytes) \<Rightarrow> bytes \<Rightarrow> dataset_error + dense_dataset \<times> bytes" where
  "deserialize_dense_dataset rl cuda_code lay place kind sz code garbage input =
     bind_r (read_tag rl cuda_code code input) (\<lambda>i2.
       case place of
         HostMemory \<Rightarrow> deserialize_host_dense rl lay sz code garbage i2
       | DeviceMemory \<Rightarrow>
           (case kind of PlainStream \<Rightarrow> deserialize_device_dense rl lay sz code garbage i2
            | KvikioReader sched \<Rightarrow> deserialize_device_direct rl lay sz code garbage sched i2))"

definition skip_dense_dataset :: "raft_lib \<Rightarrow> (nat \<Rightarrow> int) \<Rightarrow> nat \<Rightarrow> nat \<Rightarrow> seek_answers \<Rightarrow> bytes \<Rightarrow> dataset_error + bytes" where
  "skip_dense_dataset rl cuda_code sz code sk input =
     bind_r (read_tag rl cuda_code code input) (\<lambda>i2. skip_dense_payload rl sz code sk i2)"

section \<open>What the libraries promise\<close>

definition rows_copied :: "bytes \<Rightarrow> nat \<Rightarrow> nat \<Rightarrow> (nat \<Rightarrow> bytes) \<Rightarrow> nat \<Rightarrow> bytes" where
  "rows_copied dst off pitch row n = foldl (\<lambda>d k. overwrite d (off + k * pitch) (row k)) dst [0..<n]"

definition raft_rounds :: "raft_lib \<Rightarrow> bool" where
  "raft_rounds rl \<longleftrightarrow> (\<forall>x m. 0 < m \<longrightarrow> rl_round_up rl x m = (x + m - 1) div m * m)"

definition raft_copies :: "raft_lib \<Rightarrow> bool" where
  "raft_copies rl \<longleftrightarrow>
     (\<forall>dst off ds src ss w n. n = 0 \<or> (off + (n - 1) * ds + w \<le> length dst \<and> (n - 1) * ss + w \<le> length src) \<longrightarrow>
        rl_copy rl dst off ds src ss w n = rows_copied dst off ds (\<lambda>k. take w (drop (k * ss) src)) n)"

definition raft_fills :: "raft_lib \<Rightarrow> bool" where
  "raft_fills rl \<longleftrightarrow>
     (\<forall>dst off pitch w n. n = 0 \<or> off + (n - 1) * pitch + w \<le> length dst \<longrightarrow>
        rl_fill0 rl dst off pitch w n = rows_copied dst off pitch (\<lambda>_. replicate w 0) n)"

definition raft_codes :: "raft_lib \<Rightarrow> bool" where
  "raft_codes rl \<longleftrightarrow>
     (\<forall>v rest. v < 2 ^ 32 \<longrightarrow> rl_get_u32 rl (rl_put_u32 rl v @ rest) = Some (v, rest)) \<and>
     (\<forall>v rest. \<bar>v\<bar> < 2 ^ 63 \<longrightarrow> rl_get_int rl (rl_put_int rl v @ rest) = Some (v, rest)) \<and>
     (\<forall>h rest. rl_get_header rl (rl_put_header rl h @ rest) = Some (h, rest))"

definition raft_ok :: "raft_lib \<Rightarrow> bool" where
  "raft_ok rl \<longleftrightarrow> raft_rounds rl \<and> raft_copies rl \<and> raft_fills rl \<and> raft_codes rl"

lemma raft_okD: "raft_ok rl \<Longrightarrow> raft_copies rl" "raft_ok rl \<Longrightarrow> raft_fills rl" "raft_ok rl \<Longrightarrow> raft_codes rl"
  "raft_ok rl \<Longrightarrow> raft_rounds rl"
  by (simp_all add: raft_ok_def)

lemma raft_copy:
  "raft_copies rl \<Longrightarrow> n = 0 \<or> (off + (n - 1) * ds + w \<le> length dst \<and> (n - 1) * ss + w \<le> length src) \<Longrightarrow>
    rl_copy rl dst off ds src ss w n = rows_copied dst off ds (\<lambda>k. take w (drop (k * ss) src)) n"
  unfolding raft_copies_def by (elim allE impE)

lemma raft_fill:
  "raft_fills rl \<Longrightarrow> n = 0 \<or> off + (n - 1) * pitch + w \<le> length dst \<Longrightarrow>
    rl_fill0 rl dst off pitch w n = rows_copied dst off pitch (\<lambda>_. replicate w 0) n"
  unfolding raft_fills_def by (elim allE impE)

lemma raft_codec:
  assumes "raft_codes rl"
  shows "v < 2 ^ 32 \<Longrightarrow> rl_get_u32 rl (rl_put_u32 rl v @ rest) = Some (v, rest)"
    "\<bar>x\<bar> < 2 ^ 63 \<Longrightarrow> rl_get_int rl (rl_put_int rl x @ rest) = Some (x, rest)"
    "rl_get_header rl (rl_put_header rl h @ rest) = Some (h, rest)"
  using assms unfolding raft_codes_def by blast+

section \<open>Storage as rows\<close>

definition blk :: "nat \<Rightarrow> nat \<Rightarrow> 'a list \<Rightarrow> 'a list" where
  "blk sb k s = take sb (drop (k * sb) s)"

lemma length_blk: "length s = n * sb \<Longrightarrow> k < n \<Longrightarrow> length (blk sb k s) = sb"
proof -
  assume s: "length s = n * sb" and k: "k < n"
  have "(k + 1) * sb \<le> n * sb" using k by (intro mult_le_mono1) simp
  then show ?thesis using s by (simp add: blk_def)
qed

lemma concat_blks: "length s = n * sb \<Longrightarrow> concat (map (\<lambda>k. blk sb k s) [0..<n]) = s"
proof (induction n arbitrary: s)
  case (Suc n)
  let ?t = "take (n * sb) s"
  have t: "length ?t = n * sb" using Suc.prems by simp
  have "blk sb k ?t = blk sb k s" if "k < n" for k
  proof -
    have "k * sb + sb \<le> n * sb" using that by (metis Suc_leI add.commute mult_Suc mult_le_mono1)
    then show ?thesis by (simp add: blk_def drop_take min_def)
  qed
  then have m: "map (\<lambda>k. blk sb k s) [0..<n] = map (\<lambda>k. blk sb k ?t) [0..<n]" by simp
  have c: "concat (map (\<lambda>k. blk sb k s) [0..<n]) = ?t" unfolding m by (rule Suc.IH[OF t])
  have "blk sb n s = drop (n * sb) s" using Suc.prems by (simp add: blk_def)
  then show ?case using c by simp
qed simp

lemma blks_eqI:
  assumes "length s = n * sb" "length t = n * sb" "\<And>k. k < n \<Longrightarrow> blk sb k s = blk sb k t"
  shows "s = t"
proof -
  have "map (\<lambda>k. blk sb k s) [0..<n] = map (\<lambda>k. blk sb k t) [0..<n]" using assms(3) by simp
  then show ?thesis using concat_blks[OF assms(1)] concat_blks[OF assms(2)] by metis
qed

lemma length_overwrite_in: "off + length d \<le> length s \<Longrightarrow> length (overwrite s off d) = length s"
  by (simp add: overwrite_def)

lemma nth_overwrite:
  "off + length d \<le> length s \<Longrightarrow> j < length s \<Longrightarrow>
    overwrite s off d ! j = (if off \<le> j \<and> j < off + length d then d ! (j - off) else s ! j)"
  by (cases "j < off"; cases "j < off + length d") (auto simp: overwrite_def nth_append)

lemma row_in: "i < n \<Longrightarrow> o' + l \<le> sb \<Longrightarrow> i * sb + o' + l \<le> n * (sb :: nat)"
  by (metis Suc_leI add.assoc add.commute add_le_mono le_trans mult_Suc mult_le_mono1 order_refl)

lemma blk_overwrite:
  assumes s: "length s = n * sb" and i: "i < n" and k: "k < n" and d: "o' + length d \<le> sb"
  shows "blk sb k (overwrite s (i * sb + o') d) = (if k = i then overwrite (blk sb i s) o' d else blk sb k s)"
proof -
  have fit: "i * sb + o' + length d \<le> length s" using row_in[OF i d] s by (simp add: add.assoc)
  have l: "length (overwrite s (i * sb + o') d) = n * sb" using length_overwrite_in[OF fit] s by simp
  have at: "blk sb m t ! j = t ! (m * sb + j)" if "j < sb" "m * sb + j < length t" for m j and t :: "'a list"
    using that by (simp add: blk_def)
  have lt: "m * sb + j < n * sb" if "m < n" "j < sb" for m j
    using row_in[OF that(1), of j 1 sb] that(2) by simp
  show ?thesis
  proof (rule nth_equalityI)
    show "length (blk sb k (overwrite s (i * sb + o') d)) =
        length (if k = i then overwrite (blk sb i s) o' d else blk sb k s)"
      using length_blk[OF l k] length_blk[OF s k] d by (auto simp: length_overwrite_in)
  next
    fix j assume "j < length (blk sb k (overwrite s (i * sb + o') d))"
    then have j: "j < sb" using length_blk[OF l k] by simp
    have o: "overwrite s (i * sb + o') d ! (k * sb + j) =
        (if i * sb + o' \<le> k * sb + j \<and> k * sb + j < i * sb + o' + length d
         then d ! (k * sb + j - (i * sb + o')) else s ! (k * sb + j))"
      using nth_overwrite[OF fit, of "k * sb + j"] lt[OF k j] s by simp
    show "blk sb k (overwrite s (i * sb + o') d) ! j =
        (if k = i then overwrite (blk sb i s) o' d else blk sb k s) ! j"
    proof (cases "k = i")
      case True
      have "overwrite (blk sb i s) o' d ! j = (if o' \<le> j \<and> j < o' + length d then d ! (j - o') else blk sb i s ! j)"
        using nth_overwrite[of o' d "blk sb i s" j] length_blk[OF s i] d j by simp
      then show ?thesis using True at[OF j, of k] at[OF j, of i] lt[OF k j] lt[OF i j] s l o by simp
    next
      case False
      have "k * sb + j < i * sb \<or> i * sb + sb \<le> k * sb"
      proof (cases "k < i")
        case True
        then have "k * sb + j < i * sb" using row_in[OF True, of j 1 sb] j by simp
        then show ?thesis by simp
      next
        case False
        then have "i < k" using \<open>k \<noteq> i\<close> by simp
        then show ?thesis using row_in[of i k 0 sb sb] by simp
      qed
      then show ?thesis using False at[OF j, of k] lt[OF k j] s l o d j by auto
    qed
  qed
qed

text \<open>Writing the same place of several rows.\<close>

lemma rows_copied_blk:
  assumes s: "length s = n * sb" and c: "i + c \<le> n" and d: "\<And>k. k < c \<Longrightarrow> o' + length (row k) \<le> sb"
  shows "length (rows_copied s (i * sb + o') sb row c) = n * sb \<and>
    (\<forall>k < n. blk sb k (rows_copied s (i * sb + o') sb row c) =
      (if i \<le> k \<and> k < i + c then overwrite (blk sb k s) o' (row (k - i)) else blk sb k s))"
  using c d
proof (induction c)
  case 0
  then show ?case using s by (auto simp: rows_copied_def)
next
  case (Suc c)
  let ?t = "rows_copied s (i * sb + o') sb row c"
  have ih: "length ?t = n * sb"
      "\<forall>k < n. blk sb k ?t = (if i \<le> k \<and> k < i + c then overwrite (blk sb k s) o' (row (k - i)) else blk sb k s)"
    using Suc.IH Suc.prems by simp_all
  have e: "rows_copied s (i * sb + o') sb row (Suc c) = overwrite ?t ((i + c) * sb + o') (row c)"
    by (simp add: rows_copied_def algebra_simps)
  have ic: "i + c < n" and dc: "o' + length (row c) \<le> sb" using Suc.prems by simp_all
  have "length (overwrite ?t ((i + c) * sb + o') (row c)) = n * sb"
    using row_in[OF ic dc] ih(1) by (simp add: length_overwrite_in add.assoc)
  moreover have "blk sb k (overwrite ?t ((i + c) * sb + o') (row c)) =
      (if i \<le> k \<and> k < i + Suc c then overwrite (blk sb k s) o' (row (k - i)) else blk sb k s)" if "k < n" for k
    using blk_overwrite[OF ih(1) ic that dc] ih(2) that by (auto simp: less_Suc_eq)
  ultimately show ?case unfolding e by blast
qed

text \<open>The restored storage: every row followed by its cleared padding.\<close>

definition padded_image :: "nat \<Rightarrow> nat \<Rightarrow> (nat \<Rightarrow> bytes) \<Rightarrow> nat \<Rightarrow> bytes" where
  "padded_image rb sb row n = concat (map (\<lambda>k. row k @ replicate (sb - rb) 0) [0..<n])"

lemma length_padded_image:
  "rb \<le> sb \<Longrightarrow> (\<And>k. k < n \<Longrightarrow> length (row k) = rb) \<Longrightarrow> length (padded_image rb sb row n) = n * sb"
  by (induction n) (simp_all add: padded_image_def)

lemma blk_append: "length a = m * sb \<Longrightarrow> k < m \<Longrightarrow> blk sb k (a @ b) = blk sb k a"
  using row_in[of k m 0 sb sb] by (simp add: blk_def)

lemma blk_padded_image:
  "rb \<le> sb \<Longrightarrow> (\<And>k. k < n \<Longrightarrow> length (row k) = rb) \<Longrightarrow> k < n \<Longrightarrow>
    blk sb k (padded_image rb sb row n) = row k @ replicate (sb - rb) 0"
proof (induction n)
  case (Suc n)
  let ?p = "padded_image rb sb row n"
  have l: "length ?p = n * sb" using length_padded_image[of rb sb n row] Suc.prems by simp
  have e: "padded_image rb sb row (Suc n) = ?p @ row n @ replicate (sb - rb) 0" by (simp add: padded_image_def)
  show ?case
  proof (cases "k < n")
    case True
    then show ?thesis using Suc.IH Suc.prems(1,2) blk_append[OF l True] e by simp
  next
    case False
    then have "k = n" using Suc.prems(3) by simp
    then show ?thesis using e l Suc.prems(1,2) by (simp add: blk_def)
  qed
qed simp

lemma padded_imageI:
  assumes "rb \<le> sb" "\<And>k. k < n \<Longrightarrow> length (row k) = rb" "length s = n * sb"
    and "\<And>k. k < n \<Longrightarrow> blk sb k s = row k @ replicate (sb - rb) 0"
  shows "s = padded_image rb sb row n"
  by (rule blks_eqI[OF assms(3) length_padded_image[OF assms(1,2)]])
    (simp_all add: assms blk_padded_image)

lemma overwrite_row_pad:
  assumes "length b = sb" "length r = rb" "rb \<le> sb"
  shows "overwrite (overwrite b rb (replicate (sb - rb) 0)) 0 r = r @ replicate (sb - rb) (0 :: u8)"
    "overwrite (overwrite b 0 r) rb (replicate (sb - rb) 0) = r @ replicate (sb - rb) (0 :: u8)"
  using assms by (simp_all add: overwrite_def)

section \<open>The payload on the wire is the rows, packed\<close>

definition view_row :: "nat \<Rightarrow> dense_view \<Rightarrow> nat \<Rightarrow> bytes" where
  "view_row sz v k = take (dv_dim v * sz) (drop (k * (dv_stride v * sz)) (dv_data v))"

definition view_rows :: "nat \<Rightarrow> dense_view \<Rightarrow> bytes" where
  "view_rows sz v = concat (map (view_row sz v) [0..<nat (dv_rows v)])"

text \<open>A view whose rows lie in its memory and whose sizes fit the machine types.\<close>

definition wf_view :: "nat \<Rightarrow> dense_view \<Rightarrow> bool" where
  "wf_view sz v \<longleftrightarrow> 0 < sz \<and> sz \<le> 16 \<and> 0 \<le> dv_rows v \<and> dv_rows v < 2 ^ 63 \<and>
     dv_dim v \<le> dv_stride v \<and> dv_stride v < 2 ^ 32 \<and> nat (dv_rows v) * dv_stride v * sz \<le> size_max \<and>
     (0 < dv_rows v \<longrightarrow>
       (nat (dv_rows v) - 1) * (dv_stride v * sz) + dv_dim v * sz \<le> length (dv_data v))"

lemma write_dense_bytes_concat:
  "0 < sz \<Longrightarrow> sz \<le> streamsize_max \<Longrightarrow> concat (write_dense_bytes sz data e) = take (e * sz) data"
proof (induction sz data e rule: write_dense_bytes.induct)
  case (1 sz data e)
  let ?c = "min e (streamsize_max div sz)"
  have pos: "0 < streamsize_max div sz" using "1.prems" by (simp add: div_greater_zero_iff)
  show ?case
  proof (cases "e = 0")
    case True
    then show ?thesis by (subst write_dense_bytes.simps) simp
  next
    case False
    then have c: "?c \<noteq> 0" using pos by simp
    have "write_dense_bytes sz data e =
        take (?c * sz) data # write_dense_bytes sz (drop (?c * sz) data) (e - ?c)"
      using c by (subst write_dense_bytes.simps) (simp only: Let_def if_False)
    then have "concat (write_dense_bytes sz data e) =
        take (?c * sz) data @ take ((e - ?c) * sz) (drop (?c * sz) data)"
      using "1.IH"[OF refl c] "1.prems" by simp
    also have "\<dots> = take (?c * sz + (e - ?c) * sz) data" by (rule take_add_drop)
    also have "?c * sz + (e - ?c) * sz = e * sz" by (metis add_mult_distrib le_add_diff_inverse min.cobounded1)
    finally show ?thesis .
  qed
qed

lemma read_dense_bytes_eq:
  assumes "0 < sz" "sz \<le> streamsize_max"
  shows "read_dense_bytes sz input e =
    (if e * sz \<le> length input then Inr (take (e * sz) input, drop (e * sz) input) else Inl Truncated)"
  using assms
proof (induction sz input e rule: read_dense_bytes.induct)
  case (1 sz input e)
  let ?c = "min e (streamsize_max div sz)"
  have pos: "0 < streamsize_max div sz" using "1.prems" by (simp add: div_greater_zero_iff)
  show ?case
  proof (cases "e = 0")
    case True
    then show ?thesis by (subst read_dense_bytes.simps) simp
  next
    case False
    then have c: "?c \<noteq> 0" using pos by simp
    have split: "?c * sz + (e - ?c) * sz = e * sz" by (metis add_mult_distrib le_add_diff_inverse min.cobounded1)
    have unf: "read_dense_bytes sz input e =
        (if length input < ?c * sz then Inl Truncated
         else bind_r (read_dense_bytes sz (drop (?c * sz) input) (e - ?c)) (\<lambda>(bs, rest).
                Inr (take (?c * sz) input @ bs, rest)))"
      using c by (subst read_dense_bytes.simps) (simp only: Let_def if_False)
    show ?thesis
    proof (cases "length input < ?c * sz")
      case True
      moreover have "?c * sz \<le> e * sz" by (intro mult_le_mono1) simp
      ultimately have "\<not> e * sz \<le> length input" by linarith
      then show ?thesis using unf True by simp
    next
      case fits: False
      have ih: "read_dense_bytes sz (drop (?c * sz) input) (e - ?c) =
          (if (e - ?c) * sz \<le> length input - ?c * sz
           then Inr (take ((e - ?c) * sz) (drop (?c * sz) input), drop ((e - ?c) * sz) (drop (?c * sz) input))
           else Inl Truncated)"
        using "1.IH"[OF refl c fits] "1.prems" by simp
      have iff: "(e - ?c) * sz \<le> length input - ?c * sz \<longleftrightarrow> e * sz \<le> length input"
        using split fits by linarith
      have "take (?c * sz) input @ take ((e - ?c) * sz) (drop (?c * sz) input) = take (e * sz) input"
        by (simp only: take_add_drop split)
      moreover have "drop ((e - ?c) * sz) (drop (?c * sz) input) = drop (e * sz) input"
        by (simp only: drop_drop) (metis add.commute split)
      ultimately show ?thesis unfolding unf ih iff using fits by simp
    qed
  qed
qed

lemma wf_view_fits:
  assumes "wf_view sz v" "i + c \<le> nat (dv_rows v)" "0 < c"
  shows "i * (dv_stride v * sz) + (c - 1) * (dv_stride v * sz) + dv_dim v * sz \<le> length (dv_data v)"
proof -
  have "(i + (c - 1)) * (dv_stride v * sz) \<le> (nat (dv_rows v) - 1) * (dv_stride v * sz)"
    using assms(2,3) by (intro mult_le_mono1) linarith
  moreover have "(nat (dv_rows v) - 1) * (dv_stride v * sz) + dv_dim v * sz \<le> length (dv_data v)"
    using assms by (simp add: wf_view_def)
  ultimately show ?thesis unfolding add_mult_distrib by linarith
qed

lemma length_view_row:
  assumes "wf_view sz v" "k < nat (dv_rows v)"
  shows "length (view_row sz v k) = dv_dim v * sz"
  using wf_view_fits[OF assms(1), of k 1] assms(2) by (simp add: view_row_def)

lemma packed_rows_concat:
  assumes w: "wf_view sz v" and rl: "raft_copies rl" and c: "i + c \<le> nat (dv_rows v)"
  shows "packed_rows rl sz v i c = concat (map (view_row sz v) [i..<i + c])"
proof -
  let ?w = "dv_dim v * sz" and ?row = "\<lambda>k. view_row sz v (i + k)"
  have src: "c = 0 \<or> (c - 1) * (dv_stride v * sz) + ?w \<le> length (drop (i * dv_stride v * sz) (dv_data v))"
    using wf_view_fits[OF w c] by (cases "c = 0") (auto simp: mult.assoc)
  have dst: "c = 0 \<or> 0 + (c - 1) * ?w + ?w \<le> length (replicate (c * ?w) (0 :: u8))"
    by (cases c) simp_all
  have cond: "c = 0 \<or> (0 + (c - 1) * ?w + ?w \<le> length (replicate (c * ?w) (0 :: u8)) \<and>
      (c - 1) * (dv_stride v * sz) + ?w \<le> length (drop (i * dv_stride v * sz) (dv_data v)))"
    using src dst by blast
  have rows: "(\<lambda>k. take ?w (drop (k * (dv_stride v * sz)) (drop (i * dv_stride v * sz) (dv_data v)))) = ?row"
    by (simp add: view_row_def fun_eq_iff algebra_simps)
  have "packed_rows rl sz v i c = rows_copied (replicate (c * ?w) 0) 0 ?w ?row c"
    unfolding packed_rows_def mult.assoc[of c "dv_dim v" sz] raft_copy[OF rl cond] rows ..
  also have "\<dots> = padded_image ?w ?w ?row c"
  proof (rule padded_imageI)
    have r: "0 + length (?row k) \<le> ?w" if "k < c" for k using length_view_row[OF w, of "i + k"] that c by simp
    note b = rows_copied_blk[of "replicate (c * ?w) (0 :: u8)" c ?w 0 c 0 ?row, simplified, OF r[simplified]]
    show "length (rows_copied (replicate (c * ?w) 0) 0 ?w ?row c) = c * ?w" using b by simp
    fix k assume k: "k < c"
    have "length (blk ?w k (replicate (c * ?w) (0 :: u8))) = ?w"
      by (rule length_blk[of _ c]) (simp_all add: k)
    then show "blk ?w k (rows_copied (replicate (c * ?w) 0) 0 ?w ?row c) = ?row k @ replicate (?w - ?w) 0"
      using b k length_view_row[OF w, of "i + k"] c by (simp add: overwrite_def)
  qed (use length_view_row[OF w] c in auto)
  also have "\<dots> = concat (map (view_row sz v) [i..<i + c])"
  proof -
    have "map (view_row sz v) [i..<i + c] = map ?row [0..<c]"
      by (rule nth_equalityI) simp_all
    then show ?thesis by (simp add: padded_image_def)
  qed
  finally show ?thesis .
qed

lemma concat_map_upt_split:
  "i \<le> m \<Longrightarrow> m \<le> n \<Longrightarrow> concat (map f [i..<m]) @ concat (map f [m..<n]) = concat (map f [i..<n])"
  by (metis concat_append le_add_diff_inverse map_append upt_add_eq_append)

lemma length_rows:
  assumes "wf_view sz v" "m \<le> nat (dv_rows v)" "i \<le> m"
  shows "length (concat (map (view_row sz v) [i..<m])) = (m - i) * (dv_dim v * sz)"
  using assms(2,3)
proof (induction m)
  case (Suc m)
  show ?case
  proof (cases "i \<le> m")
    case True
    then show ?thesis using Suc length_view_row[OF assms(1), of m] by (simp add: Suc_diff_le)
  next
    case False
    then show ?thesis using Suc by (simp add: le_Suc_eq)
  qed
qed simp

lemma batch_writes_concat:
  assumes w: "wf_view sz v" and rl: "raft_copies rl" and b: "0 < b" and i: "i \<le> nat (dv_rows v)"
  shows "concat (batch_writes rl sz v (nat (dv_rows v)) b i) = concat (map (view_row sz v) [i..<nat (dv_rows v)])"
  using i
proof (induction "nat (dv_rows v) - i" arbitrary: i rule: less_induct)
  case less
  let ?n = "nat (dv_rows v)"
  show ?case
  proof (cases "i < ?n")
    case False
    then show ?thesis by (subst batch_writes.simps) simp
  next
    case True
    let ?c = "min b (?n - i)"
    have c: "i + ?c \<le> ?n" using True by simp
    have t: "take (?c * (dv_dim v * sz)) (packed_rows rl sz v i ?c) = concat (map (view_row sz v) [i..<i + ?c])"
      using packed_rows_concat[OF w rl c] length_rows[OF w c] by simp
    have rest: "concat (batch_writes rl sz v ?n b (i + b)) = concat (map (view_row sz v) [i + ?c..<?n])"
    proof (cases "i + b \<le> ?n")
      case le: True
      then have "?c = b" by simp
      then show ?thesis using less.hyps[of "i + b"] le b True by simp
    next
      case False
      then have "i + ?c = ?n" using True by simp
      then show ?thesis using False by (subst batch_writes.simps) simp
    qed
    have "batch_writes rl sz v ?n b i =
        take (?c * (dv_dim v * sz)) (packed_rows rl sz v i ?c) # batch_writes rl sz v ?n b (i + b)"
      using True b by (subst batch_writes.simps) (simp only: Let_def, simp)
    then show ?thesis
      using t rest concat_map_upt_split[of i "i + ?c" ?n "view_row sz v"] c by simp
  qed
qed

lemma tight_view:
  assumes w: "wf_view sz v" and s: "dv_stride v = dv_dim v" and m: "m \<le> nat (dv_rows v)"
  shows "take (m * dv_dim v * sz) (dv_data v) = concat (map (view_row sz v) [0..<m])"
  using m
proof (induction m)
  case (Suc m)
  have "take (Suc m * dv_dim v * sz) (dv_data v) =
      take (m * dv_dim v * sz) (dv_data v) @ take (dv_dim v * sz) (drop (m * dv_dim v * sz) (dv_data v))"
    by (simp only: take_add_drop) (simp add: algebra_simps)
  also have "take (dv_dim v * sz) (drop (m * dv_dim v * sz) (dv_data v)) = view_row sz v m"
    using s by (simp add: view_row_def mult.assoc)
  finally show ?case using Suc by simp
qed simp

text \<open>Every way of writing the payload writes the same bytes.\<close>

lemma payload_concat:
  assumes w: "wf_view sz v" and rl: "raft_copies rl" and e: "elements = nat (dv_rows v) * dv_dim v" "0 < elements"
  shows "concat (payload_writes rl sz v place kv elements) = view_rows sz v"
proof -
  let ?n = "nat (dv_rows v)"
  have sz: "0 < sz" "sz \<le> streamsize_max" using w by (simp_all add: wf_view_def streamsize_max_def)
  have all: "packed_rows rl sz v 0 ?n = view_rows sz v"
    using packed_rows_concat[OF w rl, of 0 ?n] by (simp add: view_rows_def)
  have la: "length (view_rows sz v) = elements * sz"
    using length_rows[OF w, of ?n 0] e(1) by (simp add: view_rows_def mult.assoc)
  have tight: "take (elements * sz) (dv_data v) = view_rows sz v" if "dv_stride v = dv_dim v"
    using tight_view[OF w that, of ?n] e(1) by (simp add: view_rows_def)
  have pos: "0 < ?n" using e by (cases ?n) simp_all
  have b: "0 < batch_rows_of ?n (dv_dim v) sz" using pos by (simp add: batch_rows_of_def)
  have per_row: "concat (concat (map (\<lambda>row. write_dense_bytes sz (drop (row * dv_stride v * sz) (dv_data v)) (dv_dim v)) [0..<m])) =
      concat (map (view_row sz v) [0..<m])" for m
    by (induction m) (simp_all add: write_dense_bytes_concat[OF sz] view_row_def mult.assoc)
  show ?thesis
  proof (cases place)
    case HostMemory
    then show ?thesis
      using tight write_dense_bytes_concat[OF sz] per_row[of ?n]
      by (simp add: payload_writes_def Let_def view_rows_def)
  next
    case DeviceMemory
    then show ?thesis
      using tight write_dense_bytes_concat[OF sz, of "view_rows sz v" elements] all la
        batch_writes_concat[OF w rl b, of 0]
      by (auto simp: payload_writes_def Let_def view_rows_def)
  qed
qed

lemma elements_of_view:
  assumes "wf_view sz v"
  shows "dense_matrix_elements sz (dv_rows v) (dv_dim v) = Inr (nat (dv_rows v) * dv_dim v)"
    "dense_matrix_elements sz (dv_rows v) (dv_stride v) = Inr (nat (dv_rows v) * dv_stride v)"
proof -
  let ?n = "nat (dv_rows v)"
  have fits: "dense_matrix_elements sz (dv_rows v) d = Inr (?n * d)" if "?n * d * sz \<le> size_max" for d
  proof -
    have "0 < sz" "0 \<le> dv_rows v" using assms by (simp_all add: wf_view_def)
    moreover have "?n * d \<le> size_max div sz" using that calculation by (simp add: less_eq_div_iff_mult_less_eq)
    moreover have "?n = 0 \<or> d \<le> size_max div ?n"
    proof (cases "?n = 0")
      case False
      have "d * ?n \<le> ?n * d * sz" using \<open>0 < sz\<close> by (cases sz) (simp_all add: algebra_simps)
      then have "d * ?n \<le> size_max" using that by (rule le_trans)
      then show ?thesis using False by (simp add: less_eq_div_iff_mult_less_eq)
    qed simp
    ultimately show ?thesis by (simp add: dense_matrix_elements_def bind_expects Let_def)
  qed
  have "?n * dv_dim v * sz \<le> ?n * dv_stride v * sz"
    using assms by (intro mult_le_mono) (simp_all add: wf_view_def)
  moreover have "?n * dv_stride v * sz \<le> size_max" using assms by (simp only: wf_view_def)
  ultimately show "dense_matrix_elements sz (dv_rows v) (dv_dim v) = Inr (?n * dv_dim v)"
    by (intro fits) (rule le_trans)
  show "dense_matrix_elements sz (dv_rows v) (dv_stride v) = Inr (?n * dv_stride v)"
    using assms by (intro fits) (simp add: wf_view_def)
qed

section \<open>Restoring gives the rows and cleared padding\<close>

lemma metadata_roundtrip:
  assumes w: "wf_view sz v" and rl: "raft_codes rl"
  shows "deserialize_dense_payload_metadata rl sz code
      (concat (fst (serialize rl sz code v place kv)) @ rest) =
    Inr (\<lparr>pm_rows = nat (dv_rows v), pm_dim = dv_dim v, pm_stride = dv_stride v,
          pm_elements = nat (dv_rows v) * dv_dim v\<rparr>,
         concat (if nat (dv_rows v) * dv_dim v = 0 then []
           else payload_writes rl sz v place kv (nat (dv_rows v) * dv_dim v)) @ rest)"
proof -
  note c = raft_codec[OF rl] and e = elements_of_view[OF w]
  have r: "\<bar>dv_rows v\<bar> < 2 ^ 63" "dv_dim v < 2 ^ 32" "dv_stride v < 2 ^ 32" "dv_dim v \<le> dv_stride v"
    using w by (simp_all add: wf_view_def)
  show ?thesis
    unfolding serialize_def e(1) Let_def
    by (simp add: deserialize_dense_payload_metadata_def opt_get_def c(3) c(1)[OF r(2)] c(1)[OF r(3)]
        c(2)[OF r(1)] e r(4) bind_expects)
qed

lemma layout_stride_ge:
  assumes "0 < sz"
  shows "dim \<le> layout_stride lay sz dim"
proof (cases lay)
  case Padded
  let ?p = "16 div gcd 16 sz"
  have p: "0 < ?p" by (simp add: div_greater_zero_iff gcd_le1_nat)
  have "(dim + ?p - 1) div ?p * ?p + (dim + ?p - 1) mod ?p = dim + ?p - 1" by (rule div_mult_mod_eq)
  moreover have "(dim + ?p - 1) mod ?p < ?p" using p by simp
  ultimately have "dim \<le> (dim + ?p - 1) div ?p * ?p" using p by linarith
  then show ?thesis using Padded by (simp add: layout_stride_def Let_def)
qed (simp add: layout_stride_def)

text \<open>The rows found in a tight payload.\<close>

definition wire_row :: "nat \<Rightarrow> bytes \<Rightarrow> nat \<Rightarrow> bytes" where
  "wire_row rb payload k = take rb (drop (k * rb) payload)"

lemma length_wire_row: "n * rb \<le> length p \<Longrightarrow> k < n \<Longrightarrow> length (wire_row rb p k) = rb"
  using row_in[of k n 0 rb rb] by (simp add: wire_row_def)

lemma wire_row_concat:
  assumes "wf_view sz v" "k < nat (dv_rows v)"
  shows "wire_row (dv_dim v * sz) (view_rows sz v @ rest) k = view_row sz v k"
proof -
  let ?n = "nat (dv_rows v)" and ?rb = "dv_dim v * sz"
  have s: "view_rows sz v = concat (map (view_row sz v) [0..<k]) @ view_row sz v k @
      concat (map (view_row sz v) [Suc k..<?n])"
    using concat_map_upt_split[of 0 k ?n "view_row sz v"] assms(2)
    by (simp add: view_rows_def upt_conv_Cons)
  have "length (concat (map (view_row sz v) [0..<k])) = k * ?rb"
    using length_rows[OF assms(1), of k 0] assms(2) by simp
  then show ?thesis unfolding wire_row_def s using length_view_row[OF assms] by simp
qed

lemma cleared_blks:
  assumes st: "length s = n * (stride * sz)" and d: "dim \<le> stride" and rl: "raft_fills rl"
    and m: "pm_rows m = n" "pm_dim m = dim" "pm_stride m = stride"
  shows "length (clear_padding rl sz m s) = n * (stride * sz) \<and>
    (\<forall>k < n. blk (stride * sz) k (clear_padding rl sz m s) =
      overwrite (blk (stride * sz) k s) (dim * sz) (replicate ((stride - dim) * sz) 0))"
proof (cases "dim < stride \<and> 0 < n")
  case True
  have e: "dim * sz + (stride - dim) * sz = stride * sz" using d by (metis add_mult_distrib le_add_diff_inverse)
  have fit: "n = 0 \<or> dim * sz + (n - 1) * (stride * sz) + (stride - dim) * sz \<le> length s"
  proof -
    have "n * (stride * sz) = (n - 1) * (stride * sz) + stride * sz" using True by (cases n) simp_all
    then show ?thesis using st e by linarith
  qed
  have "clear_padding rl sz m s = rows_copied s (dim * sz) (stride * sz) (\<lambda>_. replicate ((stride - dim) * sz) 0) n"
    using True m by (simp add: clear_padding_def raft_fill[OF rl fit])
  then show ?thesis
    using rows_copied_blk[of s n "stride * sz" 0 n "dim * sz" "\<lambda>_. replicate ((stride - dim) * sz) 0"] st e
    by simp
next
  case False
  then show ?thesis using st m d by (auto simp: clear_padding_def)
qed

text \<open>The storage when rows from the first to \<open>j\<close> have arrived.\<close>

definition filled :: "nat \<Rightarrow> nat \<Rightarrow> nat \<Rightarrow> (nat \<Rightarrow> bytes) \<Rightarrow> nat \<Rightarrow> bytes \<Rightarrow> bool" where
  "filled rb sb n row j s \<longleftrightarrow> length s = n * sb \<and>
     (\<forall>k < n. drop rb (blk sb k s) = replicate (sb - rb) 0 \<and> (k < j \<longrightarrow> take rb (blk sb k s) = row k))"

lemma filled_image:
  assumes "filled rb sb n row n s" "rb \<le> sb" "\<And>k. k < n \<Longrightarrow> length (row k) = rb"
  shows "s = padded_image rb sb row n"
proof (rule padded_imageI)
  fix k assume k: "k < n"
  show "blk sb k s = row k @ replicate (sb - rb) 0"
    using assms(1) k append_take_drop_id[of rb "blk sb k s"] by (simp add: filled_def)
qed (use assms in \<open>simp_all add: filled_def\<close>)

lemma cleared_filled:
  assumes "length s = n * (stride * sz)" "dim \<le> stride" "raft_fills rl"
    and "pm_rows m = n" "pm_dim m = dim" "pm_stride m = stride"
  shows "filled (dim * sz) (stride * sz) n row 0 (clear_padding rl sz m s)"
proof -
  note c = cleared_blks[OF assms]
  have e: "stride * sz - dim * sz = (stride - dim) * sz" by (simp add: diff_mult_distrib)
  have le: "dim * sz \<le> stride * sz" using assms(2) by simp
  have e2: "dim * sz + (stride - dim) * sz = stride * sz"
    using assms(2) by (metis add_mult_distrib le_add_diff_inverse)
  have "drop (dim * sz) (blk (stride * sz) k (clear_padding rl sz m s)) = replicate (stride * sz - dim * sz) 0"
    if "k < n" for k
    using c that length_blk[OF assms(1) that] le e2 unfolding e by (simp add: overwrite_def)
  then show ?thesis using c by (simp add: filled_def)
qed

text \<open>Rows copied into place, and in particular \<open>c\<close> rows from a packed buffer.\<close>

lemma zeros_filled:
  assumes "rb \<le> sb"
  shows "filled rb sb n row 0 (replicate (n * sb) 0)"
proof -
  have "drop rb (blk sb k (replicate (n * sb) (0 :: u8))) = replicate (sb - rb) 0" if "k < n" for k
  proof -
    have "k * sb + sb \<le> n * sb" using row_in[OF that, of 0 sb sb] by simp
    then have "min (n * sb - k * sb) sb = sb" by simp
    then show ?thesis by (simp add: blk_def)
  qed
  then show ?thesis unfolding filled_def by simp
qed

lemma rows_copied_filled:
  assumes f: "filled rb sb n row j s" and le: "rb \<le> sb" and jc: "j + c \<le> n"
    and src: "\<And>k. k < c \<Longrightarrow> new k = row (j + k) \<and> length (new k) = rb"
  shows "filled rb sb n row (j + c) (rows_copied s (j * sb) sb new c)"
proof -
  let ?t = "rows_copied s (j * sb + 0) sb new c"
  have fit: "0 + length (new k) \<le> sb" if "k < c" for k
    using src[OF that] le by (metis add_0)
  have b: "length ?t = n * sb \<and> (\<forall>k < n. blk sb k ?t =
      (if j \<le> k \<and> k < j + c then overwrite (blk sb k s) 0 (new (k - j)) else blk sb k s))"
    using f jc fit by (intro rows_copied_blk) (simp_all add: filled_def)
  have "drop rb (blk sb k ?t) = replicate (sb - rb) 0 \<and> (k < j + c \<longrightarrow> take rb (blk sb k ?t) = row k)"
    if k: "k < n" for k
  proof (cases "j \<le> k \<and> k < j + c")
    case True
    then have "k - j < c" by linarith
    from src[OF this] True have "new (k - j) = row k \<and> length (row k) = rb" by (metis le_add_diff_inverse)
    then show ?thesis using b k True f by (simp add: overwrite_def filled_def)
  next
    case False
    then show ?thesis using b k f by (auto simp: filled_def)
  qed
  then show ?thesis using b by (simp add: filled_def)
qed

lemma copy_filled:
  assumes f: "filled rb sb n row j s" and le: "rb \<le> sb" and rl: "raft_copies rl" and jc: "j + c \<le> n"
    and src: "\<And>k. k < c \<Longrightarrow> wire_row rb packed k = row (j + k)" and l: "c * rb \<le> length packed"
  shows "filled rb sb n row (j + c) (rl_copy rl s (j * sb) sb packed rb rb c)"
proof -
  have fit: "c = 0 \<or> (j * sb + (c - 1) * sb + rb \<le> length s \<and> (c - 1) * rb + rb \<le> length packed)"
  proof (cases "c = 0")
    case False
    then have "(j + (c - 1)) * sb + 0 + rb \<le> n * sb" using jc le by (intro row_in) simp_all
    moreover have "(c - 1) * rb + rb = c * rb" using False by (cases c) simp_all
    ultimately show ?thesis using f l by (simp add: filled_def add_mult_distrib)
  qed simp
  have e: "rl_copy rl s (j * sb) sb packed rb rb c = rows_copied s (j * sb) sb (wire_row rb packed) c"
  proof -
    have "(\<lambda>k. take rb (drop (k * rb) packed)) = wire_row rb packed" by (simp add: wire_row_def fun_eq_iff)
    then show ?thesis using raft_copy[OF rl fit] by simp
  qed
  show ?thesis
    unfolding e using src length_wire_row[OF l] by (intro rows_copied_filled[OF f le jc]) simp
qed

section \<open>The double buffer never overwrites rows that are still to be copied\<close>

definition batch_cmd :: "nat \<Rightarrow> nat \<Rightarrow> nat \<Rightarrow> copy_cmd" where
  "batch_cmd n B b = \<lparr>cc_batch = b, cc_slot = b mod 2, cc_first = b * B, cc_rows = min B (n - b * B)\<rparr>"

text \<open>
  \<open>k\<close> batches have been queued and the first \<open>p\<close> of them copied: the queue holds the rest, the buffer
  of each of these holds its rows, and the storage holds the rows of the copied ones.
\<close>

definition db_inv :: "nat \<Rightarrow> nat \<Rightarrow> nat \<Rightarrow> (nat \<Rightarrow> bytes) \<Rightarrow> nat \<Rightarrow> nat \<Rightarrow> nat \<Rightarrow> device_state \<Rightarrow> bool" where
  "db_inv rb sb n row B k p s \<longleftrightarrow>
     p \<le> k \<and> (\<forall>b < k. b * B < n) \<and> ds_queue s = map (batch_cmd n B) [p..<k] \<and>
     filled rb sb n row (min n (p * B)) (ds_storage s) \<and>
     (\<forall>slot < 2. length (ds_packed s slot) = B * rb) \<and>
     (\<forall>b. p \<le> b \<and> b < k \<longrightarrow> (\<forall>j < min B (n - b * B). wire_row rb (ds_packed s (b mod 2)) j = row (b * B + j))) \<and>
     (\<forall>slot < 2. ds_in_flight s slot \<longleftrightarrow> slot < k) \<and>
     (\<forall>slot < 2. slot < k \<longrightarrow> ds_event s slot mod 2 = slot \<and> ds_event s slot < k \<and> k \<le> ds_event s slot + 2)"

lemma run_one:
  assumes i: "db_inv rb sb n row B k p s" and le: "rb \<le> sb" and rl: "raft_copies rl" and p: "p < k"
    and m: "pm_dim m * sz = rb" "pm_stride m * sz = sb"
  shows "db_inv rb sb n row B k (Suc p) (run_copy rl sz m (batch_cmd n B p) (s\<lparr>ds_queue := map (batch_cmd n B) [Suc p..<k]\<rparr>))"
proof -
  let ?c = "min B (n - p * B)"
  have pn: "p * B < n" using i p by (simp add: db_inv_def)
  have mp: "min n (p * B) = p * B" using pn by simp
  have f: "filled rb sb n row (p * B) (ds_storage s)" using i mp by (simp add: db_inv_def)
  have jc: "p * B + ?c \<le> n" using pn by simp
  have src: "wire_row rb (ds_packed s (p mod 2)) j = row (p * B + j)" if "j < ?c" for j
    using i p that by (simp add: db_inv_def)
  have l: "?c * rb \<le> length (ds_packed s (p mod 2))"
    using i by (simp add: db_inv_def)
  have e: "p * B + ?c = min n (Suc p * B)" using pn by (simp add: min_def) linarith
  have off: "p * B * pm_stride m * sz = p * B * sb" using m(2) by (simp add: mult.assoc)
  have "filled rb sb n row (min n (Suc p * B)) (rl_copy rl (ds_storage s) (p * B * sb) sb (ds_packed s (p mod 2)) rb rb ?c)"
    using copy_filled[OF f le rl jc src l] unfolding e .
  then show ?thesis
    using i p m by (simp add: db_inv_def run_copy_def batch_cmd_def off)
qed

lemma device_runs_inv:
  assumes "db_inv rb sb n row B k p s" "rb \<le> sb" "raft_copies rl"
    and "pm_dim m * sz = rb" "pm_stride m * sz = sb"
  shows "db_inv rb sb n row B k (min k (p + r)) (device_runs rl sz m r s)"
  using assms(1)
proof (induction r arbitrary: p s)
  case 0
  then show ?case by (simp add: db_inv_def min_absorb2)
next
  case (Suc r)
  show ?case
  proof (cases "p < k")
    case True
    have q: "ds_queue s = batch_cmd n B p # map (batch_cmd n B) [Suc p..<k]"
      using Suc.prems True by (simp add: db_inv_def upt_conv_Cons)
    show ?thesis
      using Suc.IH[OF run_one[OF Suc.prems assms(2,3) True assms(4,5)]] q by simp
  next
    case False
    then have "p = k" using Suc.prems by (simp add: db_inv_def)
    then show ?thesis using Suc.prems by (simp add: db_inv_def)
  qed
qed

lemma device_runs_packed: "ds_packed (device_runs rl sz m r s) = ds_packed s"
  by (induction r arbitrary: s) (auto simp: run_copy_def split: list.split)

lemma waited_enough:
  assumes i: "db_inv rb sb n row B k p s" and le: "rb \<le> sb" and rl: "raft_copies rl"
    and m: "pm_dim m * sz = rb" "pm_stride m * sz = sb" and fl: "ds_in_flight s (k mod 2)"
  shows "\<exists>p' \<ge> k - 1. db_inv rb sb n row B k p' (wait_event rl sz m (k mod 2) s)"
proof -
  let ?e = "ds_event s (k mod 2)"
  have "k mod 2 < 2" by simp
  then have "?e mod 2 = k mod 2" "?e < k" "k \<le> ?e + 2" using i fl by (auto simp: db_inv_def)
  then have e: "?e + 2 = k" by presburger
  have q: "ds_queue s = map (batch_cmd n B) [p..<k]" using i by (simp add: db_inv_def)
  have "filter (\<lambda>c. cc_batch c \<le> ?e) (ds_queue s) = map (batch_cmd n B) (filter (\<lambda>b. b \<le> ?e) [p..<k])"
    unfolding q by (simp add: filter_map comp_def batch_cmd_def)
  moreover have "filter (\<lambda>b. b \<le> ?e) [p..<k] = [p..<k - 1]"
  proof (cases "p \<le> k - 1")
    case True
    have "[p..<k] = [p..<k - 1] @ [k - 1]" using True e by (metis Suc_diff_1 upt_Suc_append zero_less_Suc add_2_eq_Suc')
    then show ?thesis using e by (auto simp: filter_id_conv)
  next
    case False
    then show ?thesis using e by (auto simp: filter_empty_conv)
  qed
  ultimately have "wait_event rl sz m (k mod 2) s = device_runs rl sz m (k - 1 - p) s"
    by (simp add: wait_event_def)
  then have "db_inv rb sb n row B k (min k (p + (k - 1 - p))) (wait_event rl sz m (k mod 2) s)"
    using device_runs_inv[OF i le rl m] by simp
  moreover have "k - 1 \<le> min k (p + (k - 1 - p))" by simp
  ultimately show ?thesis by blast
qed

lemma push_batch:
  assumes i: "db_inv rb sb n row B k p s" and kn: "k * B < n"
    and pk: "\<And>j. j < min B (n - k * B) \<Longrightarrow> wire_row rb (ds_packed s (k mod 2)) j = row (k * B + j)"
  shows "db_inv rb sb n row B (Suc k) p (s\<lparr>ds_queue := ds_queue s @ [batch_cmd n B k],
    ds_event := (ds_event s)(k mod 2 := k), ds_in_flight := (ds_in_flight s)(k mod 2 := True)\<rparr>)"
proof -
  have ev: "((ds_event s)(k mod 2 := k)) x mod 2 = x \<and> ((ds_event s)(k mod 2 := k)) x < Suc k \<and>
      Suc k \<le> ((ds_event s)(k mod 2 := k)) x + 2" if "x < 2" "x < Suc k" for x
  proof (cases "x = k mod 2")
    case False
    have "x < k" using that False by (metis less_SucE mod_less)
    then have h: "ds_event s x mod 2 = x" "ds_event s x < k" "k \<le> ds_event s x + 2"
      using i that(1) by (simp_all add: db_inv_def)
    have "k \<noteq> ds_event s x + 2" using h(1) False by (metis mod_add_self2)
    then have "Suc k \<le> ds_event s x + 2" using h(3) by linarith
    then show ?thesis using h(1,2) False by simp
  qed simp
  have fl: "((ds_in_flight s)(k mod 2 := True)) x \<longleftrightarrow> x < Suc k" if "x < 2" for x
  proof (cases "x = k mod 2")
    case True
    then have "x \<le> k" by simp
    then show ?thesis using True by simp
  next
    case False
    have "x \<noteq> k" using that False by auto
    then show ?thesis using i that False by (simp add: db_inv_def less_Suc_eq)
  qed
  have rows: "\<forall>j < min B (n - b * B). wire_row rb (ds_packed s (b mod 2)) j = row (b * B + j)"
    if "p \<le> b" "b < Suc k" for b
    using i pk that by (cases "b = k") (simp_all add: db_inv_def)
  have q: "ds_queue s @ [batch_cmd n B k] = map (batch_cmd n B) [p..<Suc k]"
    using i by (simp add: db_inv_def)
  show ?thesis
    using i kn ev fl rows q by (simp add: db_inv_def less_Suc_eq)
qed

text \<open>One batch: when the host fills its buffer, no queued copy reads from that buffer.\<close>

lemma host_batch_inv:
  assumes i: "db_inv rb sb n (wire_row rb payload) B k p s" and le: "rb \<le> sb" and rl: "raft_copies rl"
    and m: "pm_dim m * sz = rb" "pm_stride m * sz = sb" "pm_rows m = n"
    and B: "0 < B" and kn: "k * B < n" and pl: "n * rb \<le> length payload"
  shows "\<exists>p' s'. host_batch rl sz m B k (k * B) c1 c2 s (drop (k * B * rb) payload) =
      Inr (s', drop (min n (Suc k * B) * rb) payload) \<and> db_inv rb sb n (wire_row rb payload) B (Suc k) p' s'"
proof -
  let ?row = "wire_row rb payload" and ?slot = "k mod 2" and ?c = "min B (n - k * B)"
  obtain s1 where s1: "s1 = device_runs rl sz m c1 s" by blast
  obtain s2 where s2: "s2 = (if ds_in_flight s1 ?slot then wait_event rl sz m ?slot s1 else s1)" by blast
  obtain p1 where i1: "db_inv rb sb n ?row B k p1 s1" using device_runs_inv[OF i le rl m(1,2)] s1 by blast
  have "\<exists>p2 \<ge> k - 1. db_inv rb sb n ?row B k p2 s2"
  proof (cases "ds_in_flight s1 ?slot")
    case True
    then show ?thesis using waited_enough[OF i1 le rl m(1,2) True] s2 by simp
  next
    case False
    have "?slot < 2" by simp
    then have "k \<le> ?slot" using False i1 unfolding db_inv_def by (metis not_le)
    then have "k \<le> 1" using \<open>?slot < 2\<close> by linarith
    then show ?thesis using False i1 s2 by auto
  qed
  then obtain p2 where p2: "k - 1 \<le> p2" "db_inv rb sb n ?row B k p2 s2" by blast
  let ?n = "?c * rb"
  obtain inp where inp: "inp = drop (k * B * rb) payload" by blast
  have kc2: "k * B + ?c \<le> n" using kn by linarith
  have kc: "k * B + ?c = min n (Suc k * B)" using kn by (simp add: min_def) linarith
  have "(k * B + ?c) * rb \<le> length payload" using kc2 pl by (metis le_trans mult_le_mono1)
  then have fits: "?n \<le> length inp" by (simp add: add_mult_distrib inp)
  obtain pk where pk: "pk = overwrite (ds_packed s2 ?slot) 0 (take ?n inp)" by blast
  obtain s3 where s3: "s3 = s2\<lparr>ds_packed := (ds_packed s2)(?slot := pk)\<rparr>" by blast
  have lp: "length (ds_packed s2 x) = B * rb" if "x < 2" for x using p2(2) that by (simp add: db_inv_def)
  have lpk: "length pk = B * rb" using fits lp[of ?slot] by (simp add: length_overwrite_in pk)
  have other: "b mod 2 \<noteq> ?slot" if "p2 \<le> b" "b < k" for b
  proof -
    have "b + 1 = k" using that p2(1) by linarith
    then show ?thesis by presburger
  qed
  have i3: "db_inv rb sb n ?row B k p2 s3"
    using p2(2) lpk other by (auto simp: db_inv_def s3)
  have pkrow: "wire_row rb pk j = ?row (k * B + j)" if j: "j < ?c" for j
  proof -
    have r: "j * rb + rb \<le> ?c * rb" using row_in[OF j, of 0 rb rb] by simp
    have "wire_row rb pk j = take rb (drop (j * rb) (take ?n inp))"
      using fits r by (simp add: wire_row_def overwrite_def pk)
    also have "\<dots> = take rb (drop (j * rb) inp)" using r by (simp add: drop_take min_def)
    also have "\<dots> = ?row (k * B + j)" by (simp add: wire_row_def inp add_mult_distrib add.commute)
    finally show ?thesis .
  qed
  obtain s4 where s4: "s4 = device_runs rl sz m c2 s3" by blast
  obtain p4 where p4: "db_inv rb sb n ?row B k p4 s4"
    using device_runs_inv[OF i3 le rl m(1,2)] s4 by blast
  have "ds_packed s4 ?slot = pk" unfolding s4 by (simp add: device_runs_packed s3)
  then have pb: "db_inv rb sb n ?row B (Suc k) p4 (s4\<lparr>ds_queue := ds_queue s4 @ [batch_cmd n B k],
      ds_event := (ds_event s4)(?slot := k), ds_in_flight := (ds_in_flight s4)(?slot := True)\<rparr>)"
    using pkrow by (intro push_batch[OF p4 kn]) simp
  have run: "host_batch rl sz m B k (k * B) c1 c2 s inp =
      Inr (s4\<lparr>ds_queue := ds_queue s4 @ [batch_cmd n B k],
        ds_event := (ds_event s4)(?slot := k), ds_in_flight := (ds_in_flight s4)(?slot := True)\<rparr>, drop ?n inp)"
    using fits unfolding host_batch_def Let_def m s1[symmetric] s2[symmetric] pk[symmetric] s3[symmetric]
      s4[symmetric] batch_cmd_def by simp
  have "drop ?n inp = drop (min n (Suc k * B) * rb) payload"
    unfolding kc[symmetric] inp by (simp add: add_mult_distrib add.commute)
  then show ?thesis using run pb inp by metis
qed

lemma host_batches_inv:
  assumes "db_inv rb sb n (wire_row rb payload) B k p s" "rb \<le> sb" "raft_copies rl"
    and "pm_dim m * sz = rb" "pm_stride m * sz = sb" "pm_rows m = n" "0 < B" "n * rb \<le> length payload"
    and "k * B \<le> n \<or> n \<le> k * B"
  shows "\<exists>k' p' s'. host_batches rl sz m B k (k * B) sched s (drop (min n (k * B) * rb) payload) =
      Inr (s', drop (n * rb) payload) \<and> n \<le> k' * B \<and> db_inv rb sb n (wire_row rb payload) B k' p' s'"
  using assms(1)
proof (induction "n - k * B" arbitrary: k p s rule: less_induct)
  case less
  show ?case
  proof (cases "k * B < n")
    case False
    then have "host_batches rl sz m B k (k * B) sched s (drop (min n (k * B) * rb) payload) =
        Inr (s, drop (min n (k * B) * rb) payload)"
      using assms(6) by (simp add: host_batches.simps[of rl sz m B k "k * B"])
    moreover have "min n (k * B) = n" using False by simp
    ultimately show ?thesis using less.prems False by (metis not_le)
  next
    case True
    obtain p1 s1 where b: "host_batch rl sz m B k (k * B) (fst (sched k)) (snd (sched k)) s (drop (k * B * rb) payload) =
        Inr (s1, drop (min n (Suc k * B) * rb) payload)" "db_inv rb sb n (wire_row rb payload) B (Suc k) p1 s1"
      using host_batch_inv[OF less.prems assms(2-7) True assms(8)] by blast
    have "n - Suc k * B < n - k * B" using True assms(7) by simp
    from less.hyps[OF this b(2)] obtain k' p' s' where
        ih: "host_batches rl sz m B (Suc k) (Suc k * B) sched s1 (drop (min n (Suc k * B) * rb) payload) =
          Inr (s', drop (n * rb) payload)" "n \<le> k' * B" "db_inv rb sb n (wire_row rb payload) B k' p' s'" by blast
    have "min n (k * B) = k * B" using True by simp
    then have "host_batches rl sz m B k (k * B) sched s (drop (min n (k * B) * rb) payload) =
        host_batches rl sz m B (Suc k) (Suc k * B) sched s1 (drop (min n (Suc k * B) * rb) payload)"
      using b(1) True assms(6,7) by (simp add: host_batches.simps[of rl sz m B k "k * B"] add.commute)
    then show ?thesis using ih by auto
  qed
qed

lemma host_batches_short:
  "pm_rows m = n \<Longrightarrow> pm_dim m * sz = rb \<Longrightarrow> i \<le> n \<Longrightarrow> length input < (n - i) * rb \<Longrightarrow> 0 < B \<Longrightarrow>
    host_batches rl sz m B k i sched s input = Inl Truncated"
proof (induction "n - i" arbitrary: k i s input rule: less_induct)
  case less
  let ?c = "min B (n - i)"
  have i: "i < n" using less.prems(3,4) by (cases "i = n") simp_all
  show ?case
  proof (cases "length input < ?c * rb")
    case True
    then show ?thesis
      using i less.prems by (simp add: host_batches.simps[of rl sz m B k i] host_batch_def Let_def)
  next
    case False
    then have "\<exists>s1. host_batch rl sz m B k i (fst (sched k)) (snd (sched k)) s input = Inr (s1, drop (?c * rb) input)"
      unfolding host_batch_def Let_def less.prems(1,2) by simp
    then obtain s1 where b: "host_batch rl sz m B k i (fst (sched k)) (snd (sched k)) s input = Inr (s1, drop (?c * rb) input)"
      by blast
    have "i + B \<le> n"
    proof (rule ccontr)
      assume "\<not> i + B \<le> n"
      then have "?c = n - i" by simp
      then show False using False less.prems(4) by simp
    qed
    then have c: "?c = B" by simp
    have "(n - i) * rb = B * rb + (n - (i + B)) * rb"
      using \<open>i + B \<le> n\<close> by (metis add_mult_distrib add_diff_inverse_nat diff_diff_left le_add_diff_inverse2 add.commute
          Nat.le_diff_conv2 not_less trans_le_add1 i less_imp_le)
    then have "length (drop (?c * rb) input) < (n - (i + B)) * rb" using False less.prems(4) c by simp
    then have "host_batches rl sz m B (k + 1) (i + B) sched s1 (drop (?c * rb) input) = Inl Truncated"
      using less.hyps[of "i + B"] less.prems(1,2,5) i \<open>i + B \<le> n\<close> by simp
    then show ?thesis using b i less.prems(1,5) by (simp add: host_batches.simps[of rl sz m B k i])
  qed
qed

lemma sync_done:
  assumes "db_inv rb sb n row B k p s" "rb \<le> sb" "raft_copies rl"
    and "pm_dim m * sz = rb" "pm_stride m * sz = sb" "n \<le> k * B"
  shows "filled rb sb n row n (ds_storage (sync_stream rl sz m s))"
proof -
  have "length (ds_queue s) = k - p" "p \<le> k" using assms(1) by (simp_all add: db_inv_def)
  then have "db_inv rb sb n row B k k (sync_stream rl sz m s)"
    using device_runs_inv[OF assms(1-5), of "k - p"] by (simp add: sync_stream_def)
  then show ?thesis using assms(6) by (simp add: db_inv_def)
qed

section \<open>All readers restore the same dataset\<close>

text \<open>The specification: rows as they are on the wire, padding zero, the stream behind the payload.\<close>

definition restore_spec :: "raft_lib \<Rightarrow> layout \<Rightarrow> nat \<Rightarrow> nat \<Rightarrow> bytes \<Rightarrow> dataset_error + dense_dataset \<times> bytes" where
  "restore_spec rl lay sz code input =
     bind_r (deserialize_dense_payload_metadata_for rl lay sz code input) (\<lambda>(m, i1).
       let n = pm_rows m * (pm_dim m * sz) in
       if length i1 < n then Inl Truncated
       else Inr (restored m (padded_image (pm_dim m * sz) (pm_stride m * sz) (wire_row (pm_dim m * sz) i1) (pm_rows m)),
                 drop n i1))"

lemma metadata_for_facts:
  assumes "deserialize_dense_payload_metadata_for rl lay sz code input = Inr (m, rest)" "0 < sz"
  shows "pm_elements m = pm_rows m * pm_dim m \<and> pm_stride m = layout_stride lay sz (pm_dim m) \<and> pm_dim m \<le> pm_stride m"
  using assms layout_stride_ge[OF assms(2)]
  by (auto simp: deserialize_dense_payload_metadata_for_def deserialize_dense_payload_metadata_def
      dense_matrix_elements_def res_simps Let_def split: prod.splits if_splits)

lemma read_rows_spec:
  assumes sz: "0 < sz" "sz \<le> streamsize_max" and m: "pm_dim m * sz = rb" "pm_stride m * sz = sb" "pm_rows m = n"
    and le: "pm_dim m \<le> pm_stride m"
    and s: "length s = n * sb" "\<And>k. k < i \<Longrightarrow> blk sb k s = wire_row rb i1 k @ replicate (sb - rb) 0"
    and i: "i \<le> n" "i * rb \<le> length i1"
  shows "read_rows sz m [i..<n] s (drop (i * rb) i1) =
    (if length i1 < n * rb then Inl Truncated
     else Inr (padded_image rb sb (wire_row rb i1) n, drop (n * rb) i1))"
  using s i
proof (induction "n - i" arbitrary: i s)
  case 0
  then have "i = n" by simp
  have "rb \<le> sb" using le m(1,2) by (metis mult_le_mono1)
  then have "s = padded_image rb sb (wire_row rb i1) n"
    using 0 \<open>i = n\<close> length_wire_row[of n rb i1] by (intro padded_imageI) auto
  then show ?case using 0 \<open>i = n\<close> by simp
next
  case (Suc d)
  have i: "i < n" using Suc.hyps(2) by simp
  have rs: "rb \<le> sb" using le m(1,2) by (metis mult_le_mono1)
  have upt: "[i..<n] = i # [Suc i..<n]" using i by (simp add: upt_conv_Cons)
  have rd: "read_dense_bytes sz (drop (i * rb) i1) (pm_dim m) =
      (if rb \<le> length i1 - i * rb then Inr (take rb (drop (i * rb) i1), drop rb (drop (i * rb) i1)) else Inl Truncated)"
    using read_dense_bytes_eq[OF sz, of "drop (i * rb) i1" "pm_dim m"] m(1) by simp
  show ?case
  proof (cases "rb \<le> length i1 - i * rb")
    case False
    have "Suc i * rb \<le> n * rb" using i by (intro mult_le_mono1) simp
    then have "length i1 < n * rb" using False Suc.prems(4) by simp
    then show ?thesis using rd False upt by simp
  next
    case True
    let ?r = "wire_row rb i1 i"
    have lr: "length ?r = rb" using True Suc.prems(4) by (simp add: wire_row_def)
    let ?s1 = "overwrite s (i * sb + 0) ?r"
    let ?s2 = "overwrite ?s1 (i * sb + rb) (replicate (sb - rb) 0)"
    have l1: "length ?s1 = n * sb"
      using row_in[OF i, of 0 "length ?r" sb] lr rs Suc.prems(1) by (simp add: length_overwrite_in)
    have l2: "length ?s2 = n * sb"
      using row_in[OF i, of rb "sb - rb" sb] rs l1 by (simp add: length_overwrite_in)
    have b2: "blk sb k ?s2 = wire_row rb i1 k @ replicate (sb - rb) 0" if "k < Suc i" for k
    proof -
      have k: "k < n" using that i by simp
      have d1: "0 + length ?r \<le> sb" "rb + length (replicate (sb - rb) (0 :: u8)) \<le> sb" using lr rs by simp_all
      have "blk sb k ?s2 = (if k = i then overwrite (overwrite (blk sb i s) 0 ?r) rb (replicate (sb - rb) 0) else blk sb k s)"
        using blk_overwrite[OF l1 i k d1(2)] blk_overwrite[OF Suc.prems(1) i k d1(1)]
          blk_overwrite[OF Suc.prems(1) i i d1(1)] by simp
      moreover have "overwrite (overwrite (blk sb i s) 0 ?r) rb (replicate (sb - rb) 0) = ?r @ replicate (sb - rb) 0"
        using overwrite_row_pad(2)[OF length_blk[OF Suc.prems(1) i] lr rs] .
      ultimately show ?thesis using Suc.prems(2) that by (auto simp: less_Suc_eq)
    qed
    have e: "i * pm_stride m * sz = i * sb + 0" "(i * pm_stride m + pm_dim m) * sz = i * sb + rb"
        "(pm_stride m - pm_dim m) * sz = sb - rb"
      using m by (simp_all add: mult.assoc add_mult_distrib diff_mult_distrib)
    have nx: "drop rb (drop (i * rb) i1) = drop (Suc i * rb) i1" by (simp add: add.commute)
    have "read_rows sz m [i..<n] s (drop (i * rb) i1) = read_rows sz m [Suc i..<n] ?s2 (drop (Suc i * rb) i1)"
      unfolding upt using rd True by (simp add: Let_def wire_row_def e flip: nx)
    moreover have "Suc i * rb \<le> length i1" using True Suc.prems(4) by simp
    ultimately show ?thesis using Suc.hyps(1)[of "Suc i" ?s2] Suc.hyps(2) l2 b2 i by simp
  qed
qed

lemma bind_r_cong: "(\<And>x. r = Inr x \<Longrightarrow> f x = g x) \<Longrightarrow> bind_r r f = bind_r r g"
  by (cases r) simp_all

lemma storage_length:
  assumes "\<And>k. length (garbage k) = k" "pm_stride m = layout_stride lay sz (pm_dim m)"
  shows "length (make_dense_storage lay sz garbage m) = pm_rows m * (pm_stride m * sz)"
  using assms by (simp add: make_dense_storage_def make_dense_array_def mult.assoc)

lemma tight_image:
  "n * rb \<le> length p \<Longrightarrow> padded_image rb rb (wire_row rb p) n = take (n * rb) p"
proof -
  assume l: "n * rb \<le> length p"
  have "blk rb k (take (n * rb) p) = wire_row rb p k" if "k < n" for k
    using row_in[OF that, of 0 rb rb] by (simp add: blk_def wire_row_def drop_take min_def)
  then have "take (n * rb) p = padded_image rb rb (wire_row rb p) n"
    using l length_wire_row[OF l] by (intro padded_imageI) auto
  then show ?thesis by simp
qed

lemma overwrite_all: "length s = length d \<Longrightarrow> overwrite s 0 d = d"
  by (simp add: overwrite_def)

lemma host_restores:
  assumes sz: "0 < sz" "sz \<le> streamsize_max" and g: "\<And>k. length (garbage k) = k"
  shows "deserialize_host_dense rl lay sz code garbage input = restore_spec rl lay sz code input"
  unfolding deserialize_host_dense_def restore_spec_def
proof (rule bind_r_cong, clarify)
  fix m i1 assume h: "deserialize_dense_payload_metadata_for rl lay sz code input = Inr (m, i1)"
  let ?rb = "pm_dim m * sz" and ?sb = "pm_stride m * sz" and ?n = "pm_rows m"
  note f = metadata_for_facts[OF h sz(1)]
  have sl: "length (make_dense_storage lay sz garbage m) = ?n * ?sb" using storage_length[OF g] f by blast
  have en: "pm_elements m * sz = ?n * ?rb" using f by (simp add: mult.assoc)
  show "(let storage = make_dense_storage lay sz garbage m in
      bind_r (if pm_stride m = pm_dim m
        then bind_r (read_dense_bytes sz i1 (pm_elements m)) (\<lambda>(bs, rest). Inr (overwrite storage 0 bs, rest))
        else read_rows sz m [0..<pm_rows m] storage i1) (\<lambda>(s, rest). Inr (restored m s, rest))) =
    (let n = ?n * ?rb in if length i1 < n then Inl Truncated
      else Inr (restored m (padded_image ?rb ?sb (wire_row ?rb i1) ?n), drop n i1))"
  proof (cases "pm_stride m = pm_dim m")
    case True
    have rd: "read_dense_bytes sz i1 (pm_elements m) =
        (if ?n * ?rb \<le> length i1 then Inr (take (?n * ?rb) i1, drop (?n * ?rb) i1) else Inl Truncated)"
      by (simp only: read_dense_bytes_eq[OF sz] en)
    then show ?thesis
      using True sl tight_image[of ?n ?rb i1] by (simp add: Let_def overwrite_all not_le)
  next
    case False
    then show ?thesis
      using read_rows_spec[OF sz refl refl refl _ sl, of 0 i1] f by (simp add: Let_def)
  qed
qed

lemma cleared_storage:
  assumes "deserialize_dense_payload_metadata_for rl lay sz code input = Inr (m, i1)" "0 < sz"
    and "\<And>k. length (garbage k) = k" "raft_fills rl"
  shows "filled (pm_dim m * sz) (pm_stride m * sz) (pm_rows m) row 0
    (clear_padding rl sz m (make_dense_storage lay sz garbage m))"
proof -
  note f = metadata_for_facts[OF assms(1,2)]
  have "length (make_dense_storage lay sz garbage m) = pm_rows m * (pm_stride m * sz)"
    using storage_length[OF assms(3)] f by blast
  from cleared_filled[OF this _ assms(4) refl refl refl] show ?thesis using f by simp
qed

lemma copied_all:
  assumes f: "filled rb sb n (wire_row rb i1) 0 s" and le: "rb \<le> sb" and rl: "raft_copies rl"
    and p: "n * rb \<le> length packed" "take (n * rb) packed = take (n * rb) i1" "n * rb \<le> length i1"
  shows "rl_copy rl s 0 sb packed rb rb n = padded_image rb sb (wire_row rb i1) n"
proof -
  have "wire_row rb packed k = wire_row rb i1 k" if "k < n" for k
  proof -
    have "wire_row rb q k = take rb (drop (k * rb) (take (n * rb) q))" for q :: bytes
      using row_in[OF that, of 0 rb rb] by (simp add: wire_row_def drop_take min_def)
    then show ?thesis using p(2) by simp
  qed
  then have "filled rb sb n (wire_row rb i1) n (rl_copy rl s 0 sb packed rb rb n)"
    using copy_filled[OF f le rl, of n packed] p(1) by simp
  from filled_image[OF this le length_wire_row[OF p(3)]] show ?thesis .
qed

lemma no_elements_image:
  assumes "filled rb sb n (wire_row rb i1) 0 s" "rb \<le> sb" "n = 0 \<or> rb = 0"
  shows "s = padded_image rb sb (wire_row rb i1) n"
proof (rule filled_image)
  show "filled rb sb n (wire_row rb i1) n s"
    using assms by (auto simp: filled_def wire_row_def)
qed (use assms in \<open>auto simp: wire_row_def\<close>)

lemma device_restores:
  assumes sz: "0 < sz" "sz \<le> streamsize_max" and g: "\<And>k. length (garbage k) = k" and rl: "raft_ok rl"
  shows "deserialize_device_dense rl lay sz code garbage input = restore_spec rl lay sz code input"
  unfolding deserialize_device_dense_def restore_spec_def
proof (rule bind_r_cong, clarify)
  fix m i1 assume h: "deserialize_dense_payload_metadata_for rl lay sz code input = Inr (m, i1)"
  let ?rb = "pm_dim m * sz" and ?sb = "pm_stride m * sz" and ?n = "pm_rows m"
  note f = metadata_for_facts[OF h sz(1)]
  have le: "?rb \<le> ?sb" using f by simp
  have en: "pm_elements m * sz = ?n * ?rb" using f by (simp add: mult.assoc)
  have rd: "read_dense_bytes sz i1 (pm_elements m) =
      (if ?n * ?rb \<le> length i1 then Inr (take (?n * ?rb) i1, drop (?n * ?rb) i1) else Inl Truncated)"
    by (simp only: read_dense_bytes_eq[OF sz] en)
  obtain s where s: "s = clear_padding rl sz m (make_dense_storage lay sz garbage m)" by blast
  have fl: "filled ?rb ?sb ?n (wire_row ?rb i1) 0 s"
    unfolding s by (rule cleared_storage[OF h sz(1) g raft_okD(2)[OF rl]])
  have img: "(if 0 < pm_elements m then rl_copy rl s 0 ?sb (take (?n * ?rb) i1) ?rb ?rb ?n else s) =
      padded_image ?rb ?sb (wire_row ?rb i1) ?n" if "?n * ?rb \<le> length i1"
  proof (cases "0 < pm_elements m")
    case True
    then show ?thesis
      using copied_all[OF fl le raft_okD(1)[OF rl], of "take (?n * ?rb) i1"] that by simp
  next
    case False
    then have "?n = 0 \<or> ?rb = 0" using f by auto
    from no_elements_image[OF fl le this] show ?thesis using False by simp
  qed
  show "bind_r (read_dense_bytes sz i1 (pm_elements m)) (\<lambda>(staging, rest).
      let storage = clear_padding rl sz m (make_dense_storage lay sz garbage m);
          storage2 = if 0 < pm_elements m then rl_copy rl storage 0 ?sb staging ?rb ?rb ?n else storage
      in Inr (restored m storage2, rest)) =
    (let n = ?n * ?rb in if length i1 < n then Inl Truncated
      else Inr (restored m (padded_image ?rb ?sb (wire_row ?rb i1) ?n), drop n i1))"
    unfolding rd Let_def s[symmetric] using img by (simp add: not_le)
qed

lemma direct_restores:
  assumes sz: "0 < sz" "sz \<le> streamsize_max" and g: "\<And>k. length (garbage k) = k" and rl: "raft_ok rl"
  shows "deserialize_device_direct rl lay sz code garbage sched input = restore_spec rl lay sz code input"
  unfolding deserialize_device_direct_def restore_spec_def
proof (rule bind_r_cong, clarify)
  fix m i1 assume h: "deserialize_dense_payload_metadata_for rl lay sz code input = Inr (m, i1)"
  let ?rb = "pm_dim m * sz" and ?sb = "pm_stride m * sz" and ?n = "pm_rows m"
  let ?B = "batch_rows_of ?n (pm_dim m) sz"
  note f = metadata_for_facts[OF h sz(1)]
  have le: "?rb \<le> ?sb" using f by simp
  have en: "pm_elements m * sz = ?n * ?rb" using f by (simp add: mult.assoc)
  obtain s where s: "s = clear_padding rl sz m (make_dense_storage lay sz garbage m)" by blast
  have fl: "filled ?rb ?sb ?n (wire_row ?rb i1) 0 s"
    unfolding s by (rule cleared_storage[OF h sz(1) g raft_okD(2)[OF rl]])
  note rc = raft_okD(1)[OF rl]
  let ?spec = "if length i1 < ?n * ?rb then Inl Truncated
      else Inr (restored m (padded_image ?rb ?sb (wire_row ?rb i1) ?n), drop (?n * ?rb) i1)"
  consider "pm_elements m = 0" | "pm_elements m \<noteq> 0" "pm_stride m = pm_dim m"
    | "pm_elements m \<noteq> 0" "pm_stride m \<noteq> pm_dim m" "?B = ?n" | "pm_elements m \<noteq> 0" "pm_stride m \<noteq> pm_dim m" "?B \<noteq> ?n"
    by blast
  then have "(if pm_elements m = 0 then Inr (restored m s, i1)
      else if pm_stride m = pm_dim m then
        (if length i1 < ?n * ?rb then Inl Truncated
         else Inr (restored m (overwrite s 0 (take (?n * ?rb) i1)), drop (?n * ?rb) i1))
      else if ?B = ?n then
        (if length i1 < ?n * ?rb then Inl Truncated
         else Inr (restored m (rl_copy rl s 0 ?sb (overwrite (garbage (?B * pm_dim m * sz)) 0 (take (?n * ?rb) i1))
                     ?rb ?rb ?n), drop (?n * ?rb) i1))
      else bind_r (host_batches rl sz m ?B 0 0 sched
             \<lparr>ds_storage = s, ds_packed = (\<lambda>_. garbage (?B * pm_dim m * sz)), ds_queue = [], ds_event = (\<lambda>_. 0),
              ds_in_flight = (\<lambda>_. False)\<rparr> i1) (\<lambda>(s, rest).
             Inr (restored m (ds_storage (sync_stream rl sz m s)), rest))) = ?spec" (is "?code = _")
  proof cases
    case 1
    then have z: "?n = 0 \<or> ?rb = 0" using f by auto
    have "s = padded_image ?rb ?sb (wire_row ?rb i1) ?n" by (rule no_elements_image[OF fl le z])
    moreover have nr: "?n * ?rb = 0" using z by auto
    ultimately show ?thesis unfolding nr using 1 by simp
  next
    case 2
    then have "length s = ?n * ?rb" using fl by (simp add: filled_def)
    then show ?thesis using 2 tight_image[of ?n ?rb i1] by (simp add: overwrite_all not_less)
  next
    case 3
    have lg: "length (garbage (?B * pm_dim m * sz)) = ?n * ?rb" using g 3(3) by (simp add: mult.assoc)
    show ?thesis
    proof (cases "length i1 < ?n * ?rb")
      case False
      then have "overwrite (garbage (?B * pm_dim m * sz)) 0 (take (?n * ?rb) i1) = take (?n * ?rb) i1"
        using lg by (intro overwrite_all) simp
      then have "rl_copy rl s 0 ?sb (overwrite (garbage (?B * pm_dim m * sz)) 0 (take (?n * ?rb) i1)) ?rb ?rb ?n =
          padded_image ?rb ?sb (wire_row ?rb i1) ?n"
        using copied_all[OF fl le rc, of "take (?n * ?rb) i1"] False by simp
      then show ?thesis using 3 False by simp
    qed (use 3 in simp)
  next
    case 4
    then have "0 < ?n" using f by (cases ?n) simp_all
    then have B: "0 < ?B" by (simp add: batch_rows_of_def)
    let ?s0 = "\<lparr>ds_storage = s, ds_packed = (\<lambda>_. garbage (?B * pm_dim m * sz)), ds_queue = [], ds_event = (\<lambda>_. 0),
        ds_in_flight = (\<lambda>_. False)\<rparr>"
    have i0: "db_inv ?rb ?sb ?n (wire_row ?rb i1) ?B 0 0 ?s0"
      using fl g by (simp add: db_inv_def mult.assoc)
    show ?thesis
    proof (cases "length i1 < ?n * ?rb")
      case True
      have "host_batches rl sz m ?B 0 0 sched ?s0 i1 = Inl Truncated"
        using host_batches_short[OF refl refl, of 0 m i1 sz ?B rl 0 sched ?s0] True B by simp
      then show ?thesis using 4 True by simp
    next
      case False
      then obtain k' p' s' where r: "host_batches rl sz m ?B 0 0 sched ?s0 i1 = Inr (s', drop (?n * ?rb) i1)"
          "?n \<le> k' * ?B" "db_inv ?rb ?sb ?n (wire_row ?rb i1) ?B k' p' s'"
        using host_batches_inv[OF i0 le rc refl refl refl B, of sched] by auto
      have "ds_storage (sync_stream rl sz m s') = padded_image ?rb ?sb (wire_row ?rb i1) ?n"
        using filled_image[OF sync_done[OF r(3) le rc refl refl r(2)] le] length_wire_row[of ?n ?rb i1] False by simp
      then show ?thesis using 4 r(1) False by simp
    qed
  qed
  then show "(let storage = clear_padding rl sz m (make_dense_storage lay sz garbage m); n = pm_elements m * sz in
       if pm_elements m = 0 then Inr (restored m storage, i1)
       else if pm_stride m = pm_dim m then
         (if length i1 < n then Inl Truncated
          else Inr (restored m (overwrite storage 0 (take n i1)), drop n i1))
       else
         (let batch_rows = ?B; packed = garbage (batch_rows * pm_dim m * sz) in
          if batch_rows = ?n then
            (if length i1 < n then Inl Truncated
             else Inr (restored m (rl_copy rl storage 0 ?sb (overwrite packed 0 (take n i1)) ?rb ?rb ?n), drop n i1))
          else bind_r (host_batches rl sz m batch_rows 0 0 sched
                 \<lparr>ds_storage = storage, ds_packed = (\<lambda>_. packed), ds_queue = [], ds_event = (\<lambda>_. 0),
                  ds_in_flight = (\<lambda>_. False)\<rparr> i1) (\<lambda>(s, rest).
                 Inr (restored m (ds_storage (sync_stream rl sz m s)), rest)))) =
     (let n = ?n * ?rb in if length i1 < n then Inl Truncated
      else Inr (restored m (padded_image ?rb ?sb (wire_row ?rb i1) ?n), drop n i1))"
    unfolding Let_def s[symmetric] en .
qed

lemma discard_eq:
  "discard input n = (if length input < n then Inl Truncated else Inr (drop n input))"
proof (induction input n rule: discard.induct)
  case (1 input n)
  let ?c = "min n (64 * 1024)"
  show ?case
  proof (cases "n = 0")
    case True
    then show ?thesis by (simp add: discard.simps[of input 0])
  next
    case nz: False
    show ?thesis
    proof (cases "length input < ?c")
      case True
      then show ?thesis using nz by (simp add: discard.simps[of input n] Let_def)
    next
      case False
      have e: "discard input n = discard (drop ?c input) (n - ?c)"
        using nz False by (simp only: discard.simps[of input n] Let_def if_False)
      have "discard (drop ?c input) (n - ?c) =
          (if length input - ?c < n - ?c then Inl Truncated else Inr (drop (n - ?c) (drop ?c input)))"
        using "1.IH"[OF nz refl False] by simp
      moreover have "length input - ?c < n - ?c \<longleftrightarrow> length input < n" using False by linarith
      moreover have "n - ?c + ?c = n" by simp
      ultimately show ?thesis unfolding e by simp
    qed
  qed
qed

text \<open>\<open>align_bytes\<close> is the default of 16; the element sizes are divisors of it or not.\<close>

lemma quotient_of: "(r :: nat) < m \<Longrightarrow> (q * m + r) div m = q"
  by simp

lemma stride_agrees:
  assumes rl: "raft_rounds rl" and sz: "0 < sz"
  shows "cagra_required_row_width rl dim sz 16 = layout_stride Padded sz dim"
proof -
  let ?p = "16 div gcd 16 sz"
  have p: "0 < ?p" by (simp add: div_greater_zero_iff gcd_le1_nat)
  have l: "lcm 16 sz = ?p * sz" by (simp add: lcm_nat_def div_mult_swap mult.commute)
  obtain q r where d: "dim + ?p - 1 = q * ?p + r" "r < ?p"
    using p by (metis div_mult_mod_eq mod_less_divisor)
  have "dim * sz + ?p * sz = (dim + ?p) * sz" by (simp only: add_mult_distrib)
  also have "\<dots> = (dim + ?p - 1) * sz + sz"
  proof -
    obtain t where "dim + ?p = Suc t" using p by (metis add_is_0 not0_implies_Suc not_less0)
    then show ?thesis by simp
  qed
  finally have "dim * sz + ?p * sz - 1 = (dim + ?p - 1) * sz + (sz - 1)" using sz by linarith
  also have "\<dots> = q * (?p * sz) + (r * sz + (sz - 1))" unfolding d(1) by (simp add: algebra_simps)
  finally have n: "dim * sz + ?p * sz - 1 = q * (?p * sz) + (r * sz + (sz - 1))" .
  have "r * sz + sz \<le> ?p * sz" using d(2) by (metis Suc_leI add.commute mult_Suc mult_le_mono1)
  then have s: "r * sz + (sz - 1) < ?p * sz" using sz by linarith
  have "rl_round_up rl (dim * sz) (lcm 16 sz) = (dim * sz + ?p * sz - 1) div (?p * sz) * (?p * sz)"
    using rl p sz by (simp add: raft_rounds_def l)
  also have "(dim * sz + ?p * sz - 1) div (?p * sz) = q" unfolding n by (rule quotient_of[OF s])
  finally have "cagra_required_row_width rl dim sz 16 = q * ?p"
    using sz by (simp add: cagra_required_row_width_def mult.assoc[symmetric])
  moreover have "(dim + ?p - 1) div ?p = q" unfolding d(1) using d(2) by simp
  ultimately show ?thesis by (simp add: layout_stride_def Let_def)
qed

lemma spec_of_serialized:
  assumes w: "wf_view sz v" and rl: "raft_ok rl"
  shows "restore_spec rl lay sz code (concat (fst (serialize rl sz code v place kv)) @ rest) =
    Inr (\<lparr>dd_rows = nat (dv_rows v), dd_dim = dv_dim v, dd_stride = layout_stride lay sz (dv_dim v),
      dd_data = padded_image (dv_dim v * sz) (layout_stride lay sz (dv_dim v) * sz) (view_row sz v) (nat (dv_rows v))\<rparr>,
      rest)"
proof -
  let ?n = "nat (dv_rows v)" and ?rb = "dv_dim v * sz"
  have pay: "concat (if ?n * dv_dim v = 0 then [] else payload_writes rl sz v place kv (?n * dv_dim v)) = view_rows sz v"
  proof (cases "?n * dv_dim v = 0")
    case True
    have "length (view_rows sz v) = ?n * ?rb" using length_rows[OF w, of ?n 0] by (simp add: view_rows_def)
    also have "\<dots> = ?n * dv_dim v * sz" by simp
    also have "\<dots> = 0" using True by simp
    finally show ?thesis using True by simp
  next
    case False
    then show ?thesis using payload_concat[OF w raft_okD(1)[OF rl] refl] by simp
  qed
  have l: "length (view_rows sz v) = ?n * ?rb" using length_rows[OF w, of ?n 0] by (simp add: view_rows_def)
  have "padded_image ?rb sb (wire_row ?rb (view_rows sz v @ rest)) ?n = padded_image ?rb sb (view_row sz v) ?n" for sb
  proof -
    have "map (\<lambda>k. wire_row ?rb (view_rows sz v @ rest) k @ replicate (sb - ?rb) 0) [0..<?n] =
        map (\<lambda>k. view_row sz v k @ replicate (sb - ?rb) 0) [0..<?n]"
      using wire_row_concat[OF w] by (intro map_cong) auto
    then show ?thesis by (simp only: padded_image_def)
  qed
  then show ?thesis
    unfolding restore_spec_def deserialize_dense_payload_metadata_for_def metadata_roundtrip[OF w raft_okD(3)[OF rl]] pay
    using l by (simp add: Let_def restored_def)
qed

lemma restores:
  assumes "0 < sz" "sz \<le> streamsize_max" "\<And>k. length (garbage k) = k" "raft_ok rl"
  shows "deserialize_dense_dataset rl cuda_code lay place kind sz code garbage input =
    bind_r (read_tag rl cuda_code code input) (restore_spec rl lay sz code)"
  using assms
  by (cases place; cases kind)
    (simp_all add: deserialize_dense_dataset_def host_restores device_restores direct_restores)

lemma read_tag_serialized:
  assumes "raft_codes rl" "\<bar>cuda_code c\<bar> < 2 ^ 63"
  shows "read_tag rl cuda_code code (concat (fst (serialize_cagra_dense_dataset rl cuda_code sz c v place kv)) @ rest) =
    (if cuda_code c = cuda_code code then Inr (concat (fst (serialize rl sz c v place kv)) @ rest) else Inl WrongDtype)"
proof -
  have g: "rl_get_u32 rl (rl_put_u32 rl kSerializeStridedDataset @ x) = Some (kSerializeStridedDataset, x)"
    "rl_get_int rl (rl_put_int rl (cuda_code c) @ x) = Some (cuda_code c, x)" for x
    using raft_codec(1)[OF assms(1), of kSerializeStridedDataset] raft_codec(2)[OF assms(1,2)]
    by (simp_all add: kSerializeStridedDataset_def)
  obtain ws r where s: "serialize rl sz c v place kv = (ws, r)" by fastforce
  show ?thesis
    unfolding read_tag_def serialize_cagra_dense_dataset_def s
    by (simp only: prod.case fst_conv Let_def append.simps concat.simps append_assoc g opt_get_def option.case
        bind_r_simps bind_expects simp_thms if_True)
qed

section \<open>Properties\<close>

text \<open>
  C2: A dense dataset written from host or device memory, through a plain stream or kvikio, with any
  row stride, is restored with the same rows, in any layout, to host or device memory, by any of the
  readers and under every schedule of the device; the padding of every row is zero and the stream is
  left right behind the dataset.
\<close>

theorem dense_dataset_roundtrip:
  assumes "wf_view sz v" "raft_ok rl" "\<And>k. length (garbage k) = k" "\<bar>cuda_code code\<bar> < 2 ^ 63"
  shows "deserialize_dense_dataset rl cuda_code lay to_place kind sz code garbage
      (concat (fst (serialize_cagra_dense_dataset rl cuda_code sz code v from_place kv)) @ rest) =
    Inr (\<lparr>dd_rows = nat (dv_rows v), dd_dim = dv_dim v, dd_stride = layout_stride lay sz (dv_dim v),
      dd_data = concat (map (\<lambda>k. view_row sz v k @
        replicate (layout_stride lay sz (dv_dim v) * sz - dv_dim v * sz) 0) [0..<nat (dv_rows v)])\<rparr>, rest)"
proof -
  have sz: "0 < sz" "sz \<le> streamsize_max" using assms(1) by (simp_all add: wf_view_def streamsize_max_def)
  show ?thesis
    unfolding restores[OF sz assms(3,2)] read_tag_serialized[of rl cuda_code code code, OF raft_okD(3)[OF assms(2)] assms(4)]
    by (simp add: spec_of_serialized[OF assms(1,2)] padded_image_def)
qed

text \<open>
  C11: The three ways of restoring a dataset agree on every input, errors included: row by row on the
  host, through a staging copy, and by the double-buffered reads whose copies the device runs at any
  time between their launch and the wait for them.
\<close>

theorem readers_agree:
  assumes "0 < sz" "sz \<le> streamsize_max" "\<And>k. length (garbage k) = k" "\<And>k. length (garbage' k) = k" "raft_ok rl"
  shows "deserialize_device_direct rl lay sz code garbage sched input = deserialize_host_dense rl lay sz code garbage' input \<and>
    deserialize_device_dense rl lay sz code garbage input = deserialize_host_dense rl lay sz code garbage' input"
  using assms by (simp add: host_restores device_restores direct_restores)

text \<open>
  C32: Skipping a dataset leaves the stream exactly where restoring it would, and fails exactly when
  restoring it would and with the same error, whether the stream can tell its position or seek to its
  end or not, unless a seek to a position fails after the position was told: then it may also fail with
  that error, but it never succeeds where restoring would fail or ends elsewhere.
\<close>

theorem skip_agrees_with_restore:
  assumes "0 < sz" "sz \<le> streamsize_max" "\<And>k. length (garbage k) = k" "raft_ok rl"
  shows "let skipped = skip_dense_dataset rl cuda_code sz code sk input;
      restoring = bind_r (deserialize_dense_dataset rl cuda_code lay place kind sz code garbage input) (\<lambda>(d, rest). Inr rest)
    in ((sk_tell sk \<longrightarrow> sk_set sk) \<longrightarrow> skipped = restoring) \<and>
    (\<forall>rest. skipped = Inr rest \<longrightarrow> restoring = Inr rest) \<and>
    (\<forall>e. skipped = Inl e \<longrightarrow> restoring = Inl e \<or> (e = BadSeek \<and> sk_tell sk \<and> \<not> sk_set sk))"
proof -
  let ?skip = "skip_dense_payload rl sz code sk" and ?restore = "\<lambda>i. bind_r (restore_spec rl lay sz code i) (\<lambda>(d, rest). Inr rest)"
  have payload: "?skip i = ?restore i \<or> (?skip i = Inl BadSeek \<and> sk_tell sk \<and> \<not> sk_set sk)" for i
  proof (cases "deserialize_dense_payload_metadata rl sz code i")
    case (Inr x)
    obtain m i1 where m: "deserialize_dense_payload_metadata rl sz code i = Inr (m, i1)" using Inr by (cases x) simp
    have e: "pm_elements m = pm_rows m * pm_dim m" "pm_elements m \<le> size_max div sz"
      using m by (auto simp: deserialize_dense_payload_metadata_def dense_matrix_elements_def res_simps Let_def
          split: prod.splits if_splits)
    then show ?thesis
      by (simp add: skip_dense_payload_def restore_spec_def deserialize_dense_payload_metadata_for_def m bind_expects
          Let_def discard_eq mult.assoc)
  qed (simp add: skip_dense_payload_def restore_spec_def deserialize_dense_payload_metadata_for_def)
  have "bind_r (read_tag rl cuda_code code input) ?skip =
      bind_r (bind_r (read_tag rl cuda_code code input) (restore_spec rl lay sz code)) (\<lambda>(d, rest). Inr rest) \<or>
    bind_r (read_tag rl cuda_code code input) ?skip = Inl BadSeek \<and> sk_tell sk \<and> \<not> sk_set sk"
  proof (cases "read_tag rl cuda_code code input")
    case (Inr i)
    then show "bind_r (read_tag rl cuda_code code input) ?skip =
        bind_r (bind_r (read_tag rl cuda_code code input) (restore_spec rl lay sz code)) (\<lambda>(d, rest). Inr rest) \<or>
      bind_r (read_tag rl cuda_code code input) ?skip = Inl BadSeek \<and> sk_tell sk \<and> \<not> sk_set sk"
      using payload[of i] by simp
  qed simp
  then show ?thesis unfolding restores[OF assms] skip_dense_dataset_def Let_def by auto
qed

text \<open>
  The row width the kernels require is the stride of the padded layout, so a matrix accepted for a
  view (its pointer being usable) has exactly the layout of a padded dataset, for every element size and dimension.
\<close>

theorem required_width_is_layout_stride:
  assumes "raft_ok rl" "0 < sz"
  shows "cagra_required_row_width rl dim sz 16 = layout_stride Padded sz dim \<and>
    (\<forall>src. is_ok (make_padded_dataset_view rl sz src) \<longleftrightarrow> ms_accessible src \<and>
      matrix_row_width_matches_cagra_required rl sz src 16)"
  using stride_agrees[OF raft_okD(4)[OF assms(1)] assms(2)]
  by (auto simp: make_padded_dataset_view_def make_dense_row_major_view_from_src_def make_dense_view_def matrix_row_width_matches_cagra_required_def bind_expects)

lemma dense_copy:
  assumes "raft_ok rl" "0 < sz" "\<And>k. length (garbage k) = k"
    and "ms_rows src = 0 \<or> (ms_rows src - 1) * (mdspan_row_stride_elements src * sz) + ms_cols src * sz \<le> length (ms_data src)"
  shows "make_dense_row_major_dataset_from_src rl lay sz garbage on_device src (ms_cols src) (layout_stride lay sz (ms_cols src)) =
      (if ms_device src = on_device \<and> mdspan_row_stride_elements src = layout_stride lay sz (ms_cols src) then Inl UseView
       else Inr \<lparr>dd_rows = ms_rows src, dd_dim = ms_cols src, dd_stride = layout_stride lay sz (ms_cols src),
         dd_data = padded_image (ms_cols src * sz) (layout_stride lay sz (ms_cols src) * sz)
           (\<lambda>k. take (ms_cols src * sz) (drop (k * (mdspan_row_stride_elements src * sz)) (ms_data src))) (ms_rows src)\<rparr>)"
proof -
  let ?st = "layout_stride lay sz (ms_cols src)" and ?n = "ms_rows src"
  let ?rb = "ms_cols src * sz" and ?sb = "?st * sz" and ?ss = "mdspan_row_stride_elements src * sz"
  let ?row = "\<lambda>k. take ?rb (drop (k * ?ss) (ms_data src))"
  have d: "ms_cols src \<le> ?st" by (rule layout_stride_ge[OF assms(2)])
  have le: "?rb \<le> ?sb" using d by simp
  obtain g where g: "g = garbage (?n * ?st * sz)" by blast
  have lg: "length g = ?n * ?sb" using assms(3) g by (simp add: mult.assoc)
  have z: "rl_fill0 rl g 0 (length g) (length g) 1 = replicate (?n * ?sb) 0"
    using raft_fill[OF raft_okD(2)[OF assms(1)], of 1 0 "length g" "length g" g] lg
    by (simp add: rows_copied_def overwrite_def)
  have f0: "filled ?rb ?sb ?n ?row 0 (replicate (?n * ?sb) 0)"
    by (rule zeros_filled[OF le])
  have lrow: "length (?row k) = ?rb" if "k < ?n" for k
  proof -
    have "k * ?ss \<le> (?n - 1) * ?ss" using that by (intro mult_le_mono1) simp
    moreover have "(?n - 1) * ?ss + ?rb \<le> length (ms_data src)" using assms(4) that by auto
    ultimately have "?rb \<le> length (ms_data src) - k * ?ss" by linarith
    then show ?thesis by simp
  qed
  have fit: "?n = 0 \<or> (0 + (?n - 1) * ?sb + ?rb \<le> length (replicate (?n * ?sb) (0 :: u8)) \<and>
      (?n - 1) * ?ss + ?rb \<le> length (ms_data src))"
    using assms(4) row_in[of "?n - 1" ?n 0 ?rb ?sb] le by (cases "?n = 0") simp_all
  have "rl_copy rl (replicate (?n * ?sb) 0) 0 ?sb (ms_data src) ?ss ?rb ?n =
      rows_copied (replicate (?n * ?sb) 0) (0 * ?sb) ?sb ?row ?n"
    using raft_copy[OF raft_okD(1)[OF assms(1)] fit] by simp
  then have "filled ?rb ?sb ?n ?row ?n (rl_copy rl (replicate (?n * ?sb) 0) 0 ?sb (ms_data src) ?ss ?rb ?n)"
    using rows_copied_filled[OF f0 le, of ?n ?row] lrow by simp
  then have img: "rl_copy rl (replicate (?n * ?sb) 0) 0 ?sb (ms_data src) ?ss ?rb ?n = padded_image ?rb ?sb ?row ?n"
    using le lrow by (rule filled_image)
  show ?thesis
    using d by (simp add: make_dense_row_major_dataset_from_src_def Let_def bind_expects
        make_dense_array_def z[unfolded One_nat_def] img flip: g)
qed

text \<open>
  C33: An owning padded or contiguous copy of a matrix has the source's rows at the stride of its layout
  and zeros behind each of them; it is refused exactly when the source is already in the dataset's kind
  of memory with that stride. A view is given exactly when the source has that stride and its pointer can
  be used, and then it is the source as it is. So the refused copies of a usable pointer are those that a
  view replaces, and a usable source of that stride in the other kind of memory (pinned host memory for a
  device dataset) can be had both ways.
\<close>

theorem dataset_copy_correct:
  assumes "raft_ok rl" "0 < sz" "\<And>k. length (garbage k) = k"
    and "ms_rows src = 0 \<or> (ms_rows src - 1) * (mdspan_row_stride_elements src * sz) + ms_cols src * sz \<le> length (ms_data src)"
  shows "(case lay of Padded \<Rightarrow> make_padded_dataset rl sz garbage on_device src
        | Standard \<Rightarrow> make_standard_dataset rl sz garbage on_device src) =
      (if ms_device src = on_device \<and> mdspan_row_stride_elements src = layout_stride lay sz (ms_cols src)
       then Inl UseView
       else Inr \<lparr>dd_rows = ms_rows src, dd_dim = ms_cols src, dd_stride = layout_stride lay sz (ms_cols src),
         dd_data = padded_image (ms_cols src * sz) (layout_stride lay sz (ms_cols src) * sz)
           (\<lambda>k. take (ms_cols src * sz) (drop (k * (mdspan_row_stride_elements src * sz)) (ms_data src))) (ms_rows src)\<rparr>) \<and>
    (case lay of Padded \<Rightarrow> make_padded_dataset_view rl sz src | Standard \<Rightarrow> make_standard_dataset_view sz src) =
      (if mdspan_row_stride_elements src \<noteq> layout_stride lay sz (ms_cols src) then Inl StrideMismatch
       else if \<not> ms_accessible src then Inl NotAccessible
       else Inr \<lparr>dd_rows = ms_rows src, dd_dim = ms_cols src, dd_stride = layout_stride lay sz (ms_cols src), dd_data = ms_data src\<rparr>)"
proof -
  let ?st = "layout_stride lay sz (ms_cols src)" and ?n = "ms_rows src"
  have st: "cagra_required_row_width rl (ms_cols src) sz 16 = layout_stride Padded sz (ms_cols src)"
    "ms_cols src = layout_stride Standard sz (ms_cols src)"
    by (simp_all add: stride_agrees[OF raft_okD(4)[OF assms(1)] assms(2)] layout_stride_def)
  have "(case lay of Padded \<Rightarrow> make_padded_dataset rl sz garbage on_device src
        | Standard \<Rightarrow> make_standard_dataset rl sz garbage on_device src) =
      make_dense_row_major_dataset_from_src rl lay sz garbage on_device src (ms_cols src) ?st"
    using st by (cases lay) (simp_all add: make_padded_dataset_def make_standard_dataset_def)
  moreover have "(case lay of Padded \<Rightarrow> make_padded_dataset_view rl sz src | Standard \<Rightarrow> make_standard_dataset_view sz src) =
      (if mdspan_row_stride_elements src \<noteq> ?st then Inl StrideMismatch
       else if \<not> ms_accessible src then Inl NotAccessible
       else Inr \<lparr>dd_rows = ?n, dd_dim = ms_cols src, dd_stride = ?st, dd_data = ms_data src\<rparr>)"
    using st by (cases lay) (simp_all add: make_padded_dataset_view_def make_standard_dataset_view_def
      make_dense_row_major_view_from_src_def make_dense_view_def bind_expects)
  ultimately show ?thesis using dense_copy[OF assms, of lay on_device] by simp
qed

section \<open>A library the properties hold for\<close>

definition demo_put_nat :: "nat \<Rightarrow> bytes" where
  "demo_put_nat n = replicate n 1 @ [0]"

definition demo_get_nat :: "bytes \<Rightarrow> (nat \<times> bytes) option" where
  "demo_get_nat bs = (let n = length (takeWhile (\<lambda>b. b = 1) bs) in
     if n < length bs then Some (n, drop (n + 1) bs) else None)"

fun demo_get_nats :: "nat \<Rightarrow> bytes \<Rightarrow> (nat list \<times> bytes) option" where
  "demo_get_nats 0 bs = Some ([], bs)"
| "demo_get_nats (Suc k) bs = (case demo_get_nat bs of None \<Rightarrow> None
     | Some (n, r) \<Rightarrow> (case demo_get_nats k r of None \<Rightarrow> None | Some (ns, r') \<Rightarrow> Some (n # ns, r')))"

definition demo_put_nats :: "nat list \<Rightarrow> bytes" where
  "demo_put_nats ns = demo_put_nat (length ns) @ concat (map demo_put_nat ns)"

definition demo_get_list :: "bytes \<Rightarrow> (nat list \<times> bytes) option" where
  "demo_get_list bs = (case demo_get_nat bs of None \<Rightarrow> None | Some (k, r) \<Rightarrow> demo_get_nats k r)"

definition demo_get_header :: "bytes \<Rightarrow> (numpy_header \<times> bytes) option" where
  "demo_get_header bs = (case demo_get_list bs of None \<Rightarrow> None
     | Some (d, r) \<Rightarrow> (case demo_get_nat r of None \<Rightarrow> None
       | Some (f, r') \<Rightarrow> (case demo_get_list r' of None \<Rightarrow> None
         | Some (s, r'') \<Rightarrow> Some (\<lparr>nh_dtype = map char_of d, nh_fortran = (f = 1), nh_shape = s\<rparr>, r''))))"

definition demo_raft :: raft_lib where
  "demo_raft = \<lparr>rl_round_up = (\<lambda>x m. (x + m - 1) div m * m),
     rl_copy = (\<lambda>dst off ds src ss w n. rows_copied dst off ds (\<lambda>k. take w (drop (k * ss) src)) n),
     rl_fill0 = (\<lambda>dst off pitch w n. rows_copied dst off pitch (\<lambda>_. replicate w 0) n),
     rl_put_u32 = demo_put_nat, rl_get_u32 = demo_get_nat,
     rl_put_int = (\<lambda>i. demo_put_nats [if i < 0 then 1 else 0, nat \<bar>i\<bar>]),
     rl_get_int = (\<lambda>bs. case demo_get_list bs of Some ([s, n], r) \<Rightarrow> Some (if s = 1 then - int n else int n, r) | _ \<Rightarrow> None),
     rl_put_header = (\<lambda>h. demo_put_nats (map of_char (nh_dtype h)) @ demo_put_nat (if nh_fortran h then 1 else 0) @
       demo_put_nats (nh_shape h)),
     rl_get_header = demo_get_header, rl_dtype = (\<lambda>c. [char_of c])\<rparr>"

lemma demo_get_put_nat: "demo_get_nat (demo_put_nat n @ r) = Some (n, r)"
proof -
  have "takeWhile (\<lambda>b. b = 1) (replicate n (1 :: u8) @ 0 # r) = replicate n 1"
    by (induction n) simp_all
  then show ?thesis by (simp add: demo_get_nat_def demo_put_nat_def)
qed

lemma demo_get_put_nats: "demo_get_list (demo_put_nats ns @ r) = Some (ns, r)"
proof -
  have "demo_get_nats (length ns) (concat (map demo_put_nat ns) @ r) = Some (ns, r)"
    by (induction ns) (simp_all add: demo_get_put_nat)
  then show ?thesis by (simp add: demo_get_list_def demo_put_nats_def demo_get_put_nat)
qed

lemma demo_raft_ok: "raft_ok demo_raft"
proof -
  have h: "demo_get_header (demo_put_nats (map of_char (nh_dtype h)) @ demo_put_nat (if nh_fortran h then 1 else 0) @
      demo_put_nats (nh_shape h) @ rest) = Some (h, rest)" for h rest
    by (cases h) (simp add: demo_get_header_def demo_get_put_nat demo_get_put_nats comp_def)
  show ?thesis
    unfolding raft_ok_def raft_rounds_def raft_copies_def raft_fills_def raft_codes_def
    using h by (simp add: demo_raft_def demo_get_put_nat demo_get_put_nats)
qed

definition demo_view :: dense_view where
  "demo_view = \<lparr>dv_rows = 2, dv_dim = 3, dv_stride = 4, dv_data = [1, 2, 3, 9, 4, 5, 6, 9]\<rparr>"

definition demo_garbage :: "nat \<Rightarrow> bytes" where
  "demo_garbage k = replicate k 7"

lemma demo_garbage_length: "length (demo_garbage k) = k"
  by (simp add: demo_garbage_def)

lemma demo_view_wf: "wf_view 1 demo_view"
  by (simp add: wf_view_def demo_view_def)

lemma dense_dataset_roundtrip_witness:
  "deserialize_dense_dataset demo_raft int Padded DeviceMemory (KvikioReader (\<lambda>_. (1, 0))) 1 5 demo_garbage
     (concat (fst (serialize_cagra_dense_dataset demo_raft int 1 5 demo_view HostMemory False)) @ [8]) =
   Inr (\<lparr>dd_rows = 2, dd_dim = 3, dd_stride = 16,
     dd_data = [1, 2, 3] @ replicate 13 0 @ [4, 5, 6] @ replicate 13 0\<rparr>, [8])"
proof -
  have u: "[0..<2] = [0, 1 :: nat]" by (simp add: upt_conv_Cons)
  have s: "layout_stride Padded 1 3 = 16" by (simp add: layout_stride_def Let_def del: One_nat_def)
  show ?thesis
    using dense_dataset_roundtrip[OF demo_view_wf demo_raft_ok demo_garbage_length, of int 5 Padded DeviceMemory
        "KvikioReader (\<lambda>_. (1, 0))" HostMemory False "[8]"]
    by (simp add: demo_view_def view_row_def u s del: One_nat_def)
qed

lemma readers_agree_witness:
  "deserialize_device_direct demo_raft Padded 1 5 demo_garbage (\<lambda>_. (2, 1)) (demo_put_nat 3 @ [0]) =
     deserialize_host_dense demo_raft Padded 1 5 (\<lambda>k. replicate k 0) (demo_put_nat 3 @ [0]) \<and>
   deserialize_device_dense demo_raft Padded 1 5 demo_garbage (demo_put_nat 3 @ [0]) =
     deserialize_host_dense demo_raft Padded 1 5 (\<lambda>k. replicate k 0) (demo_put_nat 3 @ [0])"
  by (rule readers_agree) (simp_all add: demo_garbage_length demo_raft_ok streamsize_max_def)

lemma skip_agrees_with_restore_witness:
  "skip_dense_dataset demo_raft int 1 5 \<lparr>sk_tell = True, sk_end = True, sk_set = True\<rparr>
     (concat (fst (serialize_cagra_dense_dataset demo_raft int 1 5 demo_view HostMemory False)) @ [8]) =
   bind_r (deserialize_dense_dataset demo_raft int Padded DeviceMemory PlainStream 1 5 demo_garbage
     (concat (fst (serialize_cagra_dense_dataset demo_raft int 1 5 demo_view HostMemory False)) @ [8]))
     (\<lambda>(d, rest). Inr rest)"
proof -
  let ?sk = "\<lparr>sk_tell = True, sk_end = True, sk_set = True\<rparr>"
  have t: "0 < (1 :: nat)" "1 \<le> streamsize_max" by (simp_all add: streamsize_max_def)
  have k: "sk_tell ?sk \<longrightarrow> sk_set ?sk" by simp
  show ?thesis
    by (rule mp[OF conjunct1[OF skip_agrees_with_restore[OF t demo_garbage_length demo_raft_ok, unfolded Let_def]] k])
qed

lemma required_width_is_layout_stride_witness:
  "cagra_required_row_width demo_raft 5 2 16 = 8 \<and>
   is_ok (make_padded_dataset_view demo_raft 2 \<lparr>ms_rows = 1, ms_cols = 5, ms_stride = 8, ms_data = replicate 16 0,
     ms_device = True, ms_accessible = True\<rparr>)"
proof -
  have "layout_stride Padded 2 5 = 8" by (simp add: layout_stride_def Let_def)
  then show ?thesis
    using required_width_is_layout_stride[OF demo_raft_ok, of 2 5]
    by (simp add: matrix_row_width_matches_cagra_required_def mdspan_row_stride_elements_def)
qed

lemma dataset_copy_correct_witness:
  "make_padded_dataset demo_raft 4 demo_garbage True
     \<lparr>ms_rows = 2, ms_cols = 1, ms_stride = 1, ms_data = [1, 2, 3, 4, 5, 6, 7, 8], ms_device = True, ms_accessible = True\<rparr> =
   Inr \<lparr>dd_rows = 2, dd_dim = 1, dd_stride = 4,
     dd_data = [1, 2, 3, 4] @ replicate 12 0 @ [5, 6, 7, 8] @ replicate 12 0\<rparr>"
proof -
  have u: "[0..<2] = [0, 1 :: nat]" by (simp add: upt_conv_Cons)
  have s: "layout_stride Padded 4 1 = 4" by (simp add: layout_stride_def Let_def)
  show ?thesis
    using dataset_copy_correct[OF demo_raft_ok _ demo_garbage_length, where sz = 4 and on_device = True and lay = Padded
      and src = "\<lparr>ms_rows = 2, ms_cols = 1, ms_stride = 1, ms_data = [1, 2, 3, 4, 5, 6, 7, 8], ms_device = True, ms_accessible = True\<rparr>"]
    by (simp add: mdspan_row_stride_elements_def padded_image_def u s del: One_nat_def)
qed

end
