(* ===== verification/Agglomerative.thy ===== *)
theory Agglomerative imports Prelude begin

text \<open>
  Single-linkage clustering on the sorted edges of a minimum spanning tree
  (\<^verbatim>\<open>cpp/src/cluster/detail/agglomerative.cuh\<close>): the union-find with its path compression, the
  dendrogram the host builds with it, and the kernels that cut the dendrogram at a number of
  clusters and hand the cluster labels down to the leaves.

  The specification is a labelling of the nodes: after \<open>k\<close> edges a node carries the label of its
  cluster, which is the node itself or the number of the merge that created the cluster, and two
  leaves carry the same label exactly if the first \<open>k\<close> edges connect them.
\<close>

section \<open>The union-find\<close>

text \<open>
  \<open>parent\<close> holds \<open>-1\<close> for a root. Indices below \<open>N\<close> are the leaves, \<open>next_label\<close> is the cluster the
  next union makes.
\<close>

record union_find =
  next_label :: nat
  parent :: "int list"
  uf_size :: "int list"
  n_indices :: nat

definition uf_init :: "nat \<Rightarrow> union_find" where
  "uf_init N = \<lparr>next_label = N, parent = replicate (2 * N - 1) (-1),
     uf_size = replicate N 1 @ replicate (2 * N - 1 - N) 0, n_indices = 2 * N - 1\<rparr>"

text \<open>The first loop of \<open>find\<close>; it does not end on a cycle.\<close>

partial_function (option) find_root :: "int list \<Rightarrow> nat \<Rightarrow> nat option" where
  "find_root par n = (if par ! n \<noteq> -1 then find_root par (nat (par ! n)) else Some n)"

text \<open>
  The second loop. Its condition reads \<open>parent[p]\<close> also when \<open>p\<close> is \<open>-1\<close>, which is one element
  before the array: \<open>before\<close> is whatever that read gives.
\<close>

definition parent_at :: "int \<Rightarrow> int list \<Rightarrow> int \<Rightarrow> int" where
  "parent_at before par p = (if p = -1 then before else par ! nat p)"

definition slot_of :: "nat \<Rightarrow> int \<Rightarrow> nat" where
  "slot_of n_idx p = (if p = -1 then n_idx - 1 else nat p)"

partial_function (option) compress :: "int \<Rightarrow> nat \<Rightarrow> nat \<Rightarrow> int list \<Rightarrow> int \<Rightarrow> int list option" where
  "compress before n_idx n par p =
     (if parent_at before par p = int n then Some par
      else compress before n_idx n
        (par[slot_of n_idx (par ! slot_of n_idx p) := int n]) (par ! slot_of n_idx p))"

definition uf_find :: "int \<Rightarrow> union_find \<Rightarrow> nat \<Rightarrow> (nat \<times> union_find) option" where
  "uf_find before u n =
     (case find_root (parent u) n of None \<Rightarrow> None
      | Some root \<Rightarrow>
          (case compress before (n_indices u) root (parent u) (int n) of None \<Rightarrow> None
           | Some par \<Rightarrow> Some (root, u\<lparr>parent := par\<rparr>)))"

definition perform_union :: "union_find \<Rightarrow> nat \<Rightarrow> nat \<Rightarrow> union_find" where
  "perform_union u m n =
     u\<lparr>uf_size := (uf_size u)[next_label u := uf_size u ! m + uf_size u ! n],
       parent := ((parent u)[m := int (next_label u)])[n := int (next_label u)],
       next_label := next_label u + 1\<rparr>"

section \<open>The dendrogram\<close>

record 'w dendrogram =
  dg_children :: "nat list"
  dg_delta :: "'w list"
  dg_size :: "int list"

text \<open>The loop over the edges; \<open>before i\<close> is what the \<open>i\<close>-th call of \<open>find\<close> reads before the array.\<close>

fun dendrogram_loop :: "(nat \<Rightarrow> int) \<Rightarrow> nat \<Rightarrow> (nat \<times> nat \<times> 'w) list \<Rightarrow> union_find \<Rightarrow> 'w dendrogram \<Rightarrow>
    'w dendrogram option" where
  "dendrogram_loop before i [] u d = Some d"
| "dendrogram_loop before i ((a, b, delta) # es) u d =
     (case uf_find (before (2 * i)) u a of None \<Rightarrow> None
      | Some (aa, u1) \<Rightarrow>
          (case uf_find (before (2 * i + 1)) u1 b of None \<Rightarrow> None
           | Some (bb, u2) \<Rightarrow>
               dendrogram_loop before (i + 1) es (perform_union u2 aa bb)
                 (d\<lparr>dg_children := dg_children d @ [aa, bb], dg_delta := dg_delta d @ [delta],
                    dg_size := dg_size d @ [uf_size u2 ! aa + uf_size u2 ! bb]\<rparr>)))"

definition build_dendrogram_host :: "(nat \<Rightarrow> int) \<Rightarrow> nat list \<Rightarrow> nat list \<Rightarrow> 'w list \<Rightarrow> 'w dendrogram option" where
  "build_dendrogram_host before rows cols weights =
     dendrogram_loop before 0 (zip rows (zip cols weights)) (uf_init (length rows + 1))
       \<lparr>dg_children = [], dg_delta = [], dg_size = []\<rparr>"

section \<open>Cutting the dendrogram\<close>

datatype cluster_error = NoLeaves | ManyComponents

text \<open>\<^verbatim>\<open>write_levels_kernel\<close>: every thread writes the merge of its child.\<close>

definition write_levels :: "nat list \<Rightarrow> nat list \<Rightarrow> nat list" where
  "write_levels children levels =
     foldl (\<lambda>lv tid. lv[children ! tid := tid div 2]) levels [0..<length levels]"

record cut =
  cut_levels :: "nat list"
  cut_labels :: "int list"
  cut_level :: int

text \<open>
  \<^verbatim>\<open>extract_flattened_clusters\<close> up to the second kernel, for at least two clusters. \<open>garbage\<close> is the
  uninitialised \<open>levels\<close>. Of the children of the last \<open>n_clusters - 1\<close> merges, sorted downwards, the last
  \<open>n_clusters\<close> get the labels from zero on.
\<close>

definition prepare_cut :: "(nat \<Rightarrow> nat list) \<Rightarrow> nat list \<Rightarrow> nat \<Rightarrow> nat \<Rightarrow> cluster_error + cut" where
  "prepare_cut garbage children n_clusters n_leaves =
     (let n_edges = (n_leaves - 1) * 2;
          n_vertices = Max (set (take n_edges children)) + 1 in
      bind_r (expects (0 < n_leaves) NoLeaves) (\<lambda>_.
      bind_r (expects (n_vertices = (n_leaves - 1) * 2) ManyComponents) (\<lambda>_.
        let levels = write_levels children (garbage n_vertices);
            child_size = (n_clusters - 1) * 2;
            label_roots = rev (sort (take child_size (drop (n_edges - child_size) children)));
            first = drop (length label_roots - n_clusters) label_roots;
            tmp_labels = foldl (\<lambda>l t. l[first ! t := int t]) (replicate n_vertices (-1)) [0..<n_clusters]
        in Inr \<lparr>cut_levels = levels, cut_labels = tmp_labels,
             cut_level = int (n_edges div 2) - int (n_clusters - 1)\<rparr>)))"

text \<open>
  \<^verbatim>\<open>inherit_labels\<close> as micro-steps of its threads, which all read and write \<open>labels\<close>: a thread reads its
  node's label, climbs while the label it has read is \<open>-1\<close>, and then writes it to its node.
\<close>

datatype climber = Ready | Climbing nat int | Halted

record inherit_state =
  is_labels :: "int list"
  is_threads :: "climber list"

definition inherit_step :: "nat list \<Rightarrow> nat list \<Rightarrow> nat \<Rightarrow> int \<Rightarrow> nat \<Rightarrow> inherit_state \<Rightarrow> inherit_state" where
  "inherit_step children levels n_leaves cut_lvl tid s =
     (if length (is_threads s) \<le> tid then s
      else let node = children ! tid in
        (case is_threads s ! tid of
           Ready \<Rightarrow>
             (if cut_lvl < int (tid div 2) then s\<lparr>is_threads := (is_threads s)[tid := Halted]\<rparr>
              else s\<lparr>is_threads := (is_threads s)[tid := Climbing (tid div 2) (is_labels s ! node)]\<rparr>)
         | Climbing cur_level label \<Rightarrow>
             (if label = -1 then
                let cur_parent = cur_level + n_leaves in
                s\<lparr>is_threads := (is_threads s)[tid := Climbing (levels ! cur_parent) (is_labels s ! cur_parent)]\<rparr>
              else s\<lparr>is_labels := (is_labels s)[node := label], is_threads := (is_threads s)[tid := Halted]\<rparr>)
         | Halted \<Rightarrow> s))"

text \<open>A schedule is the sequence of the threads that make a step.\<close>

definition inherit_run :: "nat list \<Rightarrow> nat list \<Rightarrow> nat \<Rightarrow> int \<Rightarrow> nat list \<Rightarrow> inherit_state \<Rightarrow> inherit_state" where
  "inherit_run children levels n_leaves cut_lvl sched s =
     foldl (\<lambda>s tid. inherit_step children levels n_leaves cut_lvl tid s) s sched"

definition extract_flattened_clusters :: "(nat \<Rightarrow> nat list) \<Rightarrow> nat list \<Rightarrow> nat list \<Rightarrow> nat \<Rightarrow> nat \<Rightarrow>
    cluster_error + int list" where
  "extract_flattened_clusters garbage sched children n_clusters n_leaves =
     (if n_clusters = 1 then Inr (replicate n_leaves 0)
      else bind_r (prepare_cut garbage children n_clusters n_leaves) (\<lambda>c.
        let s = inherit_run children (cut_levels c) n_leaves (cut_level c) sched
              \<lparr>is_labels = cut_labels c, is_threads = replicate (length (cut_labels c)) Ready\<rparr>
        in Inr (take n_leaves (is_labels s))))"

section \<open>The labelling\<close>

definition merge_label :: "(nat \<Rightarrow> nat) \<Rightarrow> nat \<Rightarrow> nat \<Rightarrow> nat \<Rightarrow> nat \<Rightarrow> nat" where
  "merge_label lab a b new j = (if lab j = lab a \<or> lab j = lab b then new else lab j)"

primrec labels_at :: "nat \<Rightarrow> (nat \<times> nat) list \<Rightarrow> nat \<Rightarrow> nat \<Rightarrow> nat" where
  "labels_at N es 0 = id"
| "labels_at N es (Suc k) = merge_label (labels_at N es k) (fst (es ! k)) (snd (es ! k)) (N + k)"

definition linked :: "(nat \<times> nat) list \<Rightarrow> nat \<Rightarrow> (nat \<times> nat) set" where
  "linked es k = (set (take k es) \<union> (set (take k es))\<inverse>)\<^sup>*"

text \<open>Edges between the leaves, none of which closes a cycle.\<close>

definition forest_edges :: "nat \<Rightarrow> (nat \<times> nat) list \<Rightarrow> bool" where
  "forest_edges N es \<longleftrightarrow> (\<forall>i < length es. fst (es ! i) < N \<and> snd (es ! i) < N \<and> es ! i \<notin> linked es i)"

definition edges_below :: "nat \<Rightarrow> (nat \<times> nat) list \<Rightarrow> bool" where
  "edges_below N es \<longleftrightarrow> (\<forall>i < length es. fst (es ! i) < N \<and> snd (es ! i) < N)"

lemma forest_edgesD: "forest_edges N es \<Longrightarrow> edges_below N es"
  by (simp add: forest_edges_def edges_below_def)

lemma edges_belowD: "edges_below N es \<Longrightarrow> i < length es \<Longrightarrow> fst (es ! i) < N"
  "edges_below N es \<Longrightarrow> i < length es \<Longrightarrow> snd (es ! i) < N"
  by (simp_all add: edges_below_def)

lemma labels_at_cases: "labels_at N es k j < N + k \<or> labels_at N es k j = j"
  by (induction k) (auto simp: merge_label_def)

lemma labels_at_less: "j < N + k \<Longrightarrow> labels_at N es k j < N + k"
  using labels_at_cases[of N es k j] by auto

lemma labels_at_fresh:
  assumes "edges_below N es"
  shows "k \<le> length es \<Longrightarrow> N + k \<le> j \<Longrightarrow> labels_at N es k j = j"
proof (induction k)
  case (Suc k)
  have "labels_at N es k (fst (es ! k)) < N + k" "labels_at N es k (snd (es ! k)) < N + k"
    using assms Suc.prems by (auto intro!: labels_at_less dest: edges_belowD[of _ _ k])
  then show ?case using Suc by (auto simp: merge_label_def)
qed simp

lemma labels_at_idem:
  assumes "edges_below N es"
  shows "k \<le> length es \<Longrightarrow> labels_at N es k (labels_at N es k j) = labels_at N es k j"
proof (induction k)
  case (Suc k)
  have "labels_at N es k (N + k) = N + k" using labels_at_fresh[OF assms, of k "N + k"] Suc.prems by simp
  moreover have "labels_at N es k (fst (es ! k)) < N + k" "labels_at N es k (snd (es ! k)) < N + k"
    using assms Suc.prems by (auto intro!: labels_at_less dest: edges_belowD[of _ _ k])
  ultimately show ?case using Suc by (auto simp: merge_label_def)
qed simp

text \<open>Leaves of equal label are the connected ones.\<close>

lemma linked_0: "linked es 0 = Id"
  by (simp add: linked_def)

lemma linked_sym: "(x, y) \<in> linked es k \<Longrightarrow> (y, x) \<in> linked es k"
proof -
  have "sym (linked es k)" unfolding linked_def by (intro sym_rtrancl) (simp add: sym_Un_converse)
  then show "(x, y) \<in> linked es k \<Longrightarrow> (y, x) \<in> linked es k" by (rule symD)
qed

lemma linked_trans: "(x, y) \<in> linked es k \<Longrightarrow> (y, z) \<in> linked es k \<Longrightarrow> (x, z) \<in> linked es k"
  unfolding linked_def by (rule rtrancl_trans)

lemma linked_Suc:
  assumes "k < length es"
  shows "(x, y) \<in> linked es (Suc k) \<longleftrightarrow> (x, y) \<in> linked es k \<or>
    ((x, fst (es ! k)) \<in> linked es k \<or> (x, snd (es ! k)) \<in> linked es k) \<and>
    ((fst (es ! k), y) \<in> linked es k \<or> (snd (es ! k), y) \<in> linked es k)"
    (is "_ \<longleftrightarrow> ?R x y")
proof
  obtain a b where e: "es ! k = (a, b)" by fastforce
  have step: "set (take (Suc k) es) = insert (a, b) (set (take k es))"
    using assms by (simp add: take_Suc_conv_app_nth e)
  have ab: "(a, b) \<in> linked es (Suc k)" "(b, a) \<in> linked es (Suc k)"
    unfolding linked_def step by auto
  have mono: "(u, v) \<in> linked es k \<Longrightarrow> (u, v) \<in> linked es (Suc k)" for u v
    unfolding linked_def step by (rule subsetD[OF rtrancl_mono]) auto
  show "?R x y \<Longrightarrow> (x, y) \<in> linked es (Suc k)"
    unfolding e fst_conv snd_conv using mono ab linked_trans by metis
  show "(x, y) \<in> linked es (Suc k) \<Longrightarrow> ?R x y"
    unfolding linked_def step
  proof (induction rule: rtrancl_induct)
    case (step y z)
    let ?L = "(set (take k es) \<union> (set (take k es))\<inverse>)\<^sup>*"
    consider "(y, z) = (a, b)" | "(y, z) = (b, a)" | "(y, z) \<in> ?L" using step.hyps(2) by auto
    then show ?case
    proof cases
      case 3
      with step.IH show ?thesis unfolding e fst_conv snd_conv by (meson rtrancl_trans)
    qed (use step.IH in \<open>auto simp: e\<close>)
  qed simp
qed

lemma labels_iff_linked:
  assumes "edges_below N es"
  shows "k \<le> length es \<Longrightarrow> x < N \<Longrightarrow> y < N \<Longrightarrow>
    labels_at N es k x = labels_at N es k y \<longleftrightarrow> (x, y) \<in> linked es k"
proof (induction k arbitrary: x y)
  case (Suc k)
  let ?a = "fst (es ! k)" and ?b = "snd (es ! k)" and ?l = "labels_at N es k"
  have ab: "?a < N" "?b < N" using assms Suc.prems by (auto dest: edges_belowD[of _ _ k])
  have IH: "?l u = ?l v \<longleftrightarrow> (u, v) \<in> linked es k" if "u < N" "v < N" for u v
    using Suc.IH[of u v] Suc.prems that by simp
  have ne: "?l x \<noteq> N + k" "?l y \<noteq> N + k"
    using labels_at_less[of x N k es] labels_at_less[of y N k es] Suc.prems by auto
  have "labels_at N es (Suc k) x = labels_at N es (Suc k) y \<longleftrightarrow>
      ?l x = ?l y \<or> (?l x = ?l ?a \<or> ?l x = ?l ?b) \<and> (?l ?a = ?l y \<or> ?l ?b = ?l y)"
    using ne by (auto simp: merge_label_def)
  then show ?case
    using linked_Suc[of k es x y] Suc.prems ab by (simp only: IH)
qed (simp add: linked_0)

section \<open>Finding a root\<close>

text \<open>
  A forest with labelling \<open>lab\<close> on the nodes below \<open>m\<close>: parents are larger and carry the same label;
  roots are their own label, and the nodes from \<open>m\<close> on, except for the last, have no parent. The roots in \<open>X\<close> may have become their own parent, which the
  compression does to a root that is asked for.
\<close>

definition uf_inv :: "nat \<Rightarrow> (nat \<Rightarrow> nat) \<Rightarrow> nat set \<Rightarrow> int list \<Rightarrow> bool" where
  "uf_inv m lab X par \<longleftrightarrow> m < length par \<and>
     (\<forall>j < m. (lab j = j \<and> (par ! j = -1 \<or> j \<in> X \<and> par ! j = int j)) \<or>
        (lab j \<noteq> j \<and> (\<exists>q. par ! j = int q \<and> j < q \<and> q < m \<and> lab q = lab j))) \<and>
     (\<forall>j. m \<le> j \<and> j < length par - 1 \<longrightarrow> par ! j = -1)"

lemma uf_inv_root:
  "uf_inv m lab X par \<Longrightarrow> j < m \<Longrightarrow> lab j = j \<Longrightarrow> par ! j = -1 \<or> j \<in> X \<and> par ! j = int j"
  by (auto simp: uf_inv_def)

lemma uf_inv_node:
  assumes "uf_inv m lab X par" "j < m" "lab j \<noteq> j"
  obtains q where "par ! j = int q" "j < q" "q < m" "lab q = lab j"
  using assms by (auto simp: uf_inv_def)

lemma find_root_label:
  assumes "uf_inv m lab X par" "j < m" "lab j \<notin> X"
  shows "find_root par j = Some (lab j) \<and> lab j < m \<and> lab (lab j) = lab j"
  using assms(2,3)
proof (induction "m - j" arbitrary: j rule: less_induct)
  case less
  show ?case
  proof (cases "lab j = j")
    case True
    then have "par ! j = -1" using uf_inv_root[OF assms(1) less.prems(1)] less.prems(2) by auto
    then show ?thesis using True less.prems by (simp add: find_root.simps)
  next
    case False
    obtain q where q: "par ! j = int q" "j < q" "q < m" "lab q = lab j"
      using uf_inv_node[OF assms(1) less.prems(1) False] .
    then have "find_root par q = Some (lab q) \<and> lab q < m \<and> lab (lab q) = lab q"
      using less.hyps[of q] less.prems by simp
    then show ?thesis using q by (simp add: find_root.simps[of par j])
  qed
qed

lemma uf_inv_le: "uf_inv m lab X par \<Longrightarrow> k < m \<Longrightarrow> k \<le> lab k"
proof (induction "m - k" arbitrary: k rule: less_induct)
  case less
  show ?case
  proof (cases "lab k = k")
    case False
    obtain q where q: "k < q" "q < m" "lab q = lab k"
      using uf_inv_node[OF less.prems False] .
    then have "q \<le> lab q" using less.hyps[of q] less.prems by simp
    then show ?thesis using q by simp
  qed simp
qed

text \<open>
  The compression of a path that ends in a root redirects at most one node, the second of the path.
  At a root itself it makes the last element of the array point to the root and, unless the element
  before the array happens to hold the root, makes the root its own parent.
\<close>

lemma compress_node:
  assumes inv: "uf_inv m lab X par" and j: "j < m" "lab j \<noteq> j" "lab (lab j) = lab j" "lab j < m"
  shows "\<exists>par'. compress before n_idx (lab j) par (int j) = Some par' \<and> uf_inv m lab X par' \<and>
    length par' = length par"
proof -
  let ?r = "lab j"
  obtain q where q: "par ! j = int q" "j < q" "q < m" "lab q = ?r"
    using uf_inv_node[OF inv j(1,2)] .
  show ?thesis
  proof (cases "q = ?r")
    case True
    then have "compress before n_idx ?r par (int j) = Some par"
      using q by (simp add: compress.simps parent_at_def)
    then show ?thesis using inv by blast
  next
    case False
    let ?p = "par[q := int ?r]"
    have len: "m < length par" using inv by (simp add: uf_inv_def)
    obtain s where s: "par ! q = int s" "q < s" "s < m" "lab s = lab q"
      using uf_inv_node[OF inv q(3)] False q(4) by metis
    have "q < ?r" using uf_inv_le[OF inv q(3)] q(4) False by simp
    have "compress before n_idx ?r par (int j) = compress before n_idx ?r ?p (int q)"
      using q False by (subst compress.simps) (simp add: parent_at_def slot_of_def)
    also have "\<dots> = Some ?p" using q(3) len by (subst compress.simps) (simp add: parent_at_def)
    finally have c: "compress before n_idx ?r par (int j) = Some ?p" .
    have "uf_inv m lab X ?p"
      using inv q(3,4) False \<open>q < ?r\<close> j(3,4) len unfolding uf_inv_def
      by (auto simp: nth_list_update)
    with c show ?thesis by simp
  qed
qed

lemma compress_root:
  assumes inv: "uf_inv m lab X par" and r: "r < m" "lab r = r" "r \<notin> X" and n: "length par = n_idx"
  shows "\<exists>par'. compress before n_idx r par (int r) = Some par' \<and> uf_inv m lab (insert r X) par' \<and>
    length par' = length par"
proof -
  have len: "m < length par" using inv by (simp add: uf_inv_def)
  have last: "n_idx - 1 \<noteq> r" "m \<le> n_idx - 1" "n_idx - 1 < length par" using len n r by simp_all
  have p: "par ! r = -1" using uf_inv_root[OF inv r(1,2)] r(3) by blast
  let ?p1 = "par[n_idx - 1 := int r]" and ?p2 = "par[n_idx - 1 := int r, r := int r]"
  have keep: "uf_inv m lab X ?p1" using inv last n unfolding uf_inv_def by (auto simp: nth_list_update)
  have s: "compress before n_idx r par (int r) = compress before n_idx r ?p1 (-1)"
    using p by (subst compress.simps) (simp add: parent_at_def slot_of_def)
  show ?thesis
  proof (cases "before = int r")
    case True
    then have "compress before n_idx r ?p1 (-1) = Some ?p1" by (subst compress.simps) (simp add: parent_at_def)
    moreover have "uf_inv m lab (insert r X) ?p1" using keep unfolding uf_inv_def by blast
    ultimately show ?thesis using s by simp
  next
    case False
    have "compress before n_idx r ?p1 (-1) = compress before n_idx r ?p2 (int r)"
      using False last by (subst compress.simps) (simp add: parent_at_def slot_of_def)
    also have "\<dots> = Some ?p2" using r(1) len last by (subst compress.simps) (simp add: parent_at_def)
    finally have "compress before n_idx r par (int r) = Some ?p2" using s by simp
    moreover have "uf_inv m lab (insert r X) ?p2"
      using keep r len unfolding uf_inv_def by (auto simp: nth_list_update)
    ultimately show ?thesis by simp
  qed
qed

lemma uf_find_label:
  assumes inv: "uf_inv m lab X (parent u)" and j: "j < m" "lab j \<notin> X" and n: "length (parent u) = n_indices u"
  shows "\<exists>par'. uf_find before u j = Some (lab j, u\<lparr>parent := par'\<rparr>) \<and>
    uf_inv m lab (insert (lab j) X) par' \<and> length par' = length (parent u)"
proof -
  have f: "find_root (parent u) j = Some (lab j)" "lab j < m" "lab (lab j) = lab j"
    using find_root_label[OF inv j] by simp_all
  have "\<exists>par'. compress before (n_indices u) (lab j) (parent u) (int j) = Some par' \<and>
      uf_inv m lab (insert (lab j) X) par' \<and> length par' = length (parent u)"
  proof (cases "lab j = j")
    case True
    then show ?thesis using compress_root[OF inv j(1) True _ n] j(2) by simp
  next
    case False
    have "uf_inv m lab (insert (lab j) X) par'" if "uf_inv m lab X par'" for par'
      using that unfolding uf_inv_def by blast
    then show ?thesis using compress_node[OF inv j(1) False f(3,2)] by blast
  qed
  then show ?thesis using f(1) by (auto simp: uf_find_def)
qed

section \<open>Building the dendrogram\<close>

definition cluster :: "nat \<Rightarrow> (nat \<Rightarrow> nat) \<Rightarrow> nat \<Rightarrow> nat set" where
  "cluster N lab r = {x. x < N \<and> lab x = r}"

lemma finite_cluster [simp]: "finite (cluster N lab r)"
  by (simp add: cluster_def)

definition sizes_ok :: "nat \<Rightarrow> nat \<Rightarrow> (nat \<Rightarrow> nat) \<Rightarrow> int list \<Rightarrow> bool" where
  "sizes_ok N m lab sz \<longleftrightarrow> (\<forall>r < m. lab r = r \<longrightarrow> sz ! r = int (card (cluster N lab r)))"

definition uf_good :: "nat \<Rightarrow> (nat \<times> nat) list \<Rightarrow> nat \<Rightarrow> union_find \<Rightarrow> bool" where
  "uf_good N es i u \<longleftrightarrow> next_label u = N + i \<and> n_indices u = 2 * N - 1 \<and>
     length (parent u) = 2 * N - 1 \<and> length (uf_size u) = 2 * N - 1 \<and>
     uf_inv (N + i) (labels_at N es i) {} (parent u) \<and> sizes_ok N (N + i) (labels_at N es i) (uf_size u)"

lemma uf_init_good: "2 \<le> N \<Longrightarrow> uf_good N es 0 (uf_init N)"
proof -
  assume n: "2 \<le> N"
  have "cluster N id r = {r}" if "r < N" for r using that by (auto simp: cluster_def)
  then have "sizes_ok N N id (uf_size (uf_init N))"
    by (simp add: sizes_ok_def uf_init_def nth_append)
  moreover have "uf_inv N id {} (parent (uf_init N))"
    using n by (auto simp: uf_inv_def uf_init_def)
  ultimately show ?thesis using n by (simp add: uf_good_def uf_init_def)
qed

text \<open>The union of two different clusters, under the labelling that merges them.\<close>

lemma union_inv:
  assumes inv: "uf_inv m lab {lab a, lab b} par" and l: "lab a < m" "lab b < m" "lab (lab a) = lab a"
    "lab (lab b) = lab b" "lab m = m" and m: "m < length par - 1"
  shows "uf_inv (m + 1) (merge_label lab a b m) {} (par[lab a := int m, lab b := int m])"
    (is "uf_inv _ ?lab _ ?par")
proof -
  have len: "m < length par" using m by simp
  have par: "?par ! j = (if j = lab a \<or> j = lab b then int m else par ! j)" if "j < length par" for j
    using that by (cases "lab a = lab b") (auto simp: nth_list_update)
  have new: "?lab m = m" using l by (auto simp: merge_label_def)
  have node: "(?lab j = j \<and> ?par ! j = -1) \<or>
      (?lab j \<noteq> j \<and> (\<exists>q. ?par ! j = int q \<and> j < q \<and> q < m + 1 \<and> ?lab q = ?lab j))" if j: "j < m" for j
  proof (cases "j = lab a \<or> j = lab b")
    case True
    then have "?lab j = m" using l by (auto simp: merge_label_def)
    then show ?thesis using True new par[of j] j len by auto
  next
    case False
    show ?thesis
    proof (cases "lab j = j")
      case True
      then have "par ! j = -1" using uf_inv_root[OF inv j True] False by auto
      then show ?thesis using True False par[of j] j len by (auto simp: merge_label_def)
    next
      case n: False
      obtain q where q: "par ! j = int q" "j < q" "q < m" "lab q = lab j" using uf_inv_node[OF inv j n] .
      then have "?lab q = ?lab j \<and> ?lab j \<noteq> j" using n j by (auto simp: merge_label_def)
      then show ?thesis using q False par[of j] j len by auto
    qed
  qed
  have top: "?par ! m = -1" using inv m l par[of m] len by (auto simp: uf_inv_def)
  have rest: "?par ! j = -1" if "m + 1 \<le> j" "j < length par - 1" for j
    using inv that l par[of j] by (auto simp: uf_inv_def)
  have "(?lab j = j \<and> (?par ! j = -1 \<or> j \<in> {} \<and> ?par ! j = int j)) \<or>
      (?lab j \<noteq> j \<and> (\<exists>q. ?par ! j = int q \<and> j < q \<and> q < m + 1 \<and> ?lab q = ?lab j))" if "j < m + 1" for j
    using node[of j] new top that by (cases "j = m") auto
  then show ?thesis unfolding uf_inv_def using m rest by simp
qed

lemma cluster_merge:
  assumes "\<And>x. x < N \<Longrightarrow> lab x \<noteq> m"
  shows "cluster N (merge_label lab a b m) m = cluster N lab (lab a) \<union> cluster N lab (lab b)"
    "r \<noteq> m \<Longrightarrow> r \<noteq> lab a \<Longrightarrow> r \<noteq> lab b \<Longrightarrow> cluster N (merge_label lab a b m) r = cluster N lab r"
  using assms by (auto simp: cluster_def merge_label_def)

lemma union_sizes:
  assumes s: "sizes_ok N m lab sz" and l: "lab a < m" "lab b < m" "lab (lab a) = lab a" "lab (lab b) = lab b"
    "lab a \<noteq> lab b" and ne: "\<And>x. x < N \<Longrightarrow> lab x \<noteq> m" and len: "m < length sz"
  shows "sizes_ok N (m + 1) (merge_label lab a b m) (sz[m := sz ! lab a + sz ! lab b])"
    "sz ! lab a + sz ! lab b = int (card (cluster N (merge_label lab a b m) m))"
proof -
  have "cluster N lab (lab a) \<inter> cluster N lab (lab b) = {}" using l(5) by (auto simp: cluster_def)
  then show c: "sz ! lab a + sz ! lab b = int (card (cluster N (merge_label lab a b m) m))"
    using s l by (simp add: sizes_ok_def cluster_merge(1)[OF ne] card_Un_disjoint)
  have "sz[m := sz ! lab a + sz ! lab b] ! r = int (card (cluster N (merge_label lab a b m) r))"
    if r: "r < m + 1" "merge_label lab a b m r = r" for r
  proof (cases "r = m")
    case True
    then show ?thesis using c len by simp
  next
    case False
    then have "lab r = r" "r \<noteq> lab a" "r \<noteq> lab b" using r(2) l by (auto simp: merge_label_def split: if_splits)
    then show ?thesis using False r(1) s cluster_merge(2)[OF ne False] by (simp add: sizes_ok_def)
  qed
  then show "sizes_ok N (m + 1) (merge_label lab a b m) (sz[m := sz ! lab a + sz ! lab b])"
    by (simp add: sizes_ok_def)
qed

lemma find_two:
  assumes g: "uf_good N es i u" and f: "forest_edges N es" and i: "i < length es"
    and e: "es ! i = (a, b)"
  shows "\<exists>u1 u2. uf_find x u a = Some (labels_at N es i a, u1) \<and> uf_find y u1 b = Some (labels_at N es i b, u2) \<and>
    uf_size u2 = uf_size u \<and> next_label u2 = N + i \<and> n_indices u2 = 2 * N - 1 \<and> length (parent u2) = 2 * N - 1 \<and>
    labels_at N es i a \<noteq> labels_at N es i b \<and>
    uf_inv (N + i) (labels_at N es i) {labels_at N es i a, labels_at N es i b} (parent u2)"
proof -
  let ?l = "labels_at N es i"
  have ab: "a < N" "b < N" "(a, b) \<notin> linked es i" using f i e by (auto simp: forest_edges_def)
  have ne: "?l a \<noteq> ?l b" using labels_iff_linked[OF forest_edgesD[OF f], of i a b] ab i by simp
  have inv: "uf_inv (N + i) ?l {} (parent u)" and n: "length (parent u) = n_indices u"
    using g by (simp_all add: uf_good_def)
  obtain p1 where p1: "uf_find x u a = Some (?l a, u\<lparr>parent := p1\<rparr>)"
      "uf_inv (N + i) ?l {?l a} p1" "length p1 = length (parent u)"
    using uf_find_label[OF inv, of a x] ab n by auto
  obtain p2 where p2: "uf_find y (u\<lparr>parent := p1\<rparr>) b = Some (?l b, u\<lparr>parent := p2\<rparr>)"
      "uf_inv (N + i) ?l {?l b, ?l a} p2" "length p2 = length p1"
    using uf_find_label[of "N + i" ?l "{?l a}" "u\<lparr>parent := p1\<rparr>" b y] p1 ab ne n by auto
  show ?thesis
    using p1 p2 g ne by (intro exI[of _ "u\<lparr>parent := p1\<rparr>"] exI[of _ "u\<lparr>parent := p2\<rparr>"])
      (simp add: uf_good_def insert_commute)
qed

lemma leaf_label_not_new: "x < N \<Longrightarrow> labels_at N es k x \<noteq> N + k"
  using labels_at_less[of x N k es] by simp

lemma union_good:
  assumes g: "uf_good N es i u" and f: "forest_edges N es" and i: "i < length es" and e: "es ! i = (a, b)"
    and u2: "uf_size u2 = uf_size u" "next_label u2 = N + i" "n_indices u2 = 2 * N - 1" "length (parent u2) = 2 * N - 1"
      "labels_at N es i a \<noteq> labels_at N es i b"
      "uf_inv (N + i) (labels_at N es i) {labels_at N es i a, labels_at N es i b} (parent u2)"
    and n: "N = length es + 1"
  shows "uf_size u2 ! labels_at N es i a + uf_size u2 ! labels_at N es i b =
      int (card (cluster N (labels_at N es (Suc i)) (N + i)))"
    "Suc i < length es \<Longrightarrow> uf_good N es (Suc i) (perform_union u2 (labels_at N es i a) (labels_at N es i b))"
proof -
  let ?l = "labels_at N es i"
  note below = forest_edgesD[OF f]
  have ab: "a < N" "b < N" using f i e by (auto simp: forest_edges_def)
  have l: "?l a < N + i" "?l b < N + i" "?l (?l a) = ?l a" "?l (?l b) = ?l b" "?l (N + i) = N + i"
    using labels_at_less[of a N i es] labels_at_less[of b N i es] labels_at_idem[OF below, of i]
      labels_at_fresh[OF below, of i "N + i"] ab i by simp_all
  have s: "sizes_ok N (N + i) ?l (uf_size u)" and ls: "N + i < length (uf_size u)"
    using g i n by (auto simp: uf_good_def)
  note us = union_sizes[OF s l(1-4) u2(5) leaf_label_not_new ls]
  show "uf_size u2 ! ?l a + uf_size u2 ! ?l b = int (card (cluster N (labels_at N es (Suc i)) (N + i)))"
    using us(2) e u2(1) by simp
  show "uf_good N es (Suc i) (perform_union u2 (?l a) (?l b))" if "Suc i < length es"
  proof -
    have "uf_inv (N + i + 1) (merge_label ?l a b (N + i)) {} ((parent u2)[?l a := int (N + i), ?l b := int (N + i)])"
      using l u2(4) that n by (intro union_inv[OF u2(6)]) simp_all
    then show ?thesis
      using us(1) u2 g e by (simp add: uf_good_def perform_union_def)
  qed
qed

definition pair_of :: "nat \<times> nat \<times> 'w \<Rightarrow> nat \<times> nat" where
  "pair_of e = (fst e, fst (snd e))"

definition merge_children :: "nat \<Rightarrow> (nat \<times> nat) list \<Rightarrow> nat \<Rightarrow> nat list" where
  "merge_children N es k = [labels_at N es k (fst (es ! k)), labels_at N es k (snd (es ! k))]"

definition merge_size :: "nat \<Rightarrow> (nat \<times> nat) list \<Rightarrow> nat \<Rightarrow> int" where
  "merge_size N es k = int (card (cluster N (labels_at N es (Suc k)) (N + k)))"

lemma dendrogram_loop_correct:
  assumes f: "forest_edges N (map pair_of es)" and n: "N = length es + 1"
  shows "i \<le> length es \<Longrightarrow> (i < length es \<Longrightarrow> uf_good N (map pair_of es) i u) \<Longrightarrow>
    dendrogram_loop before i (drop i es) u d =
      Some (d\<lparr>dg_children := dg_children d @ concat (map (merge_children N (map pair_of es)) [i..<length es]),
        dg_delta := dg_delta d @ map (snd \<circ> snd) (drop i es),
        dg_size := dg_size d @ map (merge_size N (map pair_of es)) [i..<length es]\<rparr>)"
proof (induction "length es - i" arbitrary: i u d)
  case (Suc k)
  let ?es = "map pair_of es"
  have i: "i < length es" using Suc.hyps(2) by simp
  obtain a b w where e: "es ! i = (a, b, w)" by (metis prod_cases3)
  have d: "drop i es = (a, b, w) # drop (Suc i) es" using i e by (metis Cons_nth_drop_Suc)
  have e2: "?es ! i = (a, b)" "i < length ?es" using i e by (simp_all add: pair_of_def)
  note g = Suc.prems(2)[OF i]
  obtain u1 u2 where u: "uf_find (before (2 * i)) u a = Some (labels_at N ?es i a, u1)"
      "uf_find (before (2 * i + 1)) u1 b = Some (labels_at N ?es i b, u2)"
      "uf_size u2 = uf_size u" "next_label u2 = N + i" "n_indices u2 = 2 * N - 1" "length (parent u2) = 2 * N - 1"
      "labels_at N ?es i a \<noteq> labels_at N ?es i b"
      "uf_inv (N + i) (labels_at N ?es i) {labels_at N ?es i a, labels_at N ?es i b} (parent u2)"
    using find_two[OF g f e2(2,1), of "before (2 * i)" "before (2 * i + 1)"] by blast
  have n': "N = length ?es + 1" using n by simp
  note un = union_good[OF g f e2(2,1) u(3-8) n']
  have "[i..<length es] = i # [Suc i..<length es]" using i by (rule upt_conv_Cons)
  then show ?case
    using Suc.hyps(1)[of "Suc i" "perform_union u2 (labels_at N ?es i a) (labels_at N ?es i b)"] Suc.hyps(2)
      un u(1,2) e2 i unfolding d
    by (simp add: merge_children_def merge_size_def)
qed simp

lemma children_length: "length (concat (map (merge_children N es) [0..<k])) = 2 * k"
  by (induction k) (simp_all add: merge_children_def)

section \<open>Labels climb down, whatever the interleaving\<close>

text \<open>
  What the kernel needs of its input: \<open>want\<close> is the right label of the nodes below \<open>N + c\<close>; such a
  node either has it from the start, or is the child of an earlier merge of the same wanted label.
\<close>

definition climbable :: "nat list \<Rightarrow> nat list \<Rightarrow> nat \<Rightarrow> nat \<Rightarrow> (nat \<Rightarrow> int) \<Rightarrow> int list \<Rightarrow> bool" where
  "climbable children levels N c want ls0 \<longleftrightarrow> N + c \<le> length ls0 \<and>
     (\<forall>tid < length children. levels ! (children ! tid) = tid div 2) \<and>
     (\<forall>tid < length children. tid div 2 \<le> c \<longrightarrow> children ! tid < N + c) \<and>
     (\<forall>j < N + c. want j \<noteq> -1 \<and> (ls0 ! j = want j \<or>
        ls0 ! j = -1 \<and> levels ! j < c \<and> j < N + levels ! j \<and> want (N + levels ! j) = want j))"

definition climber_ok :: "nat list \<Rightarrow> nat \<Rightarrow> nat \<Rightarrow> (nat \<Rightarrow> int) \<Rightarrow> int list \<Rightarrow> nat \<Rightarrow> climber \<Rightarrow> bool" where
  "climber_ok children N c want labels tid th \<longleftrightarrow>
     (case th of Ready \<Rightarrow> True
      | Climbing l label \<Rightarrow> tid div 2 \<le> c \<and>
          (label = want (children ! tid) \<or> label = -1 \<and> l < c \<and> want (N + l) = want (children ! tid))
      | Halted \<Rightarrow> tid div 2 \<le> c \<longrightarrow> labels ! (children ! tid) = want (children ! tid))"

definition inherit_ok :: "nat list \<Rightarrow> nat \<Rightarrow> nat \<Rightarrow> (nat \<Rightarrow> int) \<Rightarrow> int list \<Rightarrow> inherit_state \<Rightarrow> bool" where
  "inherit_ok children N c want ls0 s \<longleftrightarrow> length (is_labels s) = length ls0 \<and>
     length (is_threads s) = length children \<and>
     (\<forall>j < N + c. is_labels s ! j = want j \<or> is_labels s ! j = -1 \<and> ls0 ! j = -1) \<and>
     (\<forall>tid < length children. climber_ok children N c want (is_labels s) tid (is_threads s ! tid))"

lemma climbable_child:
  assumes "climbable children levels N c want ls0" "tid < length children" "tid div 2 \<le> c"
  shows "children ! tid < N + c" "want (children ! tid) \<noteq> -1"
    "ls0 ! (children ! tid) = -1 \<Longrightarrow> tid div 2 < c \<and> want (N + tid div 2) = want (children ! tid)"
  using assms unfolding climbable_def by metis+

lemma climbable_up:
  assumes "climbable children levels N c want ls0" "l < c" "ls0 ! (N + l) = -1"
  shows "levels ! (N + l) < c" "l < levels ! (N + l)" "want (N + levels ! (N + l)) = want (N + l)"
proof -
  have "N + l < N + c" using assms(2) by simp
  then have "levels ! (N + l) < c \<and> N + l < N + levels ! (N + l) \<and> want (N + levels ! (N + l)) = want (N + l)"
    using assms(1,3) unfolding climbable_def by metis
  then show "levels ! (N + l) < c" "l < levels ! (N + l)" "want (N + levels ! (N + l)) = want (N + l)" by simp_all
qed

lemma inherit_thread_ok:
  assumes "inherit_ok children N c want ls0 s" "tid < length children" "climber_ok children N c want (is_labels s) tid th"
  shows "inherit_ok children N c want ls0 (s\<lparr>is_threads := (is_threads s)[tid := th]\<rparr>)"
  using assms by (auto simp: inherit_ok_def nth_list_update)

lemma inherit_step_ok:
  assumes c: "climbable children levels N c want ls0" and ok: "inherit_ok children N c want ls0 s"
  shows "inherit_ok children N c want ls0 (inherit_step children levels N (int c) tid s)"
proof (cases "tid < length children")
  case False
  then show ?thesis using ok by (simp add: inherit_step_def inherit_ok_def)
next
  case tid: True
  have lt: "length (is_threads s) = length children" using ok by (simp add: inherit_ok_def)
  have lab: "is_labels s ! j = want j \<or> is_labels s ! j = -1 \<and> ls0 ! j = -1" if "j < N + c" for j
    using ok that by (simp add: inherit_ok_def)
  have th: "climber_ok children N c want (is_labels s) tid (is_threads s ! tid)"
    using ok tid by (simp add: inherit_ok_def)
  show ?thesis
  proof (cases "is_threads s ! tid")
    case Ready
    show ?thesis
    proof (cases "tid div 2 \<le> c")
      case False
      then show ?thesis using Ready inherit_thread_ok[OF ok tid, of Halted] lt tid
        by (simp add: inherit_step_def climber_ok_def not_le)
    next
      case True
      note ch = climbable_child[OF c tid True]
      have "climber_ok children N c want (is_labels s) tid (Climbing (tid div 2) (is_labels s ! (children ! tid)))"
        using lab[OF ch(1)] ch(3) True by (auto simp: climber_ok_def)
      then show ?thesis using Ready True inherit_thread_ok[OF ok tid] lt tid by (simp add: inherit_step_def)
    qed
  next
    case (Climbing l label)
    then have le: "tid div 2 \<le> c" and cl: "label = want (children ! tid) \<or> label = -1 \<and> l < c \<and> want (N + l) = want (children ! tid)"
      using th by (simp_all add: climber_ok_def)
    note ch = climbable_child[OF c tid le]
    show ?thesis
    proof (cases "label = -1")
      case True
      then have l: "l < c" "want (N + l) = want (children ! tid)" using cl ch(2) by auto
      have "climber_ok children N c want (is_labels s) tid (Climbing (levels ! (l + N)) (is_labels s ! (l + N)))"
        using lab[of "N + l"] l climbable_up[OF c l(1)] le by (auto simp: climber_ok_def add.commute)
      then show ?thesis using Climbing True inherit_thread_ok[OF ok tid] lt tid
        by (simp add: inherit_step_def Let_def)
    next
      case False
      then have w: "label = want (children ! tid)" using cl by simp
      have len: "length (is_labels s) = length ls0" "N + c \<le> length ls0"
        using ok c by (simp_all add: inherit_ok_def climbable_def)
      let ?ls = "(is_labels s)[children ! tid := label]"
      have keep: "?ls ! j = want j" if "is_labels s ! j = want j" for j
        using that w len ch(1) by (cases "j = children ! tid") auto
      have new: "?ls ! (children ! tid) = want (children ! tid)" using w ch(1) len by simp
      have "climber_ok children N c want ?ls k (is_threads s ! k)" if "k < length children" for k
        using ok that keep by (auto simp: inherit_ok_def climber_ok_def split: climber.splits)
      moreover have "?ls ! j = want j \<or> ?ls ! j = -1 \<and> ls0 ! j = -1" if "j < N + c" for j
        using lab[OF that] keep new by (cases "j = children ! tid") auto
      ultimately have "inherit_ok children N c want ls0 (s\<lparr>is_labels := ?ls\<rparr>)"
        using ok by (simp add: inherit_ok_def)
      from inherit_thread_ok[OF this tid, of Halted] new
      show ?thesis using Climbing False lt tid by (simp add: inherit_step_def climber_ok_def)
    qed
  next
    case Halted
    then show ?thesis using ok lt tid by (simp add: inherit_step_def)
  qed
qed

lemma inherit_run_ok:
  "climbable children levels N c want ls0 \<Longrightarrow> inherit_ok children N c want ls0 s \<Longrightarrow>
    inherit_ok children N c want ls0 (inherit_run children levels N (int c) sched s)"
  unfolding inherit_run_def by (induction sched arbitrary: s) (simp_all add: inherit_step_ok)

text \<open>Every thread halts: its own steps use up a measure, and no other thread's step touches it.\<close>

definition climb_left :: "nat \<Rightarrow> climber \<Rightarrow> nat" where
  "climb_left c th = (case th of Ready \<Rightarrow> c + 2
     | Climbing l label \<Rightarrow> if label = -1 then c - l + 1 else 1
     | Halted \<Rightarrow> 0)"

lemma inherit_step_other: "k \<noteq> tid \<Longrightarrow>
    is_threads (inherit_step children levels N c tid s) ! k = is_threads s ! k"
  by (simp add: inherit_step_def Let_def split: climber.split)

lemma inherit_step_left:
  assumes c: "climbable children levels N c want ls0" and ok: "inherit_ok children N c want ls0 s"
    and tid: "tid < length children"
  shows "climb_left c (is_threads (inherit_step children levels N (int c) tid s) ! tid) \<le>
    climb_left c (is_threads s ! tid) - 1"
proof -
  have lt: "length (is_threads s) = length children" using ok by (simp add: inherit_ok_def)
  have th: "climber_ok children N c want (is_labels s) tid (is_threads s ! tid)"
    using ok tid by (simp add: inherit_ok_def)
  show ?thesis
  proof (cases "is_threads s ! tid")
    case (Climbing l label)
    then have le: "tid div 2 \<le> c" and cl: "label = want (children ! tid) \<or> label = -1 \<and> l < c \<and> want (N + l) = want (children ! tid)"
      using th by (simp_all add: climber_ok_def)
    show ?thesis
    proof (cases "label = -1")
      case True
      then have l: "l < c" using cl climbable_child(2)[OF c tid le] by auto
      have lab: "is_labels s ! (N + l) = -1 \<Longrightarrow> ls0 ! (N + l) = -1"
        using ok c l unfolding inherit_ok_def climbable_def by (metis add_less_cancel_left)
      have "climb_left c (Climbing (levels ! (N + l)) (is_labels s ! (N + l))) \<le> c - l"
        using climbable_up(2)[OF c l lab] l by (cases "is_labels s ! (N + l) = -1") (auto simp: climb_left_def)
      then show ?thesis
        using Climbing True lt tid l by (simp add: inherit_step_def climb_left_def[of c "Climbing l _"] Let_def add.commute[of l N])
    qed (use Climbing lt tid in \<open>simp add: inherit_step_def climb_left_def Let_def\<close>)
  qed (use lt tid in \<open>auto simp: inherit_step_def climb_left_def Let_def\<close>)
qed

lemma inherit_run_left:
  assumes c: "climbable children levels N c want ls0" and tid: "tid < length children"
  shows "inherit_ok children N c want ls0 s \<Longrightarrow>
    climb_left c (is_threads (inherit_run children levels N (int c) sched s) ! tid) \<le>
      climb_left c (is_threads s ! tid) - count_list sched tid"
proof (induction sched arbitrary: s)
  case (Cons k sched)
  let ?s = "inherit_step children levels N (int c) k s"
  have IH: "climb_left c (is_threads (inherit_run children levels N (int c) sched ?s) ! tid) \<le>
      climb_left c (is_threads ?s ! tid) - count_list sched tid"
    using Cons.IH[OF inherit_step_ok[OF c Cons.prems]] .
  have "climb_left c (is_threads ?s ! tid) \<le> climb_left c (is_threads s ! tid) - (if k = tid then 1 else 0)"
    using inherit_step_left[OF c Cons.prems, of k] tid inherit_step_other[of tid k] by (cases "k = tid") auto
  with IH show ?case by (auto simp: inherit_run_def)
qed (simp add: inherit_run_def)

definition fair_schedule :: "nat \<Rightarrow> nat \<Rightarrow> nat list \<Rightarrow> bool" where
  "fair_schedule n_threads steps sched \<longleftrightarrow> (\<forall>tid < n_threads. steps \<le> count_list sched tid)"

lemma inherit_labels_final:
  assumes c: "climbable children levels N c want ls0" and fair: "fair_schedule (length children) (c + 2) sched"
    and len: "length ls0 = length children"
    and all: "\<And>j. j < N + c \<Longrightarrow> ls0 ! j = -1 \<Longrightarrow> \<exists>tid < length children. children ! tid = j \<and> tid div 2 \<le> c"
    and j: "j < N + c"
  shows "is_labels (inherit_run children levels N (int c) sched
      \<lparr>is_labels = ls0, is_threads = replicate (length ls0) Ready\<rparr>) ! j = want j"
proof -
  let ?init = "\<lparr>is_labels = ls0, is_threads = replicate (length ls0) Ready\<rparr>"
  let ?s = "inherit_run children levels N (int c) sched ?init"
  have "ls0 ! k = want k \<or> ls0 ! k = -1" if "k < N + c" for k using c that unfolding climbable_def by blast
  then have ok0: "inherit_ok children N c want ls0 ?init"
    using len by (auto simp: inherit_ok_def climber_ok_def)
  have ok: "inherit_ok children N c want ls0 ?s" by (rule inherit_run_ok[OF c ok0])
  show ?thesis
  proof (cases "ls0 ! j = -1")
    case False
    then show ?thesis using ok j unfolding inherit_ok_def by blast
  next
    case True
    obtain tid where t: "tid < length children" "children ! tid = j" "tid div 2 \<le> c" using all[OF j True] by blast
    have "climb_left c (is_threads ?s ! tid) \<le> (c + 2) - count_list sched tid"
      using inherit_run_left[OF c t(1) ok0, of sched] t(1) len by (simp add: climb_left_def)
    moreover have "c + 2 \<le> count_list sched tid" using fair t(1) by (simp add: fair_schedule_def)
    ultimately have "climb_left c (is_threads ?s ! tid) = 0" by linarith
    then have "is_threads ?s ! tid = Halted"
      by (cases "is_threads ?s ! tid") (simp_all add: climb_left_def split: if_splits)
    moreover have "climber_ok children N c want (is_labels ?s) tid (is_threads ?s ! tid)"
      using ok t(1) unfolding inherit_ok_def by blast
    ultimately show ?thesis using t(2,3) by (simp add: climber_ok_def)
  qed
qed

section \<open>The children of the dendrogram\<close>

abbreviation children_upto :: "nat \<Rightarrow> (nat \<times> nat) list \<Rightarrow> nat \<Rightarrow> nat list" where
  "children_upto N es k \<equiv> concat (map (merge_children N es) [0..<k])"

lemma nth_children:
  "tid < 2 * k \<Longrightarrow> children_upto N es k ! tid = merge_children N es (tid div 2) ! (tid mod 2)"
proof (induction k)
  case (Suc k)
  let ?c = "children_upto N es k"
  have s: "children_upto N es (Suc k) = ?c @ merge_children N es k" by simp
  have l: "length ?c = 2 * k" by (rule children_length)
  show ?case
  proof (cases "tid < 2 * k")
    case True
    then show ?thesis using Suc.IH unfolding s nth_append l by simp
  next
    case False
    then have "tid = 2 * k \<or> tid = 2 * k + 1" using Suc.prems by auto
    then show ?thesis unfolding s nth_append l by auto
  qed
qed simp

lemma take_children: "k \<le> n \<Longrightarrow> take (2 * k) (children_upto N es n) = children_upto N es k"
proof -
  assume "k \<le> n"
  then have "children_upto N es n = children_upto N es k @ concat (map (merge_children N es) [k..<n])"
    by (metis concat_append le0 map_append upt_add_eq_append le_add_diff_inverse add_0)
  then show ?thesis using children_length[of N es k] by simp
qed

lemma labels_at_persist:
  "labels_at N es k x = labels_at N es k y \<Longrightarrow> k \<le> m \<Longrightarrow> labels_at N es m x = labels_at N es m y"
  by (induction m) (auto simp: merge_label_def le_Suc_eq)

lemma children_are_merged:
  assumes f: "forest_edges N es"
  shows "k \<le> length es \<Longrightarrow> distinct (children_upto N es k) \<and>
    set (children_upto N es k) = {j. j < N + k \<and> labels_at N es k j \<noteq> j}"
proof (induction k)
  case (Suc k)
  note below = forest_edgesD[OF f]
  let ?l = "labels_at N es k" and ?a = "fst (es ! k)" and ?b = "snd (es ! k)"
  have k: "k < length es" using Suc.prems by simp
  have ab: "?a < N" "?b < N" "(?a, ?b) \<notin> linked es k" using f k by (auto simp: forest_edges_def)
  have ne: "?l ?a \<noteq> ?l ?b" using labels_iff_linked[OF below, of k ?a ?b] ab k by simp
  have l: "?l ?a < N + k" "?l ?b < N + k" "?l (?l ?a) = ?l ?a" "?l (?l ?b) = ?l ?b" "?l (N + k) = N + k"
    using labels_at_less[of ?a N k es] labels_at_less[of ?b N k es] labels_at_idem[OF below, of k]
      labels_at_fresh[OF below, of k "N + k"] ab k by simp_all
  have "{j. j < N + Suc k \<and> labels_at N es (Suc k) j \<noteq> j} = {j. j < N + k \<and> ?l j \<noteq> j} \<union> {?l ?a, ?l ?b}"
    using l by (auto simp: merge_label_def less_Suc_eq)
  moreover have "?l ?a \<notin> {j. j < N + k \<and> ?l j \<noteq> j}" "?l ?b \<notin> {j. j < N + k \<and> ?l j \<noteq> j}" using l by simp_all
  ultimately show ?case using Suc ne by (auto simp: merge_children_def)
qed simp

lemma children_all:
  assumes f: "forest_edges N es" and n: "N = length es + 1"
  shows "distinct (children_upto N es (length es))" "set (children_upto N es (length es)) = {..<2 * length es}"
proof -
  let ?n = "length es"
  have m: "distinct (children_upto N es ?n) \<and> set (children_upto N es ?n) = {j. j < N + ?n \<and> labels_at N es ?n j \<noteq> j}"
    by (rule children_are_merged[OF f]) simp
  then show "distinct (children_upto N es ?n)" by blast
  have sub: "set (children_upto N es ?n) \<subseteq> {..<2 * ?n}"
  proof (cases ?n)
    case (Suc k)
    have "labels_at N es k (N + k) = N + k" using labels_at_fresh[OF forest_edgesD[OF f], of k "N + k"] Suc by simp
    then have "labels_at N es ?n (N + k) = N + k" unfolding Suc by (simp add: merge_label_def)
    then have "j \<noteq> N + k" if "labels_at N es ?n j \<noteq> j" for j using that by blast
    moreover have "N + ?n = Suc (N + k)" "2 * ?n = N + k" using Suc n by simp_all
    ultimately show ?thesis using m by (auto simp: less_Suc_eq)
  qed simp
  moreover have "card (set (children_upto N es ?n)) = 2 * ?n"
    using m distinct_card children_length by metis
  ultimately show "set (children_upto N es ?n) = {..<2 * ?n}"
    by (intro card_subset_eq) simp_all
qed

lemma roots_card:
  assumes f: "forest_edges N es" and k: "k \<le> length es"
  shows "card {j. j < N + k \<and> labels_at N es k j = j} = N - k"
proof -
  have "{j. j < N + k \<and> labels_at N es k j = j} = {..<N + k} - {j. j < N + k \<and> labels_at N es k j \<noteq> j}" by auto
  moreover have "card {j. j < N + k \<and> labels_at N es k j \<noteq> j} = 2 * k"
    using children_are_merged[OF f k] distinct_card children_length by metis
  ultimately show ?thesis by (simp add: card_Diff_subset subset_eq)
qed

lemma root_has_leaf:
  assumes f: "forest_edges N es"
  shows "k \<le> length es \<Longrightarrow> r < N + k \<Longrightarrow> labels_at N es k r = r \<Longrightarrow> \<exists>x < N. labels_at N es k x = r"
proof (induction k)
  case (Suc k)
  let ?a = "fst (es ! k)"
  have a: "?a < N" using f Suc.prems by (simp add: forest_edges_def)
  show ?case
  proof (cases "r = N + k")
    case True
    then show ?thesis using a by (intro exI[of _ ?a]) (simp add: merge_label_def)
  next
    case False
    then have r: "labels_at N es k r = r" "r \<noteq> labels_at N es k ?a" "r \<noteq> labels_at N es k (snd (es ! k))" "r < N + k"
      using Suc.prems by (auto simp: merge_label_def split: if_splits)
    obtain x where "x < N" "labels_at N es k x = r" using Suc.IH r Suc.prems by auto
    then show ?thesis using r by (intro exI[of _ x]) (simp add: merge_label_def)
  qed
qed auto

lemma child_of_merge:
  assumes f: "forest_edges N es" and t: "tid < 2 * k" "k \<le> length es"
  shows "children_upto N es k ! tid < N + tid div 2"
    "tid div 2 < m \<Longrightarrow> labels_at N es m (children_upto N es k ! tid) = labels_at N es m (N + tid div 2)"
proof -
  let ?i = "tid div 2" and ?j = "children_upto N es k ! tid"
  note below = forest_edgesD[OF f]
  have i: "?i < length es" using t by linarith
  have ab: "fst (es ! ?i) < N" "snd (es ! ?i) < N" using f i by (auto simp: forest_edges_def)
  have j: "?j = labels_at N es ?i (fst (es ! ?i)) \<or> ?j = labels_at N es ?i (snd (es ! ?i))"
    using nth_children[OF t(1)] by (cases "tid mod 2 = 0") (auto simp: merge_children_def)
  then show less: "?j < N + ?i" using labels_at_less ab by (metis trans_less_add1)
  have "labels_at N es ?i ?j = ?j" using j labels_at_idem[OF below] i by auto
  then have "labels_at N es (Suc ?i) ?j = N + ?i" using j by (auto simp: merge_label_def)
  moreover have "labels_at N es (Suc ?i) (N + ?i) = N + ?i"
    using labels_at_fresh[OF below, of ?i "N + ?i"] i by (simp add: merge_label_def)
  ultimately show "tid div 2 < m \<Longrightarrow> labels_at N es m ?j = labels_at N es m (N + ?i)"
    using labels_at_persist[of N es "Suc ?i" ?j "N + ?i" m] by simp
qed

section \<open>The cut\<close>

text \<open>Writes to different positions, in any order the same.\<close>

lemma foldl_writes:
  assumes "distinct f" "\<forall>x \<in> set f. x < length l0"
  shows "k \<le> length f \<Longrightarrow> length (foldl (\<lambda>l t. l[f ! t := g t]) l0 [0..<k]) = length l0 \<and>
    (\<forall>t < k. foldl (\<lambda>l t. l[f ! t := g t]) l0 [0..<k] ! (f ! t) = g t) \<and>
    (\<forall>j. j \<notin> set (take k f) \<longrightarrow> foldl (\<lambda>l t. l[f ! t := g t]) l0 [0..<k] ! j = l0 ! j)"
proof (induction k)
  case (Suc k)
  let ?l = "foldl (\<lambda>l t. l[f ! t := g t]) l0 [0..<k]"
  have ih: "length ?l = length l0" "\<forall>t < k. ?l ! (f ! t) = g t" "\<forall>j. j \<notin> set (take k f) \<longrightarrow> ?l ! j = l0 ! j"
    using Suc by simp_all
  have k: "f ! k < length l0" using assms(2) Suc.prems by simp
  have "f ! k \<noteq> f ! t" if "t < k" for t using assms(1) that Suc.prems by (simp add: nth_eq_iff_index_eq)
  then have "(?l[f ! k := g k]) ! (f ! t) = g t" if "t < Suc k" for t
    using ih(1,2) k that by (cases "t = k") (simp_all add: less_Suc_eq)
  then have "\<forall>t < Suc k. (?l[f ! k := g k]) ! (f ! t) = g t" by blast
  moreover have "set (take (Suc k) f) = insert (f ! k) (set (take k f))"
    using Suc.prems by (simp add: take_Suc_conv_app_nth)
  ultimately show ?case using ih by (simp add: nth_list_update)
qed simp

lemma write_levels_nth:
  assumes "distinct children" "\<forall>x \<in> set children. x < length g" "length g = length children" "tid < length children"
  shows "write_levels children g ! (children ! tid) = tid div 2"
  using foldl_writes[OF assms(1,2), of "length children" "\<lambda>tid. tid div 2"] assms(3,4)
  by (simp add: write_levels_def)

lemma lessThan_split: "m \<le> (a :: nat) \<Longrightarrow> {..<a} - {j. j < m \<and> P j} = {j. j < m \<and> \<not> P j} \<union> {m..<a}"
  by auto

lemma sort_roots:
  assumes "distinct xs" "set xs = R \<union> {m..<m'}" "finite R" "\<And>r. r \<in> R \<Longrightarrow> r < m" "m \<le> m'"
  shows "sort xs = sorted_list_of_set R @ [m..<m']"
proof (rule sorted_distinct_set_unique)
  show "sorted (sorted_list_of_set R @ [m..<m'])"
  proof -
    have "x \<le> y" if "x \<in> R" "m \<le> y" for x y using assms(4)[OF that(1)] that(2) by simp
    then show ?thesis using assms(3) by (simp add: sorted_append)
  qed
  show "distinct (sorted_list_of_set R @ [m..<m'])" using assms(3,4) by fastforce
qed (use assms in simp_all)

text \<open>
  The cut of a dendrogram built from \<open>n\<close> edges at \<open>K\<close> clusters: \<open>c\<close> merges lie below it, and the first
  kernel and the host have labelled the roots that remain.
\<close>

lemma prepare_cut_correct:
  assumes f: "forest_edges N es" and n: "N = length es + 1" and K: "2 \<le> K" "K \<le> N"
    and g: "\<And>k. length (garbage k) = k"
  defines "ch \<equiv> children_upto N es (length es)" and "c \<equiv> N - K"
  shows "\<exists>levels tmp first. prepare_cut garbage ch K N = Inr \<lparr>cut_levels = levels, cut_labels = tmp, cut_level = int c\<rparr> \<and>
    (\<forall>tid < length ch. levels ! (ch ! tid) = tid div 2) \<and> length tmp = 2 * length es \<and>
    distinct first \<and> set first = {j. j < N + c \<and> labels_at N es c j = j} \<and> length first = K \<and>
    (\<forall>t < K. tmp ! (first ! t) = int t) \<and> (\<forall>j < 2 * length es. j \<notin> set first \<longrightarrow> tmp ! j = -1)"
proof -
  let ?n = "length es" and ?R = "{j. j < N + c \<and> labels_at N es c j = j}"
  have len: "length ch = 2 * ?n" unfolding ch_def by (rule children_length)
  have d: "distinct ch" and s: "set ch = {..<2 * ?n}" using children_all[OF f n] by (simp_all add: ch_def)
  have c: "c \<le> ?n" "N + c \<le> 2 * ?n" "1 \<le> ?n" using n K by (auto simp: c_def)
  have e: "(N - 1) * 2 = 2 * ?n" using n by simp
  have "Max {..<2 * ?n} = 2 * ?n - 1" using c by (intro Max_eqI) auto
  then have mx: "Max (set (take (2 * ?n) ch)) + 1 = 2 * ?n" using s len c by simp
  have start: "2 * ?n - (K - 1) * 2 = 2 * c" "(K - 1) * 2 = length (drop (2 * c) ch)"
    using n K c len by (auto simp: c_def)
  have t: "take (2 * c) ch = children_upto N es c" unfolding ch_def by (rule take_children[OF c(1)])
  have m: "set (take (2 * c) ch) = {j. j < N + c \<and> labels_at N es c j \<noteq> j}"
    unfolding t using children_are_merged[OF f c(1)] by blast
  have "set (take (2 * c) ch) \<union> set (drop (2 * c) ch) = {..<2 * ?n}"
    unfolding set_append[symmetric] append_take_drop_id by (rule s)
  moreover have "set (take (2 * c) ch) \<inter> set (drop (2 * c) ch) = {}"
    by (rule set_take_disj_set_drop_if_distinct[OF d order_refl])
  ultimately have "set (drop (2 * c) ch) = {..<2 * ?n} - set (take (2 * c) ch)" by blast
  then have sd: "set (drop (2 * c) ch) = ?R \<union> {N + c..<2 * ?n}" 
    unfolding m using lessThan_split[OF c(2), of "\<lambda>j. labels_at N es c j \<noteq> j"] by simp
  have so: "sort (drop (2 * c) ch) = sorted_list_of_set ?R @ [N + c..<2 * ?n]"
    using d c(2) by (intro sort_roots) (simp_all add: sd)
  have card: "card ?R = K" using roots_card[OF f c(1)] n K by (simp add: c_def)
  define first where "first = rev (sorted_list_of_set ?R)"
  have first: "distinct first" "set first = ?R" "length first = K" using card by (simp_all add: first_def)
  have ll: "length (drop (2 * c) ch) - K = length [N + c..<2 * ?n]"
    using start(2)[symmetric] n K by (simp add: c_def)
  have ls: "length (rev (sort (drop (2 * c) ch))) - K = length (rev [N + c..<2 * ?n])" using ll by simp
  have lr: "drop (length (rev (sort (drop (2 * c) ch))) - K) (rev (sort (drop (2 * c) ch))) = first"
    unfolding ls unfolding so rev_append first_def by (rule append_eq_conv_conj[THEN iffD1, THEN conjunct2, symmetric, OF refl])
  let ?tmp = "foldl (\<lambda>l t. l[first ! t := int t]) (replicate (2 * ?n) (-1)) [0..<K]"
  have "\<forall>x \<in> set first. x < length (replicate (2 * ?n) (-1 :: int))" using first(2) c(2) by auto
  note w = foldl_writes[OF first(1) this, of K int]
  have w1: "length ?tmp = 2 * ?n" "\<forall>t < K. ?tmp ! (first ! t) = int t" "\<forall>j < 2 * ?n. j \<notin> set first \<longrightarrow> ?tmp ! j = -1"
    using w first(3) by simp_all
  have lv: "\<forall>tid < length ch. write_levels ch (garbage (2 * ?n)) ! (ch ! tid) = tid div 2"
    using write_levels_nth[OF d] g s len by simp
  have lvl: "int (2 * ?n div 2) - int (K - 1) = int c" using n K by (simp add: c_def of_nat_diff)
  have all: "take ((K - 1) * 2) (drop (2 * c) ch) = drop (2 * c) ch" using start(2) by simp
  have "prepare_cut garbage ch K N = Inr \<lparr>cut_levels = write_levels ch (garbage (2 * ?n)), cut_labels = ?tmp, cut_level = int c\<rparr>"
    unfolding prepare_cut_def e mx Let_def start(1) all lr lvl using n by (simp add: bind_expects)
  then show ?thesis using lv w1 first by blast
qed

lemma labels_all_equal:
  assumes f: "forest_edges N es" and n: "N = length es + 1" and x: "x < N" "y < N"
  shows "(x, y) \<in> linked es (length es)"
proof -
  have one: "card {j. j < N + length es \<and> labels_at N es (length es) j = j} = 1" (is "card ?R = 1")
    using roots_card[OF f order_refl] n by simp
  obtain r where r: "?R = {r}" using one by (rule card_1_singletonE)
  have "labels_at N es (length es) z \<in> ?R" if "z < N" for z
    using labels_at_less[of z N "length es" es] labels_at_idem[OF forest_edgesD[OF f], of "length es" z] that by simp
  then have "labels_at N es (length es) x = labels_at N es (length es) y"
    using x unfolding r by (metis singletonD)
  then show ?thesis using labels_iff_linked[OF forest_edgesD[OF f] order_refl x] by blast
qed

lemma cut_climbable:
  assumes f: "forest_edges N es" and n: "N = length es + 1" and K: "2 \<le> K" "K \<le> N"
    and lv: "\<forall>tid < 2 * length es. levels ! (children_upto N es (length es) ! tid) = tid div 2"
    and len: "length tmp = 2 * length es"
    and first: "set first = {j. j < N + (N - K) \<and> labels_at N es (N - K) j = j}" "length first = K"
      "\<forall>t < K. tmp ! (first ! t) = int t" "\<forall>j < 2 * length es. j \<notin> set first \<longrightarrow> tmp ! j = -1"
  shows "climbable (children_upto N es (length es)) levels N (N - K) (\<lambda>j. tmp ! labels_at N es (N - K) j) tmp"
    "j < N + (N - K) \<Longrightarrow> tmp ! j = -1 \<Longrightarrow>
      \<exists>tid < length (children_upto N es (length es)). children_upto N es (length es) ! tid = j \<and> tid div 2 \<le> N - K"
    "j < N + (N - K) \<Longrightarrow> \<exists>t < K. labels_at N es (N - K) j = first ! t"
proof -
  let ?c = "N - K" and ?ch = "children_upto N es (length es)"
  let ?want = "\<lambda>j. tmp ! labels_at N es ?c j"
  have c: "?c \<le> length es" "N + ?c \<le> 2 * length es" using n K by auto
  have lc: "length ?ch = 2 * length es" by (rule children_length)
  have root: "labels_at N es ?c j \<in> set first" if "j < N + ?c" for j
    unfolding first(1) using labels_at_less[OF that] labels_at_idem[OF forest_edgesD[OF f] c(1)] by simp
  show ex: "\<exists>t < K. labels_at N es ?c j = first ! t" if "j < N + ?c" for j
    using root[OF that] first(2) by (metis in_set_conv_nth)
  have want: "?want j \<noteq> -1" if "j < N + ?c" for j
    using ex[OF that] first(3) by auto
  have child: "\<exists>tid < 2 * ?c. ?ch ! tid = j" if "j < N + ?c" "labels_at N es ?c j \<noteq> j" for j
  proof -
    have "j \<in> set (children_upto N es ?c)" using children_are_merged[OF f c(1)] that by simp
    then obtain t where "t < 2 * ?c" "children_upto N es ?c ! t = j"
      by (metis in_set_conv_nth children_length)
    then show ?thesis using take_children[OF c(1), of N es] by (metis nth_take)
  qed
  have "tmp ! j = ?want j \<or> tmp ! j = -1 \<and> levels ! j < ?c \<and> j < N + levels ! j \<and> ?want (N + levels ! j) = ?want j"
    if j: "j < N + ?c" for j
  proof (cases "labels_at N es ?c j = j")
    case False
    obtain t where t: "t < 2 * ?c" "?ch ! t = j" using child[OF j False] by blast
    then have tl: "t < 2 * length es" using c by simp
    have "levels ! j = t div 2" using lv t tl by blast
    moreover have "j < N + t div 2" using child_of_merge(1)[OF f tl order_refl] t(2) by simp
    moreover have "labels_at N es ?c j = labels_at N es ?c (N + t div 2)"
      using child_of_merge(2)[OF f tl order_refl, of ?c] t by simp
    moreover have "tmp ! j = -1" using first(1,4) j False c(2) by simp
    moreover have "t div 2 < ?c" using t(1) by simp
    ultimately show ?thesis by simp
  qed simp
  moreover have "?ch ! tid < N + ?c" if "tid < length ?ch" "tid div 2 \<le> ?c" for tid
    using child_of_merge(1)[OF f _ order_refl, of tid] that lc by (metis add_le_cancel_left order_less_le_trans)
  ultimately show "climbable ?ch levels N ?c ?want tmp"
    unfolding climbable_def using c(2) len lv lc want by simp
  show "\<exists>tid < length ?ch. ?ch ! tid = j \<and> tid div 2 \<le> ?c" if j: "j < N + ?c" and m: "tmp ! j = -1"
  proof -
    have "labels_at N es ?c j \<noteq> j" using want[OF j] m by metis
    then obtain t where "t < 2 * ?c" "?ch ! t = j" using child[OF j] by blast
    then show ?thesis using c lc by (intro exI[of _ t]) auto
  qed
qed

section \<open>Properties\<close>

text \<open>
  C6: On the edges of a spanning tree the host builds the dendrogram of single linkage, whatever the
  read before the parent array gives: each merge lists the labels of the two clusters its edge joins,
  and the number of leaves its edge and the earlier ones connect; two leaves have the same label
  after \<open>k\<close> merges exactly if the first \<open>k\<close> edges connect them.
\<close>

theorem dendrogram_correct:
  assumes "forest_edges (length es + 1) es" "length w = length es"
  shows "build_dendrogram_host before (map fst es) (map snd es) w =
      Some \<lparr>dg_children = concat (map (\<lambda>k. [labels_at (length es + 1) es k (fst (es ! k)),
          labels_at (length es + 1) es k (snd (es ! k))]) [0..<length es]),
        dg_delta = w,
        dg_size = map (\<lambda>k. int (card {x. x \<le> length es \<and> (x, fst (es ! k)) \<in> linked es (Suc k)})) [0..<length es]\<rparr> \<and>
    (\<forall>k \<le> length es. \<forall>x \<le> length es. \<forall>y \<le> length es.
      labels_at (length es + 1) es k x = labels_at (length es + 1) es k y \<longleftrightarrow> (x, y) \<in> linked es k)"
proof -
  let ?N = "length es + 1" and ?e3 = "zip (map fst es) (zip (map snd es) w)"
  note below = forest_edgesD[OF assms(1)]
  have p: "map pair_of ?e3 = es" "length ?e3 = length es" "map (snd \<circ> snd) ?e3 = w"
    using assms(2) by (auto simp: pair_of_def intro!: nth_equalityI)
  have size: "merge_size ?N es k = int (card {x. x \<le> length es \<and> (x, fst (es ! k)) \<in> linked es (Suc k)})"
    if "k < length es" for k
  proof -
    have "labels_at ?N es (Suc k) (fst (es ! k)) = ?N + k" by (simp add: merge_label_def)
    then have "cluster ?N (labels_at ?N es (Suc k)) (?N + k) = {x. x \<le> length es \<and> (x, fst (es ! k)) \<in> linked es (Suc k)}"
      using labels_iff_linked[OF below, of "Suc k" _ "fst (es ! k)"] edges_belowD(1)[OF below that] that
      by (auto simp: cluster_def simp del: labels_at.simps)
    then show ?thesis by (simp add: merge_size_def del: labels_at.simps)
  qed
  have g: "uf_good ?N (map pair_of ?e3) 0 (uf_init ?N)" if "0 < length ?e3"
    using uf_init_good[of ?N es] that unfolding p by (cases es) simp_all
  have "build_dendrogram_host before (map fst es) (map snd es) w = Some \<lparr>dg_children =
      concat (map (merge_children ?N es) [0..<length es]), dg_delta = w, dg_size = map (merge_size ?N es) [0..<length es]\<rparr>"
    using dendrogram_loop_correct[of ?N ?e3 0 "uf_init ?N" before "\<lparr>dg_children = [], dg_delta = [], dg_size = []\<rparr>"]
      assms(1) g unfolding p by (simp add: build_dendrogram_host_def p)
  then show ?thesis
    using labels_iff_linked[OF below] size by (simp add: merge_children_def[abs_def])
qed

lemma cut_labelling:
  assumes df: "distinct first" "length first = K" and t1: "\<forall>t < K. tmp ! (first ! t) = int t" and len: "length labels = N"
    and nth: "\<And>x. x < N \<Longrightarrow> labels ! x = tmp ! L x"
    and root: "\<And>x. x < N \<Longrightarrow> \<exists>t < K. L x = first ! t" and leaf: "\<And>t. t < K \<Longrightarrow> \<exists>x < N. L x = first ! t"
  shows "set labels = int ` {..<K}" "x < N \<Longrightarrow> y < N \<Longrightarrow> labels ! x = labels ! y \<longleftrightarrow> L x = L y"
proof -
  have label: "\<exists>t < K. L x = first ! t \<and> labels ! x = int t" if x: "x < N" for x
    using root[OF x] nth[OF x] t1 by auto
  show "set labels = int ` {..<K}"
  proof (intro set_eqI iffI)
    fix v assume "v \<in> set labels"
    then obtain x where "x < N" "v = labels ! x" using len by (metis in_set_conv_nth)
    then show "v \<in> int ` {..<K}" using label by blast
  next
    fix v assume "v \<in> int ` {..<K}"
    then obtain t where t: "t < K" "v = int t" by auto
    obtain x where x: "x < N" "L x = first ! t" using leaf[OF t(1)] by blast
    then have "labels ! x = v" using nth[OF x(1)] t1 t by simp
    then show "v \<in> set labels" using x(1) len by (metis nth_mem)
  qed
  show "labels ! x = labels ! y \<longleftrightarrow> L x = L y" if xy: "x < N" "y < N"
  proof -
    obtain s t where "s < K" "L x = first ! s" "labels ! x = int s" "t < K" "L y = first ! t" "labels ! y = int t"
      using label xy by meson
    moreover have "first ! s = first ! t \<longleftrightarrow> s = t" if "s < K" "t < K" for s t
      using df that by (simp add: nth_eq_iff_index_eq)
    ultimately show ?thesis by simp
  qed
qed

text \<open>
  C7: Cutting the dendrogram of a spanning tree at \<open>K\<close> clusters labels the leaves with \<open>0, ..., K - 1\<close>,
  all of them used, so that two leaves have the same label exactly if the first \<open>N - K\<close> edges connect
  them, under every interleaving of the kernel's threads in which each makes enough steps.
\<close>

theorem clusters_are_components:
  assumes "forest_edges (length es + 1) es" "1 \<le> K" "K \<le> length es + 1" "\<And>k. length (garbage k) = k"
    and "fair_schedule (2 * length es) (length es + 3) sched"
  shows "\<exists>labels. extract_flattened_clusters garbage sched
      (concat (map (merge_children (length es + 1) es) [0..<length es])) K (length es + 1) = Inr labels \<and>
    length labels = length es + 1 \<and> set labels = int ` {..<K} \<and>
    (\<forall>x \<le> length es. \<forall>y \<le> length es. labels ! x = labels ! y \<longleftrightarrow> (x, y) \<in> linked es (length es + 1 - K))"
proof (cases "K = 1")
  case True
  have "(x, y) \<in> linked es (length es)" if "x \<le> length es" "y \<le> length es" for x y
    using labels_all_equal[OF assms(1) refl] that by simp
  then show ?thesis using True by (auto simp: extract_flattened_clusters_def nth_append simp del: replicate_Suc)
next
  case False
  let ?N = "length es + 1" and ?ch = "children_upto (length es + 1) es (length es)"
  let ?c = "?N - K" and ?L = "labels_at (length es + 1) es (length es + 1 - K)"
  note f = assms(1) and below = forest_edgesD[OF assms(1)]
  have K: "2 \<le> K" "K \<le> ?N" using False assms(2,3) by simp_all
  have c: "?c \<le> length es" "?N + ?c \<le> 2 * length es" using K by auto
  obtain levels tmp first where p: "prepare_cut garbage ?ch K ?N = Inr \<lparr>cut_levels = levels, cut_labels = tmp, cut_level = int ?c\<rparr>"
    and lv: "\<forall>tid < length ?ch. levels ! (?ch ! tid) = tid div 2" and lt: "length tmp = 2 * length es"
    and df: "distinct first" and fs: "set first = {j. j < ?N + ?c \<and> ?L j = j}" and fl: "length first = K"
    and t1: "\<forall>t < K. tmp ! (first ! t) = int t" and t2: "\<forall>j < 2 * length es. j \<notin> set first \<longrightarrow> tmp ! j = -1"
    using prepare_cut_correct[OF f refl K assms(4)] by blast
  have lc: "length ?ch = 2 * length es" by (rule children_length)
  note cc = cut_climbable[OF f refl K lv[unfolded lc] lt fs fl t1 t2]
  have fair: "fair_schedule (length ?ch) (?c + 2) sched"
    using assms(5) c(1) unfolding fair_schedule_def lc by (meson add_le_mono le_trans less_imp_le_nat numeral_le_iff order_refl semiring_norm)
  let ?labels = "is_labels (inherit_run ?ch levels ?N (int ?c) sched \<lparr>is_labels = tmp, is_threads = replicate (length tmp) Ready\<rparr>)"
  have fin: "?labels ! j = tmp ! ?L j" if "j < ?N + ?c" for j
    using inherit_labels_final[OF cc(1) fair _ cc(2) that] lt lc by simp
  have ll: "length ?labels = length tmp"
  proof -
    have "inherit_ok ?ch ?N ?c (\<lambda>j. tmp ! ?L j) tmp \<lparr>is_labels = tmp, is_threads = replicate (length tmp) Ready\<rparr>"
      using cc(1) lt lc unfolding climbable_def by (auto simp: inherit_ok_def climber_ok_def)
    from inherit_run_ok[OF cc(1) this] show ?thesis by (simp add: inherit_ok_def)
  qed
  have nth: "take ?N ?labels ! x = tmp ! ?L x" if "x < ?N" for x using fin[of x] that by simp
  have root: "\<exists>t < K. ?L x = first ! t" if "x < ?N" for x using cc(3)[of x] that by auto
  have leaf: "\<exists>x < ?N. ?L x = first ! t" if "t < K" for t
    using root_has_leaf[OF f c(1), of "first ! t"] fs nth_mem[of t first] fl that by auto
  have len: "length (take ?N ?labels) = ?N" using ll lt c by simp
  note lab = cut_labelling[OF df fl t1 len nth root leaf]
  have "extract_flattened_clusters garbage sched ?ch K ?N = Inr (take ?N ?labels)"
    using False p by (simp add: extract_flattened_clusters_def Let_def)
  moreover have "take ?N ?labels ! x = take ?N ?labels ! y \<longleftrightarrow> (x, y) \<in> linked es ?c"
    if "x \<le> length es" "y \<le> length es" for x y
    using lab(2)[of x y] that labels_iff_linked[OF below c(1), of x y] by simp
  ultimately show ?thesis using len lab(1) by blast
qed

section \<open>Concrete runs\<close>

definition demo_edges :: "(nat \<times> nat) list" where
  "demo_edges = [(0, 1), (2, 3), (1, 2)]"

lemma demo_labels:
  "labels_at 4 demo_edges 1 j = (if j = 0 \<or> j = 1 then 4 else j)"
  "labels_at 4 demo_edges 2 j = (if j = 0 \<or> j = 1 then 4 else if j = 2 \<or> j = 3 then 5 else j)"
  by (auto simp: demo_edges_def merge_label_def numeral_2_eq_2)

lemma demo_forest: "forest_edges 4 demo_edges"
proof -
  have b: "edges_below 4 demo_edges" by (auto simp: edges_below_def demo_edges_def nth_Cons split: nat.splits)
  have "demo_edges ! i \<notin> linked demo_edges i" if "i < 3" for i
  proof -
    have "i = 0 \<or> i = 1 \<or> i = 2" using that by auto
    then consider "i = 0" | "i = 1" | "i = 2" by blast
    then show ?thesis
    proof cases
      case 1
      then show ?thesis by (simp add: linked_0 demo_edges_def)
    next
      case 2
      have "(2, 3) \<notin> linked demo_edges 1"
        using labels_iff_linked[OF b, of 1 2 3] demo_labels(1) by (simp add: demo_edges_def)
      then show ?thesis using 2 by (simp add: demo_edges_def)
    next
      case 3
      have "(1, 2) \<notin> linked demo_edges 2"
        using labels_iff_linked[OF b, of 2 1 2] demo_labels(2) by (simp add: demo_edges_def)
      then show ?thesis using 3 by (simp add: demo_edges_def)
    qed
  qed
  then show ?thesis using b by (simp add: forest_edges_def edges_below_def demo_edges_def)
qed

lemma demo_edges_simps: "length demo_edges = 3" "map fst demo_edges = [0, 2, 1]" "map snd demo_edges = [1, 3, 2]"
  "demo_edges ! 0 = (0, 1)" "demo_edges ! 1 = (2, 3)" "demo_edges ! 2 = (1, 2)"
  by (simp_all add: demo_edges_def)

lemma dendrogram_correct_witness:
  "map_option dg_children (build_dendrogram_host (\<lambda>_. 7) [0, 2, 1] [1, 3, 2] ''abc'') = Some [0, 1, 2, 3, 4, 5]"
proof -
  have "[0..<3] = [0, 1, 2 :: nat]" by (simp add: upt_conv_Cons)
  then show ?thesis
    using dendrogram_correct[of demo_edges "''abc''" "\<lambda>_. 7"] demo_forest demo_labels
    by (simp add: demo_edges_simps del: One_nat_def)
qed

lemma clusters_are_components_witness:
  "\<exists>labels. extract_flattened_clusters (\<lambda>k. replicate k 9) (concat (replicate 6 [0..<6]))
      (concat (map (merge_children 4 demo_edges) [0..<3])) 2 4 = Inr labels \<and>
    length labels = 4 \<and> set labels = int ` {..<2} \<and> labels ! 0 = labels ! 1 \<and> labels ! 1 \<noteq> labels ! 2"
proof -
  have b: "edges_below 4 demo_edges" using demo_forest by (rule forest_edgesD)
  have l: "(0, 1) \<in> linked demo_edges 2" "(1, 2) \<notin> linked demo_edges 2"
    using labels_iff_linked[OF b, of 2 0 1] labels_iff_linked[OF b, of 2 1 2] demo_labels(2)
    by (simp_all add: demo_edges_simps)
  have fair: "fair_schedule 6 6 (concat (replicate 6 [0..<6]))"
    unfolding fair_schedule_def by code_simp
  show ?thesis
    using clusters_are_components[of demo_edges 2 "\<lambda>k. replicate k 9" "concat (replicate 6 [0..<6])"] demo_forest fair l
    by (auto simp: demo_edges_simps)
qed

text \<open>
  Asking for a root reads the element before the parent array, writes the root into its last element
  and, unless that read happened to give the root, makes the root its own parent: a second query of
  it would not end. \<^verbatim>\<open>build_dendrogram_host\<close> is right all the same because the union that follows
  overwrites the entry.
\<close>

lemma find_root_leaves_self_loop: "find_root par n = Some r \<Longrightarrow> n = 0 \<longrightarrow> par ! 0 \<noteq> 0"
  by (rule find_root.raw_induct[where P = "\<lambda>par n r. n = 0 \<longrightarrow> par ! 0 \<noteq> 0"]) (auto split: if_splits)

lemma find_root_self_loop: "par ! 0 = 0 \<Longrightarrow> find_root par 0 = None"
  using find_root_leaves_self_loop[of par 0] by (cases "find_root par 0") auto

lemma second_find_of_root_diverges:
  "\<exists>u. uf_find 5 (uf_init 3) 0 = Some (0, u) \<and> parent u = [0, -1, -1, -1, 0] \<and> uf_find x u 0 = None"
proof -
  have "find_root (parent (uf_init 3)) 0 = Some 0" by (simp add: uf_init_def find_root.simps)
  moreover have "compress 5 5 0 [-1, -1, -1, -1, -1] 0 = Some [0, -1, -1, -1, 0]"
    by (simp add: compress.simps parent_at_def slot_of_def numeral_eq_Suc)
  ultimately show ?thesis
    using find_root_self_loop[of "[0, -1, -1, -1, 0]"]
    by (simp add: uf_find_def uf_init_def numeral_eq_Suc)
qed

end
