(* ===== verification/TieredIndex.thy ===== *)
theory TieredIndex imports NumpyFile DenseDataset begin

text \<open>
  The tiered index (\<^verbatim>\<open>cpp/src/neighbors/detail/tiered_index.cuh\<close> and the standard-CAGRA wrappers of
  \<^verbatim>\<open>cpp/src/neighbors/tiered_index.cu\<close>): an ANN index over the first rows and exact search over the
  rows behind it, in a storage that grows and is shared between snapshots.

  The storages live in a heap, since the code shares them through \<^verbatim>\<open>shared_ptr\<close>: extending a
  snapshot may write into the storage of an older one. The upstream index, the exact search, the
  norms and the merge of two results run on the device and are the fields of the record \<open>upstream\<close>.
  A search result of one query is the list of its valid entries, each a row number and a distance.
\<close>

section \<open>What the index calls\<close>

record 'p tiered_params =
  tp_metric :: distance_type
  tp_min_ann_rows :: int
  tp_create_ann_index_on_extend :: bool
  tp_upstream :: 'p

text \<open>
  \<open>up_bf_search\<close> is the brute-force search over the given rows and norms, \<open>up_norm\<close> the norm of a row
  with or without the square root, \<open>up_merge k\<close> the merge of two results to the \<open>k\<close> smallest.
\<close>

record ('a, 'p, 'v) upstream =
  up_build :: "'p tiered_params \<Rightarrow> 'v list list \<Rightarrow> 'a"
  up_size :: "'a \<Rightarrow> nat"
  up_search :: "'a \<Rightarrow> 'v list \<Rightarrow> nat \<Rightarrow> (nat \<Rightarrow> bool) \<Rightarrow> (nat \<times> 'v) list"
  up_bf_search :: "distance_type \<Rightarrow> 'v list list \<Rightarrow> 'v list option \<Rightarrow> 'v list \<Rightarrow> nat \<Rightarrow> (nat \<Rightarrow> bool) \<Rightarrow> (nat \<times> 'v) list"
  up_norm :: "bool \<Rightarrow> 'v list \<Rightarrow> 'v"
  up_merge :: "nat \<Rightarrow> (nat \<times> 'v) list \<Rightarrow> (nat \<times> 'v) list \<Rightarrow> (nat \<times> 'v) list"

section \<open>The storage\<close>

text \<open>
  \<open>bs_rows\<close> and \<open>bs_norms\<close> are the rows in use and their norms; \<open>bs_elements\<close> is the size of the
  allocation in elements of \<^verbatim>\<open>T\<close>.
\<close>

record 'v storage =
  bs_rows :: "'v list list"
  bs_norms :: "'v list option"
  bs_num_rows_allocated :: nat
  bs_elements :: nat
  bs_dim :: nat

definition include_norms :: "'v storage \<Rightarrow> bool" where
  "include_norms s \<longleftrightarrow> bs_norms s \<noteq> None"

definition num_rows_used :: "'v storage \<Rightarrow> nat" where
  "num_rows_used s = length (bs_rows s)"

definition new_storage :: "nat \<Rightarrow> nat \<Rightarrow> nat \<Rightarrow> bool \<Rightarrow> 'v storage" where
  "new_storage sizeof_T initial_rows dim norms =
     \<lparr>bs_rows = [], bs_norms = (if norms then Some [] else None), bs_num_rows_allocated = initial_rows,
      bs_elements = initial_rows * dim * sizeof_T, bs_dim = dim\<rparr>"

definition num_rows_available :: "'v storage \<Rightarrow> nat" where
  "num_rows_available s = bs_num_rows_allocated s - num_rows_used s"

datatype tiered_error =
    InsufficientStorage | DimensionMismatch | RoaringFilter | NoAnnIndex | NoIndices | NullIndex | NoNorms
  | CopyFailed dataset_error

text \<open>A matrix is its rows and its dimension, which the rows share.\<close>

definition row_norms :: "('a, 'p, 'v) upstream \<Rightarrow> distance_type \<Rightarrow> 'v list list \<Rightarrow> 'v list" where
  "row_norms up metric rows = map (up_norm up (metric = CosineExpanded)) rows"

definition append_vectors :: "('a, 'p, 'v) upstream \<Rightarrow> 'v storage \<Rightarrow> 'v list list \<Rightarrow> nat \<Rightarrow> distance_type \<Rightarrow>
    tiered_error + 'v storage" where
  "append_vectors up s new_vectors new_dim metric =
     bind_r (expects (length new_vectors \<le> num_rows_available s) InsufficientStorage) (\<lambda>_.
     bind_r (expects (bs_dim s = new_dim) DimensionMismatch) (\<lambda>_.
       Inr (s\<lparr>bs_rows := bs_rows s @ new_vectors,
              bs_norms := map_option (\<lambda>ns. ns @ row_norms up metric new_vectors) (bs_norms s)\<rparr>)))"

section \<open>The state of an index\<close>

record ('a, 'p) index_state =
  ts_storage :: nat
  ts_ann_index :: "'a option"
  ts_build_params :: "'p tiered_params"

type_synonym 'v heap = "'v storage list"

definition storage_of :: "'v heap \<Rightarrow> ('a, 'p) index_state \<Rightarrow> 'v storage" where
  "storage_of h st = h ! ts_storage st"

definition state_size :: "'v heap \<Rightarrow> ('a, 'p) index_state \<Rightarrow> nat" where
  "state_size h st = num_rows_used (storage_of h st)"

definition state_dim :: "'v heap \<Rightarrow> ('a, 'p) index_state \<Rightarrow> nat" where
  "state_dim h st = bs_dim (storage_of h st)"

definition ann_rows :: "('a, 'p, 'v) upstream \<Rightarrow> ('a, 'p) index_state \<Rightarrow> nat" where
  "ann_rows up st = (case ts_ann_index st of None \<Rightarrow> 0 | Some a \<Rightarrow> up_size up a)"

definition bfknn_rows :: "('a, 'p, 'v) upstream \<Rightarrow> 'v heap \<Rightarrow> ('a, 'p) index_state \<Rightarrow> nat" where
  "bfknn_rows up h st = num_rows_used (storage_of h st) - ann_rows up st"

text \<open>\<^verbatim>\<open>static_cast<size_t>(min_ann_rows)\<close>, with which \<open>extend\<close> and \<open>merge\<close> compare.\<close>

definition min_ann_size :: "'p tiered_params \<Rightarrow> nat" where
  "min_ann_size params = nat (tp_min_ann_rows params mod 2 ^ 64)"

definition use_norms :: "distance_type \<Rightarrow> bool" where
  "use_norms metric \<longleftrightarrow> metric = L2Expanded \<or> metric = L2SqrtExpanded \<or> metric = CosineExpanded"

definition tiered_build :: "('a, 'p, 'v) upstream \<Rightarrow> nat \<Rightarrow> 'v heap \<Rightarrow> 'p tiered_params \<Rightarrow> 'v list list \<Rightarrow> nat \<Rightarrow>
    tiered_error + ('v heap \<times> ('a, 'p) index_state)" where
  "tiered_build up sizeof_T h params dataset dim =
     (let n = length dataset;
          initial_size = n + n div 16;
          ann = (if tp_min_ann_rows params < int n then Some (up_build up params dataset) else None)
      in bind_r (append_vectors up (new_storage sizeof_T initial_size dim (use_norms (tp_metric params)))
             dataset dim (tp_metric params)) (\<lambda>s.
           Inr (h @ [s], \<lparr>ts_storage = length h, ts_ann_index = ann, ts_build_params = params\<rparr>)))"

text \<open>Repeating on all the rows what the constructor does; nothing when the ANN index has them already.\<close>

definition compact :: "('a, 'p, 'v) upstream \<Rightarrow> 'v heap \<Rightarrow> ('a, 'p) index_state \<Rightarrow> ('a, 'p) index_state" where
  "compact up h current =
     (if num_rows_used (storage_of h current) = ann_rows up current then current
      else current\<lparr>ts_ann_index := Some (up_build up (ts_build_params current) (bs_rows (storage_of h current)))\<rparr>)"

text \<open>The storage for growing: the old one, or a copy of at least twice the rows.\<close>

definition grow :: "nat \<Rightarrow> 'v heap \<Rightarrow> ('a, 'p) index_state \<Rightarrow> nat \<Rightarrow> 'v heap \<times> ('a, 'p) index_state" where
  "grow sizeof_T h st new_rows =
     (let storage = storage_of h st in
      if num_rows_available storage < new_rows then
        (let min_needed = new_rows + num_rows_used storage;
             to_allocate = max min_needed (2 * bs_num_rows_allocated storage);
             s' = (new_storage sizeof_T to_allocate (bs_dim storage) (include_norms storage))
                    \<lparr>bs_rows := bs_rows storage, bs_norms := bs_norms storage\<rparr>
         in (h @ [s'], st\<lparr>ts_storage := length h\<rparr>))
      else (h, st))"

definition extend_index :: "('a, 'p, 'v) upstream \<Rightarrow> nat \<Rightarrow> 'v heap \<Rightarrow> ('a, 'p) index_state \<Rightarrow> 'v list list \<Rightarrow> nat \<Rightarrow>
    tiered_error + ('v heap \<times> ('a, 'p) index_state)" where
  "extend_index up sizeof_T h current new_vectors new_dim =
     bind_r (expects (new_dim = bs_dim (storage_of h current)) DimensionMismatch) (\<lambda>_.
       let (h1, next) = grow sizeof_T h current (length new_vectors) in
       bind_r (append_vectors up (storage_of h1 next) new_vectors new_dim (tp_metric (ts_build_params next))) (\<lambda>s.
         let h2 = h1[ts_storage next := s];
             params = ts_build_params next
         in Inr (h2, if tp_create_ann_index_on_extend params \<and> min_ann_size params < bfknn_rows up h2 next
                     then compact up h2 next else next)))"

text \<open>The loop of \<^verbatim>\<open>merge\<close> that copies the storages one behind the other.\<close>

fun copy_storages :: "'v storage \<Rightarrow> 'v storage list \<Rightarrow> tiered_error + 'v storage" where
  "copy_storages acc [] = Inr acc"
| "copy_storages acc (s # ss) =
     (case bs_norms acc of
        None \<Rightarrow> copy_storages (acc\<lparr>bs_rows := bs_rows acc @ bs_rows s\<rparr>) ss
      | Some ns \<Rightarrow>
          (case bs_norms s of None \<Rightarrow> Inl NoNorms
           | Some ms \<Rightarrow> copy_storages (acc\<lparr>bs_rows := bs_rows acc @ bs_rows s, bs_norms := Some (ns @ ms)\<rparr>) ss))"

text \<open>A null pointer among the indices is \<open>None\<close>.\<close>

definition merge_indices :: "('a, 'p, 'v) upstream \<Rightarrow> nat \<Rightarrow> 'v heap \<Rightarrow> 'p tiered_params \<Rightarrow>
    ('a, 'p) index_state option list \<Rightarrow> tiered_error + ('v heap \<times> ('a, 'p) index_state)" where
  "merge_indices up sizeof_T h params indices =
     bind_r (expects (indices \<noteq> []) NoIndices) (\<lambda>_.
     bind_r (expects (None \<notin> set indices) NullIndex) (\<lambda>_.
       let sts = map the indices; first = hd sts in
       if length sts = 1 then Inr (h, first)
       else
         let dim = state_dim h first in
         bind_r (expects (\<forall>st \<in> set sts. dim = state_dim h st) DimensionMismatch) (\<lambda>_.
           let bf = sum_list (map (bfknn_rows up h) sts);
               ann = sum_list (map (ann_rows up) sts) in
           if bf = 0 \<and> ann = 0 then Inr (h, first)
           else bind_r (copy_storages (new_storage sizeof_T (bf + ann) dim (include_norms (storage_of h first)))
                  (map (storage_of h) sts)) (\<lambda>s.
             let h1 = h @ [s];
                 next = first\<lparr>ts_storage := length h, ts_build_params := params\<rparr>
             in Inr (h1, if min_ann_size params < bfknn_rows up h1 next then compact up h1 next else next)))))"

section \<open>Searching\<close>

definition negate_distances :: "(nat \<times> 'v :: uminus) list \<Rightarrow> (nat \<times> 'v) list" where
  "negate_distances = map (\<lambda>(i, d). (i, - d))"

definition translate :: "nat \<Rightarrow> (nat \<times> 'v) list \<Rightarrow> (nat \<times> 'v) list" where
  "translate off = map (\<lambda>(i, d). (i + off, d))"

text \<open>One query; the filter is passed to both searches as it is.\<close>

definition search_query :: "('a, 'p, 'v :: uminus) upstream \<Rightarrow> 'v heap \<Rightarrow> ('a, 'p) index_state \<Rightarrow> nat \<Rightarrow> (nat \<Rightarrow> bool) \<Rightarrow>
    'v list \<Rightarrow> tiered_error + (nat \<times> 'v) list" where
  "search_query up h st k filt q =
     (let storage = storage_of h st;
          metric = tp_metric (ts_build_params st);
          bf_rows = drop (ann_rows up st) (bs_rows storage);
          norms_view = map_option (drop (ann_rows up st)) (bs_norms storage)
      in if bfknn_rows up h st = 0 then
           (case ts_ann_index st of None \<Rightarrow> Inl NoAnnIndex | Some a \<Rightarrow> Inr (up_search up a q k filt))
         else (case ts_ann_index st of
             None \<Rightarrow> Inr (up_bf_search up metric bf_rows norms_view q k filt)
           | Some a \<Rightarrow>
               let sign = (if is_min_close metric then id else negate_distances);
                   temp_ann = sign (up_search up a q k filt);
                   temp_bf = sign (up_bf_search up metric bf_rows norms_view q k filt)
               in Inr (sign (up_merge up k (translate 0 temp_ann) (translate (ann_rows up st) temp_bf)))))"

definition search :: "('a, 'p, 'v :: uminus) upstream \<Rightarrow> 'v heap \<Rightarrow> ('a, 'p) index_state \<Rightarrow> nat \<Rightarrow> bool \<Rightarrow> (nat \<Rightarrow> bool) \<Rightarrow>
    'v list list \<Rightarrow> tiered_error + (nat \<times> 'v) list list" where
  "search up h st k roaring filt queries =
     bind_r (expects (\<not> roaring) RoaringFilter) (\<lambda>_.
       foldr (\<lambda>q acc. bind_r (search_query up h st k filt q) (\<lambda>r. bind_r acc (\<lambda>rs. Inr (r # rs)))) queries (Inr []))"

text \<open>
  \<^verbatim>\<open>search\<close> on the tiered index over standard CAGRA: the rows are first copied into a padded dataset,
  to which the ANN index is converted. \<open>encode\<close> gives the bytes of a row of \<^verbatim>\<open>float\<close>s.
\<close>

definition search_standard :: "raft_lib \<Rightarrow> (nat \<Rightarrow> bytes) \<Rightarrow> ('v list \<Rightarrow> bytes) \<Rightarrow>
    ('a, 'p, 'v :: uminus) upstream \<Rightarrow> ('a \<Rightarrow> dense_dataset \<Rightarrow> 'a) \<Rightarrow> 'v heap \<Rightarrow> ('a, 'p) index_state \<Rightarrow> nat \<Rightarrow> bool \<Rightarrow>
    (nat \<Rightarrow> bool) \<Rightarrow> 'v list list \<Rightarrow> tiered_error + (nat \<times> 'v) list list" where
  "search_standard rl garbage encode up convert h st k roaring filt queries =
     (case ts_ann_index st of
        None \<Rightarrow> search up h st k roaring filt queries
      | Some a \<Rightarrow>
          let storage = storage_of h st;
              vectors = \<lparr>ms_rows = num_rows_used storage, ms_cols = bs_dim storage, ms_stride = bs_dim storage,
                ms_data = concat (map encode (bs_rows storage)), ms_device = True, ms_accessible = True\<rparr>
          in (case make_padded_dataset rl 4 garbage True vectors of
                Inl e \<Rightarrow> Inl (CopyFailed e)
              | Inr padded \<Rightarrow>
                  search up h (st\<lparr>ts_ann_index := Some (convert a padded)\<rparr>) k roaring filt queries))"

section \<open>Well-formed states\<close>

definition storage_ok :: "('a, 'p, 'v) upstream \<Rightarrow> distance_type \<Rightarrow> 'v storage \<Rightarrow> bool" where
  "storage_ok up metric s \<longleftrightarrow> length (bs_rows s) \<le> bs_num_rows_allocated s \<and>
     (bs_norms s = None \<or> bs_norms s = Some (row_norms up metric (bs_rows s))) \<and>
     (\<forall>row \<in> set (bs_rows s). length row = bs_dim s)"

text \<open>An ANN index holds the first rows of the storage, built with the metric of the state.\<close>

definition ann_ok :: "('a, 'p, 'v) upstream \<Rightarrow> distance_type \<Rightarrow> 'v list list \<Rightarrow> 'a \<Rightarrow> bool" where
  "ann_ok up metric rows a \<longleftrightarrow> up_size up a \<le> length rows \<and>
     (\<exists>p. tp_metric p = metric \<and> a = up_build up p (take (up_size up a) rows))"

definition state_ok :: "('a, 'p, 'v) upstream \<Rightarrow> 'v heap \<Rightarrow> ('a, 'p) index_state \<Rightarrow> bool" where
  "state_ok up h st \<longleftrightarrow> ts_storage st < length h \<and>
     storage_ok up (tp_metric (ts_build_params st)) (storage_of h st) \<and>
     (case ts_ann_index st of None \<Rightarrow> True
      | Some a \<Rightarrow> ann_ok up (tp_metric (ts_build_params st)) (bs_rows (storage_of h st)) a)"

definition up_sized :: "('a, 'p, 'v) upstream \<Rightarrow> bool" where
  "up_sized up \<longleftrightarrow> (\<forall>p rows. up_size up (up_build up p rows) = length rows)"

lemma ann_ok_append: "ann_ok up m rows a \<Longrightarrow> ann_ok up m (rows @ new) a"
  by (auto simp: ann_ok_def)

lemma ann_ok_build: "up_sized up \<Longrightarrow> tp_metric p = m \<Longrightarrow> ann_ok up m rows (up_build up p rows)"
  by (auto simp: ann_ok_def up_sized_def)

lemma append_vectors_ok:
  assumes "storage_ok up m s" "length new \<le> num_rows_available s" "bs_dim s = d" "\<forall>row \<in> set new. length row = d"
  shows "\<exists>s'. append_vectors up s new d m = Inr s' \<and> storage_ok up m s' \<and> bs_rows s' = bs_rows s @ new \<and>
    bs_dim s' = bs_dim s \<and> bs_num_rows_allocated s' = bs_num_rows_allocated s \<and> include_norms s' = include_norms s"
  using assms
  by (auto simp: append_vectors_def bind_expects storage_ok_def num_rows_available_def num_rows_used_def row_norms_def
      include_norms_def)

lemma new_storage_ok: "storage_ok up m (new_storage z n d b)"
  by (simp add: storage_ok_def new_storage_def row_norms_def)

lemma new_storage_simps [simp]:
  "bs_rows (new_storage z n d b) = []" "bs_dim (new_storage z n d b) = d"
  "bs_num_rows_allocated (new_storage z n d b) = n" "include_norms (new_storage z n d b) = b"
  by (simp_all add: new_storage_def include_norms_def)

lemma compact_ok:
  assumes "up_sized up" "state_ok up h st"
  shows "state_ok up h (compact up h st)" "bfknn_rows up h (compact up h st) = 0"
    "ts_storage (compact up h st) = ts_storage st" "ts_build_params (compact up h st) = ts_build_params st"
proof -
  show "state_ok up h (compact up h st)"
    using assms ann_ok_build[OF assms(1)] by (auto simp: compact_def state_ok_def storage_of_def)
  show "bfknn_rows up h (compact up h st) = 0"
    using assms(1) by (auto simp: compact_def bfknn_rows_def ann_rows_def up_sized_def storage_of_def num_rows_used_def)
qed (simp_all add: compact_def)

lemma grow_ok:
  assumes ok: "state_ok up h st" and g: "grow z h st n = (h1, st1)"
  shows "state_ok up h1 st1 \<and> n \<le> num_rows_available (storage_of h1 st1) \<and>
    bs_rows (storage_of h1 st1) = bs_rows (storage_of h st) \<and> bs_dim (storage_of h1 st1) = bs_dim (storage_of h st) \<and>
    include_norms (storage_of h1 st1) = include_norms (storage_of h st) \<and>
    ts_ann_index st1 = ts_ann_index st \<and> ts_build_params st1 = ts_build_params st \<and>
    take (length h) h1 = h \<and> length h \<le> length h1 \<and>
    (ts_storage st1 = ts_storage st \<and> h1 = h \<and> n \<le> num_rows_available (storage_of h st) \<or>
     ts_storage st1 = length h \<and> num_rows_available (storage_of h st) < n \<and>
     2 * bs_num_rows_allocated (storage_of h st) \<le> bs_num_rows_allocated (storage_of h1 st1))"
proof (cases "num_rows_available (storage_of h st) < n")
  case True
  have "bs_num_rows_allocated (storage_of h st) \<ge> length (bs_rows (storage_of h st))"
    using ok by (simp add: state_ok_def storage_ok_def)
  then show ?thesis
    using assms True
    by (auto simp: grow_def Let_def storage_of_def state_ok_def storage_ok_def new_storage_def include_norms_def
        num_rows_available_def num_rows_used_def nth_append split: option.splits)
next
  case False
  then show ?thesis using assms by (simp add: grow_def Let_def)
qed

lemma storage_of_update: "ts_storage st < length h \<Longrightarrow> storage_of (h[ts_storage st := s]) st = s"
  by (simp add: storage_of_def)

lemma state_ok_replace:
  assumes "state_ok up h st" "storage_ok up (tp_metric (ts_build_params st)) s" "bs_rows s = bs_rows (storage_of h st) @ new"
  shows "state_ok up (h[ts_storage st := s]) st"
proof -
  have "ts_storage st < length h" using assms(1) by (simp add: state_ok_def)
  note s = storage_of_update[OF this]
  show ?thesis
    using assms ann_ok_append unfolding state_ok_def s by (auto split: option.splits)
qed

lemma extend_correct:
  assumes sized: "up_sized up" and ok: "state_ok up h st" and d: "dim = bs_dim (storage_of h st)"
    and rows: "\<forall>row \<in> set new. length row = dim"
  shows "\<exists>h' st'. extend_index up z h st new dim = Inr (h', st') \<and> state_ok up h' st' \<and>
    bs_rows (storage_of h' st') = bs_rows (storage_of h st) @ new \<and> bs_dim (storage_of h' st') = dim \<and>
    include_norms (storage_of h' st') = include_norms (storage_of h st) \<and>
    ts_build_params st' = ts_build_params st \<and>
    (tp_create_ann_index_on_extend (ts_build_params st) \<longrightarrow>
       bfknn_rows up h' st' \<le> min_ann_size (ts_build_params st)) \<and>
    (ts_storage st' = ts_storage st \<and> length new \<le> num_rows_available (storage_of h st) \<or>
     ts_storage st' = length h \<and> num_rows_available (storage_of h st) < length new \<and>
     2 * bs_num_rows_allocated (storage_of h st) \<le> bs_num_rows_allocated (storage_of h' st')) \<and>
    (\<forall>k < length h. k \<noteq> ts_storage st' \<longrightarrow> h' ! k = h ! k)"
proof -
  obtain h1 st1 where g: "grow z h st (length new) = (h1, st1)" by fastforce
  note gr = grow_ok[OF ok g]
  have m: "tp_metric (ts_build_params st1) = tp_metric (ts_build_params st)" using gr by simp
  have sok: "storage_ok up (tp_metric (ts_build_params st1)) (storage_of h1 st1)" using gr unfolding state_ok_def by blast
  obtain s where s: "append_vectors up (storage_of h1 st1) new dim (tp_metric (ts_build_params st1)) = Inr s"
    "storage_ok up (tp_metric (ts_build_params st1)) s" "bs_rows s = bs_rows (storage_of h1 st1) @ new"
    "bs_dim s = bs_dim (storage_of h1 st1)" "bs_num_rows_allocated s = bs_num_rows_allocated (storage_of h1 st1)"
    "include_norms s = include_norms (storage_of h1 st1)"
    using append_vectors_ok[OF sok, of new dim] gr d rows by auto
  let ?h2 = "h1[ts_storage st1 := s]"
  have ok2: "state_ok up ?h2 st1" using gr by (intro state_ok_replace[OF _ s(2,3)]) simp
  have lt: "ts_storage st1 < length h1" using gr by (simp add: state_ok_def)
  have so: "storage_of ?h2 st1 = s" by (rule storage_of_update[OF lt])
  have frame: "?h2 ! k = h ! k" if "k < length h" "k \<noteq> ts_storage st1" for k
    using gr that by (metis nth_list_update_neq nth_take)
  let ?c = "tp_create_ann_index_on_extend (ts_build_params st1) \<and> min_ann_size (ts_build_params st1) < bfknn_rows up ?h2 st1"
  let ?st = "if ?c then compact up ?h2 st1 else st1"
  note c = compact_ok[OF sized ok2]
  have e: "extend_index up z h st new dim = Inr (?h2, ?st)"
    using d g s(1) by (simp add: extend_index_def bind_expects Let_def)
  have same: "ts_storage ?st = ts_storage st1" "ts_build_params ?st = ts_build_params st1" "state_ok up ?h2 ?st"
    using c ok2 by auto
  have so2: "storage_of ?h2 ?st = s" using so same(1) by (simp add: storage_of_def)
  have bf: "tp_create_ann_index_on_extend (ts_build_params st) \<longrightarrow>
      bfknn_rows up ?h2 ?st \<le> min_ann_size (ts_build_params st)"
    using gr c(2) by auto
  show ?thesis
    unfolding e using same so2 s gr d frame bf
    by (intro exI[of _ ?h2] exI[of _ ?st]) (simp only: simp_thms, auto)
qed

lemma build_correct:
  assumes sized: "up_sized up" and rows: "\<forall>row \<in> set dataset. length row = dim"
  shows "\<exists>h' st. tiered_build up z h params dataset dim = Inr (h', st) \<and> state_ok up h' st \<and>
    bs_rows (storage_of h' st) = dataset \<and> bs_dim (storage_of h' st) = dim \<and> ts_build_params st = params \<and>
    include_norms (storage_of h' st) = use_norms (tp_metric params) \<and>
    (ts_ann_index st \<noteq> None \<longleftrightarrow> tp_min_ann_rows params < int (length dataset)) \<and>
    take (length h) h' = h \<and> ts_storage st = length h"
proof -
  let ?n = "length dataset" and ?s0 = "new_storage z (length dataset + length dataset div 16) dim (use_norms (tp_metric params)) :: 'c storage"
  have "num_rows_available ?s0 = ?n + ?n div 16" by (simp add: num_rows_available_def num_rows_used_def)
  then obtain s where s: "append_vectors up ?s0 dataset dim (tp_metric params) = Inr s" "storage_ok up (tp_metric params) s"
    "bs_rows s = dataset" "bs_dim s = dim" "include_norms s = use_norms (tp_metric params)"
    using append_vectors_ok[OF new_storage_ok, of dataset z "?n + ?n div 16" dim "use_norms (tp_metric params)" dim up "tp_metric params"]
      rows by auto
  have "ann_ok up (tp_metric params) dataset (up_build up params dataset)" using ann_ok_build[OF sized] by simp
  then show ?thesis
    using s by (simp add: tiered_build_def Let_def state_ok_def storage_of_def)
qed

lemma copy_storages_ok:
  assumes "\<forall>s \<in> set ss. storage_ok up m s \<and> include_norms s = include_norms acc \<and> bs_dim s = bs_dim acc"
    and "storage_ok up m acc" "length (bs_rows acc) + sum_list (map num_rows_used ss) \<le> bs_num_rows_allocated acc"
  shows "\<exists>s'. copy_storages acc ss = Inr s' \<and> storage_ok up m s' \<and> bs_dim s' = bs_dim acc \<and>
    include_norms s' = include_norms acc \<and> bs_rows s' = bs_rows acc @ concat (map bs_rows ss)"
  using assms
proof (induction ss arbitrary: acc)
  case (Cons s ss)
  let ?acc = "acc\<lparr>bs_rows := bs_rows acc @ bs_rows s,
    bs_norms := map_option (\<lambda>_. row_norms up m (bs_rows acc @ bs_rows s)) (bs_norms acc)\<rparr>"
  have n: "bs_norms acc = None \<longleftrightarrow> bs_norms s = None" using Cons.prems(1) by (auto simp: include_norms_def)
  have step: "copy_storages acc (s # ss) = copy_storages ?acc ss"
    using n Cons.prems(1,2) by (cases acc; cases "bs_norms acc") (auto simp: storage_ok_def row_norms_def)
  have ok: "storage_ok up m ?acc"
    using Cons.prems by (auto simp: storage_ok_def num_rows_used_def)
  have i: "include_norms ?acc = include_norms acc" by (auto simp: include_norms_def)
  have len: "length (bs_rows ?acc) + sum_list (map num_rows_used ss) \<le> bs_num_rows_allocated ?acc"
    using Cons.prems(3) num_rows_used_def[of s] by (simp add: add.assoc)
  have all: "\<forall>t \<in> set ss. storage_ok up m t \<and> include_norms t = include_norms ?acc \<and> bs_dim t = bs_dim ?acc"
    using Cons.prems(1) i by simp
  obtain s' where "copy_storages ?acc ss = Inr s'" "storage_ok up m s'" "bs_dim s' = bs_dim ?acc"
    "include_norms s' = include_norms ?acc" "bs_rows s' = bs_rows ?acc @ concat (map bs_rows ss)"
    using Cons.IH[OF all ok len] by blast
  then show ?case using step i by simp
qed simp

lemma rows_split:
  assumes "state_ok up h st"
  shows "bfknn_rows up h st + ann_rows up st = num_rows_used (storage_of h st)"
proof -
  have "ann_rows up st \<le> num_rows_used (storage_of h st)"
    using assms by (auto simp: state_ok_def ann_rows_def ann_ok_def num_rows_used_def split: option.splits)
  then show ?thesis by (simp add: bfknn_rows_def)
qed

text \<open>
  C39: Merging two or more indices of one dimension and metric gives a well-formed index of all their
  rows, one index behind the other, whose exact-search part does not exceed the threshold; the
  storages of the merged indices are left as they were.
\<close>

theorem merge_correct:
  assumes sized: "up_sized up" and two: "2 \<le> length sts"
    and ok: "\<forall>st \<in> set sts. state_ok up h st \<and> tp_metric (ts_build_params st) = tp_metric params \<and>
      bs_dim (storage_of h st) = dim \<and> include_norms (storage_of h st) = b"
    and some: "\<exists>st \<in> set sts. bs_rows (storage_of h st) \<noteq> []"
  shows "\<exists>h' st'. merge_indices up z h params (map Some sts) = Inr (h', st') \<and> state_ok up h' st' \<and>
    bs_rows (storage_of h' st') = concat (map (\<lambda>st. bs_rows (storage_of h st)) sts) \<and>
    bs_dim (storage_of h' st') = dim \<and> ts_build_params st' = params \<and>
    bfknn_rows up h' st' \<le> min_ann_size params \<and> take (length h) h' = h"
proof -
  let ?first = "hd sts" and ?bf = "sum_list (map (bfknn_rows up h) sts)" and ?ann = "sum_list (map (ann_rows up) sts)"
  have first: "?first \<in> set sts" using two by (cases sts) simp_all
  have used: "?bf + ?ann = sum_list (map (\<lambda>st. num_rows_used (storage_of h st)) sts)"
  proof -
    have "\<forall>st \<in> set sts. bfknn_rows up h st + ann_rows up st = num_rows_used (storage_of h st)"
      using ok rows_split by blast
    then show ?thesis by (induction sts) (simp_all add: add.assoc add.left_commute)
  qed
  have pos: "\<not> (?bf = 0 \<and> ?ann = 0)"
  proof
    assume z: "?bf = 0 \<and> ?ann = 0"
    have "sum_list (map (\<lambda>st. num_rows_used (storage_of h st)) sts) = 0"
      unfolding used[symmetric] using z by (simp only:)
    then have "\<forall>st \<in> set sts. num_rows_used (storage_of h st) = 0" by simp
    then show False using some by (auto simp: num_rows_used_def)
  qed
  have inc: "include_norms (storage_of h ?first) = b" and d: "bs_dim (storage_of h ?first) = dim" using ok first by auto
  let ?acc = "new_storage z (?bf + ?ann) dim b :: 'c storage" and ?m = "tp_metric params"
  have all: "\<forall>s \<in> set (map (storage_of h) sts). storage_ok up ?m s \<and> include_norms s = include_norms ?acc \<and> bs_dim s = bs_dim ?acc"
    using ok by (auto simp: state_ok_def)
  have len: "length (bs_rows ?acc) + sum_list (map num_rows_used (map (storage_of h) sts)) \<le> bs_num_rows_allocated ?acc"
    using used by (simp add: comp_def)
  obtain s where s: "copy_storages ?acc (map (storage_of h) sts) = Inr s" "storage_ok up ?m s" "bs_dim s = dim"
    "bs_rows s = concat (map (\<lambda>st. bs_rows (storage_of h st)) sts)"
    using copy_storages_ok[OF all new_storage_ok len] by (auto simp: comp_def)
  let ?h1 = "h @ [s]" and ?next = "?first\<lparr>ts_storage := length h, ts_build_params := params\<rparr>"
  obtain sts' where sts: "sts = ?first # sts'" using two by (cases sts) simp_all
  have rows: "bs_rows s = bs_rows (storage_of h ?first) @ concat (map (\<lambda>st. bs_rows (storage_of h st)) sts')"
    using s(4) sts by (metis concat.simps(2) list.simps(9))
  have ok1: "state_ok up ?h1 ?next"
  proof (cases "ts_ann_index ?first")
    case None
    then show ?thesis using s(2) by (simp add: state_ok_def storage_of_def)
  next
    case (Some a)
    then have "ann_ok up ?m (bs_rows (storage_of h ?first)) a" using ok first by (auto simp: state_ok_def)
    then have "ann_ok up ?m (bs_rows s) a" unfolding rows by (rule ann_ok_append)
    then show ?thesis using Some s(2) by (simp add: state_ok_def storage_of_def)
  qed
  let ?st = "if min_ann_size params < bfknn_rows up ?h1 ?next then compact up ?h1 ?next else ?next"
  note c = compact_ok[OF sized ok1]
  have e: "merge_indices up z h params (map Some sts) = Inr (?h1, ?st)"
    using two s(1) pos inc d ok by (auto simp: merge_indices_def Let_def bind_expects comp_def state_dim_def)
  have "state_ok up ?h1 ?st" "ts_storage ?st = length h" "ts_build_params ?st = params" using c ok1 by auto
  moreover have "bfknn_rows up ?h1 ?st \<le> min_ann_size params" using c(2) by auto
  moreover have "storage_of ?h1 ?st = s" using calculation(2) by (simp add: storage_of_def)
  ultimately show ?thesis using e s(3,4) by (intro exI[of _ ?h1] exI[of _ ?st]) auto
qed

section \<open>Exact search over the two tiers\<close>

text \<open>The \<open>k\<close> nearest of a set of candidates: as many as there are, in order, and none left out is nearer.\<close>

definition is_knn :: "nat \<Rightarrow> (nat \<times> 'd :: linorder) set \<Rightarrow> (nat \<times> 'd) list \<Rightarrow> bool" where
  "is_knn k C r \<longleftrightarrow> distinct r \<and> set r \<subseteq> C \<and> length r = min k (card C) \<and> sorted (map snd r) \<and>
     (\<forall>c \<in> C - set r. \<forall>x \<in> set r. snd x \<le> snd c)"

text \<open>The nearest of two parts are the nearest of the nearest of each part.\<close>

lemma is_knn_left_out:
  assumes r1: "is_knn k C1 r1" and r: "is_knn k (set r1 \<union> R2) r" and f: "finite C1" "finite R2"
    and c: "c \<in> C1" "c \<notin> set r1" and x: "x \<in> set r"
  shows "snd x \<le> snd c"
proof (rule ccontr)
  assume "\<not> snd x \<le> snd c"
  then have gt: "snd c < snd x" by simp
  have less: "snd y \<le> snd c" if "y \<in> set r1" for y using r1 c that unfolding is_knn_def by blast
  have sub: "set r1 \<subseteq> set r"
  proof
    fix y assume y: "y \<in> set r1"
    show "y \<in> set r"
    proof (rule ccontr)
      assume "y \<notin> set r"
      then have "snd x \<le> snd y" using r x y unfolding is_knn_def by blast
      then show False using less[OF y] gt by simp
    qed
  qed
  have "card (set r1) < card C1"
    using r1 c f unfolding is_knn_def by (intro psubset_card_mono) auto
  then have k: "card (set r1) = k" using r1 unfolding is_knn_def by (simp add: distinct_card min_def split: if_splits)
  moreover have "card (set r) \<le> k" using r unfolding is_knn_def by (simp add: distinct_card)
  ultimately have "set r1 = set r" using sub by (intro card_subset_eq) (auto dest: card_mono[rotated])
  then show False using less x gt by fastforce
qed

lemma is_knn_merge:
  assumes r1: "is_knn k C1 r1" and r2: "is_knn k C2 r2" and f: "finite C1" "finite C2" and d: "C1 \<inter> C2 = {}"
    and r: "is_knn k (set r1 \<union> set r2) r"
  shows "is_knn k (C1 \<union> C2) r"
proof -
  have sub: "set r1 \<subseteq> C1" "set r2 \<subseteq> C2" "set r \<subseteq> set r1 \<union> set r2" using r1 r2 r by (simp_all add: is_knn_def)
  have "card (set r1) = min k (card C1)" "card (set r2) = min k (card C2)"
    using r1 r2 by (simp_all add: is_knn_def distinct_card)
  moreover have "card (set r1 \<union> set r2) = card (set r1) + card (set r2)" using sub d by (intro card_Un_disjoint) auto
  moreover have "card (C1 \<union> C2) = card C1 + card C2" using d f by (intro card_Un_disjoint)
  ultimately have len: "length r = min k (card (C1 \<union> C2))" using r by (simp add: is_knn_def)
  have "snd x \<le> snd c" if c: "c \<in> C1 \<union> C2" "c \<notin> set r" and x: "x \<in> set r" for c x
  proof -
    consider "c \<in> set r1 \<union> set r2" | "c \<in> C1" "c \<notin> set r1" | "c \<in> C2" "c \<notin> set r2" using c by blast
    then show ?thesis
    proof cases
      case 1
      then show ?thesis using r c x by (auto simp: is_knn_def)
    next
      case 2
      then show ?thesis using is_knn_left_out[OF r1 r f(1) _ _ _ x] by simp
    next
      case 3
      then show ?thesis using is_knn_left_out[OF r2 r[unfolded Un_commute[of "set r1"]] f(2) _ _ _ x] by simp
    qed
  qed
  then show ?thesis using len r sub by (auto simp: is_knn_def)
qed

definition candidates :: "('v list \<Rightarrow> 'v list \<Rightarrow> 'v) \<Rightarrow> 'v list \<Rightarrow> nat \<Rightarrow> 'v list list \<Rightarrow> (nat \<times> 'v) set" where
  "candidates dist q off rows = (\<lambda>i. (i + off, dist q (rows ! i))) ` {..<length rows}"

text \<open>For a similarity the larger value is the nearer one.\<close>

definition nearest :: "distance_type \<Rightarrow> nat \<Rightarrow> (nat \<times> 'v :: linordered_ab_group_add) set \<Rightarrow> (nat \<times> 'v) list \<Rightarrow> bool" where
  "nearest metric k C r \<longleftrightarrow>
     (if is_min_close metric then is_knn k C r
      else is_knn k ((\<lambda>(i, d). (i, - d)) ` C) (negate_distances r))"

text \<open>
  What the searches promise when they are exact, without a filter, for the distance \<open>dist\<close> of each
  metric, and what the merge of two results promises for disjoint row numbers.
\<close>

definition searches_exactly :: "('a, 'p, 'v :: linordered_ab_group_add) upstream \<Rightarrow>
    (distance_type \<Rightarrow> 'v list \<Rightarrow> 'v list \<Rightarrow> 'v) \<Rightarrow> bool" where
  "searches_exactly up dist \<longleftrightarrow>
     (\<forall>p rows q k. nearest (tp_metric p) k (candidates (dist (tp_metric p)) q 0 rows)
        (up_search up (up_build up p rows) q k (\<lambda>_. True))) \<and>
     (\<forall>m rows norms q k. norms = None \<or> norms = Some (row_norms up m rows) \<longrightarrow>
        nearest m k (candidates (dist m) q 0 rows) (up_bf_search up m rows norms q k (\<lambda>_. True))) \<and>
     (\<forall>k a b. fst ` set a \<inter> fst ` set b = {} \<longrightarrow> is_knn k (set a \<union> set b) (up_merge up k a b))"

lemma map_fst_shift_inj: "inj (\<lambda>(i :: nat, d). (i + off, d))"
  by (auto simp: inj_def)

lemma is_knn_translate: "is_knn k C r \<Longrightarrow> is_knn k ((\<lambda>(i, d). (i + off, d)) ` C) (translate off r)"
proof -
  assume r: "is_knn k C r"
  let ?f = "\<lambda>(i :: nat, d :: 'a). (i + off, d)"
  have s: "map snd (translate off r) = map snd r" by (simp add: translate_def comp_def split_def)
  have inj: "inj_on ?f A" for A by (rule inj_on_subset[OF map_fst_shift_inj]) simp
  have "snd x \<le> snd c" if c: "c \<in> ?f ` C" "c \<notin> set (translate off r)" and x: "x \<in> set (translate off r)" for c x
  proof -
    obtain c' x' where "c = ?f c'" "c' \<in> C" "x = ?f x'" "x' \<in> set r" using c(1) x by (auto simp: translate_def)
    moreover then have "c' \<notin> set r" using c(2) by (auto simp: translate_def)
    ultimately show ?thesis using r by (auto simp: is_knn_def split_def)
  qed
  moreover have "distinct (translate off r)" using r inj by (simp add: is_knn_def translate_def distinct_map)
  moreover have "set (translate off r) \<subseteq> ?f ` C" using r by (auto simp: is_knn_def translate_def)
  moreover have "length (translate off r) = length r" by (simp add: translate_def)
  ultimately show ?thesis
    using r card_image[OF inj, of C] by (simp add: is_knn_def s)
qed

lemma candidates_split:
  "n \<le> length rows \<Longrightarrow> candidates dist q 0 rows =
    candidates dist q 0 (take n rows) \<union> (\<lambda>(i, d). (i + n, d)) ` candidates dist q 0 (drop n rows)"
proof -
  assume n: "n \<le> length rows"
  have "{..<length rows} = {..<n} \<union> (\<lambda>i. i + n) ` {..<length rows - n}"
  proof (intro set_eqI iffI)
    fix i assume "i \<in> {..<length rows}"
    then show "i \<in> {..<n} \<union> (\<lambda>i. i + n) ` {..<length rows - n}"
      using n by (cases "i < n") (auto intro!: image_eqI[of _ _ "i - n"])
  qed (use n in auto)
  then have "candidates dist q 0 rows = (\<lambda>i. (i, dist q (rows ! i))) ` ({..<n} \<union> (\<lambda>i. i + n) ` {..<length rows - n})"
    by (simp add: candidates_def)
  also have "\<dots> = candidates dist q 0 (take n rows) \<union> (\<lambda>(i, d). (i + n, d)) ` candidates dist q 0 (drop n rows)"
    using n by (simp add: candidates_def image_Un image_image add.commute)
  finally show ?thesis .
qed

lemma candidates_below: "c \<in> candidates dist q 0 rows \<Longrightarrow> fst c < length rows"
  by (auto simp: candidates_def)

lemma finite_candidates: "finite (candidates dist q off rows)"
  by (simp add: candidates_def)

lemma negate_facts: "set (negate_distances r) = (\<lambda>(i, d). (i, - d)) ` set r"
  "negate_distances (negate_distances r) = (r :: (nat \<times> 'v :: linordered_ab_group_add) list)"
  by (simp_all add: negate_distances_def comp_def split_def)

lemma translate_facts: "translate 0 r = r" "set (translate off r) = (\<lambda>(i, d). (i + off, d)) ` set r"
  by (simp_all add: translate_def split_def)

lemma fst_disjoint: "(\<And>c. c \<in> A \<Longrightarrow> fst c < (n :: nat)) \<Longrightarrow> (\<And>c. c \<in> B \<Longrightarrow> n \<le> fst c) \<Longrightarrow> fst ` A \<inter> fst ` B = {}"
  by (fastforce dest: leD)

text \<open>The merge of the two parts, as the code does it for either kind of metric.\<close>

lemma nearest_of_parts:
  fixes rows :: "'v :: linordered_ab_group_add list list"
  assumes ex: "searches_exactly up dist" and n: "n \<le> length rows"
    and r1: "nearest m k (candidates (dist m) q 0 (take n rows)) r1"
    and r2: "nearest m k (candidates (dist m) q 0 (drop n rows)) r2"
  defines "sign \<equiv> (if is_min_close m then id else negate_distances)"
  shows "nearest m k (candidates (dist m) q 0 rows)
    (sign (up_merge up k (translate 0 (sign r1)) (translate n (sign r2))))"
proof -
  define sg :: "nat \<times> 'v \<Rightarrow> nat \<times> 'v" where "sg = (if is_min_close m then id else (\<lambda>(i, d). (i, - d)))"
  let ?f = "\<lambda>(i :: nat, d :: 'v). (i + n, d)"
  let ?C1 = "sg ` candidates (dist m) q 0 (take n rows)" and ?C2 = "sg ` candidates (dist m) q 0 (drop n rows)"
  have near: "nearest m k C (sign r) \<longleftrightarrow> is_knn k (sg ` C) r" for C and r :: "(nat \<times> 'v) list"
    by (simp add: nearest_def sg_def sign_def negate_facts)
  have near': "nearest m k C r \<longleftrightarrow> is_knn k (sg ` C) (sign r)" for C and r :: "(nat \<times> 'v) list"
    by (simp add: nearest_def sg_def sign_def)
  have fst_sg: "fst (sg c) = fst c" for c by (simp add: sg_def split_def)
  have k1: "is_knn k ?C1 (translate 0 (sign r1))" using r1 unfolding near' translate_facts .
  have k2: "is_knn k (?f ` ?C2) (translate n (sign r2))" using is_knn_translate r2 unfolding near' by blast
  have i1: "fst c < n" if "c \<in> ?C1" for c using that n fst_sg by (auto dest: candidates_below)
  have i2: "n \<le> fst c" if "c \<in> ?f ` ?C2" for c using that by auto
  have disj: "?C1 \<inter> ?f ` ?C2 = {}" using i1 i2 by (meson disjoint_iff not_le)
  have sub: "set (translate 0 (sign r1)) \<subseteq> ?C1" "set (translate n (sign r2)) \<subseteq> ?f ` ?C2"
    using k1 k2 by (simp_all add: is_knn_def)
  have "fst c < n" if "c \<in> set (translate 0 (sign r1))" for c using sub(1) i1 that by blast
  moreover have "n \<le> fst c" if "c \<in> set (translate n (sign r2))" for c by (rule i2[OF subsetD[OF sub(2) that]])
  ultimately have "fst ` set (translate 0 (sign r1)) \<inter> fst ` set (translate n (sign r2)) = {}"
    by (rule fst_disjoint)
  then have "is_knn k (set (translate 0 (sign r1)) \<union> set (translate n (sign r2)))
      (up_merge up k (translate 0 (sign r1)) (translate n (sign r2)))"
    using ex by (simp add: searches_exactly_def)
  then have "is_knn k (?C1 \<union> ?f ` ?C2) (up_merge up k (translate 0 (sign r1)) (translate n (sign r2)))"
    by (intro is_knn_merge[OF k1 k2 _ _ disj] finite_imageI finite_candidates)
  moreover have "?f ` ?C2 = sg ` ?f ` candidates (dist m) q 0 (drop n rows)"
    by (auto simp: sg_def image_image split_def)
  ultimately show ?thesis
    unfolding near candidates_split[OF n, of "dist m" q] image_Un by simp
qed

lemma search_query_exact:
  assumes ex: "searches_exactly up dist" and ok: "state_ok up h st" and some: "bs_rows (storage_of h st) \<noteq> []"
  shows "\<exists>r. search_query up h st k (\<lambda>_. True) q = Inr r \<and>
    nearest (tp_metric (ts_build_params st)) k
      (candidates (dist (tp_metric (ts_build_params st))) q 0 (bs_rows (storage_of h st))) r"
proof -
  let ?s = "storage_of h st" and ?m = "tp_metric (ts_build_params st)"
  let ?rows = "bs_rows (storage_of h st)" and ?n = "ann_rows up st"
  let ?norms = "map_option (drop (ann_rows up st)) (bs_norms (storage_of h st))"
  have "?norms = None \<or> ?norms = Some (row_norms up ?m (drop ?n ?rows))"
    using ok by (auto simp: state_ok_def storage_ok_def row_norms_def drop_map)
  then have bf: "nearest ?m k (candidates (dist ?m) q 0 (drop ?n ?rows))
      (up_bf_search up ?m (drop ?n ?rows) ?norms q k (\<lambda>_. True))"
    by (rule ex[unfolded searches_exactly_def, THEN conjunct2, THEN conjunct1, rule_format])
  show ?thesis
  proof (cases "ts_ann_index st")
    case None
    then have n: "?n = 0" "bfknn_rows up h st \<noteq> 0"
      using some by (simp_all add: ann_rows_def bfknn_rows_def num_rows_used_def)
    then show ?thesis using bf None by (simp add: search_query_def Let_def)
  next
    case (Some a)
    then obtain p where p: "tp_metric p = ?m" "a = up_build up p (take ?n ?rows)" and n: "?n \<le> length ?rows"
      using ok by (auto simp: state_ok_def ann_ok_def ann_rows_def)
    have ann: "nearest ?m k (candidates (dist ?m) q 0 (take ?n ?rows)) (up_search up a q k (\<lambda>_. True))"
      using ex p unfolding searches_exactly_def by metis
    show ?thesis
    proof (cases "bfknn_rows up h st = 0")
      case True
      then have "take ?n ?rows = ?rows" using n by (simp add: bfknn_rows_def num_rows_used_def)
      then show ?thesis using ann True Some by (simp add: search_query_def Let_def)
    next
      case False
      then show ?thesis
        using nearest_of_parts[OF ex n ann bf] Some by (simp add: search_query_def Let_def)
    qed
  qed
qed

section \<open>The life of an index\<close>

datatype 'v tiered_op = Extend "'v list list" | Compact

fun tiered_run :: "('a, 'p, 'v) upstream \<Rightarrow> nat \<Rightarrow> nat \<Rightarrow> 'v heap \<Rightarrow> ('a, 'p) index_state \<Rightarrow> 'v tiered_op list \<Rightarrow>
    tiered_error + ('v heap \<times> ('a, 'p) index_state)" where
  "tiered_run up z dim h st [] = Inr (h, st)"
| "tiered_run up z dim h st (Compact # ops) = tiered_run up z dim h (compact up h st) ops"
| "tiered_run up z dim h st (Extend new # ops) =
     bind_r (extend_index up z h st new dim) (\<lambda>(h', st'). tiered_run up z dim h' st' ops)"

fun op_rows :: "'v tiered_op \<Rightarrow> 'v list list" where
  "op_rows (Extend new) = new"
| "op_rows Compact = []"

lemma tiered_run_ok:
  assumes "up_sized up"
  shows "state_ok up h st \<Longrightarrow> bs_dim (storage_of h st) = dim \<Longrightarrow>
    \<forall>p \<in> set ops. \<forall>row \<in> set (op_rows p). length row = dim \<Longrightarrow>
    \<exists>h' st'. tiered_run up z dim h st ops = Inr (h', st') \<and> state_ok up h' st' \<and>
      ts_build_params st' = ts_build_params st \<and>
      bs_rows (storage_of h' st') = bs_rows (storage_of h st) @ concat (map op_rows ops)"
proof (induction ops arbitrary: h st)
  case (Cons p ops)
  show ?case
  proof (cases p)
    case (Extend new)
    obtain h1 st1 where e: "extend_index up z h st new dim = Inr (h1, st1)" "state_ok up h1 st1"
      "bs_rows (storage_of h1 st1) = bs_rows (storage_of h st) @ new" "bs_dim (storage_of h1 st1) = dim"
      "ts_build_params st1 = ts_build_params st"
      using extend_correct[OF assms Cons.prems(1) Cons.prems(2)[symmetric], of new z] Cons.prems(3) Extend by auto
    show ?thesis using Cons.IH[OF e(2,4)] Cons.prems(3) e Extend by auto
  next
    case Compact
    note c = compact_ok[OF assms Cons.prems(1)]
    have s: "storage_of h (compact up h st) = storage_of h st" using c(3) by (simp add: storage_of_def)
    show ?thesis using Cons.IH[OF c(1)] Cons.prems Compact s c(4) by auto
  qed
qed auto

text \<open>
  C17: An index built from a dataset and then extended and compacted in any order holds all the rows in
  the order they came, and when the upstream and the brute-force search are exact, so is its search:
  it gives the \<open>k\<close> nearest of all rows under their row numbers, for distances and similarities alike,
  wherever the border between the two tiers runs.
\<close>

theorem tiered_lifecycle:
  assumes "up_sized up" "searches_exactly up dist" "dataset \<noteq> []"
    and "\<forall>row \<in> set dataset. length row = dim" "\<forall>p \<in> set ops. \<forall>row \<in> set (op_rows p). length row = dim"
  shows "\<exists>h st r. bind_r (tiered_build up z [] params dataset dim) (\<lambda>(h, st). tiered_run up z dim h st ops) = Inr (h, st) \<and>
    bs_rows (storage_of h st) = dataset @ concat (map op_rows ops) \<and>
    search_query up h st k (\<lambda>_. True) q = Inr r \<and>
    nearest (tp_metric params) k
      (candidates (dist (tp_metric params)) q 0 (dataset @ concat (map op_rows ops))) r"
proof -
  obtain h1 st1 where b: "tiered_build up z [] params dataset dim = Inr (h1, st1)" "state_ok up h1 st1"
    "bs_rows (storage_of h1 st1) = dataset" "bs_dim (storage_of h1 st1) = dim" "ts_build_params st1 = params"
    using build_correct[OF assms(1,4), of z "[]" params] by blast
  obtain h2 st2 where r: "tiered_run up z dim h1 st1 ops = Inr (h2, st2)" "state_ok up h2 st2"
    "ts_build_params st2 = params" "bs_rows (storage_of h2 st2) = dataset @ concat (map op_rows ops)"
    using tiered_run_ok[OF assms(1) b(2,4) assms(5), of z] b(3,5) by auto
  have "bs_rows (storage_of h2 st2) \<noteq> []" using r(4) assms(3) by simp
  then show ?thesis using search_query_exact[OF assms(2) r(2), of k q] b(1) r by auto
qed

text \<open>
  C38: Extending an index of a tiered snapshot appends the new rows and keeps the exact-search part at
  or below the threshold when the index is asked to. If the rows do not fit, the storage at least
  doubles and the snapshot's own storage is untouched; if they fit, it is the one storage written.
\<close>

theorem extend_grows:
  assumes "up_sized up" "state_ok up h st" "\<forall>row \<in> set new. length row = bs_dim (storage_of h st)"
  shows "\<exists>h' st'. extend_index up z h st new (bs_dim (storage_of h st)) = Inr (h', st') \<and> state_ok up h' st' \<and>
    bs_rows (storage_of h' st') = bs_rows (storage_of h st) @ new \<and>
    (tp_create_ann_index_on_extend (ts_build_params st) \<longrightarrow> bfknn_rows up h' st' \<le> min_ann_size (ts_build_params st)) \<and>
    (\<forall>k < length h. k \<noteq> ts_storage st' \<longrightarrow> h' ! k = h ! k) \<and>
    (num_rows_available (storage_of h st) < length new \<longrightarrow> storage_of h' st = storage_of h st \<and>
       2 * bs_num_rows_allocated (storage_of h st) \<le> bs_num_rows_allocated (storage_of h' st'))"
proof -
  obtain h' st' where e: "extend_index up z h st new (bs_dim (storage_of h st)) = Inr (h', st')" "state_ok up h' st'"
    "bs_rows (storage_of h' st') = bs_rows (storage_of h st) @ new"
    "tp_create_ann_index_on_extend (ts_build_params st) \<longrightarrow> bfknn_rows up h' st' \<le> min_ann_size (ts_build_params st)"
    "ts_storage st' = ts_storage st \<and> length new \<le> num_rows_available (storage_of h st) \<or>
     ts_storage st' = length h \<and> num_rows_available (storage_of h st) < length new \<and>
     2 * bs_num_rows_allocated (storage_of h st) \<le> bs_num_rows_allocated (storage_of h' st')"
    "\<forall>k < length h. k \<noteq> ts_storage st' \<longrightarrow> h' ! k = h ! k"
    using extend_correct[OF assms(1,2) refl assms(3), of z] by blast
  have "ts_storage st < length h" using assms(2) by (simp add: state_ok_def)
  then show ?thesis using e by (intro exI[of _ h'] exI[of _ st']) (auto simp: storage_of_def)
qed

section \<open>A library the properties hold for\<close>

lemma is_knn_sort: "distinct xs \<Longrightarrow> is_knn k (set xs) (take k (sort_key snd xs))"
proof -
  assume d: "distinct xs"
  let ?ys = "sort_key snd xs"
  have s: "sorted (map snd (take k ?ys) @ map snd (drop k ?ys))"
    using sorted_sort_key[of snd xs] by (simp only: map_append[symmetric] append_take_drop_id)
  have "snd x \<le> snd c" if "c \<in> set xs - set (take k ?ys)" "x \<in> set (take k ?ys)" for c x
  proof -
    have "c \<in> set (drop k ?ys)" using that(1) set_append[of "take k ?ys" "drop k ?ys"] by auto
    then show ?thesis using s that(2) by (auto simp: sorted_append)
  qed
  moreover have "set (take k ?ys) \<subseteq> set xs" using set_take_subset[of k ?ys] by simp
  moreover have "sorted (map snd (take k ?ys))" using s by (simp add: sorted_append)
  ultimately show ?thesis using d by (simp add: is_knn_def distinct_card)
qed

definition demo_dist :: "int list \<Rightarrow> int list \<Rightarrow> int" where
  "demo_dist q row = sum_list (map (\<lambda>(a, b). \<bar>a - b\<bar>) (zip q row))"

definition demo_knn :: "distance_type \<Rightarrow> int list list \<Rightarrow> int list \<Rightarrow> nat \<Rightarrow> (nat \<Rightarrow> bool) \<Rightarrow> (nat \<times> int) list" where
  "demo_knn m rows q k filt =
     (let sign = (if is_min_close m then id else negate_distances);
          cands = filter (\<lambda>(i, d). filt i) (map (\<lambda>i. (i, demo_dist q (rows ! i))) [0..<length rows])
      in sign (take k (sort_key snd (sign cands))))"

definition demo_upstream :: "(distance_type \<times> int list list, unit, int) upstream" where
  "demo_upstream = \<lparr>up_build = (\<lambda>p rows. (tp_metric p, rows)), up_size = (\<lambda>a. length (snd a)),
     up_search = (\<lambda>a q k filt. demo_knn (fst a) (snd a) q k filt),
     up_bf_search = (\<lambda>m rows norms q k filt. demo_knn m rows q k filt),
     up_norm = (\<lambda>root row. sum_list row), up_merge = (\<lambda>k a b. take k (sort_key snd (remdups (a @ b))))\<rparr>"

lemma demo_knn_nearest: "nearest m k (candidates demo_dist q 0 rows) (demo_knn m rows q k (\<lambda>_. True))"
proof -
  let ?c = "map (\<lambda>i. (i, demo_dist q (rows ! i))) [0..<length rows]"
  have c: "set ?c = candidates demo_dist q 0 rows" by (auto simp: candidates_def)
  have d: "distinct ?c" "distinct (negate_distances ?c)"
    by (auto simp: distinct_map inj_on_def negate_distances_def)
  have f: "filter (\<lambda>(i, d). True) ?c = ?c" by (simp add: split_def)
  show ?thesis
    using is_knn_sort[OF d(1), of k] is_knn_sort[OF d(2), of k]
    unfolding demo_knn_def f nearest_def c[symmetric] by (auto simp: Let_def negate_facts)
qed

lemma demo_exact: "up_sized demo_upstream" "searches_exactly demo_upstream (\<lambda>_. demo_dist)"
proof -
  show "up_sized demo_upstream" by (simp add: up_sized_def demo_upstream_def)
  have "is_knn k (set a \<union> set b) (take k (sort_key snd (remdups (a @ b))))" for k and a b :: "(nat \<times> int) list"
    using is_knn_sort[of "remdups (a @ b)" k] by simp
  then show "searches_exactly demo_upstream (\<lambda>_. demo_dist)"
    by (simp add: searches_exactly_def demo_upstream_def demo_knn_nearest)
qed

definition demo_params :: "unit tiered_params" where
  "demo_params = \<lparr>tp_metric = L2Expanded, tp_min_ann_rows = 1, tp_create_ann_index_on_extend = False, tp_upstream = ()\<rparr>"

definition demo_start :: "int storage list \<times> (distance_type \<times> int list list, unit) index_state" where
  "demo_start = ([\<lparr>bs_rows = [[0, 0], [4, 4]], bs_norms = None, bs_num_rows_allocated = 3, bs_elements = 24, bs_dim = 2\<rparr>],
     \<lparr>ts_storage = 0, ts_ann_index = Some (L2Expanded, [[0, 0]]), ts_build_params = demo_params\<rparr>)"

lemma demo_start_ok: "state_ok demo_upstream (fst demo_start) (snd demo_start)"
  by (simp add: state_ok_def demo_start_def storage_of_def storage_ok_def ann_ok_def demo_upstream_def demo_params_def
      exI[of _ demo_params])

lemma demo_start_dim: "bs_dim (storage_of (fst demo_start) (snd demo_start)) = 2"
  by (simp add: demo_start_def storage_of_def)

theorem extend_grows_witness:
  "\<exists>h' st'. extend_index demo_upstream 4 (fst demo_start) (snd demo_start) [[1, 1], [2, 2]] 2 = Inr (h', st') \<and>
    bs_rows (storage_of h' st') = [[0, 0], [4, 4], [1, 1], [2, 2]] \<and> 6 \<le> bs_num_rows_allocated (storage_of h' st')"
  using extend_grows[OF demo_exact(1) demo_start_ok, of "[[1, 1], [2, 2]]" 4] unfolding demo_start_dim
  by (auto simp: demo_start_def storage_of_def num_rows_available_def num_rows_used_def)

theorem tiered_lifecycle_witness:
  "\<exists>h st r. bind_r (tiered_build demo_upstream 4 [] demo_params [[0, 0], [4, 4]] 2)
      (\<lambda>(h, st). tiered_run demo_upstream 4 2 h st [Extend [[1, 1]], Compact, Extend [[2, 2]]]) = Inr (h, st) \<and>
    bs_rows (storage_of h st) = [[0, 0], [4, 4], [1, 1], [2, 2]] \<and>
    search_query demo_upstream h st 2 (\<lambda>_. True) [2, 1] = Inr r \<and>
    nearest L2Expanded 2 (candidates demo_dist [2, 1] 0 [[0, 0], [4, 4], [1, 1], [2, 2]]) r"
  using tiered_lifecycle[OF demo_exact, of "[[0, 0], [4, 4]]" 2 "[Extend [[1, 1]], Compact, Extend [[2, 2]]]" 4 demo_params 2 "[2, 1]"]
  by (simp add: demo_params_def)

theorem merge_correct_witness:
  "\<exists>h' st'. merge_indices demo_upstream 4 (fst demo_start) demo_params [Some (snd demo_start), Some (snd demo_start)] = Inr (h', st') \<and>
    bs_rows (storage_of h' st') = [[0, 0], [4, 4], [0, 0], [4, 4]] \<and> state_ok demo_upstream h' st'"
  using merge_correct[OF demo_exact(1), of "[snd demo_start, snd demo_start]" "fst demo_start" demo_params 2 False 4]
    demo_start_ok demo_start_dim
  by (auto simp: demo_start_def storage_of_def demo_params_def include_norms_def)

section \<open>Searching standard CAGRA\<close>

lemma padded_stride_float: "layout_stride Padded 4 dim = dim \<longleftrightarrow> 4 dvd dim"
  by (simp add: layout_stride_def Let_def) presburger

text \<open>
  C40: Searching a tiered index over standard CAGRA that has an ANN index fails for every dimension that
  is a multiple of four: the rows already have the padded stride, and the function that copies them
  refuses such a source. For any other dimension the search is that of the index attached to a copy of
  the padded stride.
\<close>

theorem standard_search_needs_odd_width:
  assumes "raft_ok rl" "ts_ann_index st = Some a"
  shows "if 4 dvd state_dim h st
    then search_standard rl garbage encode up convert h st k roaring filt queries = Inl (CopyFailed UseView)
    else \<exists>padded. search_standard rl garbage encode up convert h st k roaring filt queries =
        search up h (st\<lparr>ts_ann_index := Some (convert a padded)\<rparr>) k roaring filt queries \<and>
      dd_rows padded = state_size h st \<and> dd_stride padded = layout_stride Padded 4 (state_dim h st)"
proof -
  have w: "cagra_required_row_width rl d 4 16 = layout_stride Padded 4 d" for d
    by (rule stride_agrees[OF raft_okD(4)[OF assms(1)]]) simp
  have ge: "d \<le> layout_stride Padded 4 d" for d by (rule layout_stride_ge) simp
  show ?thesis
    using padded_stride_float[of "state_dim h st"] ge[of "state_dim h st"] assms(2)
    by (auto simp: search_standard_def make_padded_dataset_def make_dense_row_major_dataset_from_src_def w bind_expects
        mdspan_row_stride_elements_def Let_def make_dense_array_def state_dim_def state_size_def)
qed

theorem standard_search_needs_odd_width_witness:
  "search_standard demo_raft demo_garbage (\<lambda>_. replicate 16 0) demo_upstream (\<lambda>a _. a)
     [\<lparr>bs_rows = [[0, 0, 0, 0]], bs_norms = None, bs_num_rows_allocated = 1, bs_elements = 16, bs_dim = 4\<rparr>]
     \<lparr>ts_storage = 0, ts_ann_index = Some (L2Expanded, [[0, 0, 0, 0]]), ts_build_params = demo_params\<rparr>
     1 False (\<lambda>_. True) [[1, 2, 3, 4 :: int]] = Inl (CopyFailed UseView)"
  using standard_search_needs_odd_width[OF demo_raft_ok, of
      "\<lparr>ts_storage = 0, ts_ann_index = Some (L2Expanded, [[0, 0, 0, 0]]), ts_build_params = demo_params\<rparr>"
      "(L2Expanded, [[0, 0, 0, 0]])"
      "[\<lparr>bs_rows = [[0, 0, 0, 0]], bs_norms = None, bs_num_rows_allocated = 1, bs_elements = 16, bs_dim = 4\<rparr>]"]
  by (simp add: state_dim_def storage_of_def)

section \<open>What the model shows of the code\<close>

text \<open>A bit of the filter is the row number of a part, not of the index: here only row 1 is allowed, and row 0 is found.\<close>

lemma filter_is_not_translated:
  "search_query demo_upstream (fst demo_start) (snd demo_start) 1 (\<lambda>i. i = 0) [4, 4] = Inr [(1, 0)]"
  "search_query demo_upstream (fst demo_start) (snd demo_start) 1 (\<lambda>i. i = 1) [4, 4] = Inr []"
  by (simp_all add: search_query_def demo_start_def demo_upstream_def demo_params_def storage_of_def ann_rows_def
      bfknn_rows_def num_rows_used_def demo_knn_def demo_dist_def translate_def Let_def is_min_close_def)

text \<open>An index of no rows has neither part, and \<^verbatim>\<open>search\<close> dereferences the null pointer of the ANN index.\<close>

lemma search_of_empty_index_fails:
  assumes "bs_rows (storage_of h st) = []" "ts_ann_index st = None"
  shows "search_query up h st k filt q = Inl NoAnnIndex"
  using assms by (simp add: search_query_def Let_def bfknn_rows_def num_rows_used_def)

text \<open>The constructor allocates \<^verbatim>\<open>sizeof(T)\<close> times the elements that the rows need.\<close>

lemma storage_is_over_allocated: "bs_elements (new_storage z n d b) = z * (n * d)"
  by (simp add: new_storage_def mult.commute mult.left_commute)

text \<open>While the storage has room, extending a snapshot writes into it, and an older snapshot sees the rows.\<close>

lemma extend_shows_in_old_snapshot:
  "\<exists>h' st'. extend_index demo_upstream 4 (fst demo_start) (snd demo_start) [[1, 1]] 2 = Inr (h', st') \<and>
     state_size (fst demo_start) (snd demo_start) = 2 \<and> state_size h' (snd demo_start) = 3"
  by (simp add: extend_index_def grow_def demo_start_def demo_upstream_def demo_params_def storage_of_def
      num_rows_available_def num_rows_used_def append_vectors_def state_size_def Let_def bind_expects)

end
