(* ===== verification/ByteArrays.thy ===== *)
theory ByteArrays imports Prelude begin

text \<open>
  Arrays of fixed-size elements in byte strings: slices, numbers of a given width in little-endian
  order (the memory of the code's host), what is known of a range of a file, and loops that work on
  batches of rows.
\<close>

section \<open>Slices and rows\<close>

definition slice :: "'a list \<Rightarrow> nat \<Rightarrow> nat \<Rightarrow> 'a list" where
  "slice xs off n = take n (drop off xs)"

lemma slice_concat:
  "r < n \<Longrightarrow> \<forall>k < n. length (f k) = w \<Longrightarrow> slice (concat (map f [0..<n])) (r * w) w = f r"
proof (induction n)
  case (Suc n)
  have len: "length (concat (map f [0..<m])) = m * w" if "m \<le> Suc n" for m
    using that Suc.prems(2) by (induction m) simp_all
  show ?case
  proof (cases "r = n")
    case True
    then show ?thesis using len[of n] Suc.prems(2) by (simp add: slice_def)
  next
    case False
    then have "r < n" using Suc.prems by simp
    moreover have "(r + 1) * w \<le> n * w" using \<open>r < n\<close> by (intro mult_le_mono1) simp
    ultimately show ?thesis using Suc len[of n] by (simp add: slice_def)
  qed
qed simp

lemma length_concat_rows: "\<forall>k < n. length (f k) = w \<Longrightarrow> length (concat (map f [0..<n])) = n * w"
  by (induction n) simp_all

section \<open>Arrays of four-byte elements\<close>

definition put_i32 :: "u32 \<Rightarrow> bytes" where
  "put_i32 w = map (\<lambda>k. ucast (drop_bit (8 * k) w)) [0..<4]"

definition get_i32 :: "bytes \<Rightarrow> u32" where
  "get_i32 bs = fold (\<lambda>k w. w OR push_bit (8 * k) (ucast (bs ! k))) [0..<4] 0"

definition array_bytes :: "('a \<Rightarrow> bytes) \<Rightarrow> 'a list \<Rightarrow> bytes" where
  "array_bytes put xs = concat (map put xs)"

definition array_of_bytes :: "(bytes \<Rightarrow> 'a) \<Rightarrow> bytes \<Rightarrow> 'a list" where
  "array_of_bytes get bs = map (\<lambda>i. get (slice bs (i * 4) 4)) [0..<length bs div 4]"

lemma array_roundtrip:
  assumes "\<forall>x \<in> set xs. length (put x) = 4 \<and> get (put x) = x"
  shows "array_of_bytes get (array_bytes put xs) = xs" "length (array_bytes put xs) = length xs * 4"
proof -
  have a: "array_bytes put xs = concat (map (\<lambda>i. put (xs ! i)) [0..<length xs])"
    unfolding array_bytes_def by (rule arg_cong[of _ _ concat], rule nth_equalityI) simp_all
  have four: "\<forall>k < length xs. length (put (xs ! k)) = 4" using assms by simp
  show l: "length (array_bytes put xs) = length xs * 4" unfolding a by (rule length_concat_rows[OF four])
  have "get (slice (array_bytes put xs) (i * 4) 4) = xs ! i" if "i < length xs" for i
    unfolding a slice_concat[OF that four] using assms that by simp
  then show "array_of_bytes get (array_bytes put xs) = xs"
    unfolding array_of_bytes_def l by (intro nth_equalityI) simp_all
qed

lemma i32_roundtrip: "length (put_i32 w) = 4 \<and> get_i32 (put_i32 w) = w"
proof -
  have u: "[0..<4] = [0, 1, 2, 3 :: nat]" by (simp add: upt_conv_Cons)
  have "bit (get_i32 (put_i32 w)) n = bit w n" if n: "n < 32" for n
  proof -
    have "n < 8 \<or> 8 \<le> n \<and> n < 16 \<or> 16 \<le> n \<and> n < 24 \<or> 24 \<le> n \<and> n < 32" using n by linarith
    then show ?thesis
      by (auto simp: get_i32_def put_i32_def u bit_simps)
  qed
  then show ?thesis by (auto simp: put_i32_def intro: bit_word_eqI)
qed

section \<open>Splitting\<close>

fun split_sizes :: "nat list \<Rightarrow> bytes \<Rightarrow> bytes list" where
  "split_sizes [] bs = []"
| "split_sizes (n # ns) bs = take n bs # split_sizes ns (drop n bs)"

lemma split_concat: "split_sizes (map length bs) (concat bs) = bs"
  by (induction bs) simp_all

section \<open>Numbers\<close>

fun put_uint :: "nat \<Rightarrow> nat \<Rightarrow> bytes" where
  "put_uint 0 n = []"
| "put_uint (Suc k) n = of_nat n # put_uint k (n div 256)"

fun get_uint :: "bytes \<Rightarrow> nat" where
  "get_uint [] = 0"
| "get_uint (b # bs) = unat b + 256 * get_uint bs"

lemma length_put_uint [simp]: "length (put_uint k n) = k"
  by (induction k arbitrary: n) simp_all

lemma get_put_uint: "n < 256 ^ k \<Longrightarrow> get_uint (put_uint k n) = n"
proof (induction k arbitrary: n)
  case (Suc k)
  have "unat (of_nat n :: u8) = n mod 256" by (simp add: unsigned_of_nat take_bit_eq_mod)
  moreover have "n div 256 < 256 ^ k" using Suc.prems by (simp add: less_mult_imp_div_less mult.commute)
  ultimately show ?case using Suc.IH by simp
qed simp

lemma get_put_u32 [simp]: "n < 2 ^ 32 \<Longrightarrow> get_uint (put_uint 4 n) = n"
  by (rule get_put_uint) simp

section \<open>Ranges of a file\<close>

definition read_at :: "bytes \<Rightarrow> nat \<Rightarrow> nat \<Rightarrow> bytes option" where
  "read_at f off n = (if off + n \<le> length f then Some (slice f off n) else None)"

definition holds :: "bytes \<Rightarrow> nat \<Rightarrow> bytes \<Rightarrow> bool" where
  "holds f off bs \<longleftrightarrow> off + length bs \<le> length f \<and> slice f off (length bs) = bs"

lemma read_at_holds: "holds f off bs \<Longrightarrow> n = length bs \<Longrightarrow> read_at f off n = Some bs"
  by (simp add: read_at_def holds_def)

lemma holds_nth: "holds f off bs \<longleftrightarrow> off + length bs \<le> length f \<and> (\<forall>i < length bs. f ! (off + i) = bs ! i)"
  by (auto simp: holds_def slice_def list_eq_iff_nth_eq)

lemma holds_append: "holds f off (a @ b) \<longleftrightarrow> holds f off a \<and> holds f (off + length a) b"
proof
  assume h: "holds f off (a @ b)"
  have "f ! (off + length a + i) = b ! i" if "i < length b" for i
    using h[unfolded holds_nth] that by (auto simp: add.assoc nth_append dest!: spec[of _ "length a + i"])
  then show "holds f off a \<and> holds f (off + length a) b" using h by (auto simp: holds_nth nth_append)
next
  assume h: "holds f off a \<and> holds f (off + length a) b"
  have "f ! (off + i) = (a @ b) ! i" if "i < length (a @ b)" for i
  proof (cases "i < length a")
    case False
    then have "i - length a < length b" using that by simp
    then have "f ! (off + length a + (i - length a)) = b ! (i - length a)" using h unfolding holds_nth by blast
    then show ?thesis using False by (simp add: nth_append)
  qed (use h in \<open>simp add: holds_nth nth_append\<close>)
  then show "holds f off (a @ b)" using h by (auto simp: holds_nth)
qed

lemma holds_empty [simp]: "holds f off [] \<longleftrightarrow> off \<le> length f"
  by (simp add: holds_nth)

lemma holds_part:
  assumes "holds f off bs" "k + n \<le> length bs"
  shows "holds f (off + k) (slice bs k n)"
  using assms by (auto simp: holds_nth slice_def add.assoc)

lemma holds_concat:
  assumes h: "holds f off (concat (map g [0..<n]))" and len: "\<forall>i < n. length (g i) = w" and r: "start + count \<le> n"
  shows "holds f (off + start * w) (concat (map (\<lambda>i. g (start + i)) [0..<count]))"
proof -
  have "[0..<n] = [0..<start] @ [start..<start + count] @ [start + count..<n]"
    using r upt_add_eq_append[of 0 start "n - start"] upt_add_eq_append[of start "start + count" "n - (start + count)"] by simp
  moreover have "map g [start..<start + count] = map (\<lambda>i. g (start + i)) [0..<count]"
    by (rule nth_equalityI) simp_all
  ultimately have "concat (map g [0..<n]) = concat (map g [0..<start]) @ concat (map (\<lambda>i. g (start + i)) [0..<count]) @
      concat (map g [start + count..<n])" by simp
  moreover have "length (concat (map g [0..<start])) = start * w" using len r by (intro length_concat_rows) simp
  ultimately show ?thesis using h by (simp add: holds_append)
qed

text \<open>Writing a range, and what it leaves alone.\<close>

lemma holds_overwrite: "off + length bs \<le> length f \<Longrightarrow> holds (overwrite f off bs) off bs"
  by (simp add: holds_def overwrite_def slice_def)

lemma nth_overwrite_at:
  "off + length bs \<le> length f \<Longrightarrow> i < length f \<Longrightarrow>
   overwrite f off bs ! i = (if off \<le> i \<and> i < off + length bs then bs ! (i - off) else f ! i)"
  by (auto simp: overwrite_def nth_append min_def)

lemma length_overwrite_inside: "off + length bs \<le> length f \<Longrightarrow> length (overwrite f off bs) = length f"
  by (simp add: overwrite_def)

lemma holds_overwrite_frame:
  assumes "off + length bs \<le> length f" "holds f off' bs'" "off' + length bs' \<le> off \<or> off + length bs \<le> off'"
  shows "holds (overwrite f off bs) off' bs'"
  using assms by (auto simp: holds_nth nth_overwrite_at length_overwrite_inside)

section \<open>Loops\<close>

primrec fold_r :: "('x \<Rightarrow> 's \<Rightarrow> 'e + 's) \<Rightarrow> 'x list \<Rightarrow> 's \<Rightarrow> 'e + 's" where
  "fold_r f [] s = Inr s"
| "fold_r f (x # xs) s = bind_r (f x s) (fold_r f xs)"

text \<open>\<^verbatim>\<open>for (start = 0; start < n; start += batch)\<close> with the number of rows of each round.\<close>

function batches_from :: "nat \<Rightarrow> nat \<Rightarrow> nat \<Rightarrow> (nat \<times> nat) list" where
  "batches_from b n start =
     (if start < n \<and> 0 < b then (start, min b (n - start)) # batches_from b n (start + b) else [])"
  by auto
termination by (relation "measure (\<lambda>(b, n, start). n - start)") auto

declare batches_from.simps [simp del]

definition batches :: "nat \<Rightarrow> nat \<Rightarrow> (nat \<times> nat) list" where
  "batches b n = batches_from b n 0"

text \<open>An invariant of the rows done so far, kept by every batch, holds of all of them in the end.\<close>

lemma fold_batches_from:
  assumes "0 < b"
    and step: "\<And>k c s. k + c \<le> n \<Longrightarrow> 0 < c \<Longrightarrow> Inv k s \<Longrightarrow> \<exists>s'. f (k, c) s = Inr s' \<and> Inv (k + c) s'"
  shows "start \<le> n \<Longrightarrow> Inv start s \<Longrightarrow> \<exists>s'. fold_r f (batches_from b n start) s = Inr s' \<and> Inv n s'"
proof (induction "n - start" arbitrary: start s rule: less_induct)
  case less
  show ?case
  proof (cases "start < n")
    case True
    let ?c = "min b (n - start)"
    have "start + ?c \<le> n" "0 < ?c" using True assms(1) by linarith+
    note c = this
    then obtain s' where s': "f (start, ?c) s = Inr s'" "Inv (start + ?c) s'"
      using step less.prems(2) by blast
    have "n - (start + ?c) < n - start" using c True by linarith
    note IH = less.hyps[OF this c(1) s'(2)]
    have rest: "batches_from b n (start + b) = batches_from b n (start + ?c)"
      by (cases "b \<le> n - start") (simp_all add: batches_from.simps[of b n] min_def)
    obtain s'' where s'': "fold_r f (batches_from b n (start + ?c)) s' = Inr s''" "Inv n s''"
      using IH by blast
    have "batches_from b n start = (start, ?c) # batches_from b n (start + ?c)"
      using True assms(1) rest by (simp add: batches_from.simps[of b n start])
    then show ?thesis using s' s'' by simp
  next
    case False
    then show ?thesis using less.prems by (simp add: batches_from.simps)
  qed
qed

lemma fold_batches:
  assumes "0 < b" "\<And>k c s. k + c \<le> n \<Longrightarrow> 0 < c \<Longrightarrow> Inv k s \<Longrightarrow> \<exists>s'. f (k, c) s = Inr s' \<and> Inv (k + c) s'" "Inv 0 s"
  shows "\<exists>s'. fold_r f (batches b n) s = Inr s' \<and> Inv n s'"
  unfolding batches_def using fold_batches_from[of b n Inv f 0 s] assms by simp

text \<open>An invariant that every successful step keeps.\<close>

lemma fold_r_keeps:
  assumes "\<And>x s s'. x \<in> set xs \<Longrightarrow> f x s = Inr s' \<Longrightarrow> P s \<Longrightarrow> P s'"
  shows "fold_r f xs s = Inr s' \<Longrightarrow> P s \<Longrightarrow> P s'"
  using assms
proof (induction xs arbitrary: s)
  case (Cons x xs)
  then obtain t where t: "f x s = Inr t" "fold_r f xs t = Inr s'" by (auto simp: bind_r_Inr_iff)
  then have "P t" using Cons.prems(2,3) by (meson list.set_intros(1))
  then show ?case using Cons.IH[OF t(2)] Cons.prems(3) by (meson list.set_intros(2))
qed simp

lemma fold_batches_keeps:
  assumes "0 < b" "\<And>k c s s'. k + c \<le> n \<Longrightarrow> f (k, c) s = Inr s' \<Longrightarrow> Inv k s \<Longrightarrow> Inv (k + c) s'"
  shows "fold_r f (batches b n) s = Inr s' \<Longrightarrow> Inv 0 s \<Longrightarrow> Inv n s'"
proof -
  have "fold_r f (batches_from b n k) s = Inr s' \<Longrightarrow> Inv k s \<Longrightarrow> k \<le> n \<Longrightarrow> Inv n s'" for k
  proof (induction "n - k" arbitrary: k s rule: less_induct)
    case less
    show ?case
    proof (cases "k < n")
      case True
      let ?c = "min b (n - k)"
      have rest: "batches_from b n (k + b) = batches_from b n (k + ?c)"
        by (cases "b \<le> n - k") (simp_all add: batches_from.simps[of b n] min_def)
      have "batches_from b n k = (k, ?c) # batches_from b n (k + ?c)"
        using True assms(1) rest by (simp add: batches_from.simps[of b n k])
      then obtain t where t: "f (k, ?c) s = Inr t" "fold_r f (batches_from b n (k + ?c)) t = Inr s'"
        using less.prems(1) by (auto simp: bind_r_Inr_iff)
      have c: "k + ?c \<le> n" "n - (k + ?c) < n - k" using True assms(1) by linarith+
      show ?thesis by (rule less.hyps[OF c(2) t(2) assms(2)[OF c(1) t(1) less.prems(2)] c(1)])
    next
      case False
      then show ?thesis using less.prems by (simp add: batches_from.simps)
    qed
  qed
  then show "fold_r f (batches b n) s = Inr s' \<Longrightarrow> Inv 0 s \<Longrightarrow> Inv n s'" unfolding batches_def by blast
qed

section \<open>Writing two sections batch by batch\<close>

abbreviation rows_of :: "(nat \<Rightarrow> bytes) \<Rightarrow> nat \<Rightarrow> bytes" where
  "rows_of g n \<equiv> concat (map g [0..<n])"

lemma rows_of_add: "rows_of g (k + c) = rows_of g k @ rows_of (\<lambda>i. g (k + i)) c"
proof -
  have "map g [k..<k + c] = map (\<lambda>i. g (k + i)) [0..<c]" by (rule nth_equalityI) simp_all
  then show ?thesis using upt_add_eq_append[of 0 k c] by simp
qed

text \<open>What is outside of both sections stays.\<close>

definition outside :: "nat \<Rightarrow> nat \<Rightarrow> nat \<Rightarrow> nat \<Rightarrow> nat \<Rightarrow> nat \<Rightarrow> bool" where
  "outside A a B b off n \<longleftrightarrow> off + n \<le> A \<or> A + a \<le> off \<and> off + n \<le> B \<or> B + b \<le> off"

lemma write_two_sections:
  assumes b: "0 < (b :: nat)" and len: "\<forall>i < n. length (f i) = wa" "\<forall>i < n. length (g i) = wb"
    and fit: "A + n * wa \<le> B" "B + n * wb \<le> length file"
    and wr: "\<And>k c s. k + c \<le> n \<Longrightarrow> w (k, c) s =
      Inr (overwrite (overwrite s (A + k * wa) (rows_of (\<lambda>i. f (k + i)) c)) (B + k * wb) (rows_of (\<lambda>i. g (k + i)) c))"
  shows "\<exists>file'. fold_r w (batches b n) file = Inr file' \<and> length file' = length file \<and>
    holds file' A (rows_of f n) \<and> holds file' B (rows_of g n) \<and>
    (\<forall>off bs. outside A (n * wa) B (n * wb) off (length bs) \<longrightarrow> holds file off bs \<longrightarrow> holds file' off bs)"
proof -
  define Inv where "Inv k s \<longleftrightarrow> length s = length file \<and> holds s A (rows_of f k) \<and> holds s B (rows_of g k) \<and>
    (\<forall>off bs. outside A (n * wa) B (n * wb) off (length bs) \<longrightarrow> holds file off bs \<longrightarrow> holds s off bs)" for k s
  have "\<exists>s'. w (k, c) s = Inr s' \<and> Inv (k + c) s'" if kc: "k + c \<le> n" and inv: "Inv k s" for k c s
  proof -
    let ?a = "rows_of (\<lambda>i. f (k + i)) c" and ?b = "rows_of (\<lambda>i. g (k + i)) c"
    let ?s1 = "overwrite s (A + k * wa) ?a"
    let ?s2 = "overwrite ?s1 (B + k * wb) ?b"
    have la: "length ?a = c * wa" "length (rows_of f k) = k * wa" using len(1) kc by (auto intro!: length_concat_rows)
    have lb: "length ?b = c * wb" "length (rows_of g k) = k * wb" using len(2) kc by (auto intro!: length_concat_rows)
    have ka: "k * wa + c * wa \<le> n * wa" and kb: "k * wb + c * wb \<le> n * wb"
      using kc by (metis add_mult_distrib mult_le_mono1)+
    have ls: "length s = length file" using inv by (simp add: Inv_def)
    have f1: "A + k * wa + length ?a \<le> length s" using la ka fit ls by linarith
    have l1: "length ?s1 = length s" by (rule length_overwrite_inside[OF f1])
    have f2: "B + k * wb + length ?b \<le> length ?s1" using lb kb fit ls l1 by linarith
    have l2: "length ?s2 = length file" using length_overwrite_inside[OF f2] l1 ls by simp
    have keep: "holds ?s2 off bs" if "holds s off bs"
      "off + length bs \<le> A + k * wa \<or> A + k * wa + c * wa \<le> off"
      "off + length bs \<le> B + k * wb \<or> B + k * wb + c * wb \<le> off" for off bs
      using that la lb by (intro holds_overwrite_frame[OF f2] holds_overwrite_frame[OF f1]) auto
    have "holds ?s2 A (rows_of f k)" by (rule keep) (use inv la ka fit in \<open>auto simp: Inv_def\<close>)
    moreover have "holds ?s2 (A + k * wa) ?a"
      by (rule holds_overwrite_frame[OF f2 holds_overwrite[OF f1]]) (use la ka fit in linarith)
    ultimately have A: "holds ?s2 A (rows_of f (k + c))" unfolding rows_of_add holds_append la by simp
    have "holds ?s2 B (rows_of g k)" by (rule keep) (use inv lb ka fit in \<open>auto simp: Inv_def\<close>)
    moreover have "holds ?s2 (B + k * wb) ?b" by (rule holds_overwrite[OF f2])
    ultimately have B: "holds ?s2 B (rows_of g (k + c))" unfolding rows_of_add holds_append lb by simp
    have "holds ?s2 off bs" if "outside A (n * wa) B (n * wb) off (length bs)" "holds file off bs" for off bs
      by (rule keep) (use that inv ka kb fit in \<open>auto simp: Inv_def outside_def\<close>)
    then show ?thesis using wr[OF kc] l2 A B by (auto simp: Inv_def)
  qed
  moreover have "Inv 0 file" using fit by (auto simp: Inv_def)
  ultimately have "\<exists>s'. fold_r w (batches b n) file = Inr s' \<and> Inv n s'" by (intro fold_batches[OF b]) blast+
  then show ?thesis unfolding Inv_def by blast
qed

text \<open>A loop that folds a function over the rows, read batch by batch, is the fold over all rows.\<close>

lemma fold_shift: "fold (\<lambda>i. f (k + i)) [0..<c] (fold f [0..<k] s) = fold f [0..<k + c] s"
proof -
  have "fold (\<lambda>i. f (k + i)) [0..<c] t = fold f [k..<k + c] t" for t
    by (induction c) simp_all
  then show ?thesis using upt_add_eq_append[of 0 k c] by simp
qed

lemma read_batches:
  assumes "0 < (b :: nat)"
    and "\<And>k c. k + c \<le> n \<Longrightarrow> 0 < c \<Longrightarrow> w (k, c) (fold f [0..<k] s) = Inr (fold (\<lambda>i. f (k + i)) [0..<c] (fold f [0..<k] s))"
  shows "fold_r w (batches b n) s = Inr (fold f [0..<n] s)"
proof -
  have "\<exists>s'. fold_r w (batches b n) s = Inr s' \<and> s' = fold f [0..<n] s"
    by (rule fold_batches[OF assms(1), where Inv = "\<lambda>k t. t = fold f [0..<k] s"]) (use assms(2) fold_shift in auto)
  then show ?thesis by simp
qed

text \<open>Rows scattered to distinct places are all there in the end.\<close>

lemma scatter:
  assumes "inj_on p {i. i < n \<and> P i}" "\<forall>i < n. P i \<longrightarrow> p i < length xs"
  shows "length (fold (\<lambda>i xs. if P i then xs[p i := v i] else xs) [0..<n] xs) = length xs \<and>
    (\<forall>i < n. P i \<longrightarrow> fold (\<lambda>i xs. if P i then xs[p i := v i] else xs) [0..<n] xs ! p i = v i)"
  using assms
proof (induction n)
  case (Suc n)
  have "inj_on p {i. i < n \<and> P i}" "\<forall>i < n. P i \<longrightarrow> p i < length xs" using Suc.prems by (auto simp: inj_on_def)
  note IH = Suc.IH[OF this]
  have "p n \<noteq> p i" if "i < n" "P i" "P n" for i using inj_onD[OF Suc.prems(1), of n i] that by auto
  then show ?case using IH Suc.prems(2) by (auto simp: less_Suc_eq)
qed simp

text \<open>A loop over an interval, with an invariant.\<close>

lemma fold_r_upt:
  assumes "\<And>l s. a \<le> l \<Longrightarrow> l < b \<Longrightarrow> Inv l s \<Longrightarrow> \<exists>s'. f l s = Inr s' \<and> Inv (Suc l) s'" "a \<le> b" "Inv a s"
  shows "\<exists>s'. fold_r f [a..<b] s = Inr s' \<and> Inv b s'"
  using assms(2,1,3)
proof (induction "b - a" arbitrary: a s)
  case (Suc d)
  then have "a < b" by linarith
  then obtain s' where s': "f a s = Inr s'" "Inv (Suc a) s'" using Suc.prems by blast
  have "\<exists>s''. fold_r f [Suc a..<b] s' = Inr s'' \<and> Inv b s''"
    by (rule Suc.hyps(1)) (use Suc \<open>a < b\<close> s' in auto)
  then show ?case using s' \<open>a < b\<close> by (simp add: upt_conv_Cons)
qed simp

lemma fold_r_map: "fold_r f (map g xs) s = fold_r (\<lambda>x. f (g x)) xs s"
  by (induction xs arbitrary: s) (simp_all add: bind_r_def split: sum.split)

end
