(* ===== verification/Bbq.thy ===== *)
theory Bbq imports NumpyFile ByteArrays begin

text \<open>
  BBQ codes (\<^verbatim>\<open>cpp/include/cuvs/preprocessing/quantize/bbq.hpp\<close> and the host quantizer of
  \<^verbatim>\<open>cpp/src/preprocessing/quantize/detail/bbq_cpu_quantize.hpp\<close>): code layouts, the packing of codes,
  the scalar quantizer, its cache on disk and the dataset of quantizers.

  HOL has no IEEE arithmetic, so the operations of \<^verbatim>\<open>double\<close> are the fields of the record \<open>fp\<close> over a
  type of values; a \<^verbatim>\<open>float\<close> is a value too, and an operation on \<^verbatim>\<open>float\<close>s is the one on \<^verbatim>\<open>double\<close>s,
  rounded. Arrays are lists, a matrix the list of its elements, row behind row.
\<close>

section \<open>Layouts\<close>

datatype code_layout = packed_1b | transposed_2b | transposed_4b | packed_4b | packed_7b | packed_8b

definition layout_codes :: "(code_layout \<times> nat) list" where
  "layout_codes = [(packed_1b, 0), (transposed_2b, 1), (transposed_4b, 2), (packed_4b, 3), (packed_7b, 4), (packed_8b, 5)]"

definition layout_code :: "code_layout \<Rightarrow> nat" where
  "layout_code l = the (map_of layout_codes l)"

fun get_bit_width :: "code_layout \<Rightarrow> nat" where
  "get_bit_width packed_1b = 1"
| "get_bit_width transposed_2b = 2"
| "get_bit_width transposed_4b = 4"
| "get_bit_width packed_4b = 4"
| "get_bit_width packed_7b = 7"
| "get_bit_width packed_8b = 8"

definition div_rounding_up_safe :: "nat \<Rightarrow> nat \<Rightarrow> nat" where
  "div_rounding_up_safe n d = n div d + (if n mod d = 0 then 0 else 1)"

fun get_encoded_row_length :: "nat \<Rightarrow> code_layout \<Rightarrow> nat" where
  "get_encoded_row_length dim packed_1b = div_rounding_up_safe dim 8"
| "get_encoded_row_length dim transposed_2b = 2 * div_rounding_up_safe dim 8"
| "get_encoded_row_length dim transposed_4b = 4 * div_rounding_up_safe dim 8"
| "get_encoded_row_length dim packed_4b = div_rounding_up_safe dim 2"
| "get_encoded_row_length dim packed_7b = dim"
| "get_encoded_row_length dim packed_8b = dim"

section \<open>Packing codes\<close>

definition or_at :: "nat \<Rightarrow> u8 \<Rightarrow> bytes \<Rightarrow> bytes" where
  "or_at i v out = out[i := out ! i OR v]"

definition pack_nibbles :: "bytes \<Rightarrow> nat \<Rightarrow> bytes \<Rightarrow> bytes" where
  "pack_nibbles inp dim out =
     fold (\<lambda>i out. out[i := push_bit 4 (inp ! (2 * i)) OR (inp ! (2 * i + 1) AND 0x0f)]) [0..<dim div 2] out"

definition pack_binary :: "nat \<Rightarrow> bytes \<Rightarrow> nat \<Rightarrow> bytes \<Rightarrow> bytes" where
  "pack_binary bits inp dim out =
     fold (\<lambda>d out. fold (\<lambda>b out. let position = d * bits + b in
         or_at (position div 8) (push_bit (7 - position mod 8) (drop_bit (bits - 1 - b) (inp ! d) AND 1)) out)
       [0..<bits] out) [0..<dim] out"

definition pack_planes :: "nat \<Rightarrow> bytes \<Rightarrow> nat \<Rightarrow> bytes \<Rightarrow> bytes" where
  "pack_planes bits inp dim out =
     (let stripe = (dim + 7) div 8 in
      fold (\<lambda>d out. fold (\<lambda>b out.
         or_at (b * stripe + d div 8) (push_bit (7 - d mod 8) (drop_bit b (inp ! d) AND 1)) out) [0..<bits] out) [0..<dim] out)"

text \<open>The body of the loop over the rows: \<open>inp\<close> is the row of codes, \<open>output\<close> the row of zeros it fills.\<close>

definition pack_row :: "code_layout \<Rightarrow> nat \<Rightarrow> bytes \<Rightarrow> bytes \<Rightarrow> bytes" where
  "pack_row layout dim inp output =
     (let bits = get_bit_width layout in
      if layout = packed_4b then pack_nibbles inp dim output
      else if layout = packed_1b then pack_binary bits inp dim output
      else pack_planes bits inp dim output)"

definition pack_codes :: "bytes \<Rightarrow> nat \<Rightarrow> nat \<Rightarrow> code_layout \<Rightarrow> bytes" where
  "pack_codes unpacked n_rows dim layout =
     (let row_length = get_encoded_row_length dim layout in
      if layout = packed_8b \<or> layout = packed_7b then unpacked
      else concat (map (\<lambda>row. pack_row layout dim (slice unpacked (row * dim) dim) (replicate row_length 0)) [0..<n_rows]))"

section \<open>Reading codes back\<close>

text \<open>The code of component \<open>d\<close> in a packed row, as the layouts describe it.\<close>

definition code_at :: "code_layout \<Rightarrow> nat \<Rightarrow> bytes \<Rightarrow> nat \<Rightarrow> u8" where
  "code_at layout dim row d =
     (case layout of
        packed_8b \<Rightarrow> row ! d
      | packed_7b \<Rightarrow> row ! d
      | packed_4b \<Rightarrow> if even d then drop_bit 4 (row ! (d div 2)) else row ! (d div 2) AND 0x0f
      | packed_1b \<Rightarrow> of_bool (bit (row ! (d div 8)) (7 - d mod 8))
      | _ \<Rightarrow> fold (\<lambda>b c. c OR push_bit b (of_bool (bit (row ! (b * ((dim + 7) div 8) + d div 8)) (7 - d mod 8))))
          [0..<get_bit_width layout] 0)"

lemma length_or_at [simp]: "length (or_at i v out) = length out"
  by (simp add: or_at_def)

lemma div_rounding_up:
  "div_rounding_up_safe n 8 = (n + 7) div 8" "div_rounding_up_safe n 2 = n div 2 + (if odd n then 1 else 0)"
  unfolding div_rounding_up_safe_def by presburger+

lemma and_one: "drop_bit k c AND 1 = (of_bool (bit c k) :: u8)"
  by (simp add: and_one_eq mod_2_eq_odd bit_iff_odd_drop_bit)

lemma small_code_bits: "unat (c :: u8) < 2 ^ n \<Longrightarrow> bit c k \<Longrightarrow> k < n"
proof -
  assume "unat c < 2 ^ n" "bit c k"
  then have "bit (take_bit n (unat c)) k"
    by (simp add: take_bit_nat_eq_self bit_unsigned_iff bit_imp_le_length)
  then show "k < n" by (simp add: bit_take_bit_iff)
qed

lemma nested_fold:
  "fold (\<lambda>d out. fold (\<lambda>b out. g d b out) bs out) ds out = fold (\<lambda>(d, b). g d b) (List.product ds bs) out"
  by (induction ds arbitrary: out) (simp_all add: fold_map comp_def)

text \<open>Bits written one after the other into bytes.\<close>

lemma write_bits:
  assumes "j < length out" "k < 8"
  shows "bit (fold (\<lambda>x. or_at (i x) (push_bit (p x) (of_bool (v x)))) xs out ! j) k \<longleftrightarrow>
    bit (out ! j) k \<or> (\<exists>x \<in> set xs. i x = j \<and> p x = k \<and> v x)"
  using assms(1)
proof (induction xs arbitrary: out)
  case (Cons x xs)
  have "bit (or_at (i x) (push_bit (p x) (of_bool (v x))) out ! j) k \<longleftrightarrow> bit (out ! j) k \<or> (i x = j \<and> p x = k \<and> v x)"
    using Cons.prems assms(2)
    by (cases "i x = j") (auto simp: or_at_def bit_or_iff bit_exp_iff of_bool_def)
  then show ?case using Cons by auto
qed simp

lemma length_fold_or_at: "length (fold (\<lambda>x. or_at (i x) (w x)) xs out) = length out"
  by (induction xs arbitrary: out) simp_all

lemma fold_updates:
  "n \<le> length out \<Longrightarrow> fold (\<lambda>i out. out[i := v i]) [0..<n] out = map v [0..<n] @ drop n out"
proof (induction n)
  case (Suc n)
  then have "drop n out = out ! n # drop (Suc n) out" by (simp add: Cons_nth_drop_Suc)
  then show ?case using Suc by (simp add: list_update_append)
qed simp

lemma fold_or_bits:
  "k < 8 \<Longrightarrow> bit (fold (\<lambda>b c. c OR push_bit b (of_bool (P b))) [0..<n] (0 :: u8)) k \<longleftrightarrow> k < n \<and> P k"
  by (induction n) (auto simp: bit_or_iff bit_push_bit_iff bit_of_bool_iff less_Suc_eq)

section \<open>Packing loses nothing\<close>

lemma pack_row_length: "length (pack_row layout dim inp out) = length out"
proof -
  have "length (fold (\<lambda>i out. out[i := f i]) xs out) = length out" for f :: "nat \<Rightarrow> u8" and xs
    by (induction xs arbitrary: out) simp_all
  then show ?thesis
    by (simp add: pack_row_def pack_nibbles_def pack_binary_def pack_planes_def Let_def nested_fold split_def length_fold_or_at)
qed

lemma byte_index: "d < dim \<Longrightarrow> d div 8 < (dim + 7) div (8 :: nat)"
  using div_mult_mod_eq[of "dim + 7" 8] mod_less_divisor[of 8 "dim + 7"] by (intro less_mult_imp_div_less) linarith

lemma bit_index: "7 - d' mod 8 = 7 - d mod 8 \<Longrightarrow> d' mod 8 = d mod (8 :: nat)"
  using mod_less_divisor[of 8 d] mod_less_divisor[of 8 d'] by linarith

lemma pack_planes_alt:
  "pack_planes bits inp dim out =
     fold (\<lambda>x. or_at (snd x * ((dim + 7) div 8) + fst x div 8) (push_bit (7 - fst x mod 8) (of_bool (bit (inp ! fst x) (snd x)))))
       (List.product [0..<dim] [0..<bits]) out"
  unfolding pack_planes_def Let_def and_one by (subst nested_fold) (simp only: case_prod_unfold)

lemma pack_planes_row:
  "layout = transposed_2b \<or> layout = transposed_4b \<Longrightarrow>
   pack_row layout dim inp out = pack_planes (get_bit_width layout) inp dim out"
  by (auto simp: pack_row_def)

lemma pack_row_planes:
  assumes "layout = transposed_2b \<or> layout = transposed_4b" "d < dim" "unat (inp ! d) < 2 ^ get_bit_width layout"
  shows "code_at layout dim (pack_row layout dim inp (replicate (get_encoded_row_length dim layout) 0)) d = inp ! d"
proof -
  let ?n = "get_bit_width layout" and ?s = "(dim + 7) div 8"
  let ?xs = "List.product [0..<dim] [0..<?n]"
  let ?out = "replicate (?n * ?s) (0 :: u8)"
  have len: "get_encoded_row_length dim layout = ?n * ?s" using assms(1) by (auto simp: div_rounding_up)
  have d8: "d div 8 < ?s" by (rule byte_index[OF assms(2)])
  have bits: "?n \<le> 8" using assms(1) by auto
  let ?row = "fold (\<lambda>x. or_at (snd x * ?s + fst x div 8) (push_bit (7 - fst x mod 8) (of_bool (bit (inp ! fst x) (snd x))))) ?xs ?out"
  have row: "pack_row layout dim inp ?out = ?row"
    unfolding pack_planes_row[OF assms(1)] pack_planes_alt ..
  have b: "bit (?row ! (b * ?s + d div 8)) (7 - d mod 8) \<longleftrightarrow> bit (inp ! d) b" if "b < ?n" for b
  proof -
    have "b * ?s + d div 8 < (b + 1) * ?s" using d8 by simp
    also have "\<dots> \<le> ?n * ?s" using that by (intro mult_le_mono1) simp
    finally have j: "b * ?s + d div 8 < length ?out" by simp
    have uniq: "b' = b \<and> d' = d" if "d' < dim" "b' * ?s + d' div 8 = b * ?s + d div 8" "7 - d' mod 8 = 7 - d mod 8" for b' d'
    proof -
      have d8': "d' div 8 < ?s" by (rule byte_index[OF that(1)])
      have "(b' * ?s + d' div 8) div ?s = (b * ?s + d div 8) div ?s" "(b' * ?s + d' div 8) mod ?s = (b * ?s + d div 8) mod ?s"
        using that(2) by simp_all
      then have "b' = b" "d' div 8 = d div 8" using d8 d8' by simp_all
      moreover have "d' mod 8 = d mod 8" by (rule bit_index[OF that(3)])
      ultimately show ?thesis by (metis div_mult_mod_eq)
    qed
    have k: "7 - d mod 8 < 8" by simp
    have "bit (?row ! (b * ?s + d div 8)) (7 - d mod 8) \<longleftrightarrow> (\<exists>x \<in> set ?xs. snd x * ?s + fst x div 8 = b * ?s + d div 8 \<and>
        7 - fst x mod 8 = 7 - d mod 8 \<and> bit (inp ! fst x) (snd x))"
      using write_bits[OF j k, of "\<lambda>x. snd x * ?s + fst x div 8" "\<lambda>x. 7 - fst x mod 8" "\<lambda>x. bit (inp ! fst x) (snd x)" ?xs] j
      by simp
    also have "\<dots> \<longleftrightarrow> bit (inp ! d) b"
    proof
      assume "bit (inp ! d) b"
      moreover have "(d, b) \<in> set ?xs" using assms(2) that by simp
      ultimately show "\<exists>x \<in> set ?xs. snd x * ?s + fst x div 8 = b * ?s + d div 8 \<and>
        7 - fst x mod 8 = 7 - d mod 8 \<and> bit (inp ! fst x) (snd x)" by (intro bexI[of _ "(d, b)"]) simp_all
    qed (use uniq in fastforce)
    finally show ?thesis .
  qed
  have c: "code_at layout dim row d = fold (\<lambda>b c. c OR push_bit b (of_bool (bit (row ! (b * ?s + d div 8)) (7 - d mod 8)))) [0..<?n] 0" for row
    using assms(1) by (auto simp: code_at_def)
  show ?thesis
    unfolding len row c using b small_code_bits[OF assms(3)] bits
    by (intro bit_word_eqI) (auto simp: fold_or_bits)
qed

lemma pack_binary_alt:
  "pack_row packed_1b dim inp out =
     fold (\<lambda>d. or_at (d div 8) (push_bit (7 - d mod 8) (of_bool (bit (inp ! d) 0)))) [0..<dim] out"
  by (simp add: pack_row_def pack_binary_def Let_def and_one[of 0, simplified])

lemma pack_row_binary:
  assumes "d < dim" "unat (inp ! d) < 2"
  shows "code_at packed_1b dim (pack_row packed_1b dim inp (replicate (get_encoded_row_length dim packed_1b) 0)) d = inp ! d"
proof -
  let ?out = "replicate (get_encoded_row_length dim packed_1b) (0 :: u8)"
  have j: "d div 8 < length ?out" using byte_index[OF assms(1)] by (simp add: div_rounding_up)
  have k: "7 - d mod 8 < 8" by simp
  have uniq: "d' = d" if "d' div 8 = d div 8" "7 - d' mod 8 = 7 - d mod 8" for d'
    using bit_index[OF that(2)] that(1) by (metis div_mult_mod_eq)
  have "bit (pack_row packed_1b dim inp ?out ! (d div 8)) (7 - d mod 8) \<longleftrightarrow> bit (inp ! d) 0"
    unfolding pack_binary_alt write_bits[OF j k] using j assms(1) uniq by auto
  moreover have "of_bool (bit (inp ! d) 0) = inp ! d"
    using small_code_bits[of "inp ! d" 1] assms(2) by (intro bit_word_eqI) (auto simp: bit_of_bool_iff)
  ultimately show ?thesis by (simp add: code_at_def)
qed

lemma nibble_split:
  assumes "unat (b :: u8) < 16"
  shows "drop_bit 4 (push_bit 4 a OR (b AND 0x0f)) = take_bit 4 (a :: u8)"
    "(push_bit 4 a OR (b AND 0x0f)) AND 0x0f = b"
proof -
  have m: "(0x0f :: u8) = mask 4" by (simp add: mask_eq_exp_minus_1)
  note sb = small_code_bits[of b 4] assms
  show "drop_bit 4 (push_bit 4 a OR (b AND 0x0f)) = take_bit 4 (a :: u8)" unfolding m
    by (rule bit_word_eqI) (auto simp: bit_simps)
  show "(push_bit 4 a OR (b AND 0x0f)) AND 0x0f = b" unfolding m
    by (rule bit_word_eqI) (use sb in \<open>auto simp: bit_simps\<close>)
qed

lemma pack_row_nibbles:
  assumes "d < dim" "\<forall>i < dim. unat (inp ! i) < 16"
  shows "code_at packed_4b dim (pack_row packed_4b dim inp (replicate (get_encoded_row_length dim packed_4b) 0)) d =
    (if odd dim \<and> d = dim - 1 then 0 else inp ! d)"
proof -
  let ?f = "\<lambda>i. push_bit 4 (inp ! (2 * i)) OR (inp ! (2 * i + 1) AND 0x0f) :: u8"
  let ?L = "dim div 2 + (if odd dim then 1 else 0)"
  have row: "pack_row packed_4b dim inp (replicate (get_encoded_row_length dim packed_4b) 0) =
      map ?f [0..<dim div 2] @ drop (dim div 2) (replicate ?L 0)"
    unfolding pack_row_def pack_nibbles_def by (simp only: Let_def simp_thms if_True get_encoded_row_length.simps
        div_rounding_up) (rule fold_updates, simp)
  show ?thesis
  proof (cases "odd dim \<and> d = dim - 1")
    case True
    then have "even d" "d div 2 = dim div 2" using assms(1) by auto presburger
    moreover have "(0 # replicate n 0) ! n = (0 :: u8)" for n by (induction n) simp_all
    ultimately show ?thesis unfolding row code_at_def using True by (simp add: nth_append)
  next
    case False
    then have h: "d div 2 < dim div 2" using assms(1) by presburger
    then have n: "2 * (d div 2) < dim" "2 * (d div 2) + 1 < dim" by auto
    have r: "(map ?f [0..<dim div 2] @ drop (dim div 2) (replicate ?L 0)) ! (d div 2) = ?f (d div 2)"
      using h by (simp add: nth_append)
    note ns = nibble_split[of "inp ! (2 * (d div 2) + 1)" "inp ! (2 * (d div 2))"]
    have t: "take_bit 4 (inp ! (2 * (d div 2))) = inp ! (2 * (d div 2))"
      using assms(2) n(1) by (intro bit_word_eqI) (auto simp: bit_take_bit_iff dest: small_code_bits[of _ 4, simplified])
    show ?thesis
    proof (cases "even d")
      case True
      then have "2 * (d div 2) = d" by simp
      then show ?thesis unfolding row code_at_def code_layout.case r using True False ns(1) t assms(2) n(2) by auto
    next
      case odd: False
      then have "2 * (d div 2) + 1 = d" by simp
      then show ?thesis unfolding row code_at_def code_layout.case r using odd False ns(2) assms(2) n(2) by auto
    qed
  qed
qed

lemma pack_row_roundtrip:
  assumes "d < dim" "\<forall>i < dim. unat (inp ! i) < 2 ^ get_bit_width layout" "layout \<noteq> packed_7b" "layout \<noteq> packed_8b"
  shows "code_at layout dim (pack_row layout dim inp (replicate (get_encoded_row_length dim layout) 0)) d =
    (if layout = packed_4b \<and> odd dim \<and> d = dim - 1 then 0 else inp ! d)"
proof (cases layout)
  case packed_1b
  then show ?thesis using pack_row_binary[of d dim inp] assms(1,2) by simp
next
  case transposed_2b
  then show ?thesis using pack_row_planes[of layout d dim inp] assms(1,2) by simp
next
  case transposed_4b
  then show ?thesis using pack_row_planes[of layout d dim inp] assms(1,2) by simp
next
  case packed_4b
  then show ?thesis using pack_row_nibbles[of d dim inp] assms(1,2) by simp
qed (use assms(3,4) in auto)

text \<open>
  C21: Packing the codes of a matrix gives the encoded row length of the layout per row, and each
  component of each row can be read back from where the layout puts it, in every layout. The exception
  is \<open>packed_4b\<close> with an odd dimension, whose last component is never written.
\<close>

theorem pack_codes_roundtrip:
  assumes "length unpacked = n_rows * dim" "\<forall>c \<in> set unpacked. unat c < 2 ^ get_bit_width layout"
    and "r < n_rows" "d < dim"
  shows "length (pack_codes unpacked n_rows dim layout) = n_rows * get_encoded_row_length dim layout \<and>
    code_at layout dim (slice (pack_codes unpacked n_rows dim layout)
        (r * get_encoded_row_length dim layout) (get_encoded_row_length dim layout)) d =
      (if layout = packed_4b \<and> odd dim \<and> d = dim - 1 then 0 else unpacked ! (r * dim + d))"
proof -
  have "(r + 1) * dim \<le> n_rows * dim" using assms(3) by (intro mult_le_mono1) simp
  then have fit: "r * dim + dim \<le> length unpacked" using assms(1) by simp
  then have inp: "slice unpacked (r * dim) dim ! d' = unpacked ! (r * dim + d')" if "d' < dim" for d'
    using that by (simp add: slice_def)
  show ?thesis
  proof (cases "layout = packed_8b \<or> layout = packed_7b")
    case True
    then show ?thesis using inp[OF assms(4)] assms(1)
      by (elim disjE) (simp_all add: pack_codes_def Let_def code_at_def)
  next
    case False
    let ?w = "get_encoded_row_length dim layout"
    let ?f = "\<lambda>row. pack_row layout dim (slice unpacked (row * dim) dim) (replicate ?w 0)"
    have p: "pack_codes unpacked n_rows dim layout = concat (map ?f [0..<n_rows])"
      using False by (simp add: pack_codes_def Let_def)
    have len: "\<forall>k < n_rows. length (?f k) = ?w" by (simp add: pack_row_length)
    have small: "\<forall>i < dim. unat (slice unpacked (r * dim) dim ! i) < 2 ^ get_bit_width layout"
      using inp fit assms(2) by simp
    show ?thesis
      unfolding p slice_concat[OF assms(3) len] using length_concat_rows[OF len] inp[OF assms(4)]
        pack_row_roundtrip[OF assms(4) small] False by simp
  qed
qed

theorem pack_codes_roundtrip_witness:
  "code_at transposed_2b 3 (slice (pack_codes [1, 2, 3, 0, 3, 1] 2 3 transposed_2b) 2 2) 1 = 3"
  using pack_codes_roundtrip[of "[1, 2, 3, 0, 3, 1]" 2 3 transposed_2b 1 1] by (simp add: div_rounding_up)

lemma packed_4b_drops_last: "pack_codes [5, 6, 7] 1 3 packed_4b = [0x56, 0]"
  by (simp add: pack_codes_def pack_row_def pack_nibbles_def Let_def slice_def div_rounding_up_safe_def)

section \<open>Floating-point operations\<close>

text \<open>
  \<open>fp_single\<close> rounds a \<^verbatim>\<open>double\<close> to a \<^verbatim>\<open>float\<close>, \<open>fp_lit n k\<close> and \<open>fp_lit_single n k\<close> are the literals of
  value \<open>n / 10 ^ k\<close>, \<open>fp_to_long\<close> is the conversion to \<^verbatim>\<open>long\<close>, \<open>fp_bytes\<close> the four bytes of a \<^verbatim>\<open>float\<close>.
\<close>

record 'f fp =
  fp_add :: "'f \<Rightarrow> 'f \<Rightarrow> 'f"
  fp_sub :: "'f \<Rightarrow> 'f \<Rightarrow> 'f"
  fp_mul :: "'f \<Rightarrow> 'f \<Rightarrow> 'f"
  fp_div :: "'f \<Rightarrow> 'f \<Rightarrow> 'f"
  fp_lt :: "'f \<Rightarrow> 'f \<Rightarrow> bool"
  fp_eq :: "'f \<Rightarrow> 'f \<Rightarrow> bool"
  fp_abs :: "'f \<Rightarrow> 'f"
  fp_sqrt :: "'f \<Rightarrow> 'f"
  fp_floor :: "'f \<Rightarrow> 'f"
  fp_finite :: "'f \<Rightarrow> bool"
  fp_single :: "'f \<Rightarrow> 'f"
  fp_of_int :: "int \<Rightarrow> 'f"
  fp_single_of_int :: "int \<Rightarrow> 'f"
  fp_lit :: "int \<Rightarrow> nat \<Rightarrow> 'f"
  fp_lit_single :: "int \<Rightarrow> nat \<Rightarrow> 'f"
  fp_flt_max :: 'f
  fp_neg :: "'f \<Rightarrow> 'f"
  fp_to_long :: "'f \<Rightarrow> int"
  fp_bytes :: "'f \<Rightarrow> bytes"
  fp_of_bytes :: "bytes \<Rightarrow> 'f"

definition f_add :: "'f fp \<Rightarrow> 'f \<Rightarrow> 'f \<Rightarrow> 'f" where
  "f_add fp x y = fp_single fp (fp_add fp x y)"

definition f_sub :: "'f fp \<Rightarrow> 'f \<Rightarrow> 'f \<Rightarrow> 'f" where
  "f_sub fp x y = fp_single fp (fp_sub fp x y)"

definition f_mul :: "'f fp \<Rightarrow> 'f \<Rightarrow> 'f \<Rightarrow> 'f" where
  "f_mul fp x y = fp_single fp (fp_mul fp x y)"

definition f_div :: "'f fp \<Rightarrow> 'f \<Rightarrow> 'f \<Rightarrow> 'f" where
  "f_div fp x y = fp_single fp (fp_div fp x y)"

text \<open>\<^verbatim>\<open>std::min\<close> and \<^verbatim>\<open>std::max\<close>, which keep the first argument unless the second compares past it.\<close>

definition fp_min :: "'f fp \<Rightarrow> 'f \<Rightarrow> 'f \<Rightarrow> 'f" where
  "fp_min fp x y = (if fp_lt fp y x then y else x)"

definition fp_max :: "'f fp \<Rightarrow> 'f \<Rightarrow> 'f \<Rightarrow> 'f" where
  "fp_max fp x y = (if fp_lt fp x y then y else x)"

section \<open>The scalar quantizer\<close>

definition minimum_mse_grid :: "(int \<times> int) list" where
  "minimum_mse_grid = [(-798, 798), (-1493, 1493), (-2051, 2051), (-2514, 2514), (-2916, 2916), (-3278, 3278),
     (-3611, 3611), (-3922, 3922)]"

definition round_half_up :: "'f fp \<Rightarrow> 'f \<Rightarrow> int" where
  "round_half_up fp x = fp_to_long fp (fp_floor fp (fp_add fp x (fp_lit fp 5 1)))"

definition clamp :: "'f fp \<Rightarrow> 'f \<Rightarrow> 'f \<Rightarrow> 'f \<Rightarrow> 'f" where
  "clamp fp x a b = fp_min fp (fp_max fp x a) b"

definition loss :: "'f fp \<Rightarrow> 'f list \<Rightarrow> 'f \<times> 'f \<Rightarrow> nat \<Rightarrow> 'f \<Rightarrow> 'f \<Rightarrow> 'f" where
  "loss fp vector interval points norm2 lambda =
     (let a = fst interval;
          b = snd interval;
          one = fp_lit fp 1 0;
          step = fp_div fp (fp_sub fp b a) (fp_sub fp (fp_of_int fp (int points)) one);
          step_inv = fp_div fp one step;
          (xe, e) = fold (\<lambda>xi (xe, e).
            let xiq = fp_add fp a (fp_mul fp step (fp_of_int fp
                  (round_half_up fp (fp_mul fp (fp_sub fp (clamp fp xi a b) a) step_inv))));
                err = fp_sub fp xi xiq
            in (fp_add fp xe (fp_mul fp xi err), fp_add fp e (fp_mul fp err err))) vector (fp_lit fp 0 0, fp_lit fp 0 0)
      in fp_add fp (fp_div fp (fp_mul fp (fp_mul fp (fp_sub fp one lambda) xe) xe) norm2) (fp_mul fp lambda e))"

text \<open>One iteration of \<^verbatim>\<open>optimize_intervals\<close>; \<open>None\<close> is its early return.\<close>

definition optimize_step :: "'f fp \<Rightarrow> 'f list \<Rightarrow> 'f \<Rightarrow> nat \<Rightarrow> 'f \<Rightarrow> 'f \<Rightarrow> ('f \<times> 'f) \<times> 'f \<Rightarrow> (('f \<times> 'f) \<times> 'f) option" where
  "optimize_step fp vector norm2 points lambda scale = (\<lambda>(interval, initial_loss).
     let a = fst interval;
         b = snd interval;
         one = fp_lit fp 1 0;
         zero = fp_lit fp 0 0;
         step_inv = f_div fp (f_sub fp (fp_single_of_int fp (int points)) (fp_lit_single fp 1 0)) (f_sub fp b a);
         (daa, dab, dbb, dax, dbx) = fold (\<lambda>xi (daa, dab, dbb, dax, dbx).
           let k = fp_single_of_int fp (round_half_up fp (fp_single fp (fp_mul fp (fp_sub fp (clamp fp xi a b) a) step_inv)));
               s = f_div fp k (fp_single_of_int fp (int points - 1));
               r = fp_sub fp one s
           in (fp_add fp daa (fp_mul fp r r), fp_add fp dab (fp_mul fp r s), fp_add fp dbb (f_mul fp s s),
               fp_add fp dax (fp_mul fp xi r), fp_add fp dbx (f_mul fp xi s))) vector (zero, zero, zero, zero, zero);
         m0 = fp_add fp (fp_mul fp (fp_mul fp scale dax) dax) (fp_mul fp lambda daa);
         m1 = fp_add fp (fp_mul fp (fp_mul fp scale dax) dbx) (fp_mul fp lambda dab);
         m2 = fp_add fp (fp_mul fp (fp_mul fp scale dbx) dbx) (fp_mul fp lambda dbb);
         det = fp_sub fp (fp_mul fp m0 m2) (fp_mul fp m1 m1)
     in if fp_eq fp det zero then None
        else
          let a_opt = fp_single fp (fp_div fp (fp_sub fp (fp_mul fp m2 dax) (fp_mul fp m1 dbx)) det);
              b_opt = fp_single fp (fp_div fp (fp_sub fp (fp_mul fp m0 dbx) (fp_mul fp m1 dax)) det);
              tiny = fp_lit fp 1 8
          in if fp_lt fp (fp_abs fp (f_sub fp a a_opt)) tiny \<and> fp_lt fp (fp_abs fp (f_sub fp b b_opt)) tiny then None
             else let new_loss = loss fp vector (a_opt, b_opt) points norm2 lambda
                  in if fp_lt fp initial_loss new_loss then None else Some ((a_opt, b_opt), new_loss))"

fun optimize_loop :: "(('f \<times> 'f) \<times> 'f \<Rightarrow> (('f \<times> 'f) \<times> 'f) option) \<Rightarrow> nat \<Rightarrow> ('f \<times> 'f) \<times> 'f \<Rightarrow> 'f \<times> 'f" where
  "optimize_loop step 0 st = fst st"
| "optimize_loop step (Suc iters) st = (case step st of None \<Rightarrow> fst st | Some st' \<Rightarrow> optimize_loop step iters st')"

definition optimize_intervals :: "'f fp \<Rightarrow> 'f \<times> 'f \<Rightarrow> 'f list \<Rightarrow> 'f \<Rightarrow> nat \<Rightarrow> 'f \<times> 'f" where
  "optimize_intervals fp interval vector norm2 points =
     (let lambda = fp_lit_single fp 1 1;
          iters = 5;
          initial_loss = loss fp vector interval points norm2 lambda;
          scale = f_div fp (f_sub fp (fp_lit_single fp 1 0) lambda) norm2
      in if \<not> fp_finite fp scale then interval
         else optimize_loop (optimize_step fp vector norm2 points lambda scale) iters (interval, initial_loss))"

record 'f row_result =
  rr_lower_interval :: 'f
  rr_upper_interval :: 'f
  rr_additional_correction :: 'f
  rr_quantized_component_sum :: u32

text \<open>The state of the first loop of \<^verbatim>\<open>scalar_quantize\<close>; \<open>sc_vector\<close> are the components centred so far.\<close>

record 'f scan =
  sc_vector :: "'f list"
  sc_mean :: 'f
  sc_var :: 'f
  sc_norm2 :: 'f
  sc_centroid_dot :: 'f
  sc_min :: 'f
  sc_max :: 'f

definition scan_step :: "'f fp \<Rightarrow> bool \<Rightarrow> 'f list \<Rightarrow> 'f list \<Rightarrow> nat \<Rightarrow> 'f scan \<Rightarrow> 'f scan" where
  "scan_step fp euclidean vector centroid i s =
     (let v = f_sub fp (vector ! i) (centroid ! i);
          delta = fp_sub fp v (sc_mean s);
          mean = fp_add fp (sc_mean s) (fp_div fp delta (fp_of_int fp (int i + 1)))
      in \<lparr>sc_vector = sc_vector s @ [v], sc_mean = mean,
          sc_var = fp_add fp (sc_var s) (fp_mul fp delta (fp_sub fp v mean)),
          sc_norm2 = f_add fp (sc_norm2 s) (f_mul fp v v),
          sc_centroid_dot = (if euclidean then sc_centroid_dot s
            else f_add fp (sc_centroid_dot s) (f_mul fp (vector ! i) (centroid ! i))),
          sc_min = fp_min fp (sc_min s) v, sc_max = fp_max fp (sc_max s) v\<rparr>)"

definition scan_start :: "'f fp \<Rightarrow> 'f scan" where
  "scan_start fp = \<lparr>sc_vector = [], sc_mean = fp_lit fp 0 0, sc_var = fp_lit fp 0 0, sc_norm2 = fp_lit_single fp 0 0,
     sc_centroid_dot = fp_lit_single fp 0 0, sc_min = fp_flt_max fp, sc_max = fp_neg fp (fp_flt_max fp)\<rparr>"

text \<open>The result, and the codes written to \<^verbatim>\<open>destination\<close>; the centred vector is discarded by the caller.\<close>

definition scalar_quantize :: "'f fp \<Rightarrow> 'f list \<Rightarrow> nat \<Rightarrow> 'f list \<Rightarrow> bool \<Rightarrow> bytes \<times> 'f row_result" where
  "scalar_quantize fp vector bits centroid euclidean =
     (let n = length vector;
          points = 2 ^ bits;
          s = fold (scan_step fp euclidean vector centroid) [0..<n] (scan_start fp);
          vec_std = fp_sqrt fp (fp_div fp (sc_var s) (fp_of_int fp (int n)));
          edge = (\<lambda>g. fp_single fp (clamp fp
            (fp_add fp (fp_mul fp (fp_lit_single fp (g (minimum_mse_grid ! (bits - 1))) 3) vec_std) (sc_mean s))
            (sc_min s) (sc_max s)));
          interval = optimize_intervals fp (edge fst, edge snd) (sc_vector s) (sc_norm2 s) points;
          a = fst interval;
          b = snd interval;
          step = f_div fp (f_sub fp b a) (fp_single_of_int fp (2 ^ bits - 1));
          assign = (\<lambda>x. word_of_int (round_half_up fp (f_div fp (f_sub fp (fp_single fp (clamp fp x a b)) a) step)) :: u32);
          assignments = map assign (sc_vector s)
      in (map ucast assignments,
          \<lparr>rr_lower_interval = a, rr_upper_interval = b,
           rr_additional_correction = (if euclidean then sc_norm2 s else sc_centroid_dot s),
           rr_quantized_component_sum = sum_list assignments\<rparr>))"

section \<open>Quantizing a matrix\<close>

text \<open>
  The arrays of a quantizer. The host staging type, the owning device type and its view have the same
  members, so one record stands for all three; \<open>qz_rows\<close> is the first extent of the matrix of codes.
\<close>

record 'f quantizer =
  qz_rows :: nat
  qz_codes :: bytes
  qz_lower_intervals :: "'f list"
  qz_upper_intervals :: "'f list"
  qz_additional_corrections :: "'f list"
  qz_quantized_component_sums :: "u32 list"
  qz_centroid :: "'f list"
  qz_dequant_delta :: "'f list"
  qz_dequant_sum_delta :: "'f list"
  qz_row_norm :: "'f list"
  qz_layout :: code_layout
  qz_metric :: distance_type
  qz_centroid_norm_sq :: 'f

definition derive_dequant_factors :: "'f fp \<Rightarrow> 'f quantizer \<Rightarrow> 'f quantizer" where
  "derive_dequant_factors fp q =
     (let scale = f_div fp (fp_lit_single fp 1 0) (fp_single_of_int fp (2 ^ get_bit_width (qz_layout q) - 1));
          deltas = map (\<lambda>(u, l). f_mul fp (f_sub fp u l) scale) (zip (qz_upper_intervals q) (qz_lower_intervals q))
      in q\<lparr>qz_dequant_delta := deltas,
           qz_dequant_sum_delta := map (\<lambda>(d, s). f_mul fp d (fp_single_of_int fp (sint s)))
             (zip deltas (qz_quantized_component_sums q))\<rparr>)"

definition float_sum_sq :: "'f fp \<Rightarrow> 'f list \<Rightarrow> 'f" where
  "float_sum_sq fp xs = fold (\<lambda>x acc. f_add fp acc (f_mul fp x x)) xs (fp_lit_single fp 0 0)"

definition centroid_of :: "'f fp \<Rightarrow> 'f list \<Rightarrow> nat \<Rightarrow> nat \<Rightarrow> 'f list" where
  "centroid_of fp data n_rows dim =
     map (\<lambda>d. f_div fp (fold (\<lambda>i acc. f_add fp acc (data ! (i * dim + d))) [0..<n_rows] (fp_lit_single fp 0 0))
       (fp_single_of_int fp (int n_rows))) [0..<dim]"

definition quantize :: "'f fp \<Rightarrow> 'f list \<Rightarrow> nat \<Rightarrow> nat \<Rightarrow> distance_type \<Rightarrow> code_layout \<Rightarrow> 'f quantizer" where
  "quantize fp data n_rows dim metric layout =
     (let bits = get_bit_width layout;
          euclidean = (metric = L2Expanded \<or> metric = L2SqrtExpanded);
          centroid = centroid_of fp data n_rows dim;
          row = (\<lambda>i. slice data (i * dim) dim);
          results = map (\<lambda>i. scalar_quantize fp (row i) bits centroid euclidean) [0..<n_rows];
          unpacked = concat (map fst results)
      in derive_dequant_factors fp
           \<lparr>qz_rows = n_rows, qz_codes = pack_codes unpacked n_rows dim layout,
            qz_lower_intervals = map (rr_lower_interval \<circ> snd) results,
            qz_upper_intervals = map (rr_upper_interval \<circ> snd) results,
            qz_additional_corrections = map (rr_additional_correction \<circ> snd) results,
            qz_quantized_component_sums = map (rr_quantized_component_sum \<circ> snd) results,
            qz_centroid = centroid, qz_dequant_delta = [], qz_dequant_sum_delta = [],
            qz_row_norm = map (\<lambda>i. float_sum_sq fp (row i)) [0..<n_rows],
            qz_layout = layout, qz_metric = metric, qz_centroid_norm_sq = float_sum_sq fp centroid\<rparr>)"

section \<open>The cache on disk\<close>

definition metric_code :: "distance_type \<Rightarrow> nat" where
  "metric_code m = nat (the (map_of distance_types m))"

text \<open>\<open>dir\<close> is the value of \<^verbatim>\<open>CUVS_BBQ_CACHE_DIR\<close>, \<open>None\<close> when it is not set.\<close>

definition cache_path :: "string option \<Rightarrow> nat \<Rightarrow> nat \<Rightarrow> code_layout \<Rightarrow> distance_type \<Rightarrow> string" where
  "cache_path dir n_rows dim layout metric =
     (if dir \<noteq> None \<and> dir \<noteq> Some [] then the dir else ''/tmp'') @ ''/bbq-n'' @ decimal n_rows @ ''-d'' @ decimal dim @
       ''-b'' @ decimal (get_bit_width layout) @ ''-l'' @ decimal (layout_code layout) @
       ''-m'' @ decimal (metric_code metric) @ ''.bin''"

text \<open>\<^verbatim>\<open>for_each_buffer\<close>: the buffers in the order in which it visits them, and their sizes.\<close>

definition buffers :: "'f fp \<Rightarrow> 'f quantizer \<Rightarrow> bytes list" where
  "buffers fp q = [qz_codes q, array_bytes (fp_bytes fp) (qz_lower_intervals q), array_bytes (fp_bytes fp) (qz_upper_intervals q),
     array_bytes (fp_bytes fp) (qz_additional_corrections q), array_bytes put_i32 (qz_quantized_component_sums q),
     array_bytes (fp_bytes fp) (qz_centroid q), array_bytes (fp_bytes fp) (qz_row_norm q)]"

definition buffer_sizes :: "'f quantizer \<Rightarrow> nat list" where
  "buffer_sizes q = [length (qz_codes q), length (qz_lower_intervals q) * 4, length (qz_upper_intervals q) * 4,
     length (qz_additional_corrections q) * 4, length (qz_quantized_component_sums q) * 4,
     length (qz_centroid q) * 4, length (qz_row_norm q) * 4]"

text \<open>Storage of a shape; \<open>un k n\<close> is what the \<open>k\<close>-th array, of \<open>n\<close> elements, happens to hold.\<close>

definition make_host_quantizer_storage :: "(nat \<Rightarrow> nat \<Rightarrow> 'f list) \<Rightarrow> 'f fp \<Rightarrow> nat \<Rightarrow> nat \<Rightarrow> code_layout \<Rightarrow> distance_type \<Rightarrow>
    'f quantizer" where
  "make_host_quantizer_storage un fp n_rows dim layout metric =
     \<lparr>qz_rows = n_rows, qz_codes = replicate (n_rows * get_encoded_row_length dim layout) 0,
      qz_lower_intervals = un 0 n_rows, qz_upper_intervals = un 1 n_rows, qz_additional_corrections = un 2 n_rows,
      qz_quantized_component_sums = replicate n_rows 0, qz_centroid = un 3 dim, qz_dequant_delta = un 4 n_rows,
      qz_dequant_sum_delta = un 5 n_rows, qz_row_norm = un 6 n_rows, qz_layout = layout, qz_metric = metric,
      qz_centroid_norm_sq = fp_lit_single fp 0 0\<rparr>"

text \<open>What the file system answers: whether opening, reading, writing and renaming succeed.\<close>

record disk_outcome =
  dk_open_read :: bool
  dk_read :: bool
  dk_open_write :: bool
  dk_write :: bool
  dk_flushed :: nat
  dk_killed :: bool
  dk_rename :: bool

type_synonym disk = "string \<Rightarrow> bytes option"

definition cache_load :: "(nat \<Rightarrow> nat \<Rightarrow> 'f list) \<Rightarrow> 'f fp \<Rightarrow> disk_outcome \<Rightarrow> disk \<Rightarrow> string \<Rightarrow> nat \<Rightarrow> nat \<Rightarrow> code_layout \<Rightarrow>
    distance_type \<Rightarrow> 'f quantizer option" where
  "cache_load un fp io fs path n_rows dim layout metric =
     (case fs path of
        None \<Rightarrow> None
      | Some content \<Rightarrow>
          if \<not> dk_open_read io then None
          else
            let q = make_host_quantizer_storage un fp n_rows dim layout metric in
            if length content \<noteq> sum_list (buffer_sizes q) then None
            else if \<not> dk_read io then None
            else
              let b = split_sizes (buffer_sizes q) content;
                  centroid = array_of_bytes (fp_of_bytes fp) (b ! 5)
              in Some (derive_dequant_factors fp (q\<lparr>qz_codes := b ! 0,
                   qz_lower_intervals := array_of_bytes (fp_of_bytes fp) (b ! 1),
                   qz_upper_intervals := array_of_bytes (fp_of_bytes fp) (b ! 2),
                   qz_additional_corrections := array_of_bytes (fp_of_bytes fp) (b ! 3),
                   qz_quantized_component_sums := array_of_bytes get_i32 (b ! 4),
                   qz_centroid := centroid, qz_row_norm := array_of_bytes (fp_of_bytes fp) (b ! 6),
                   qz_centroid_norm_sq := fold (\<lambda>x acc. f_add fp acc (f_mul fp x x)) centroid (qz_centroid_norm_sq q)\<rparr>)))"

text \<open>
  Storing writes a temporary file and renames it. \<open>dk_flushed\<close> is how much of the content reached the
  disk when the stream was closed, which the code does not check; with \<open>dk_killed\<close> the process ends
  before the rename.
\<close>

definition cache_store :: "'f fp \<Rightarrow> disk_outcome \<Rightarrow> disk \<Rightarrow> string \<Rightarrow> 'f quantizer \<Rightarrow> disk" where
  "cache_store fp io fs path q =
     (let tmp = path @ ''.tmp'';
          written = fs(tmp \<mapsto> take (dk_flushed io) (concat (buffers fp q)))
      in if \<not> dk_open_write io then fs
         else if dk_killed io then written
         else if \<not> dk_write io then written(tmp := None)
         else if dk_rename io then (written(path := written tmp))(tmp := None)
         else written(tmp := None))"

definition quantize_cached :: "(nat \<Rightarrow> nat \<Rightarrow> 'f list) \<Rightarrow> 'f fp \<Rightarrow> string option \<Rightarrow> disk_outcome \<Rightarrow> disk \<Rightarrow> 'f list \<Rightarrow> nat \<Rightarrow> nat \<Rightarrow>
    code_layout \<Rightarrow> distance_type \<Rightarrow> 'f quantizer \<times> disk" where
  "quantize_cached un fp dir io fs rows n_rows dim layout metric =
     (let path = cache_path dir n_rows dim layout metric in
      case cache_load un fp io fs path n_rows dim layout metric of
        Some cached \<Rightarrow> (cached, fs)
      | None \<Rightarrow> (let quantized = quantize fp rows n_rows dim metric layout
                in (quantized, cache_store fp io fs path quantized)))"

section \<open>The cache gives back what was stored\<close>

text \<open>What is documented of \<^verbatim>\<open>float\<close>: it has four bytes, which determine it, and literals and integers convert to one.\<close>

definition fp_ok :: "'f fp \<Rightarrow> bool" where
  "fp_ok fp \<longleftrightarrow> (\<forall>x. length (fp_bytes fp x) = 4) \<and> (\<forall>x. fp_of_bytes fp (fp_bytes fp (fp_single fp x)) = fp_single fp x) \<and>
     (\<forall>i. fp_single_of_int fp i \<in> range (fp_single fp)) \<and> (\<forall>n k. fp_lit_single fp n k \<in> range (fp_single fp))"

definition uninit_ok :: "(nat \<Rightarrow> nat \<Rightarrow> 'f list) \<Rightarrow> bool" where
  "uninit_ok un \<longleftrightarrow> (\<forall>k n. length (un k n) = n)"

named_theorems float_intros \<comment> \<open>what is a float\<close>

lemma float_ops [float_intros]:
  "f_add fp x y \<in> range (fp_single fp)" "f_sub fp x y \<in> range (fp_single fp)"
  "f_mul fp x y \<in> range (fp_single fp)" "f_div fp x y \<in> range (fp_single fp)"
  "fp_single fp x \<in> range (fp_single fp)"
  by (simp_all add: f_add_def f_sub_def f_mul_def f_div_def)

lemma float_literals [float_intros]:
  "fp_ok fp \<Longrightarrow> fp_single_of_int fp i \<in> range (fp_single fp)" "fp_ok fp \<Longrightarrow> fp_lit_single fp n k \<in> range (fp_single fp)"
  by (simp_all add: fp_ok_def)

lemma float_fold:
  "z \<in> A \<Longrightarrow> (\<And>x acc. acc \<in> A \<Longrightarrow> f x acc \<in> A) \<Longrightarrow> fold f xs z \<in> A"
  by (induction xs arbitrary: z) simp_all

lemma float_sum_sq_float [float_intros]: "fp_ok fp \<Longrightarrow> float_sum_sq fp xs \<in> range (fp_single fp)"
  unfolding float_sum_sq_def by (intro float_fold float_intros)

lemma scan_floats:
  assumes "fp_ok fp"
  shows "sc_norm2 (fold (scan_step fp e v c) is (scan_start fp)) \<in> range (fp_single fp) \<and>
    sc_centroid_dot (fold (scan_step fp e v c) is (scan_start fp)) \<in> range (fp_single fp)"
proof -
  let ?A = "{s. sc_norm2 s \<in> range (fp_single fp) \<and> sc_centroid_dot s \<in> range (fp_single fp)}"
  have "fold (scan_step fp e v c) is (scan_start fp) \<in> ?A"
    by (rule float_fold) (auto simp: scan_step_def scan_start_def Let_def assms float_ops float_literals(2)[OF assms])
  then show ?thesis by simp
qed

lemma optimize_loop_floats:
  assumes "\<And>st st'. step st = Some st' \<Longrightarrow> fst (fst st') \<in> A \<and> snd (fst st') \<in> A"
  shows "fst (fst st) \<in> A \<Longrightarrow> snd (fst st) \<in> A \<Longrightarrow> fst (optimize_loop step n st) \<in> A \<and> snd (optimize_loop step n st) \<in> A"
  using assms by (induction n arbitrary: st) (auto split: option.split)

definition step_floats :: "'f set \<Rightarrow> (('f \<times> 'f) \<times> 'f) option \<Rightarrow> bool" where
  "step_floats A r \<longleftrightarrow> (\<forall>st. r = Some st \<longrightarrow> fst (fst st) \<in> A \<and> snd (fst st) \<in> A)"

lemma step_floats_rules:
  "(\<And>x. x = t \<Longrightarrow> step_floats A (f x)) \<Longrightarrow> step_floats A (Let t f)"
  "(\<And>x y. step_floats A (g x y)) \<Longrightarrow> step_floats A (case_prod g p)"
  "step_floats A r \<Longrightarrow> step_floats A r' \<Longrightarrow> step_floats A (if c then r else r')"
  "step_floats A None"
  "a \<in> A \<Longrightarrow> b \<in> A \<Longrightarrow> step_floats A (Some ((a, b), l))"
  by (simp_all add: step_floats_def split: prod.split)

lemma optimize_step_floats:
  "optimize_step fp v n2 p l sc st = Some st' \<Longrightarrow> fst (fst st') \<in> range (fp_single fp) \<and> snd (fst st') \<in> range (fp_single fp)"
proof -
  have single: "x = fp_single fp y \<Longrightarrow> x \<in> range (fp_single fp)" for x y by simp
  have "step_floats (range (fp_single fp)) (optimize_step fp v n2 p l sc st)"
    unfolding optimize_step_def by (intro step_floats_rules) (erule single)+
  then show "optimize_step fp v n2 p l sc st = Some st' \<Longrightarrow> ?thesis" by (simp add: step_floats_def)
qed

lemma optimize_intervals_floats:
  assumes "fst i \<in> range (fp_single fp)" "snd i \<in> range (fp_single fp)"
  shows "fst (optimize_intervals fp i v n p) \<in> range (fp_single fp) \<and> snd (optimize_intervals fp i v n p) \<in> range (fp_single fp)"
proof (cases "fp_finite fp (f_div fp (f_sub fp (fp_lit_single fp 1 0) (fp_lit_single fp 1 1)) n)")
  case True
  let ?step = "optimize_step fp v n p (fp_lit_single fp 1 1) (f_div fp (f_sub fp (fp_lit_single fp 1 0) (fp_lit_single fp 1 1)) n)"
  have "fst (optimize_loop ?step 5 (i, loss fp v i p n (fp_lit_single fp 1 1))) \<in> range (fp_single fp) \<and>
      snd (optimize_loop ?step 5 (i, loss fp v i p n (fp_lit_single fp 1 1))) \<in> range (fp_single fp)"
    by (rule optimize_loop_floats, erule optimize_step_floats) (simp_all only: fst_conv assms)
  then show ?thesis using True by (simp only: optimize_intervals_def Let_def if_True not_True_eq_False if_False)
next
  case False
  then show ?thesis using assms by (simp add: optimize_intervals_def Let_def)
qed

lemma scalar_quantize_floats:
  assumes "fp_ok fp"
  shows "rr_lower_interval (snd (scalar_quantize fp v b c e)) \<in> range (fp_single fp) \<and>
    rr_upper_interval (snd (scalar_quantize fp v b c e)) \<in> range (fp_single fp) \<and>
    rr_additional_correction (snd (scalar_quantize fp v b c e)) \<in> range (fp_single fp)"
  using scan_floats[OF assms, of e v c "[0..<length v]"] unfolding scalar_quantize_def Let_def
  by (auto intro!: optimize_intervals_floats[THEN conjunct1] optimize_intervals_floats[THEN conjunct2])

lemma scalar_quantize_length: "length (fst (scalar_quantize fp v b c e)) = length v"
proof -
  have "length (sc_vector (fold (scan_step fp e v c) is s)) = length (sc_vector s) + length is" for "is" s
    by (induction "is" arbitrary: s) (simp_all add: scan_step_def Let_def)
  then show ?thesis by (simp add: scalar_quantize_def Let_def scan_start_def)
qed

lemma quantize_shape:
  assumes "length data = n_rows * dim"
  shows "length (qz_codes (quantize fp data n_rows dim metric layout)) = n_rows * get_encoded_row_length dim layout"
    "length (qz_lower_intervals (quantize fp data n_rows dim metric layout)) = n_rows"
    "length (qz_upper_intervals (quantize fp data n_rows dim metric layout)) = n_rows"
    "length (qz_additional_corrections (quantize fp data n_rows dim metric layout)) = n_rows"
    "length (qz_quantized_component_sums (quantize fp data n_rows dim metric layout)) = n_rows"
    "length (qz_centroid (quantize fp data n_rows dim metric layout)) = dim"
    "length (qz_row_norm (quantize fp data n_rows dim metric layout)) = n_rows"
    "length (qz_dequant_delta (quantize fp data n_rows dim metric layout)) = n_rows"
    "length (qz_dequant_sum_delta (quantize fp data n_rows dim metric layout)) = n_rows"
proof -
  let ?f = "\<lambda>c i. fst (scalar_quantize fp (slice data (i * dim) dim) (get_bit_width layout) c
    (metric = L2Expanded \<or> metric = L2SqrtExpanded))"
  have row: "length (slice data (i * dim) dim) = dim" if "i < n_rows" for i
  proof -
    have "(i + 1) * dim \<le> n_rows * dim" using that by (intro mult_le_mono1) simp
    then show ?thesis using assms by (simp add: slice_def)
  qed
  have u: "length (concat (map (?f c) [0..<n_rows])) = n_rows * dim" for c
    by (rule length_concat_rows) (simp add: scalar_quantize_length row)
  have p: "length (pack_codes un n_rows dim layout) = n_rows * get_encoded_row_length dim layout"
    if "length un = n_rows * dim" for un
  proof -
    have "length (concat (map (\<lambda>r. pack_row layout dim (slice un (r * dim) dim) (replicate w 0)) [0..<n_rows])) = n_rows * w" for w
      by (rule length_concat_rows) (simp add: pack_row_length)
    then show ?thesis using that by (auto simp: pack_codes_def Let_def)
  qed
  show "length (qz_codes (quantize fp data n_rows dim metric layout)) = n_rows * get_encoded_row_length dim layout"
    using p[OF u] by (simp add: quantize_def Let_def derive_dequant_factors_def comp_def)
qed (simp_all add: quantize_def Let_def derive_dequant_factors_def centroid_of_def)

lemma quantize_floats:
  assumes "fp_ok fp"
  shows "set (qz_lower_intervals (quantize fp data n dim metric layout)) \<subseteq> range (fp_single fp)"
    "set (qz_upper_intervals (quantize fp data n dim metric layout)) \<subseteq> range (fp_single fp)"
    "set (qz_additional_corrections (quantize fp data n dim metric layout)) \<subseteq> range (fp_single fp)"
    "set (qz_centroid (quantize fp data n dim metric layout)) \<subseteq> range (fp_single fp)"
    "set (qz_row_norm (quantize fp data n dim metric layout)) \<subseteq> range (fp_single fp)"
  using scalar_quantize_floats[OF assms] float_sum_sq_float[OF assms] float_ops(4)[of fp]
  by (auto simp: quantize_def Let_def derive_dequant_factors_def centroid_of_def)

lemma float_array:
  assumes "fp_ok fp" "set xs \<subseteq> range (fp_single fp)"
  shows "array_of_bytes (fp_of_bytes fp) (array_bytes (fp_bytes fp) xs) = xs"
    "length (array_bytes (fp_bytes fp) xs) = length xs * 4"
proof -
  have "\<forall>x \<in> set xs. length (fp_bytes fp x) = 4 \<and> fp_of_bytes fp (fp_bytes fp x) = x"
    using assms by (auto simp: fp_ok_def)
  from array_roundtrip[OF this]
  show "array_of_bytes (fp_of_bytes fp) (array_bytes (fp_bytes fp) xs) = xs"
    "length (array_bytes (fp_bytes fp) xs) = length xs * 4" .
qed

lemma int_array:
  "array_of_bytes get_i32 (array_bytes put_i32 xs) = xs" "length (array_bytes put_i32 xs) = length xs * 4"
  using array_roundtrip[of xs put_i32 get_i32] i32_roundtrip by simp_all

text \<open>A cache file is the buffers of the quantizer, possibly cut off; only a whole one is loaded.\<close>

lemma cache_load_stored:
  assumes ok: "fp_ok fp" "uninit_ok un" and len: "length data = n * dim"
    and q: "q = quantize fp data n dim metric layout"
    and fs: "fs path = None \<or> (\<exists>j. fs path = Some (take j (concat (buffers fp q))))"
    and l: "cache_load un fp io fs path n dim layout metric = Some q'"
  shows "q' = q"
proof -
  let ?q0 = "make_host_quantizer_storage un fp n dim layout metric"
  note shape = quantize_shape[OF len, of fp metric layout, folded q]
  note fl = quantize_floats[OF ok(1), of data n dim metric layout, folded q]
  note arr = float_array[OF ok(1) fl(1)] float_array[OF ok(1) fl(2)] float_array[OF ok(1) fl(3)]
    float_array[OF ok(1) fl(4)] float_array[OF ok(1) fl(5)] int_array
  have un: "length (un k m) = m" for k m using ok(2) by (simp add: uninit_ok_def)
  have sizes: "buffer_sizes ?q0 = map length (buffers fp q)"
    by (simp add: buffer_sizes_def buffers_def make_host_quantizer_storage_def un arr shape)
  obtain j where c: "fs path = Some (take j (concat (buffers fp q)))" using fs l by (auto simp: cache_load_def)
  have "sum_list (buffer_sizes ?q0) = length (concat (buffers fp q))" by (simp add: sizes length_concat)
  then have whole: "take j (concat (buffers fp q)) = concat (buffers fp q)"
    using l c by (simp add: cache_load_def Let_def split: if_splits)
  have split: "split_sizes (buffer_sizes ?q0) (concat (buffers fp q)) = buffers fp q"
    unfolding sizes by (rule split_concat)
  have fields: "qz_rows q = n" "qz_layout q = layout" "qz_metric q = metric"
    "qz_centroid_norm_sq q = float_sum_sq fp (qz_centroid q)" "derive_dequant_factors fp q = q"
    unfolding q by (simp_all add: quantize_def Let_def derive_dequant_factors_def)
  have derive: "derive_dequant_factors fp (q\<lparr>qz_dequant_delta := a, qz_dequant_sum_delta := b\<rparr>) = q" for a b
    using fields(5) by (cases q) (simp add: derive_dequant_factors_def Let_def)
  have "q' = derive_dequant_factors fp (?q0\<lparr>qz_codes := qz_codes q, qz_lower_intervals := qz_lower_intervals q,
      qz_upper_intervals := qz_upper_intervals q, qz_additional_corrections := qz_additional_corrections q,
      qz_quantized_component_sums := qz_quantized_component_sums q, qz_centroid := qz_centroid q,
      qz_row_norm := qz_row_norm q,
      qz_centroid_norm_sq := fold (\<lambda>x acc. f_add fp acc (f_mul fp x x)) (qz_centroid q) (qz_centroid_norm_sq ?q0)\<rparr>)"
    using l unfolding cache_load_def c whole option.case Let_def split
    by (auto simp: buffers_def arr split: if_splits)
  also have "\<dots> = derive_dequant_factors fp (q\<lparr>qz_dequant_delta := un 4 n, qz_dequant_sum_delta := un 5 n\<rparr>)"
    by (rule arg_cong[of _ _ "derive_dequant_factors fp"])
      (use fields in \<open>simp add: make_host_quantizer_storage_def float_sum_sq_def\<close>)
  finally show ?thesis unfolding derive .
qed

lemma decimal_inj: "decimal m = decimal n \<Longrightarrow> m = n"
  by (metis decimal_digits)

lemma decimal_delimited:
  assumes "decimal m @ x # r = decimal n @ y # s" "\<not> is_digit x" "\<not> is_digit y"
  shows "m = n \<and> r = s"
proof -
  have d: "takeWhile is_digit (decimal k @ z # t) = decimal k" if "\<not> is_digit z" for k z t
    using decimal_digits[of k] that by (subst takeWhile_append2) (auto simp: list_all_iff)
  have e: "decimal m = decimal n" using d[OF assms(2)] d[OF assms(3)] assms(1) by metis
  then show ?thesis using assms(1) decimal_inj by auto
qed

lemma layout_code_inj: "layout_code a = layout_code b \<Longrightarrow> a = b"
  by (cases a; cases b) (simp_all add: layout_code_def layout_codes_def)

lemma metric_code_inj: "metric_code a = metric_code b \<Longrightarrow> a = b"
  by (cases a; cases b; simp add: metric_code_def distance_types_def)

text \<open>The name of a cache file tells its shape, layout and metric apart.\<close>

lemma cache_path_inj:
  assumes "cache_path dir n d l m = cache_path dir n' d' l' m'"
  shows "n = n' \<and> d = d' \<and> l = l' \<and> m = m'"
proof -
  have nd: "\<not> is_digit (CHR ''-'')" "\<not> is_digit (CHR ''.'')" by (simp_all add: is_digit_def)
  have "decimal n @ CHR ''-'' # CHR ''d'' # decimal d @ CHR ''-'' # CHR ''b'' # decimal (get_bit_width l) @
      CHR ''-'' # CHR ''l'' # decimal (layout_code l) @ CHR ''-'' # CHR ''m'' # decimal (metric_code m) @ ''.bin'' =
    decimal n' @ CHR ''-'' # CHR ''d'' # decimal d' @ CHR ''-'' # CHR ''b'' # decimal (get_bit_width l') @
      CHR ''-'' # CHR ''l'' # decimal (layout_code l') @ CHR ''-'' # CHR ''m'' # decimal (metric_code m') @ ''.bin''"
    using assms by (simp add: cache_path_def)
  note n = decimal_delimited[OF this nd(1) nd(1)]
  then have "decimal d @ CHR ''-'' # CHR ''b'' # decimal (get_bit_width l) @
      CHR ''-'' # CHR ''l'' # decimal (layout_code l) @ CHR ''-'' # CHR ''m'' # decimal (metric_code m) @ ''.bin'' =
    decimal d' @ CHR ''-'' # CHR ''b'' # decimal (get_bit_width l') @
      CHR ''-'' # CHR ''l'' # decimal (layout_code l') @ CHR ''-'' # CHR ''m'' # decimal (metric_code m') @ ''.bin''" by simp
  note d = decimal_delimited[OF this nd(1) nd(1)]
  then have "decimal (get_bit_width l) @
      CHR ''-'' # CHR ''l'' # decimal (layout_code l) @ CHR ''-'' # CHR ''m'' # decimal (metric_code m) @ ''.bin'' =
    decimal (get_bit_width l') @
      CHR ''-'' # CHR ''l'' # decimal (layout_code l') @ CHR ''-'' # CHR ''m'' # decimal (metric_code m') @ ''.bin''" by simp
  note b = decimal_delimited[OF this nd(1) nd(1)]
  then have "decimal (layout_code l) @ CHR ''-'' # CHR ''m'' # decimal (metric_code m) @ ''.bin'' =
    decimal (layout_code l') @ CHR ''-'' # CHR ''m'' # decimal (metric_code m') @ ''.bin''" by simp
  note l = decimal_delimited[OF this nd(1) nd(1)]
  then have "decimal (metric_code m) @ CHR ''.'' # ''bin'' = decimal (metric_code m') @ CHR ''.'' # ''bin''" by simp
  note m = decimal_delimited[OF this nd(2) nd(2)]
  show ?thesis using n d layout_code_inj metric_code_inj l m by blast
qed

section \<open>Many runs over one cache\<close>

text \<open>
  A run quantizes the dataset of a shape, \<open>data n dim\<close>, for a layout and a metric; the file system
  answers each as it likes.
\<close>

type_synonym run = "(nat \<times> nat \<times> code_layout \<times> distance_type) \<times> disk_outcome"

fun cached_runs :: "(nat \<Rightarrow> nat \<Rightarrow> 'f list) \<Rightarrow> 'f fp \<Rightarrow> string option \<Rightarrow> (nat \<Rightarrow> nat \<Rightarrow> 'f list) \<Rightarrow> disk \<Rightarrow> run list \<Rightarrow>
    'f quantizer list" where
  "cached_runs un fp dir data fs [] = []"
| "cached_runs un fp dir data fs (((n, dim, layout, metric), io) # rs) =
     (let (q, fs') = quantize_cached un fp dir io fs (data n dim) n dim layout metric
      in q # cached_runs un fp dir data fs' rs)"

definition cache_inv :: "'f fp \<Rightarrow> string option \<Rightarrow> (nat \<Rightarrow> nat \<Rightarrow> 'f list) \<Rightarrow> disk \<Rightarrow> bool" where
  "cache_inv fp dir data fs \<longleftrightarrow> (\<forall>n dim layout metric. fs (cache_path dir n dim layout metric) = None \<or>
     (\<exists>j. fs (cache_path dir n dim layout metric) =
        Some (take j (concat (buffers fp (quantize fp (data n dim) n dim metric layout))))))"

lemma tmp_is_no_cache: "cache_path dir n d l m @ ''.tmp'' \<noteq> cache_path dir n' d' l' m'"
proof
  assume "cache_path dir n d l m @ ''.tmp'' = cache_path dir n' d' l' m'"
  then have "last (cache_path dir n d l m @ ''.tmp'') = last (cache_path dir n' d' l' m')" by (rule arg_cong)
  then show False by (simp add: cache_path_def)
qed

lemma cache_store_at:
  assumes "p' \<noteq> path @ ''.tmp''" "path \<noteq> path @ ''.tmp''"
  shows "cache_store fp io fs path q p' = fs p' \<or>
    p' = path \<and> cache_store fp io fs path q p' = Some (take (dk_flushed io) (concat (buffers fp q)))"
  using assms by (auto simp: cache_store_def Let_def)

lemma cache_store_inv:
  assumes "cache_inv fp dir data fs"
  shows "cache_inv fp dir data (cache_store fp io fs (cache_path dir n dim layout metric)
    (quantize fp (data n dim) n dim metric layout))"
  unfolding cache_inv_def
proof (intro allI)
  fix n' dim' layout' metric'
  let ?p = "cache_path dir n dim layout metric" and ?p' = "cache_path dir n' dim' layout' metric'"
  consider "cache_store fp io fs ?p (quantize fp (data n dim) n dim metric layout) ?p' = fs ?p'" |
    "?p' = ?p" "cache_store fp io fs ?p (quantize fp (data n dim) n dim metric layout) ?p' =
      Some (take (dk_flushed io) (concat (buffers fp (quantize fp (data n dim) n dim metric layout))))"
    using cache_store_at[of ?p' ?p fp io fs] tmp_is_no_cache by metis
  then show "cache_store fp io fs ?p (quantize fp (data n dim) n dim metric layout) ?p' = None \<or>
    (\<exists>j. cache_store fp io fs ?p (quantize fp (data n dim) n dim metric layout) ?p' =
        Some (take j (concat (buffers fp (quantize fp (data n' dim') n' dim' metric' layout')))))"
  proof cases
    case 1
    then show ?thesis using assms by (simp add: cache_inv_def)
  next
    case 2
    then show ?thesis using cache_path_inj[OF 2(1)] by auto
  qed
qed

lemma quantize_cached_exact:
  assumes ok: "fp_ok fp" "uninit_ok un" "length (data n dim) = n * dim" and inv: "cache_inv fp dir data fs"
  shows "fst (quantize_cached un fp dir io fs (data n dim) n dim layout metric) = quantize fp (data n dim) n dim metric layout"
    "cache_inv fp dir data (snd (quantize_cached un fp dir io fs (data n dim) n dim layout metric))"
proof -
  let ?p = "cache_path dir n dim layout metric" and ?q = "quantize fp (data n dim) n dim metric layout"
  have fs: "fs ?p = None \<or> (\<exists>j. fs ?p = Some (take j (concat (buffers fp ?q))))" using inv by (simp add: cache_inv_def)
  note load = cache_load_stored[of fp un "data n dim" n dim ?q metric layout fs ?p, OF ok refl fs]
  show "fst (quantize_cached un fp dir io fs (data n dim) n dim layout metric) = ?q"
    using load[of io] by (simp add: quantize_cached_def Let_def split: option.split)
  show "cache_inv fp dir data (snd (quantize_cached un fp dir io fs (data n dim) n dim layout metric))"
    using inv cache_store_inv[OF inv] by (simp add: quantize_cached_def Let_def split: option.split)
qed

text \<open>
  C9: Over any number of runs on one cache directory, whatever files fail to open, to be read, written
  or renamed, wherever a run is killed or its last bytes are lost, each run returns exactly the
  quantizer that it would compute without a cache, the factors that are not stored included - provided
  that there is one dataset per shape.
\<close>

theorem cached_runs_exact:
  assumes "fp_ok fp" "uninit_ok un" "\<forall>n dim. length (data n dim) = n * dim"
    and "\<forall>n dim layout metric. fs (cache_path dir n dim layout metric) = None"
  shows "cached_runs un fp dir data fs runs =
    map (\<lambda>((n, dim, layout, metric), io). quantize fp (data n dim) n dim metric layout) runs"
proof -
  have "cache_inv fp dir data fs" using assms(4) by (simp add: cache_inv_def)
  then show ?thesis
  proof (induction runs arbitrary: fs)
    case (Cons r runs)
    obtain n dim layout metric io where r: "r = ((n, dim, layout, metric), io)" by (metis surj_pair)
    note e = quantize_cached_exact[OF assms(1,2) assms(3)[rule_format] Cons.prems, of io n dim layout metric]
    show ?case using e(1) Cons.IH[OF e(2)] by (simp add: r split_def)
  qed simp
qed

text \<open>What is stored is not looked at again: rows of the same shape get the codes of other rows.\<close>

lemma cache_ignores_rows:
  assumes "cache_load un fp io fs (cache_path dir n dim layout metric) n dim layout metric = Some q"
  shows "quantize_cached un fp dir io fs rows n dim layout metric = (q, fs)"
  using assms by (simp add: quantize_cached_def Let_def)

section \<open>Datasets of quantizers\<close>

datatype bbq_error = DuplicateLayout | NoQuantizer | NoStorage | UnsupportedPair | UnknownToken

type_synonym 'f bbq_dataset = "'f quantizer list"

definition dataset_rows :: "'f bbq_dataset \<Rightarrow> nat" where
  "dataset_rows qs = (if 0 < length qs then qz_rows (qs ! 0) else 0)"

definition dataset_dim :: "'f bbq_dataset \<Rightarrow> nat" where
  "dataset_dim qs = (if 0 < length qs then length (qz_centroid (qs ! 0)) else 0)"

fun has_layout :: "'f bbq_dataset \<Rightarrow> code_layout \<Rightarrow> bool" where
  "has_layout [] layout = False"
| "has_layout (q # qs) layout = (if qz_layout q = layout then True else has_layout qs layout)"

definition add_quantizer :: "'f bbq_dataset \<Rightarrow> 'f quantizer \<Rightarrow> bbq_error + 'f bbq_dataset" where
  "add_quantizer qs q = bind_r (expects (\<not> has_layout qs (qz_layout q)) DuplicateLayout) (\<lambda>_. Inr (qs @ [q]))"

fun get_quantizer :: "'f bbq_dataset \<Rightarrow> code_layout \<Rightarrow> bbq_error + 'f quantizer" where
  "get_quantizer [] layout = Inl NoQuantizer"
| "get_quantizer (q # qs) layout = (if qz_layout q = layout then Inr q else get_quantizer qs layout)"

fun add_all :: "'f bbq_dataset \<Rightarrow> 'f quantizer list \<Rightarrow> bbq_error + 'f bbq_dataset" where
  "add_all acc [] = Inr acc"
| "add_all acc (q # qs) = bind_r (add_quantizer acc q) (\<lambda>acc'. add_all acc' qs)"

text \<open>The view of a dataset: the constructor adds a view of each quantizer.\<close>

definition dataset_view :: "'f bbq_dataset \<Rightarrow> bbq_error + 'f bbq_dataset" where
  "dataset_view quantizers = add_all [] quantizers"

text \<open>
  The device storage has the shape that its constructor gives it and undefined contents; a copy
  overwrites as many elements as the device array has.
\<close>

definition new_quantizer :: "(nat \<Rightarrow> nat \<Rightarrow> 'f list) \<Rightarrow> 'f fp \<Rightarrow> nat \<Rightarrow> nat \<Rightarrow> code_layout \<Rightarrow> distance_type \<Rightarrow> 'f quantizer" where
  "new_quantizer un fp n_rows dim layout metric =
     (make_host_quantizer_storage un fp n_rows dim layout metric)\<lparr>qz_centroid_norm_sq := fp_lit_single fp 0 0\<rparr>"

definition copy_to :: "'a list \<Rightarrow> 'a list \<Rightarrow> 'a list" where
  "copy_to device host = take (length device) host"

definition copy_to_device :: "(nat \<Rightarrow> nat \<Rightarrow> 'f list) \<Rightarrow> 'f fp \<Rightarrow> 'f quantizer \<Rightarrow> 'f quantizer" where
  "copy_to_device un fp host =
     (let device = new_quantizer un fp (qz_rows host) (length (qz_centroid host)) (qz_layout host) (qz_metric host)
      in device\<lparr>qz_codes := copy_to (qz_codes device) (qz_codes host),
           qz_lower_intervals := copy_to (qz_lower_intervals device) (qz_lower_intervals host),
           qz_upper_intervals := copy_to (qz_upper_intervals device) (qz_upper_intervals host),
           qz_additional_corrections := copy_to (qz_additional_corrections device) (qz_additional_corrections host),
           qz_quantized_component_sums := copy_to (qz_quantized_component_sums device) (qz_quantized_component_sums host),
           qz_centroid := copy_to (qz_centroid device) (qz_centroid host),
           qz_dequant_delta := copy_to (qz_dequant_delta device) (qz_dequant_delta host),
           qz_dequant_sum_delta := copy_to (qz_dequant_sum_delta device) (qz_dequant_sum_delta host),
           qz_row_norm := copy_to (qz_row_norm device) (qz_row_norm host),
           qz_centroid_norm_sq := qz_centroid_norm_sq host\<rparr>)"

definition make_device_bbq_dataset :: "(nat \<Rightarrow> nat \<Rightarrow> 'f list) \<Rightarrow> 'f fp \<Rightarrow> 'f quantizer list \<Rightarrow> bbq_error + 'f bbq_dataset" where
  "make_device_bbq_dataset un fp host =
     bind_r (expects (host \<noteq> []) NoStorage) (\<lambda>_.
     bind_r (add_quantizer [] (copy_to_device un fp (hd host))) (\<lambda>device.
       add_all device (map (copy_to_device un fp) (tl host))))"

definition bbq_layout_tokens :: "(string \<times> code_layout) list" where
  "bbq_layout_tokens = [(''1'', packed_1b), (''2t'', transposed_2b), (''4'', packed_4b), (''4t'', transposed_4b),
     (''7'', packed_7b), (''8'', packed_8b)]"

definition parse_bbq_layout_token :: "string \<Rightarrow> bbq_error + code_layout" where
  "parse_bbq_layout_token token =
     (case List.find (\<lambda>t. fst t = token) bbq_layout_tokens of Some t \<Rightarrow> Inr (snd t) | None \<Rightarrow> Inl UnknownToken)"

definition validate_layout_pair :: "code_layout \<Rightarrow> code_layout \<Rightarrow> bbq_error + unit" where
  "validate_layout_pair query_layout doc_layout =
     (if query_layout = doc_layout then
        expects (query_layout = packed_1b \<or> query_layout = transposed_2b \<or> query_layout = packed_4b \<or>
          query_layout = packed_7b \<or> query_layout = packed_8b) UnsupportedPair
      else
        expects (doc_layout = packed_1b \<and> query_layout = packed_4b \<or>
          doc_layout = packed_1b \<and> query_layout = transposed_2b \<or>
          doc_layout = packed_1b \<and> query_layout = transposed_4b \<or>
          doc_layout = transposed_2b \<and> query_layout = transposed_4b) UnsupportedPair)"

text \<open>\<open>io\<close> and \<open>io'\<close> are what the file system answers for the two layouts.\<close>

definition quantize_to_device :: "(nat \<Rightarrow> nat \<Rightarrow> 'f list) \<Rightarrow> 'f fp \<Rightarrow> string option \<Rightarrow> disk_outcome \<Rightarrow> disk_outcome \<Rightarrow> disk \<Rightarrow>
    'f list \<Rightarrow> nat \<Rightarrow> nat \<Rightarrow> distance_type \<Rightarrow> code_layout \<Rightarrow> code_layout \<Rightarrow> bbq_error + 'f bbq_dataset \<times> disk" where
  "quantize_to_device un fp dir io io' fs rows n_rows dim metric query_layout doc_layout =
     bind_r (validate_layout_pair query_layout doc_layout) (\<lambda>_.
       let (q, fs1) = quantize_cached un fp dir io fs rows n_rows dim query_layout metric;
           (host, fs2) =
             (if doc_layout \<noteq> query_layout then
                (let (d, fs2) = quantize_cached un fp dir io' fs1 rows n_rows dim doc_layout metric in ([q, d], fs2))
              else ([q], fs1))
       in bind_r (make_device_bbq_dataset un fp host) (\<lambda>device. Inr (device, fs2)))"

definition quantize_tokens_to_device :: "(nat \<Rightarrow> nat \<Rightarrow> 'f list) \<Rightarrow> 'f fp \<Rightarrow> string option \<Rightarrow> disk_outcome \<Rightarrow> disk_outcome \<Rightarrow>
    disk \<Rightarrow> 'f list \<Rightarrow> nat \<Rightarrow> nat \<Rightarrow> distance_type \<Rightarrow> string \<Rightarrow> string \<Rightarrow> bbq_error + 'f bbq_dataset \<times> disk" where
  "quantize_tokens_to_device un fp dir io io' fs rows n_rows dim metric query_token doc_token =
     bind_r (parse_bbq_layout_token query_token) (\<lambda>query_layout.
     bind_r (parse_bbq_layout_token doc_token) (\<lambda>doc_layout.
       quantize_to_device un fp dir io io' fs rows n_rows dim metric query_layout doc_layout))"

section \<open>What reaches the device\<close>

lemma copy_to_device_exact:
  assumes "uninit_ok un" "length data = n * dim"
  shows "copy_to_device un fp (quantize fp data n dim metric layout) = quantize fp data n dim metric layout"
proof -
  let ?q = "quantize fp data n dim metric layout"
  have "length (un k m) = m" for k m using assms(1) by (simp add: uninit_ok_def)
  moreover have "qz_rows ?q = n" "qz_layout ?q = layout" "qz_metric ?q = metric"
    by (simp_all add: quantize_def Let_def derive_dequant_factors_def)
  ultimately show ?thesis
    using quantize_shape[OF assms(2), of fp metric layout] unfolding copy_to_device_def copy_to_def new_quantizer_def
    by (simp add: Let_def make_host_quantizer_storage_def)
qed

lemma quantize_layout: "qz_layout (quantize fp data n dim metric layout) = layout"
  by (simp add: quantize_def Let_def derive_dequant_factors_def)

text \<open>
  C37: Quantizing for a pair of layouts succeeds exactly for the pairs that the join supports, and the
  view of the dataset on the device then answers each of the two layouts with the quantizer of the
  rows for that layout, and every other layout with an error.
\<close>

theorem quantize_to_device_correct:
  assumes "fp_ok fp" "uninit_ok un" "length (data n dim) = n * dim" "cache_inv fp dir data fs"
  shows "case quantize_to_device un fp dir io io' fs (data n dim) n dim metric ql dl of
      Inl e \<Rightarrow> e = UnsupportedPair \<and> \<not> is_ok (validate_layout_pair ql dl)
    | Inr (ds, fs') \<Rightarrow> is_ok (validate_layout_pair ql dl) \<and> cache_inv fp dir data fs' \<and> dataset_rows ds = n \<and>
        dataset_dim ds = dim \<and> dataset_view ds = Inr ds \<and>
        (\<forall>l. get_quantizer ds l =
          (if l = ql \<or> l = dl then Inr (quantize fp (data n dim) n dim metric l) else Inl NoQuantizer))"
proof -
  let ?Q = "\<lambda>l. quantize fp (data n dim) n dim metric l"
  obtain q fs1 where q: "quantize_cached un fp dir io fs (data n dim) n dim ql metric = (q, fs1)" by fastforce
  note e1 = quantize_cached_exact[OF assms, of io ql metric, unfolded q fst_conv snd_conv]
  obtain d fs2 where d: "quantize_cached un fp dir io' fs1 (data n dim) n dim dl metric = (d, fs2)" by fastforce
  note e2 = quantize_cached_exact[OF assms(1-3) e1(2), of io' dl metric, unfolded d fst_conv snd_conv]
  note dev = copy_to_device_exact[OF assms(2,3), of fp metric]
  have shape: "qz_rows (?Q l) = n" "length (qz_centroid (?Q l)) = dim" for l
    by (simp_all add: quantize_shape(6)[OF assms(3)]) (simp add: quantize_def Let_def derive_dequant_factors_def)
  show ?thesis
  proof (cases "is_ok (validate_layout_pair ql dl)")
    case False
    then have "validate_layout_pair ql dl = Inl UnsupportedPair"
      by (auto simp: validate_layout_pair_def is_ok_def expects_def split: if_splits)
    then show ?thesis by (simp add: quantize_to_device_def)
  next
    case True
    then have v: "validate_layout_pair ql dl = Inr ()" by (auto simp: is_ok_iff)
    show ?thesis
    proof (cases "dl = ql")
      case True
      then show ?thesis
        using e1 v q dev shape
        by (simp add: quantize_to_device_def make_device_bbq_dataset_def add_quantizer_def bind_expects quantize_layout
            dataset_rows_def dataset_dim_def dataset_view_def)
    next
      case False
      then show ?thesis
        using e1 e2 v q d dev shape
        by (simp add: quantize_to_device_def make_device_bbq_dataset_def add_quantizer_def bind_expects quantize_layout
            dataset_rows_def dataset_dim_def dataset_view_def)
    qed
  qed
qed

section \<open>Witnesses\<close>

text \<open>Words in the place of floating-point values: all that the hypotheses ask for is that they fit four bytes.\<close>

definition demo_fp :: "u32 fp" where
  "demo_fp = \<lparr>fp_add = (+), fp_sub = (-), fp_mul = (*), fp_div = (\<lambda>a b. if b = 0 then 0 else a div b), fp_lt = (<),
     fp_eq = (=), fp_abs = id, fp_sqrt = id, fp_floor = id, fp_finite = (\<lambda>_. True), fp_single = id,
     fp_of_int = word_of_int, fp_single_of_int = word_of_int, fp_lit = (\<lambda>n k. word_of_int (n div 10 ^ k)),
     fp_lit_single = (\<lambda>n k. word_of_int (n div 10 ^ k)), fp_flt_max = 1000, fp_neg = uminus, fp_to_long = sint,
     fp_bytes = put_i32, fp_of_bytes = get_i32\<rparr>"

definition demo_uninit :: "nat \<Rightarrow> nat \<Rightarrow> u32 list" where
  "demo_uninit k n = replicate n 9"

definition demo_io :: disk_outcome where
  "demo_io = \<lparr>dk_open_read = True, dk_read = True, dk_open_write = True, dk_write = True, dk_flushed = 1000,
     dk_killed = False, dk_rename = True\<rparr>"

lemma demo_fp_ok: "fp_ok demo_fp"
  using i32_roundtrip by (simp add: fp_ok_def demo_fp_def)

lemma demo_uninit_ok: "uninit_ok demo_uninit"
  by (simp add: uninit_ok_def demo_uninit_def)

theorem cached_runs_exact_witness:
  "cached_runs demo_uninit demo_fp None (\<lambda>n d. replicate (n * d) 1) (\<lambda>_. None)
     [((2, 3, packed_4b, L2Expanded), demo_io\<lparr>dk_flushed := 5\<rparr>), ((2, 3, packed_4b, L2Expanded), demo_io)] =
   [quantize demo_fp (replicate 6 1) 2 3 L2Expanded packed_4b, quantize demo_fp (replicate 6 1) 2 3 L2Expanded packed_4b]"
  using cached_runs_exact[OF demo_fp_ok demo_uninit_ok, of "\<lambda>n d. replicate (n * d) 1" "\<lambda>_. None" None
      "[((2, 3, packed_4b, L2Expanded), demo_io\<lparr>dk_flushed := 5\<rparr>), ((2, 3, packed_4b, L2Expanded), demo_io)]"]
  by simp

theorem quantize_to_device_correct_witness:
  "\<exists>ds fs. quantize_to_device demo_uninit demo_fp None demo_io demo_io (\<lambda>_. None) (replicate 6 1) 2 3 L2Expanded
      transposed_4b packed_1b = Inr (ds, fs) \<and>
    get_quantizer ds packed_1b = Inr (quantize demo_fp (replicate 6 1) 2 3 L2Expanded packed_1b)"
proof -
  have "validate_layout_pair transposed_4b packed_1b = Inr ()" by (simp add: validate_layout_pair_def expects_def)
  then show ?thesis
    using quantize_to_device_correct[OF demo_fp_ok demo_uninit_ok, where data = "\<lambda>n d. replicate (n * d) 1" and n = 2
        and dim = 3 and dir = None and fs = "\<lambda>_. None" and io = demo_io and io' = demo_io and metric = L2Expanded
        and ql = transposed_4b and dl = packed_1b]
    by (auto simp: cache_inv_def split: sum.splits)
qed

text \<open>Writing is checked before the stream is closed: a file that loses its end at the close is moved into place.\<close>

lemma truncated_cache_is_moved_into_place:
  assumes "dk_open_write io" "\<not> dk_killed io" "dk_write io" "dk_rename io"
  shows "cache_store fp io fs path q path = Some (take (dk_flushed io) (concat (buffers fp q)))"
  using assms by (simp add: cache_store_def Let_def)

end
