(* ===== verification/Buckets.thy ===== *)
theory Buckets imports Main "HOL-Library.Multiset" begin

text \<open>
  Rows \<open>0..<n\<close> grouped by a key, as a counting sort groups them: the rows of a key in their order, the
  place where a key starts, and the concatenation, which is the stable sort by the key. The level plan
  of HNSW and the partitions of ACE are both built this way.
\<close>

definition bucket :: "(nat \<Rightarrow> nat) \<Rightarrow> nat \<Rightarrow> nat \<Rightarrow> nat list" where
  "bucket lv l i = filter (\<lambda>r. lv r = l) [0..<i]"

definition bucket_start :: "(nat \<Rightarrow> nat) \<Rightarrow> nat \<Rightarrow> nat \<Rightarrow> nat" where
  "bucket_start lv n l = length (concat (map (\<lambda>k. bucket lv k n) [0..<l]))"

lemma bucket_Suc: "bucket lv l (Suc i) = bucket lv l i @ (if lv i = l then [i] else [])"
  by (simp add: bucket_def)

lemma bucket_le: "i \<le> n \<Longrightarrow> length (bucket lv l i) \<le> length (bucket lv l n)"
  unfolding bucket_def by (metis filter_append le_add1 length_append upt_add_eq_append zero_le le_add_diff_inverse)

lemma bucket_start_Suc: "bucket_start lv n (Suc l) = bucket_start lv n l + length (bucket lv l n)"
  by (simp add: bucket_start_def)

text \<open>All rows grouped by key, each group in the order of the rows.\<close>

definition grouped :: "(nat \<Rightarrow> nat) \<Rightarrow> nat \<Rightarrow> nat \<Rightarrow> nat list" where
  "grouped lv n L = concat (map (\<lambda>l. bucket lv l n) [0..<L])"

lemma grouped_nth:
  assumes "l < L" "j < length (bucket lv l n)"
  shows "bucket_start lv n l + j < length (grouped lv n L)" "grouped lv n L ! (bucket_start lv n l + j) = bucket lv l n ! j"
proof -
  have "[0..<L] = [0..<l] @ l # [Suc l..<L]" using assms(1) upt_add_eq_append[of 0 l "L - l"] upt_conv_Cons[of l L] by simp
  then have g: "grouped lv n L = concat (map (\<lambda>l. bucket lv l n) [0..<l]) @ bucket lv l n @ concat (map (\<lambda>l. bucket lv l n) [Suc l..<L])"
    by (simp add: grouped_def)
  show "bucket_start lv n l + j < length (grouped lv n L)" "grouped lv n L ! (bucket_start lv n l + j) = bucket lv l n ! j"
    unfolding g bucket_start_def using assms(2) by (simp_all add: nth_append)
qed

lemma grouped_set: "(\<And>i. i < n \<Longrightarrow> lv i < L) \<Longrightarrow> set (grouped lv n L) = {..<n}"
  by (auto simp: grouped_def bucket_def)

lemma grouped_distinct: "distinct (grouped lv n L)"
  by (induction L) (auto simp: grouped_def bucket_def)

lemma grouped_length: "(\<And>i. i < n \<Longrightarrow> lv i < L) \<Longrightarrow> length (grouped lv n L) = n"
  using grouped_set[of n lv L] distinct_card[OF grouped_distinct[of lv n L]] by simp

lemma slot_unique:
  assumes "l < L" "l' < L" "j < length (bucket lv l n)" "j' < length (bucket lv l' n)"
    and "bucket_start lv n l + j = bucket_start lv n l' + j'"
  shows "l = l' \<and> j = j'"
proof -
  have "bucket lv l n ! j = bucket lv l' n ! j'"
    using grouped_nth(2)[OF assms(1,3)] grouped_nth(2)[OF assms(2,4)] assms(5) by simp
  moreover have "lv (bucket lv k n ! m) = k" if "m < length (bucket lv k n)" for k m
    using nth_mem[OF that] by (simp add: bucket_def)
  ultimately have "l = l'" using assms(3,4) by metis
  then show ?thesis using assms(5) by simp
qed

lemma grouped_from: "drop (bucket_start lv n l) (grouped lv n L) = concat (map (\<lambda>k. bucket lv k n) [l..<L])"
  if "l \<le> L"
proof -
  have "[0..<L] = [0..<l] @ [l..<L]" using that upt_add_eq_append[of 0 l "L - l"] by simp
  then show ?thesis by (simp add: grouped_def bucket_start_def)
qed

lemma buckets_sort:
  assumes "\<And>r. r < n \<Longrightarrow> lv r < L"
  shows "concat (map (\<lambda>k. bucket lv k n) [l..<L]) = sort_key lv (filter (\<lambda>r. l \<le> lv r) [0..<n])"
proof (rule properties_for_sort_key[symmetric])
  let ?g = "concat (map (\<lambda>k. bucket lv k n) [l..<L])" and ?f = "filter (\<lambda>r. l \<le> lv r) [0..<n]"
  have d: "distinct (concat (map (\<lambda>k. bucket lv k n) ks))" if "distinct ks" for ks
    using that by (induction ks) (auto simp: bucket_def)
  have "set ?g = set ?f" using assms by (auto simp: bucket_def)
  then show "mset ?g = mset ?f" using d[of "[l..<L]"] set_eq_iff_mset_eq_distinct[of ?g ?f] by simp
  have key: "filter (\<lambda>x. lv k = lv x) (concat (map (\<lambda>k. bucket lv k n) ks)) =
      concat (map (\<lambda>j. if j = lv k then bucket lv j n else []) ks)" for k ks
    by (induction ks) (auto simp: bucket_def filter_empty_conv intro!: filter_cong)
  have one: "concat (map (\<lambda>j. if j = m then bucket lv j n else []) ks) = (if m \<in> set ks then bucket lv m n else [])"
    if "distinct ks" for m ks
    using that by (induction ks) auto
  show "filter (\<lambda>x. lv k = lv x) ?g = filter (\<lambda>x. lv k = lv x) ?f" if "k \<in> set ?g" for k
  proof -
    have k: "lv k \<in> set [l..<L]" using that by (auto simp: bucket_def)
    have "filter (\<lambda>x. lv k = lv x) ?f = bucket lv (lv k) n"
      using k by (auto simp: bucket_def intro!: filter_cong)
    then show ?thesis unfolding key using one[of "[l..<L]" "lv k"] k by simp
  qed
  have "sorted (map lv (concat (map (\<lambda>k. bucket lv k n) [l..<m])))" for m
  proof (induction m)
    case (Suc m)
    have "map lv (bucket lv m n) = replicate (length (bucket lv m n)) m"
      by (rule replicate_eqI) (auto simp: bucket_def)
    then show ?case using Suc by (auto simp: sorted_append bucket_def)
  qed simp
  then show "sorted (map lv ?g)" .
qed

section \<open>Claiming slots in any order\<close>

text \<open>
  When rows claim their places one by one from the counter of their key, in an order \<open>ord\<close> of their own,
  row \<open>i\<close> gets the place behind the rows of its key that came before it.
\<close>

definition slot :: "(nat \<Rightarrow> nat) \<Rightarrow> nat \<Rightarrow> nat list \<Rightarrow> nat \<Rightarrow> nat" where
  "slot lv n ord i = bucket_start lv n (lv i) + length (filter (\<lambda>j. lv j = lv i) (takeWhile (\<lambda>j. j \<noteq> i) ord))"

lemma slot_append: "i \<in> set ord \<Longrightarrow> slot lv n (ord @ [k]) i = slot lv n ord i"
  by (simp add: slot_def takeWhile_append1)

lemma slot_new: "i \<notin> set ord \<Longrightarrow> slot lv n (ord @ [i]) i = bucket_start lv n (lv i) + length (filter (\<lambda>j. lv j = lv i) ord)"
proof -
  assume "i \<notin> set ord"
  then have "takeWhile (\<lambda>j. j \<noteq> i) (ord @ [i]) = ord" by (induction ord) auto
  then show ?thesis by (simp add: slot_def)
qed

lemma claimed_le:
  assumes "distinct ord" "set ord \<subseteq> {..<n}"
  shows "length (filter (\<lambda>j. lv j = k) ord) \<le> length (bucket lv k n)"
proof -
  have "card (set (filter (\<lambda>j. lv j = k) ord)) \<le> card (set (bucket lv k n))"
    by (rule card_mono) (use assms(2) in \<open>auto simp: bucket_def\<close>)
  moreover have "distinct (filter (\<lambda>j. lv j = k) ord)" "distinct (bucket lv k n)" using assms(1) by (simp_all add: bucket_def)
  ultimately show ?thesis by (simp only: distinct_card)
qed

lemma claim_before:
  assumes "i \<in> set ord" "distinct ord"
  shows "length (filter (\<lambda>j. lv j = lv i) (takeWhile (\<lambda>j. j \<noteq> i) ord)) < length (filter (\<lambda>j. lv j = lv i) ord)"
  using assms by (induction ord) auto

lemma slot_bounds:
  assumes "i \<in> set ord" "distinct ord" "set ord \<subseteq> {..<n}"
  shows "slot lv n ord i < bucket_start lv n (lv i) + length (bucket lv (lv i) n)"
  using claim_before[OF assms(1,2), of lv] claimed_le[OF assms(2,3), of lv "lv i"] by (simp add: slot_def)

lemma bucket_end_le:
  assumes "\<And>r. r < n \<Longrightarrow> lv r < L" "k < L"
  shows "bucket_start lv n k + length (bucket lv k n) \<le> n"
proof -
  have "grouped lv n L = concat (map (\<lambda>k. bucket lv k n) [0..<Suc k]) @ concat (map (\<lambda>k. bucket lv k n) [Suc k..<L])"
    using assms(2) upt_add_eq_append[of 0 "Suc k" "L - Suc k"] by (simp add: grouped_def)
  then have "bucket_start lv n (Suc k) \<le> length (grouped lv n L)" by (simp add: bucket_start_def)
  then show ?thesis using grouped_length[of n lv L] assms(1) by (simp add: bucket_start_Suc)
qed

lemma slot_below:
  assumes "i \<in> set ord" "distinct ord" "set ord \<subseteq> {..<n}" "\<And>r. r < n \<Longrightarrow> lv r < L"
  shows "slot lv n ord i < n"
  using slot_bounds[OF assms(1-3), of lv] bucket_end_le[of n lv L "lv i", OF assms(4)] assms(1,3,4) by (meson lessThan_iff less_le_trans subsetD)

lemma claim_inj:
  assumes "i \<in> set ord" "j \<in> set ord" "distinct ord" "lv i = lv j"
    and "length (filter (\<lambda>k. lv k = lv i) (takeWhile (\<lambda>k. k \<noteq> i) ord)) = length (filter (\<lambda>k. lv k = lv i) (takeWhile (\<lambda>k. k \<noteq> j) ord))"
  shows "i = j"
  using assms by (induction ord) (auto split: if_splits)

lemma slot_distinct:
  assumes "i \<in> set ord" "j \<in> set ord" "distinct ord" "set ord \<subseteq> {..<n}" "\<And>r. r < n \<Longrightarrow> lv r < L" "slot lv n ord i = slot lv n ord j"
  shows "i = j"
proof -
  have L: "lv i < L" "lv j < L" using assms(1,2,4,5) by auto
  have b: "length (filter (\<lambda>k. lv k = lv i) (takeWhile (\<lambda>k. k \<noteq> i) ord)) < length (bucket lv (lv i) n)"
    "length (filter (\<lambda>k. lv k = lv j) (takeWhile (\<lambda>k. k \<noteq> j) ord)) < length (bucket lv (lv j) n)"
    using slot_bounds[OF assms(1,3,4), of lv] slot_bounds[OF assms(2,3,4), of lv] by (simp_all add: slot_def)
  have "lv i = lv j \<and> length (filter (\<lambda>k. lv k = lv i) (takeWhile (\<lambda>k. k \<noteq> i) ord)) =
      length (filter (\<lambda>k. lv k = lv j) (takeWhile (\<lambda>k. k \<noteq> j) ord))"
    by (rule slot_unique[OF L b]) (use assms(6) in \<open>simp add: slot_def\<close>)
  then show ?thesis by (metis claim_inj[OF assms(1-3)])
qed

lemma filter_nth_slot:
  assumes "distinct ord" "j < length (filter (\<lambda>i. lv i = k) ord)"
  shows "filter (\<lambda>i. lv i = k) ord ! j \<in> set ord \<and> lv (filter (\<lambda>i. lv i = k) ord ! j) = k \<and>
    slot lv n ord (filter (\<lambda>i. lv i = k) ord ! j) = bucket_start lv n k + j"
proof -
  let ?i = "filter (\<lambda>i. lv i = k) ord ! j"
  have "?i \<in> set (filter (\<lambda>i. lv i = k) ord)" by (rule nth_mem[OF assms(2)])
  then have i: "?i \<in> set ord" "lv ?i = k" by auto
  have "length (filter (\<lambda>i. lv i = k) (takeWhile (\<lambda>i. i \<noteq> filter (\<lambda>i. lv i = k) ord ! j) ord)) = j"
    using assms
  proof (induction ord arbitrary: j)
    case (Cons x xs)
    show ?case
    proof (cases "lv x = k")
      case True
      show ?thesis
      proof (cases j)
        case (Suc j')
        have "filter (\<lambda>i. lv i = k) xs ! j' \<in> set xs" using Cons.prems(2) True Suc nth_mem[of j' "filter (\<lambda>i. lv i = k) xs"] by auto
        then have "x \<noteq> filter (\<lambda>i. lv i = k) xs ! j'" using Cons.prems(1) by auto
        then show ?thesis using Cons True Suc by simp
      qed (use True in simp)
    next
      case False
      have "filter (\<lambda>i. lv i = k) xs ! j \<in> set xs" using Cons.prems(2) False nth_mem[of j "filter (\<lambda>i. lv i = k) xs"] by auto
      then have "x \<noteq> filter (\<lambda>i. lv i = k) xs ! j" using Cons.prems(1) by auto
      then show ?thesis using Cons False by simp
    qed
  qed simp
  then show ?thesis using i by (simp add: slot_def)
qed

text \<open>When every row has claimed its place, a key's places hold the rows of the key in the order they came.\<close>

lemma all_claimed:
  assumes "distinct ord" "set ord = {..<n}" "k < L" "j < length (bucket lv k n)" "\<forall>i < n. bw ! slot lv n ord i = i"
  shows "bw ! (bucket_start lv n k + j) = filter (\<lambda>i. lv i = k) ord ! j"
proof -
  have "set (filter (\<lambda>i. lv i = k) ord) = set (bucket lv k n)" using assms(2) by (auto simp: bucket_def)
  then have "length (filter (\<lambda>i. lv i = k) ord) = length (bucket lv k n)"
    using assms(1) by (metis bucket_def distinct_card distinct_filter distinct_upt)
  then have j: "j < length (filter (\<lambda>i. lv i = k) ord)" using assms(4) by simp
  show ?thesis using filter_nth_slot[OF assms(1) j, of n] assms(2,5) by (metis lessThan_iff)
qed

lemma mset_claimed:
  assumes "distinct ord" "set ord = {..<n}"
  shows "mset (filter (\<lambda>i. lv i = k) ord) = mset (bucket lv k n)"
proof -
  have "mset ord = mset [0..<n]"
    using set_eq_iff_mset_eq_distinct[of ord "[0..<n]"] assms by (simp add: lessThan_atLeast0)
  then show ?thesis by (simp add: bucket_def)
qed

lemma bucket_cover:
  assumes "\<And>i. i < n \<Longrightarrow> lv i < L" "r < n"
  shows "\<exists>k < L. \<exists>j < length (bucket lv k n). r = bucket_start lv n k + j"
proof -
  have "\<exists>k < m. \<exists>j < length (bucket lv k n). r = bucket_start lv n k + j" if "r < bucket_start lv n m" for m
    using that
  proof (induction m)
    case (Suc m)
    show ?case
    proof (cases "r < bucket_start lv n m")
      case True
      then show ?thesis using Suc.IH less_Suc_eq by blast
    next
      case False
      then have "r - bucket_start lv n m < length (bucket lv m n)" "r = bucket_start lv n m + (r - bucket_start lv n m)"
        using Suc.prems by (simp_all add: bucket_start_Suc)
      then show ?thesis by blast
    qed
  qed (simp add: bucket_start_def)
  moreover have "bucket_start lv n L = n" using grouped_length[of n lv L] assms(1) by (simp add: grouped_def bucket_start_def)
  ultimately show ?thesis using assms(2) by simp
qed

lemma bucket_start_mono: "k \<le> l \<Longrightarrow> bucket_start lv n k \<le> bucket_start lv n l"
  by (induction l) (auto simp: bucket_start_Suc le_Suc_eq)

lemma bucket_before: "k < l \<Longrightarrow> bucket_start lv n k + length (bucket lv k n) \<le> bucket_start lv n l"
  using bucket_start_mono[of "Suc k" l lv n] by (simp add: bucket_start_Suc)

end
