(* ===== verification/HnswLayered.thy ===== *)
theory HnswLayered imports NumpyFile Buckets begin

text \<open>
  The host side of the HNSW hierarchy built from CAGRA (\<^verbatim>\<open>cpp/src/neighbors/detail/hnsw.hpp\<close>): the plan
  that groups the rows by their maximum level, the row ranges of the upper layers, and the header of
  the layered artifact (\<^verbatim>\<open>hnsw_layered_format.hpp\<close>).
\<close>

section \<open>The level plan\<close>

text \<open>The level of a row is a \<^verbatim>\<open>uint8_t\<close>; the counts and offsets are \<^verbatim>\<open>size_t\<close>s that never exceed the number of rows.\<close>

record hnsw_level_plan =
  lp_n_rows :: nat
  lp_hist :: "nat list"
  lp_offsets :: "nat list"
  lp_row_ids_by_level :: "nat list"
  lp_position_by_row_id :: "nat list"
  lp_levels :: "u8 list"

datatype hnsw_error = NoRows | LevelCountMismatch | LevelTooHigh

definition max_level :: "hnsw_level_plan \<Rightarrow> nat" where
  "max_level p = (if lp_hist p = [] then 0 else length (lp_hist p) - 1)"

definition promoted_count :: "hnsw_level_plan \<Rightarrow> nat" where
  "promoted_count p = (if lp_hist p = [] then 0 else lp_n_rows p - lp_hist p ! 0)"

definition hnsw_upper_layer_degree :: "nat \<Rightarrow> nat \<Rightarrow> nat" where
  "hnsw_upper_layer_degree row_count M = (if M < row_count then M else if 0 < row_count then row_count - 1 else 0)"

definition progress_step_10 :: "nat \<Rightarrow> nat \<Rightarrow> nat" where
  "progress_step_10 completed overall =
     (if overall = 0 then 100
      else let percent = min completed overall * 100 div overall
           in if overall \<le> completed then 100 else percent div 10 * 10)"

function grow_hist :: "nat \<Rightarrow> nat list \<Rightarrow> nat list" where
  "grow_hist level hist = (if length hist \<le> level then grow_hist level (hist @ [0]) else hist)"
  by auto
termination by (relation "measure (\<lambda>(level, hist). level + 1 - length hist)") auto

declare grow_hist.simps [simp del]

definition count_level :: "u8 \<Rightarrow> nat list \<Rightarrow> nat list" where
  "count_level level hist = (let hist = grow_hist (unat level) hist in hist[unat level := hist ! unat level + 1])"

definition bucket_offsets :: "nat list \<Rightarrow> nat list" where
  "bucket_offsets hist =
     fold (\<lambda>i offsets. offsets[i + 1 := offsets ! i + hist ! i]) [0..<length hist - 1] (replicate (length hist + 1) 0)"

definition place_row :: "bool \<Rightarrow> nat \<Rightarrow> hnsw_level_plan \<Rightarrow> hnsw_level_plan" where
  "place_row build_position i plan =
     (let level = unat (lp_levels plan ! i);
          at = lp_offsets plan ! level
      in plan\<lparr>lp_position_by_row_id := (if build_position then (lp_position_by_row_id plan)[i := at] else lp_position_by_row_id plan),
              lp_row_ids_by_level := (lp_row_ids_by_level plan)[at := i],
              lp_offsets := (lp_offsets plan)[level := at + 1]\<rparr>)"

text \<open>\<open>un\<close> and \<open>un'\<close> are what the two row-sized arrays hold when they are allocated.\<close>

definition make_hnsw_level_plan_from_levels :: "nat list \<Rightarrow> nat list \<Rightarrow> nat \<Rightarrow> u8 list \<Rightarrow> bool \<Rightarrow> hnsw_error + hnsw_level_plan" where
  "make_hnsw_level_plan_from_levels un un' n_rows levels build_position =
     bind_r (expects (0 < n_rows) NoRows) (\<lambda>_.
     bind_r (expects (length levels = n_rows) LevelCountMismatch) (\<lambda>_.
       let hist = fold (\<lambda>i. count_level (levels ! i)) [0..<n_rows] [] in
       Inr (fold (place_row build_position) [0..<n_rows]
         \<lparr>lp_n_rows = n_rows, lp_hist = hist, lp_offsets = bucket_offsets hist, lp_row_ids_by_level = un,
          lp_position_by_row_id = (if build_position then un' else []), lp_levels = levels\<rparr>)))"

text \<open>\<open>random i\<close> is the level that the library draws for row \<open>i\<close>.\<close>

fun draw_levels :: "(nat \<Rightarrow> int) \<Rightarrow> nat list \<Rightarrow> hnsw_error + u8 list" where
  "draw_levels random [] = Inr []"
| "draw_levels random (i # is) =
     bind_r (expects (random i \<le> 255) LevelTooHigh) (\<lambda>_.
     bind_r (draw_levels random is) (\<lambda>ls. Inr (word_of_int (random i) # ls)))"

definition make_random_hnsw_level_plan :: "nat list \<Rightarrow> nat list \<Rightarrow> nat \<Rightarrow> (nat \<Rightarrow> int) \<Rightarrow> hnsw_error + hnsw_level_plan" where
  "make_random_hnsw_level_plan un un' n_rows random =
     bind_r (draw_levels random [0..<n_rows]) (\<lambda>levels. make_hnsw_level_plan_from_levels un un' n_rows levels True)"

text \<open>
  The upper layers: for each the level, the first position of its rows, their number, the degree and the
  neighbours that the device computes (\<open>all_neighbors rows degree\<close>) from the rows of the layer.
\<close>

definition build_hnsw_upper_layer_graphs :: "('r list \<Rightarrow> nat \<Rightarrow> nat list list) \<Rightarrow> 'r list \<Rightarrow> hnsw_level_plan \<Rightarrow> nat \<Rightarrow>
    (nat \<times> nat \<times> nat list list) list" where
  "build_hnsw_upper_layer_graphs all_neighbors promoted_dataset plan M =
     map (\<lambda>pt_level.
       let start_idx = lp_offsets plan ! (pt_level - 1);
           removed_rows = start_idx - lp_offsets plan ! 0;
           row_count = lp_n_rows plan - start_idx;
           neighbor_size = hnsw_upper_layer_degree row_count M
       in (pt_level, start_idx,
           if 0 < neighbor_size then all_neighbors (take row_count (drop removed_rows promoted_dataset)) neighbor_size
           else replicate row_count []))
     [1..<length (lp_hist plan)]"

section \<open>Counting the levels\<close>

lemma grow_hist_eq: "grow_hist level hist = hist @ replicate (level + 1 - length hist) 0"
proof (induction level hist rule: grow_hist.induct)
  case (1 level hist)
  show ?case
  proof (cases "length hist \<le> level")
    case True
    then have "level + 1 - length hist = Suc (level - length hist)" by simp
    then show ?thesis using 1[OF True] True by (subst grow_hist.simps) (simp add: replicate_append_same)
  next
    case False
    then show ?thesis by (subst grow_hist.simps) simp
  qed
qed

lemma hist_counts:
  assumes "\<forall>i < n. unat (levels ! i) = lv i"
  shows "length (fold (\<lambda>i. count_level (levels ! i)) [0..<n] []) = (if n = 0 then 0 else Max (lv ` {..<n}) + 1) \<and>
    (\<forall>l < length (fold (\<lambda>i. count_level (levels ! i)) [0..<n] []).
       fold (\<lambda>i. count_level (levels ! i)) [0..<n] [] ! l = length (bucket lv l n))"
  using assms
proof (induction n)
  case (Suc n)
  let ?h = "fold (\<lambda>i. count_level (levels ! i)) [0..<n] []"
  have IH: "length ?h = (if n = 0 then 0 else Max (lv ` {..<n}) + 1)" "\<And>l. l < length ?h \<Longrightarrow> ?h ! l = length (bucket lv l n)"
    using Suc by auto
  have zero: "bucket lv l n = []" if "length ?h \<le> l" for l
  proof -
    have "lv i < l" if "i < n" for i
    proof -
      have "lv i \<le> Max (lv ` {..<n})" using that by (intro Max_ge) auto
      moreover have "Max (lv ` {..<n}) + 1 \<le> l" using \<open>length ?h \<le> l\<close> IH(1) that by simp
      ultimately show ?thesis by linarith
    qed
    then show ?thesis by (fastforce simp: bucket_def filter_empty_conv)
  qed
  let ?g = "?h @ replicate (lv n + 1 - length ?h) 0"
  have g: "?g ! l = length (bucket lv l n)" if "l < length ?g" for l
    using that IH(2)[of l] zero[of l] by (auto simp: nth_append)
  have step: "fold (\<lambda>i. count_level (levels ! i)) [0..<Suc n] [] = ?g[lv n := ?g ! lv n + 1]"
    using Suc.prems by (simp add: count_level_def Let_def grow_hist_eq)
  have len: "length ?g = Max (lv ` {..<Suc n}) + 1"
  proof (cases "n = 0")
    case False
    then have "lv ` {..<n} \<noteq> {}" by (auto simp: lessThan_empty_iff)
    then have "Max (lv ` {..<Suc n}) = max (lv n) (Max (lv ` {..<n}))" by (simp add: lessThan_Suc)
    then show ?thesis using IH(1) False by simp
  qed (use IH(1) in \<open>simp add: lessThan_Suc\<close>)
  have "?g[lv n := ?g ! lv n + 1] ! l = length (bucket lv l (Suc n))" if "l < length ?g" for l
    using g[OF that] that by (cases "l = lv n") (simp_all add: bucket_Suc)
  then show ?case unfolding step using len by simp
qed simp

lemma bucket_offsets_eq:
  assumes "\<And>l. l < length hist \<Longrightarrow> hist ! l = length (bucket lv l n)"
  shows "length (bucket_offsets hist) = length hist + 1 \<and> (\<forall>l < length hist. bucket_offsets hist ! l = bucket_start lv n l)"
proof -
  let ?f = "\<lambda>i offsets. offsets[i + 1 := offsets ! i + hist ! i]"
  have "length (fold ?f [0..<k] (replicate (length hist + 1) 0)) = length hist + 1 \<and>
      (\<forall>l \<le> k. fold ?f [0..<k] (replicate (length hist + 1) 0) ! l = bucket_start lv n l)"
    if "k < length hist" for k
    using that
  proof (induction k)
    case (Suc k)
    then show ?case using assms[of k] by (auto simp: bucket_start_Suc nth_list_update le_Suc_eq)
  qed (simp add: bucket_start_def)
  from this[of "length hist - 1"] show ?thesis by (cases hist) (auto simp: bucket_offsets_def)
qed

section \<open>Placing the rows\<close>

definition placed :: "(nat \<Rightarrow> nat) \<Rightarrow> nat \<Rightarrow> nat \<Rightarrow> bool \<Rightarrow> u8 list \<Rightarrow> nat list \<Rightarrow> nat \<Rightarrow> hnsw_level_plan \<Rightarrow> bool" where
  "placed lv n L b levels hist i p \<longleftrightarrow> lp_n_rows p = n \<and> lp_hist p = hist \<and> lp_levels p = levels \<and>
     length (lp_offsets p) = L + 1 \<and> length (lp_row_ids_by_level p) = n \<and>
     length (lp_position_by_row_id p) = (if b then n else 0) \<and>
     (\<forall>l < L. lp_offsets p ! l = bucket_start lv n l + length (bucket lv l i)) \<and>
     (\<forall>l < L. \<forall>j < length (bucket lv l i). lp_row_ids_by_level p ! (bucket_start lv n l + j) = bucket lv l i ! j) \<and>
     (b \<longrightarrow> (\<forall>r < i. lp_position_by_row_id p ! r = bucket_start lv n (lv r) + length (bucket lv (lv r) r)))"

lemma placed_step:
  assumes p: "placed lv n L b levels hist i p" and i: "i < n" and lv: "\<And>r. r < n \<Longrightarrow> unat (levels ! r) = lv r \<and> lv r < L"
  shows "placed lv n L b levels hist (i + 1) (place_row b i p)"
proof -
  let ?at = "bucket_start lv n (lv i) + length (bucket lv (lv i) i)"
  have li: "unat (lp_levels p ! i) = lv i" "lv i < L" using p lv[OF i] by (simp_all add: placed_def)
  have at: "lp_offsets p ! lv i = ?at" using p li(2) by (simp add: placed_def)
  have room: "length (bucket lv l (i + 1)) \<le> length (bucket lv l n)" for l using i by (intro bucket_le) simp
  then have here: "length (bucket lv (lv i) i) < length (bucket lv (lv i) n)"
    using room[of "lv i"] by (simp add: bucket_Suc)
  have "?at < length (grouped lv n L)" by (rule grouped_nth(1)[OF li(2) here])
  then have at_n: "?at < n" using grouped_length[of n lv L] lv by simp
  have rows: "(lp_row_ids_by_level p)[?at := i] ! (bucket_start lv n l + j) = bucket lv l (i + 1) ! j"
    if l: "l < L" and j: "j < length (bucket lv l (i + 1))" for l j
  proof (cases "l = lv i \<and> j = length (bucket lv (lv i) i)")
    case True
    then show ?thesis using at_n p by (simp add: bucket_Suc placed_def)
  next
    case False
    have "bucket_start lv n l + j \<noteq> ?at"
      using slot_unique[OF l li(2) _ here, of j] j room[of l] False by fastforce
    moreover have "j < length (bucket lv l i)" using j False by (auto simp: bucket_Suc split: if_splits)
    ultimately show ?thesis using p l by (simp add: placed_def bucket_Suc nth_append)
  qed
  have pos: "(lp_position_by_row_id p)[i := ?at] ! r = bucket_start lv n (lv r) + length (bucket lv (lv r) r)"
    if "b" "r < i + 1" for r
    using p i that by (cases "r = i") (auto simp: placed_def)
  have off: "(lp_offsets p)[lv i := ?at + 1] ! l = bucket_start lv n l + length (bucket lv l (i + 1))" if "l < L" for l
    using p that by (cases "l = lv i") (auto simp: placed_def bucket_Suc)
  show ?thesis
    unfolding place_row_def Let_def li(1) at using p rows pos off by (simp add: placed_def)
qed

lemma placed_all:
  assumes "placed lv n L b levels hist 0 p" "\<And>r. r < n \<Longrightarrow> unat (levels ! r) = lv r \<and> lv r < L" "k \<le> n"
  shows "placed lv n L b levels hist k (fold (place_row b) [0..<k] p)"
  using assms(3)
proof (induction k)
  case (Suc k)
  then show ?case using placed_step[of lv n L b levels hist k "fold (place_row b) [0..<k] p"] assms(2) by simp
qed (use assms(1) in simp)

section \<open>The plan is the stable sort by level\<close>

text \<open>The rows of at least a level, in the order of the plan.\<close>

definition layer_rows :: "(nat \<Rightarrow> nat) \<Rightarrow> nat \<Rightarrow> nat \<Rightarrow> nat list" where
  "layer_rows lv n l = sort_key lv (filter (\<lambda>r. l \<le> lv r) [0..<n])"

lemma level_plan_facts:
  assumes "0 < n" "length levels = n" "length un = n" "length un' = n"
  defines "lv \<equiv> \<lambda>r. unat (levels ! r)"
  shows "\<exists>p. make_hnsw_level_plan_from_levels un un' n levels b = Inr p \<and> lp_n_rows p = n \<and> lp_levels p = levels \<and>
    lp_row_ids_by_level p = sort_key lv [0..<n] \<and> length (lp_position_by_row_id p) = (if b then n else 0) \<and>
    (\<forall>r < n. b \<longrightarrow> lp_position_by_row_id p ! r < n \<and> sort_key lv [0..<n] ! (lp_position_by_row_id p ! r) = r) \<and>
    max_level p = Max (lv ` {..<n}) \<and> length (lp_hist p) = max_level p + 1 \<and> lp_hist p ! 0 = lp_offsets p ! 0 \<and>
    (\<forall>l. 1 \<le> l \<and> l \<le> max_level p + 1 \<longrightarrow> lp_offsets p ! (l - 1) \<le> n \<and>
       drop (lp_offsets p ! (l - 1)) (sort_key lv [0..<n]) = layer_rows lv n l)"
proof -
  let ?hist = "fold (\<lambda>i. count_level (levels ! i)) [0..<n] []"
  define L where "L = length ?hist"
  have h: "L = Max (lv ` {..<n}) + 1" "\<And>l. l < L \<Longrightarrow> ?hist ! l = length (bucket lv l n)"
    using hist_counts[of n levels lv] assms(1) by (auto simp: lv_def L_def)
  have lvL: "lv r < L" if "r < n" for r
  proof -
    have "lv r \<le> Max (lv ` {..<n})" by (rule Max_ge) (use that in auto)
    then show ?thesis using h(1) by linarith
  qed
  let ?p0 = "\<lparr>lp_n_rows = n, lp_hist = ?hist, lp_offsets = bucket_offsets ?hist, lp_row_ids_by_level = un,
    lp_position_by_row_id = (if b then un' else []), lp_levels = levels\<rparr>"
  have "placed lv n L b levels ?hist 0 ?p0"
    using bucket_offsets_eq[of ?hist lv n] h(2) assms(3,4) by (simp add: placed_def L_def bucket_def)
  then have "placed lv n L b levels ?hist n (fold (place_row b) [0..<n] ?p0)"
    by (rule placed_all) (use lvL in \<open>simp_all add: lv_def\<close>)
  then obtain p where p: "make_hnsw_level_plan_from_levels un un' n levels b = Inr p" "placed lv n L b levels ?hist n p"
    using assms(1,2) by (simp add: make_hnsw_level_plan_from_levels_def bind_expects Let_def)
  have in_bucket: "r \<in> set (bucket lv (lv r) n)" if "r < n" for r using that by (simp add: bucket_def)
  have ids: "lp_row_ids_by_level p = grouped lv n L"
  proof (rule nth_equalityI)
    show l: "length (lp_row_ids_by_level p) = length (grouped lv n L)"
      using p(2) grouped_length[of n lv L] lvL by (simp add: placed_def)
    fix m assume "m < length (lp_row_ids_by_level p)"
    then have "grouped lv n L ! m \<in> {..<n}" using l lvL grouped_set[of n lv L] nth_mem by metis
    then have r: "grouped lv n L ! m < n" by simp
    let ?r = "grouped lv n L ! m"
    obtain j where j: "j < length (bucket lv (lv ?r) n)" "bucket lv (lv ?r) n ! j = ?r"
      using in_bucket[OF r] by (metis in_set_conv_nth)
    have m: "m = bucket_start lv n (lv ?r) + j"
      using grouped_nth[OF lvL[OF r] j(1)] j(2) grouped_distinct[of lv n L] \<open>m < length (lp_row_ids_by_level p)\<close> l
      by (metis nth_eq_iff_index_eq)
    have "lp_row_ids_by_level p ! (bucket_start lv n (lv ?r) + j) = bucket lv (lv ?r) n ! j"
      using p(2) lvL[OF r] j(1) unfolding placed_def by blast
    then show "lp_row_ids_by_level p ! m = ?r" using m j(2) by metis
  qed
  have from_level: "drop (bucket_start lv n l) (grouped lv n L) = sort_key lv (filter (\<lambda>r. l \<le> lv r) [0..<n])" if "l \<le> L" for l
    using grouped_from[OF that] buckets_sort[of n lv L] lvL by simp
  have pos: "lp_position_by_row_id p ! r < n \<and> grouped lv n L ! (lp_position_by_row_id p ! r) = r" if "r < n" "b" for r
  proof -
    have "bucket lv (lv r) (Suc r) = bucket lv (lv r) r @ [r]" by (simp add: bucket_Suc)
    moreover have "\<exists>t. bucket lv (lv r) n = bucket lv (lv r) (Suc r) @ t"
      unfolding bucket_def using that(1) upt_add_eq_append[of 0 "Suc r" "n - Suc r"] by auto
    ultimately have b: "length (bucket lv (lv r) r) < length (bucket lv (lv r) n)"
      "bucket lv (lv r) n ! length (bucket lv (lv r) r) = r" by (auto simp: nth_append)
    have at: "lp_position_by_row_id p ! r = bucket_start lv n (lv r) + length (bucket lv (lv r) r)"
      using p(2) that by (simp add: placed_def)
    have len: "length (grouped lv n L) = n" by (rule grouped_length) (rule lvL)
    show ?thesis unfolding at
      using grouped_nth[OF lvL[OF that(1)] b(1)] b(2) len by simp
  qed
  have ends: "lp_offsets p ! (l - 1) = bucket_start lv n l" if "0 < l" "l \<le> L" for l
    using p(2) that bucket_start_Suc[of lv n "l - 1"] by (simp add: placed_def)
  have start: "bucket_start lv n l \<le> n" if "l \<le> L" for l
  proof -
    have "[0..<L] = [0..<l] @ [l..<L]" using that upt_add_eq_append[of 0 l "L - l"] by simp
    then have "length (grouped lv n L) = bucket_start lv n l + length (concat (map (\<lambda>k. bucket lv k n) [l..<L]))"
      by (simp add: grouped_def bucket_start_def)
    then show ?thesis using grouped_length[of n lv L] lvL by simp
  qed
  have mono: "bucket_start lv n 1 \<le> bucket_start lv n l" if "1 \<le> l" for l
    using that by (induction l rule: dec_induct) (simp_all add: bucket_start_Suc)
  have ml: "max_level p + 1 = L" "L = length (lp_hist p)"
    using p(2) h(1) by (auto simp: max_level_def placed_def L_def)
  have g: "grouped lv n L = sort_key lv [0..<n]" using from_level[of 0] by (simp add: bucket_start_def)
  have "lp_hist p ! 0 = length (bucket lv 0 n)" using p(2) h(2)[of 0] h(1) by (simp add: placed_def)
  then have h0: "lp_hist p ! 0 = lp_offsets p ! 0" using ends[of 1] h(1) by (simp add: bucket_start_def)
  have off: "lp_offsets p ! (l - 1) \<le> n \<and> drop (lp_offsets p ! (l - 1)) (sort_key lv [0..<n]) = layer_rows lv n l"
    if "1 \<le> l \<and> l \<le> max_level p + 1" for l
    using ends[of l] start[of l] from_level[of l] that ml g by (simp add: layer_rows_def)
  show ?thesis
    using p ids pos ml h(1) g h0 off by (intro exI[of _ p]) (simp add: placed_def)
qed

lemma upper_layers_eq:
  assumes "lp_n_rows p = n" "length (lp_hist p) = L + 1" "lp_row_ids_by_level p = ids" "length ids = n"
    and off: "\<And>l. 1 \<le> l \<Longrightarrow> l \<le> L + 1 \<Longrightarrow> lp_offsets p ! (l - 1) \<le> n \<and> drop (lp_offsets p ! (l - 1)) ids = layer l"
    and mono: "\<And>l. 1 \<le> l \<Longrightarrow> l \<le> L + 1 \<Longrightarrow> length (layer l) \<le> length (layer 1)"
  shows "build_hnsw_upper_layer_graphs nb (map row (drop (lp_offsets p ! 0) ids)) p M =
      map (\<lambda>l. let rows = map row (layer l); degree = hnsw_upper_layer_degree (length rows) M
               in (l, n - length rows, if 0 < degree then nb rows degree else replicate (length rows) [])) [1..<L + 1]"
proof -
  have "(let start_idx = lp_offsets p ! (l - 1);
           removed_rows = start_idx - lp_offsets p ! 0;
           row_count = lp_n_rows p - start_idx;
           neighbor_size = hnsw_upper_layer_degree row_count M
       in (l, start_idx, if 0 < neighbor_size
           then nb (take row_count (drop removed_rows (map row (drop (lp_offsets p ! 0) ids)))) neighbor_size
           else replicate row_count [])) =
      (let rows = map row (layer l); degree = hnsw_upper_layer_degree (length rows) M
       in (l, n - length rows, if 0 < degree then nb rows degree else replicate (length rows) []))"
    if l: "1 \<le> l" "l < L + 1" for l
  proof -
    let ?o = "lp_offsets p ! (l - 1)" and ?o1 = "lp_offsets p ! 0"
    have a: "?o \<le> n" "drop ?o ids = layer l" using off[of l] l by simp_all
    have b: "?o1 \<le> n" "drop ?o1 ids = layer 1" using off[of 1] by simp_all
    have len: "length (layer l) = n - ?o" "length (layer 1) = n - ?o1"
      using arg_cong[OF a(2), of length] arg_cong[OF b(2), of length] assms(4) by simp_all
    have le: "?o1 \<le> ?o" using mono[of l] len a b l by linarith
    have d: "drop (?o - ?o1) (map row (drop ?o1 ids)) = map row (layer l)" using a l le by (simp add: drop_map)
    have n: "n - length (layer l) = ?o" using len a l by simp
    show ?thesis unfolding Let_def assms(1) d using len(1) n by simp
  qed
  then show ?thesis unfolding build_hnsw_upper_layer_graphs_def assms(2) by (intro map_cong) auto
qed

lemma layer_rows_shrink: "l \<le> k \<Longrightarrow> length (layer_rows lv n k) \<le> length (layer_rows lv n l)"
proof -
  assume "l \<le> k"
  then have "{r \<in> {..<n}. k \<le> lv r} \<subseteq> {r \<in> {..<n}. l \<le> lv r}" by auto
  then have "card {r \<in> {..<n}. k \<le> lv r} \<le> card {r \<in> {..<n}. l \<le> lv r}" by (rule card_mono[rotated]) simp
  moreover have "length (layer_rows lv n l) = card {r \<in> {..<n}. l \<le> lv r}" for l
  proof -
    have "length (layer_rows lv n l) = card (set (filter (\<lambda>r. l \<le> lv r) [0..<n]))"
      unfolding layer_rows_def by (simp add: distinct_card del: set_filter)
    also have "set (filter (\<lambda>r. l \<le> lv r) [0..<n]) = {r \<in> {..<n}. l \<le> lv r}" by auto
    finally show ?thesis .
  qed
  ultimately show ?thesis by simp
qed

text \<open>
  C8: The plan groups the rows by their level: its row ids are the rows sorted stably by level, the
  positions are their inverse, and building the upper layers hands the device, for each level from one
  to the maximum, exactly the rows of at least that level, in that order, with the degree that their
  number allows.
\<close>

theorem level_plan_correct:
  assumes "0 < n" "length levels = n" "length un = n" "length un' = n"
  defines "lv \<equiv> \<lambda>r. unat (levels ! r)"
  shows "\<exists>p. make_hnsw_level_plan_from_levels un un' n levels b = Inr p \<and>
    lp_row_ids_by_level p = sort_key lv [0..<n] \<and>
    (\<forall>r < n. b \<longrightarrow> lp_position_by_row_id p ! r < n \<and> lp_row_ids_by_level p ! (lp_position_by_row_id p ! r) = r) \<and>
    max_level p = Max (lv ` {..<n}) \<and>
    build_hnsw_upper_layer_graphs nb (map row (drop (lp_offsets p ! 0) (lp_row_ids_by_level p))) p M =
      map (\<lambda>l. let rows = map row (layer_rows lv n l);
                   degree = hnsw_upper_layer_degree (length rows) M
               in (l, n - length rows, if 0 < degree then nb rows degree else replicate (length rows) []))
        [1..<max_level p + 1]"
proof -
  obtain p where p: "make_hnsw_level_plan_from_levels un un' n levels b = Inr p" "lp_n_rows p = n"
    "lp_row_ids_by_level p = sort_key lv [0..<n]"
    "\<forall>r < n. b \<longrightarrow> lp_position_by_row_id p ! r < n \<and> sort_key lv [0..<n] ! (lp_position_by_row_id p ! r) = r"
    "max_level p = Max (lv ` {..<n})" "length (lp_hist p) = max_level p + 1"
    "\<forall>l. 1 \<le> l \<and> l \<le> max_level p + 1 \<longrightarrow> lp_offsets p ! (l - 1) \<le> n \<and>
       drop (lp_offsets p ! (l - 1)) (sort_key lv [0..<n]) = layer_rows lv n l"
    using level_plan_facts[OF assms(1-4), of b] unfolding lv_def by blast
  have "length (layer_rows lv n l) \<le> length (layer_rows lv n 1)" if "1 \<le> l" for l using layer_rows_shrink[OF that] .
  then show ?thesis
    using p upper_layers_eq[OF p(2,6,3), of "layer_rows lv n" nb row M] by (intro exI[of _ p]) simp
qed

theorem level_plan_correct_witness:
  "\<exists>p. make_hnsw_level_plan_from_levels [7, 7, 7] [7, 7, 7] 3 [1, 0, 2] True = Inr p \<and>
    lp_row_ids_by_level p = [1, 0, 2] \<and> lp_row_ids_by_level p ! (lp_position_by_row_id p ! 2) = 2 \<and> max_level p = 2"
proof -
  have u: "[0..<3] = [0, 1, 2 :: nat]" by (simp add: upt_conv_Cons)
  have s: "{..<3} = {0, 1, 2 :: nat}" by auto
  have k: "sort_key (\<lambda>r. unat ([1, 0, 2 :: u8] ! r)) [0..<3] = [1, 0, 2]" unfolding u by simp
  show ?thesis
    using level_plan_correct[of 3 "[1, 0, 2]" "[7, 7, 7]" "[7, 7, 7]" True "\<lambda>_ _. []" "\<lambda>r. r" 2] unfolding k s by auto
qed

section \<open>The header of the artifact\<close>

text \<open>\<open>size_t\<close> and \<open>uint64_t\<close> have one type here, \<^verbatim>\<open>double\<close> is the parameter \<open>'d\<close>.\<close>

datatype layered_dtype = unknown | float32 | float16 | uint8 | int8

definition layered_dtypes :: "(layered_dtype \<times> u32) list" where
  "layered_dtypes = [(unknown, 0), (float32, 1), (float16, 2), (uint8, 3), (int8, 4)]"

definition dtype_code :: "layered_dtype \<Rightarrow> u32" where
  "dtype_code d = the (map_of layered_dtypes d)"

text \<open>The types for which the templates are instantiated, and any other.\<close>

datatype element = Float | Half | UInt8 | Int8 | OtherElement

definition layered_dtype_code :: "element \<Rightarrow> layered_dtype" where
  "layered_dtype_code T =
     (if T = Float then float32 else if T = Half then float16 else if T = UInt8 then uint8
      else if T = Int8 then int8 else unknown)"

definition is_supported_layered_dtype :: "u32 \<Rightarrow> bool" where
  "is_supported_layered_dtype code \<longleftrightarrow> code \<in> {dtype_code float32, dtype_code float16, dtype_code uint8, dtype_code int8}"

definition metric_name :: "distance_type \<Rightarrow> string" where
  "metric_name metric = (case metric of L2Expanded \<Rightarrow> ''L2Expanded'' | InnerProduct \<Rightarrow> ''InnerProduct'' | _ \<Rightarrow> ''Unknown'')"

definition align_up :: "nat \<Rightarrow> nat \<Rightarrow> nat" where
  "align_up value alignment = (value + alignment - 1) div alignment * alignment"

end
