(* ===== verification/HnswArtifact.thy ===== *)
theory HnswArtifact imports HnswLayered ByteArrays begin

text \<open>
  The layered HNSW artifact (\<^verbatim>\<open>hnsw_layered_format.hpp\<close> and the writer in \<^verbatim>\<open>hnsw.hpp\<close>): its header, the
  offsets of its sections, and the functions that write it from the ACE graph on disk. A file is its
  bytes; a positional transfer that succeeds reads or overwrites a range of them.

  \<open>size_t\<close> values are \<open>nat\<close>, the words of the file hold them modulo their width. hnswlib, the nearest
  neighbours of a layer and the parser of NumPy headers are parameters.
\<close>

section \<open>The header\<close>

record layered_header =
  lh_magic :: bytes
  lh_n_rows :: nat
  lh_dim :: nat
  lh_M :: nat
  lh_maxM :: nat
  lh_maxM0 :: nat
  lh_ef_construction :: nat
  lh_base_degree :: nat
  lh_levels_bytes :: nat
  lh_base_nodes_bytes :: nat
  lh_base_link_row_bytes :: nat
  lh_base_links_bytes :: nat
  lh_upper_nodes_count :: nat
  lh_upper_nodes_bytes :: nat
  lh_upper_link_row_bytes :: nat
  lh_upper_links_bytes :: nat
  lh_mult :: nat \<comment> \<open>the bits of the \<^verbatim>\<open>double\<close>\<close>
  lh_version :: nat
  lh_construction_dtype :: nat
  lh_metric :: nat
  lh_num_layers :: nat
  lh_maxlevel :: int
  lh_enterpoint_node :: int

record layer_info =
  li_level :: nat
  li_row_count :: nat
  li_degree :: nat
  li_node_offset :: nat
  li_link_offset :: nat

record layered_metadata =
  md_n_rows :: nat
  md_dim :: nat
  md_M :: nat
  md_maxM :: nat
  md_maxM0 :: nat
  md_ef_construction :: nat
  md_base_degree :: nat
  md_levels_bytes :: nat
  md_base_nodes_bytes :: nat
  md_base_link_row_bytes :: nat
  md_base_links_bytes :: nat
  md_upper_nodes_count :: nat
  md_upper_nodes_bytes :: nat
  md_upper_link_row_bytes :: nat
  md_upper_links_bytes :: nat
  md_mult :: nat
  md_maxlevel :: int
  md_enterpoint_node :: int
  md_layers :: "layer_info list"

definition layered_hnsw_magic :: bytes where
  "layered_hnsw_magic = text_bytes ''CUVS_HNSW_LAYERED''"

definition layered_hnsw_version :: nat where "layered_hnsw_version = 1"

definition layered_hnsw_alignment :: nat where "layered_hnsw_alignment = 64"

text \<open>\<^verbatim>\<open>strncpy\<close> into the 32 zeros of the field, and \<^verbatim>\<open>strncmp\<close> over its length.\<close>

definition magic_field :: bytes where
  "magic_field = take 31 (layered_hnsw_magic @ replicate 32 0) @ [0]"

definition magic_matches :: "bytes \<Rightarrow> bool" where
  "magic_matches m \<longleftrightarrow> takeWhile (\<lambda>b. b \<noteq> 0) (take 32 m) = layered_hnsw_magic"

definition make_layered_hnsw_header :: "element \<Rightarrow> layered_metadata \<Rightarrow> distance_type \<Rightarrow> layered_header" where
  "make_layered_hnsw_header T md metric =
     \<lparr>lh_magic = magic_field, lh_n_rows = md_n_rows md, lh_dim = md_dim md, lh_M = md_M md, lh_maxM = md_maxM md,
      lh_maxM0 = md_maxM0 md, lh_ef_construction = md_ef_construction md, lh_base_degree = md_base_degree md,
      lh_levels_bytes = md_levels_bytes md, lh_base_nodes_bytes = md_base_nodes_bytes md,
      lh_base_link_row_bytes = md_base_link_row_bytes md, lh_base_links_bytes = md_base_links_bytes md,
      lh_upper_nodes_count = md_upper_nodes_count md, lh_upper_nodes_bytes = md_upper_nodes_bytes md,
      lh_upper_link_row_bytes = md_upper_link_row_bytes md, lh_upper_links_bytes = md_upper_links_bytes md,
      lh_mult = md_mult md, lh_version = layered_hnsw_version,
      lh_construction_dtype = unat (dtype_code (layered_dtype_code T)),
      lh_metric = nat (the (map_of distance_types metric)), lh_num_layers = length (md_layers md),
      lh_maxlevel = md_maxlevel md, lh_enterpoint_node = md_enterpoint_node md\<rparr>"

definition layered_hnsw_metadata_from_header :: "layered_header \<Rightarrow> layered_metadata" where
  "layered_hnsw_metadata_from_header h =
     \<lparr>md_n_rows = lh_n_rows h, md_dim = lh_dim h, md_M = lh_M h, md_maxM = lh_maxM h, md_maxM0 = lh_maxM0 h,
      md_ef_construction = lh_ef_construction h, md_base_degree = lh_base_degree h,
      md_levels_bytes = lh_levels_bytes h, md_base_nodes_bytes = lh_base_nodes_bytes h,
      md_base_link_row_bytes = lh_base_link_row_bytes h, md_base_links_bytes = lh_base_links_bytes h,
      md_upper_nodes_count = lh_upper_nodes_count h, md_upper_nodes_bytes = lh_upper_nodes_bytes h,
      md_upper_link_row_bytes = lh_upper_link_row_bytes h, md_upper_links_bytes = lh_upper_links_bytes h,
      md_mult = lh_mult h, md_maxlevel = lh_maxlevel h, md_enterpoint_node = lh_enterpoint_node h, md_layers = []\<rparr>"

text \<open>The bytes of the \<^verbatim>\<open>struct\<close>: the fields in their order, 192 bytes without any gap.\<close>

definition put_int32 :: "int \<Rightarrow> bytes" where
  "put_int32 i = put_uint 4 (nat (i mod 2 ^ 32))"

definition get_int32 :: "bytes \<Rightarrow> int" where
  "get_int32 bs = sint (of_nat (get_uint bs) :: u32)"

definition header_u64s :: "layered_header \<Rightarrow> nat list" where
  "header_u64s h = [lh_n_rows h, lh_dim h, lh_M h, lh_maxM h, lh_maxM0 h, lh_ef_construction h, lh_base_degree h,
     lh_levels_bytes h, lh_base_nodes_bytes h, lh_base_link_row_bytes h, lh_base_links_bytes h,
     lh_upper_nodes_count h, lh_upper_nodes_bytes h, lh_upper_link_row_bytes h, lh_upper_links_bytes h, lh_mult h]"

definition header_bytes :: "layered_header \<Rightarrow> bytes" where
  "header_bytes h = concat ([lh_magic h] @ map (put_uint 8) (header_u64s h) @
     [put_uint 4 (lh_version h), put_uint 4 (lh_construction_dtype h), put_uint 4 (lh_metric h),
      put_uint 4 (lh_num_layers h), put_int32 (lh_maxlevel h), put_int32 (lh_enterpoint_node h), put_uint 4 0, put_uint 4 0])"

definition header_of_bytes :: "bytes \<Rightarrow> layered_header" where
  "header_of_bytes bs =
     (let f = split_sizes ([32] @ replicate 16 8 @ replicate 8 4) bs;
          u = (\<lambda>k. get_uint (f ! k))
      in \<lparr>lh_magic = f ! 0, lh_n_rows = u 1, lh_dim = u 2, lh_M = u 3, lh_maxM = u 4, lh_maxM0 = u 5,
          lh_ef_construction = u 6, lh_base_degree = u 7, lh_levels_bytes = u 8, lh_base_nodes_bytes = u 9,
          lh_base_link_row_bytes = u 10, lh_base_links_bytes = u 11, lh_upper_nodes_count = u 12,
          lh_upper_nodes_bytes = u 13, lh_upper_link_row_bytes = u 14, lh_upper_links_bytes = u 15, lh_mult = u 16,
          lh_version = u 17, lh_construction_dtype = u 18, lh_metric = u 19, lh_num_layers = u 20,
          lh_maxlevel = get_int32 (f ! 21), lh_enterpoint_node = get_int32 (f ! 22)\<rparr>)"

definition descriptor_bytes :: "layer_info \<Rightarrow> bytes" where
  "descriptor_bytes l = concat (map (put_uint 8) [li_level l, li_row_count l, li_degree l, li_node_offset l, li_link_offset l])"

definition descriptor_of_bytes :: "bytes \<Rightarrow> layer_info" where
  "descriptor_of_bytes bs =
     (let f = map get_uint (split_sizes (replicate 5 8) bs)
      in \<lparr>li_level = f ! 0, li_row_count = f ! 1, li_degree = f ! 2, li_node_offset = f ! 3, li_link_offset = f ! 4\<rparr>)"

text \<open>The sections behind the header and the descriptors.\<close>

record layout =
  lo_levels :: nat
  lo_base_nodes :: nat
  lo_base_links :: nat
  lo_upper_nodes :: nat
  lo_upper_links :: nat
  lo_file_size :: nat

definition wrap64 :: "nat \<Rightarrow> nat" where \<comment> \<open>arithmetic of \<^verbatim>\<open>size_t\<close>\<close>
  "wrap64 n = n mod 2 ^ 64"

definition artifact_layout :: "nat \<Rightarrow> layered_metadata \<Rightarrow> layout" where
  "artifact_layout num_layers md =
     (let descriptors_offset = 192;
          descriptors_bytes = num_layers * 40;
          payload_offset = align_up (descriptors_offset + descriptors_bytes) layered_hnsw_alignment;
          levels_offset = payload_offset;
          base_nodes_offset = wrap64 (levels_offset + md_levels_bytes md);
          base_links_offset = wrap64 (base_nodes_offset + md_base_nodes_bytes md);
          upper_nodes_offset = wrap64 (base_links_offset + md_base_links_bytes md);
          upper_links_offset = wrap64 (upper_nodes_offset + md_upper_nodes_bytes md)
      in \<lparr>lo_levels = levels_offset, lo_base_nodes = base_nodes_offset, lo_base_links = base_links_offset,
          lo_upper_nodes = upper_nodes_offset, lo_upper_links = upper_links_offset,
          lo_file_size = wrap64 (upper_links_offset + md_upper_links_bytes md)\<rparr>)"

section \<open>The header is read back\<close>

lemma get_put_int32: "- (2 ^ 31) \<le> i \<Longrightarrow> i < 2 ^ 31 \<Longrightarrow> get_int32 (put_int32 i) = i"
proof -
  assume i: "- (2 ^ 31) \<le> i" "i < 2 ^ 31"
  have "nat (i mod 2 ^ 32) < 2 ^ 32" by (simp add: nat_less_iff)
  then have "get_uint (put_uint 4 (nat (i mod 2 ^ 32))) = nat (i mod 2 ^ 32)" by (rule get_put_u32)
  moreover have "(of_nat (nat (i mod 2 ^ 32)) :: u32) = word_of_int i"
  proof -
    have "(of_nat (nat (i mod 2 ^ 32)) :: u32) = word_of_int (i mod 2 ^ 32)"
      by (metis of_int_of_nat_eq int_nat_eq pos_mod_sign zero_less_numeral zero_less_power)
    also have "\<dots> = word_of_int i" unfolding word_of_int_eq_iff take_bit_eq_mod by simp
    finally show ?thesis .
  qed
  ultimately have "get_int32 (put_int32 i) = sint (word_of_int i :: u32)" by (simp add: get_int32_def put_int32_def)
  also have "\<dots> = signed_take_bit 31 i" by (simp add: sint_sbintrunc')
  also have "\<dots> = i" using i by (simp add: signed_take_bit_int_eq_self)
  finally show ?thesis .
qed

lemma replicate_few:
  "replicate 5 (x :: nat) = [x, x, x, x, x]" "replicate 8 x = [x, x, x, x, x, x, x, x]"
  "replicate 16 x = [x, x, x, x, x, x, x, x, x, x, x, x, x, x, x, x]"
  by (simp_all add: numeral_eq_Suc)

lemma length_header_bytes: "length (lh_magic h) = 32 \<Longrightarrow> length (header_bytes h) = 192"
  by (simp add: header_bytes_def header_u64s_def put_int32_def)

lemma header_roundtrip:
  assumes "length (lh_magic h) = 32" "\<forall>x \<in> set (header_u64s h). x < 2 ^ 64"
    and "lh_version h < 2 ^ 32" "lh_construction_dtype h < 2 ^ 32" "lh_metric h < 2 ^ 32" "lh_num_layers h < 2 ^ 32"
    and "- (2 ^ 31) \<le> lh_maxlevel h" "lh_maxlevel h < 2 ^ 31" "- (2 ^ 31) \<le> lh_enterpoint_node h" "lh_enterpoint_node h < 2 ^ 31"
  shows "header_of_bytes (header_bytes h) = h"
proof -
  let ?fs = "[lh_magic h] @ map (put_uint 8) (header_u64s h) @
     [put_uint 4 (lh_version h), put_uint 4 (lh_construction_dtype h), put_uint 4 (lh_metric h),
      put_uint 4 (lh_num_layers h), put_int32 (lh_maxlevel h), put_int32 (lh_enterpoint_node h), put_uint 4 0, put_uint 4 0]"
  have sizes: "map length ?fs = [32] @ replicate 16 8 @ replicate 8 4"
    using assms(1) by (simp add: header_u64s_def put_int32_def replicate_few)
  have s: "split_sizes ([32] @ replicate 16 8 @ replicate 8 4) (header_bytes h) = ?fs"
    unfolding sizes[symmetric] header_bytes_def by (rule split_concat)
  have u: "get_uint (put_uint 8 x) = x" if "x < 2 ^ 64" for x by (rule get_put_uint) (use that in simp)
  show ?thesis
    unfolding header_of_bytes_def s Let_def using assms(2-) by (simp add: header_u64s_def u get_put_int32)
qed

lemma descriptor_roundtrip:
  assumes "\<forall>x \<in> {li_level l, li_row_count l, li_degree l, li_node_offset l, li_link_offset l}. x < 2 ^ 64"
  shows "descriptor_of_bytes (descriptor_bytes l) = l" "length (descriptor_bytes l) = 40"
proof -
  let ?fs = "map (put_uint 8) [li_level l, li_row_count l, li_degree l, li_node_offset l, li_link_offset l]"
  have sizes: "map length ?fs = replicate 5 8" by (simp add: replicate_few)
  have s: "split_sizes (replicate 5 8) (descriptor_bytes l) = ?fs"
    unfolding sizes[symmetric] descriptor_bytes_def by (rule split_concat)
  have u: "get_uint (put_uint 8 x) = x" if "x < 2 ^ 64" for x by (rule get_put_uint) (use that in simp)
  show "descriptor_of_bytes (descriptor_bytes l) = l" unfolding descriptor_of_bytes_def s Let_def
    using assms by (simp add: u)
  show "length (descriptor_bytes l) = 40" by (simp add: descriptor_bytes_def)
qed

section \<open>NumPy files\<close>

datatype artifact_error =
    PlanError hnsw_error | NoDiskGraph | ShapeMismatch | NoPath | OpenFailed | BadNumpyHeader | WrongNumpyDtype
  | FortranLayout | NotTwoDimensional | NotOneDimensional | MappingSizeMismatch | GraphSizeMismatch
  | DegreeMismatch | ZeroDegree | DegreeTooLarge | LinkRowTooSmall | ShortRead | InvalidOriginalId | InvalidNeighbor
  | NoSpace | NoTempFile | CannotPublish
  | WrongMagic | WrongVersion | UnsupportedDtype | UnsupportedMetric | DimTooLarge | DescriptorsOutside | EmptyArtifact
  | BadEnterpoint | LayerCountMismatch | NoDatasetPath | TruncatedArtifact | BadDatasetHeader | WrongExtension
  | SectionSizeMismatch | MaxLevelMismatch | RowSizeMismatch | MMismatch | OutOfMemory | InvalidBaseNode
  | InvalidUpperNode | InvalidUpperLevel

record npy_file =
  nf_header_size :: nat
  nf_shape :: "nat list"
  nf_dtype :: string
  nf_fortran_order :: bool
  nf_content :: bytes

text \<open>The parser of headers gives the size of the header, the shape, the element type and the order.\<close>

type_synonym npy_reader = "bytes \<Rightarrow> (nat \<times> nat list \<times> string \<times> bool) option"

definition open_npy_file :: "npy_reader \<Rightarrow> directory \<Rightarrow> string \<Rightarrow> artifact_error + npy_file" where
  "open_npy_file rd fs path =
     (case fs path of
        None \<Rightarrow> Inl OpenFailed
      | Some content \<Rightarrow>
          (case rd content of
             None \<Rightarrow> Inl BadNumpyHeader
           | Some (header_size, shape, dtype, fortran) \<Rightarrow>
               Inr \<lparr>nf_header_size = header_size, nf_shape = shape, nf_dtype = dtype, nf_fortran_order = fortran,
                    nf_content = content\<rparr>))"

definition validate_npy_file :: "string \<Rightarrow> npy_file \<Rightarrow> artifact_error + unit" where
  "validate_npy_file expected_dtype file =
     bind_r (expects (nf_dtype file = expected_dtype) WrongNumpyDtype) (\<lambda>_.
       expects (\<not> nf_fortran_order file) FortranLayout)"

definition read_r :: "bytes \<Rightarrow> nat \<Rightarrow> nat \<Rightarrow> artifact_error + bytes" where
  "read_r f off n = (case read_at f off n of None \<Rightarrow> Inl ShortRead | Some bs \<Rightarrow> Inr bs)"

lemma read_r_holds: "holds f off bs \<Longrightarrow> n = length bs \<Longrightarrow> read_r f off n = Inr bs"
  by (simp add: read_r_def read_at_holds)

section \<open>The base layer\<close>

text \<open>What the constructor of \<^verbatim>\<open>hnswlib::HierarchicalNSW\<close> sets; \<open>ha_mult\<close> are the bits of the \<^verbatim>\<open>double\<close>.\<close>

record hnsw_alg =
  ha_M :: nat
  ha_maxM :: nat
  ha_maxM0 :: nat
  ha_ef_construction :: nat
  ha_mult :: nat
  ha_size_links_level0 :: nat
  ha_size_links_per_element :: nat

text \<open>A file descriptor of the index: whether it is valid, and its path.\<close>

record ace_index =
  ix_size :: nat
  ix_dim :: nat
  ix_graph_degree :: nat
  ix_metric :: distance_type
  ix_graph_fd :: "(bool \<times> string) option"
  ix_mapping_fd :: "(bool \<times> string) option"

definition kInvalidNeighbor :: nat where "kInvalidNeighbor = 2 ^ 32 - 1"

definition target_batch_bytes :: nat where "target_batch_bytes = 64 * 1024 * 1024"

text \<open>One row of links: the valid neighbours under their original ids, behind their number, and zeros.\<close>

definition base_link_row :: "nat list \<Rightarrow> nat \<Rightarrow> nat \<Rightarrow> nat \<Rightarrow> nat list \<Rightarrow> bytes option" where
  "base_link_row reordered_to_original n_rows degree row_bytes src =
     (let valid = takeWhile (\<lambda>v. v \<noteq> kInvalidNeighbor) src;
          valid_degree = length valid;
          written_bytes = 4 + degree * 4
      in if \<exists>v \<in> set valid. n_rows \<le> v then None
         else Some (put_uint 4 valid_degree @ array_bytes (put_uint 4) (map (\<lambda>v. reordered_to_original ! v) valid) @
                replicate ((degree - valid_degree) * 4) 0 @
                (if written_bytes < row_bytes then replicate (row_bytes - written_bytes) 0 else [])))"

definition write_base_batch :: "npy_file \<Rightarrow> nat list \<Rightarrow> nat \<Rightarrow> nat \<Rightarrow> nat \<Rightarrow> nat \<Rightarrow> nat \<Rightarrow> nat \<times> nat \<Rightarrow> bytes \<Rightarrow>
    artifact_error + bytes" where
  "write_base_batch graph reordered_to_original n_rows degree row_bytes base_nodes_offset base_links_offset = (\<lambda>(source_start, count) file.
     let graph_row_bytes = degree * 4 in
     bind_r (read_r (nf_content graph) (nf_header_size graph + source_start * graph_row_bytes) (count * graph_row_bytes)) (\<lambda>graph_buffer.
       let links = map (\<lambda>i. base_link_row reordered_to_original n_rows degree row_bytes
             (array_of_bytes get_uint (slice graph_buffer (i * graph_row_bytes) graph_row_bytes))) [0..<count];
           nodes = map (\<lambda>i. reordered_to_original ! (source_start + i)) [0..<count]
       in bind_r (expects (None \<notin> set links) InvalidNeighbor) (\<lambda>_.
            Inr (overwrite (overwrite file (base_nodes_offset + source_start * 4) (array_bytes (put_uint 4) nodes))
                   (base_links_offset + source_start * row_bytes) (concat (map the links))))))"

definition write_layered_base_links_from_disk :: "npy_reader \<Rightarrow> string \<Rightarrow> directory \<Rightarrow> ace_index \<Rightarrow> nat \<Rightarrow> nat \<Rightarrow> nat \<Rightarrow> nat \<Rightarrow>
    bytes \<Rightarrow> artifact_error + bytes" where
  "write_layered_base_links_from_disk rd u32_dtype fs ix base_nodes_offset base_links_offset base_link_row_bytes maxM0 file =
     (case (ix_graph_fd ix, ix_mapping_fd ix) of
        (Some (True, graph_path), Some (True, mapping_path)) \<Rightarrow>
          bind_r (expects (graph_path \<noteq> []) NoPath) (\<lambda>_.
          bind_r (expects (mapping_path \<noteq> []) NoPath) (\<lambda>_.
          bind_r (open_npy_file rd fs graph_path) (\<lambda>graph_npy.
          bind_r (open_npy_file rd fs mapping_path) (\<lambda>mapping_npy.
          bind_r (validate_npy_file u32_dtype graph_npy) (\<lambda>_.
          bind_r (validate_npy_file u32_dtype mapping_npy) (\<lambda>_.
          bind_r (expects (length (nf_shape graph_npy) = 2) NotTwoDimensional) (\<lambda>_.
          bind_r (expects (length (nf_shape mapping_npy) = 1) NotOneDimensional) (\<lambda>_.
            let n_rows = nf_shape graph_npy ! 0;
                degree = nf_shape graph_npy ! 1 in
          bind_r (expects (nf_shape mapping_npy ! 0 = n_rows) MappingSizeMismatch) (\<lambda>_.
          bind_r (expects (n_rows = ix_size ix) GraphSizeMismatch) (\<lambda>_.
          bind_r (expects (degree = ix_graph_degree ix) DegreeMismatch) (\<lambda>_.
          bind_r (expects (0 < degree) ZeroDegree) (\<lambda>_.
          bind_r (expects (degree \<le> maxM0) DegreeTooLarge) (\<lambda>_.
          bind_r (expects (4 + maxM0 * 4 \<le> base_link_row_bytes) LinkRowTooSmall) (\<lambda>_.
          bind_r (read_r (nf_content mapping_npy) (nf_header_size mapping_npy) (n_rows * 4)) (\<lambda>mapping_bytes.
            let reordered_to_original = array_of_bytes get_uint mapping_bytes in
          bind_r (expects (\<forall>id \<in> set reordered_to_original. id < n_rows) InvalidOriginalId) (\<lambda>_.
            let base_topology_row_size = degree * 4 + 4 + base_link_row_bytes;
                batch_size = max 1 (target_batch_bytes div base_topology_row_size)
            in fold_r (write_base_batch graph_npy reordered_to_original n_rows degree base_link_row_bytes
                 base_nodes_offset base_links_offset) (batches batch_size n_rows) file))))))))))))))))
      | _ \<Rightarrow> Inl NoDiskGraph)"

section \<open>The upper layers\<close>

definition upper_link_row :: "hnsw_level_plan \<Rightarrow> nat \<Rightarrow> nat \<Rightarrow> nat \<Rightarrow> nat list \<Rightarrow> bytes" where
  "upper_link_row plan start_idx degree row_bytes src =
     overwrite (overwrite (replicate row_bytes 0) 0 (put_uint 4 degree)) 4
       (array_bytes (put_uint 4) (map (\<lambda>j. lp_row_ids_by_level plan ! (src ! j + start_idx)) [0..<degree]))"

definition write_upper_batch :: "hnsw_level_plan \<Rightarrow> nat \<Rightarrow> layer_info \<Rightarrow> nat list list \<Rightarrow> nat \<Rightarrow> nat \<Rightarrow> nat \<Rightarrow> nat \<times> nat \<Rightarrow> bytes \<Rightarrow>
    artifact_error + bytes" where
  "write_upper_batch plan start_idx layer host_neighbors row_bytes upper_nodes_offset upper_links_offset = (\<lambda>(batch_start, count) file.
     let nodes = map (\<lambda>i. lp_row_ids_by_level plan ! (start_idx + (batch_start + i))) [0..<count];
         links = map (\<lambda>i. upper_link_row plan start_idx (li_degree layer) row_bytes (host_neighbors ! (batch_start + i))) [0..<count]
     in Inr (overwrite (overwrite file (upper_nodes_offset + (li_node_offset layer + batch_start) * 4) (array_bytes (put_uint 4) nodes))
          (upper_links_offset + (li_link_offset layer + batch_start) * row_bytes) (concat links)))"

definition write_upper_layer :: "hnsw_level_plan \<Rightarrow> layered_metadata \<Rightarrow> layout \<Rightarrow> nat \<times> nat \<times> nat list list \<Rightarrow> bytes \<Rightarrow>
    artifact_error + bytes" where
  "write_upper_layer plan md lo = (\<lambda>(pt_level, start_idx, host_neighbors) file.
     let layer = md_layers md ! (pt_level - 1);
         row_bytes = 4 + md_upper_link_row_bytes md;
         batch_size = max 1 (target_batch_bytes div row_bytes)
     in fold_r (write_upper_batch plan start_idx layer host_neighbors (md_upper_link_row_bytes md)
          (lo_upper_nodes lo) (lo_upper_links lo)) (batches batch_size (li_row_count layer)) file)"

section \<open>The whole artifact\<close>

definition layer_infos :: "hnsw_level_plan \<Rightarrow> nat \<Rightarrow> nat \<Rightarrow> layer_info list \<times> nat" where
  "layer_infos plan n_rows M =
     fold (\<lambda>pt_level (layers, next_offset).
       let start_idx = lp_offsets plan ! (pt_level - 1);
           row_count = n_rows - start_idx
       in (layers @ [\<lparr>li_level = pt_level, li_row_count = row_count, li_degree = hnsw_upper_layer_degree row_count M,
                      li_node_offset = next_offset, li_link_offset = next_offset\<rparr>], next_offset + row_count))
       [1..<length (lp_hist plan)] ([], 0)"

text \<open>\<^verbatim>\<open>static_cast<int>\<close> of a \<^verbatim>\<open>size_t\<close>.\<close>

definition to_int32 :: "nat \<Rightarrow> int" where
  "to_int32 n = sint (of_nat n :: u32)"

definition layered_metadata_of :: "hnsw_level_plan \<Rightarrow> hnsw_alg \<Rightarrow> ace_index \<Rightarrow> layered_metadata" where
  "layered_metadata_of plan alg ix =
     (let n_rows = ix_size ix;
          (layers, next_offset) = layer_infos plan n_rows (ha_M alg)
      in \<lparr>md_n_rows = n_rows, md_dim = ix_dim ix, md_M = ha_M alg, md_maxM = ha_maxM alg, md_maxM0 = ha_maxM0 alg,
          md_ef_construction = ha_ef_construction alg, md_base_degree = ix_graph_degree ix,
          md_levels_bytes = n_rows, md_base_nodes_bytes = n_rows * 4,
          md_base_link_row_bytes = ha_size_links_level0 alg, md_base_links_bytes = n_rows * ha_size_links_level0 alg,
          md_upper_nodes_count = next_offset, md_upper_nodes_bytes = next_offset * 4,
          md_upper_link_row_bytes = ha_size_links_per_element alg,
          md_upper_links_bytes = next_offset * ha_size_links_per_element alg,
          md_mult = ha_mult alg, md_maxlevel = int (max_level plan),
          md_enterpoint_node = to_int32 (lp_row_ids_by_level plan ! (length (lp_row_ids_by_level plan) - 1)),
          md_layers = layers\<rparr>)"

text \<open>The rows above level 0, each copied to the position that its row has in the plan.\<close>

definition gather_promoted :: "hnsw_level_plan \<Rightarrow> 'r list \<Rightarrow> 'r list \<Rightarrow> 'r list" where
  "gather_promoted plan dataset query_set =
     fold (\<lambda>i qs. if lp_levels plan ! i \<noteq> 0 then qs[lp_position_by_row_id plan ! i - lp_hist plan ! 0 := dataset ! i] else qs)
       [0..<lp_n_rows plan] query_set"

text \<open>
  What the constructor of the algorithm (\<open>make_alg M ef\<close>), the drawing of the levels and the device
  (\<open>all_neighbors\<close>) contribute; \<open>un\<close> are the row-sized arrays as they are allocated.
\<close>

record 'r hnsw_env =
  he_make_alg :: "nat \<Rightarrow> nat \<Rightarrow> hnsw_alg"
  he_random_level :: "nat \<Rightarrow> int"
  he_all_neighbors :: "'r list \<Rightarrow> nat \<Rightarrow> nat list list"
  he_uninit :: "nat \<Rightarrow> nat list"
  he_uninit_rows :: "nat \<Rightarrow> 'r list"
  he_read_npy_header :: npy_reader
  he_dtype_string :: "element \<Rightarrow> string"
  he_u32_dtype :: string

definition write_artifact :: "'r hnsw_env \<Rightarrow> element \<Rightarrow> directory \<Rightarrow> ace_index \<Rightarrow> hnsw_level_plan \<Rightarrow> hnsw_alg \<Rightarrow> 'r list \<Rightarrow>
    artifact_error + bytes" where
  "write_artifact env T fs ix plan alg dataset =
     (let md = layered_metadata_of plan alg ix;
          header = make_layered_hnsw_header T md (ix_metric ix);
          descriptors = concat (map descriptor_bytes (md_layers md));
          lo = artifact_layout (length (md_layers md)) md;
          file = replicate (lo_file_size lo) 0;
          file = overwrite file 0 (header_bytes header);
          file = (if 0 < length descriptors then overwrite file 192 descriptors else file);
          file = overwrite file (lo_levels lo) (lp_levels plan)
      in bind_r (write_layered_base_links_from_disk (he_read_npy_header env) (he_u32_dtype env) fs ix
             (lo_base_nodes lo) (lo_base_links lo) (md_base_link_row_bytes md) (md_maxM0 md) file) (\<lambda>file.
           if 1 < length (lp_hist plan) then
             (let promoted = gather_promoted plan dataset (he_uninit_rows env (promoted_count plan))
              in fold_r (write_upper_layer plan md lo)
                   (build_hnsw_upper_layer_graphs (he_all_neighbors env) promoted plan (ha_M alg)) file)
           else Inr file))"

text \<open>\<^verbatim>\<open>parent_path\<close> and \<^verbatim>\<open>operator/\<close> of \<^verbatim>\<open>std::filesystem::path\<close> for a relative name.\<close>

definition parent_path :: "string \<Rightarrow> string" where
  "parent_path p =
     (let with_slash = rev (dropWhile (\<lambda>c. c \<noteq> CHR ''/'') (rev p))
      in if list_all (\<lambda>c. c = CHR ''/'') with_slash then with_slash
         else rev (dropWhile (\<lambda>c. c = CHR ''/'') (rev with_slash)))"

definition path_join :: "string \<Rightarrow> string \<Rightarrow> string" where
  "path_join dir name = (if dir = [] \<or> last dir = CHR ''/'' then dir @ name else dir @ ''/'' @ name)"

text \<open>
  \<^verbatim>\<open>exclusive_hnsw_temp_file\<close>: \<open>temp\<close> is the name that \<^verbatim>\<open>mkstemp\<close> finds, if it does. What is written into
  the temporary file is published by a link, which an existing file makes fail (the only failure of the
  link that is modelled); the temporary file goes away in any case: its \<^verbatim>\<open>unlink\<close>, whose result the code
  ignores, is taken to succeed.
\<close>

definition with_exclusive_temp :: "directory \<Rightarrow> string option \<Rightarrow> string \<Rightarrow> artifact_error + bytes \<Rightarrow>
    (artifact_error + string) \<times> directory" where
  "with_exclusive_temp fs temp output_path content =
     (case temp of
        None \<Rightarrow> (Inl NoTempFile, fs)
      | Some t \<Rightarrow>
          (case content of
             Inl e \<Rightarrow> (Inl e, (fs(t \<mapsto> []))(t := None))
           | Inr bs \<Rightarrow>
               (let fs1 = fs(t \<mapsto> bs) in
                if fs1 output_path \<noteq> None then (Inl CannotPublish, fs1(t := None))
                else (Inr output_path, (fs1(output_path := fs1 t))(t := None)))))"

text \<open>The constructor of the index makes a space of hnswlib, for these metrics and element types.\<close>

definition has_space :: "element \<Rightarrow> distance_type \<Rightarrow> bool" where
  "has_space T metric \<longleftrightarrow> metric = InnerProduct \<or> metric = L2Expanded \<and> T \<noteq> OtherElement"

definition serialize_to_layered_hnswlib_from_disk :: "'r hnsw_env \<Rightarrow> element \<Rightarrow> nat \<Rightarrow> directory \<Rightarrow> string option \<Rightarrow> bool \<Rightarrow>
    ace_index \<Rightarrow> nat \<Rightarrow> 'r list \<Rightarrow> (artifact_error + string) \<times> directory" where
  "serialize_to_layered_hnswlib_from_disk env T ef_construction fs temp can_allocate ix cols dataset =
     (case (ix_graph_fd ix, ix_mapping_fd ix) of
        (Some graph_fd, Some mapping_fd) \<Rightarrow>
          if length dataset \<noteq> ix_size ix \<or> cols \<noteq> ix_dim ix then (Inl ShapeMismatch, fs)
          else if snd graph_fd = [] then (Inl NoPath, fs)
          else if \<not> has_space T (ix_metric ix) then (Inl UnsupportedMetric, fs)
          else
            let artifact_file = path_join (parent_path (snd graph_fd)) ''hnsw_index.cuvs'';
                n_rows = ix_size ix;
                alg = he_make_alg env ((ix_graph_degree ix + 1) div 2) ef_construction
            in (case make_random_hnsw_level_plan (he_uninit env n_rows) (he_uninit env n_rows) n_rows (he_random_level env) of
                  Inl e \<Rightarrow> (Inl (PlanError e), fs)
                | Inr plan \<Rightarrow>
                    with_exclusive_temp fs temp artifact_file
                      (if can_allocate then write_artifact env T fs ix plan alg dataset else Inl NoSpace))
      | _ \<Rightarrow> (Inl NoDiskGraph, fs))"

section \<open>Writing the base layer\<close>

text \<open>A row-major \<^verbatim>\<open>uint32\<close> NumPy file of a shape on the disk, and its elements.\<close>

definition npy_at :: "npy_reader \<Rightarrow> string \<Rightarrow> directory \<Rightarrow> string \<Rightarrow> nat list \<Rightarrow> bytes \<Rightarrow> bool" where
  "npy_at rd dtype fs path shape payload \<longleftrightarrow> path \<noteq> [] \<and> (\<exists>file. open_npy_file rd fs path = Inr file \<and>
     nf_dtype file = dtype \<and> \<not> nf_fortran_order file \<and> nf_shape file = shape \<and>
     holds (nf_content file) (nf_header_size file) payload)"

text \<open>The ACE graph and the mapping of its rows to rows of the dataset, as the index refers to them.\<close>

definition disk_graph :: "npy_reader \<Rightarrow> string \<Rightarrow> directory \<Rightarrow> ace_index \<Rightarrow> nat list \<Rightarrow> nat list list \<Rightarrow> bool" where
  "disk_graph rd dtype fs ix mapping graph \<longleftrightarrow>
     (\<exists>gp mp. ix_graph_fd ix = Some (True, gp) \<and> ix_mapping_fd ix = Some (True, mp) \<and>
        npy_at rd dtype fs gp [ix_size ix, ix_graph_degree ix] (rows_of (\<lambda>i. array_bytes (put_uint 4) (graph ! i)) (ix_size ix)) \<and>
        npy_at rd dtype fs mp [ix_size ix] (array_bytes (put_uint 4) mapping)) \<and>
     length mapping = ix_size ix \<and> (\<forall>id \<in> set mapping. id < ix_size ix) \<and> ix_size ix \<le> 2 ^ 32 \<and>
     length graph = ix_size ix \<and> 0 < ix_graph_degree ix \<and>
     (\<forall>row \<in> set graph. length row = ix_graph_degree ix \<and> (\<forall>v \<in> set row. v < 2 ^ 32) \<and>
        (\<forall>v \<in> set (takeWhile (\<lambda>v. v \<noteq> kInvalidNeighbor) row). v < ix_size ix))"

text \<open>A row of links as hnswlib keeps it, and the neighbours in it.\<close>

definition link_row :: "nat \<Rightarrow> nat list \<Rightarrow> bytes" where
  "link_row row_bytes ids =
     put_uint 4 (length ids) @ array_bytes (put_uint 4) ids @ replicate (row_bytes - (4 + length ids * 4)) 0"

definition links_of :: "bytes \<Rightarrow> nat list" where
  "links_of row = map (\<lambda>j. get_uint (slice row (4 + j * 4) 4)) [0..<get_uint (slice row 0 4)]"

definition base_row :: "nat list \<Rightarrow> nat \<Rightarrow> nat list \<Rightarrow> bytes" where
  "base_row mapping row_bytes src =
     link_row row_bytes (map (\<lambda>v. mapping ! v) (takeWhile (\<lambda>v. v \<noteq> kInvalidNeighbor) src))"

lemma length_u32_array [simp]: "length (array_bytes (put_uint 4) xs) = length xs * 4"
  by (induction xs) (simp_all add: array_bytes_def)

lemma u32_array: "\<forall>v \<in> set xs. v < 2 ^ 32 \<Longrightarrow> array_of_bytes get_uint (array_bytes (put_uint 4) xs) = xs"
  by (rule array_roundtrip(1)) simp

lemma length_base_row:
  assumes "length src = degree" "4 + degree * 4 \<le> row_bytes"
  shows "length (base_row mapping row_bytes src) = row_bytes"
proof -
  have "length (takeWhile (\<lambda>v. v \<noteq> kInvalidNeighbor) src) \<le> degree" using assms(1) length_takeWhile_le by metis
  then show ?thesis using assms(2) by (simp add: base_row_def link_row_def)
qed

lemma base_link_row_eq:
  assumes "length src = degree" "\<forall>v \<in> set (takeWhile (\<lambda>v. v \<noteq> kInvalidNeighbor) src). v < n" "4 + degree * 4 \<le> row_bytes"
  shows "base_link_row mapping n degree row_bytes src = Some (base_row mapping row_bytes src)"
proof -
  let ?d = "length (takeWhile (\<lambda>v. v \<noteq> kInvalidNeighbor) src)"
  have "?d \<le> degree" using assms(1) length_takeWhile_le by metis
  then have "(degree - ?d) * 4 + (row_bytes - (4 + degree * 4)) = row_bytes - (4 + ?d * 4)"
    using assms(3) by (simp add: diff_mult_distrib)
  then have "replicate ((degree - ?d) * 4) (0 :: u8) @ replicate (row_bytes - (4 + degree * 4)) 0 =
      replicate (row_bytes - (4 + ?d * 4)) 0"
    by (metis replicate_add)
  moreover have "(if 4 + degree * 4 < row_bytes then replicate (row_bytes - (4 + degree * 4)) 0 else []) =
      replicate (row_bytes - (4 + degree * 4)) (0 :: u8)" by simp
  moreover have "\<not> (\<exists>v \<in> set (takeWhile (\<lambda>v. v \<noteq> kInvalidNeighbor) src). n \<le> v)" using assms(2) by (meson not_le)
  ultimately show ?thesis by (simp add: base_link_row_def base_row_def link_row_def Let_def)
qed

lemma write_base_batch_eq:
  assumes graph: "length graph = n" "\<forall>row \<in> set graph. length row = degree \<and> (\<forall>v \<in> set row. v < 2 ^ 32) \<and>
        (\<forall>v \<in> set (takeWhile (\<lambda>v. v \<noteq> kInvalidNeighbor) row). v < n)"
    and h: "holds (nf_content file) (nf_header_size file) (rows_of (\<lambda>i. array_bytes (put_uint 4) (graph ! i)) n)"
    and rb: "4 + degree * 4 \<le> row_bytes" and kc: "k + c \<le> n"
  shows "write_base_batch file mapping n degree row_bytes bn bl (k, c) s =
    Inr (overwrite (overwrite s (bn + k * 4) (rows_of (\<lambda>i. put_uint 4 (mapping ! (k + i))) c))
      (bl + k * row_bytes) (rows_of (\<lambda>i. base_row mapping row_bytes (graph ! (k + i))) c))"
proof -
  let ?enc = "\<lambda>i. array_bytes (put_uint 4) (graph ! i)"
  have mem: "graph ! i \<in> set graph" if "i < n" for i using that graph(1) by simp
  have len: "\<forall>i < n. length (?enc i) = degree * 4" using mem graph(2) by simp
  have buf: "holds (nf_content file) (nf_header_size file + k * (degree * 4)) (rows_of (\<lambda>i. ?enc (k + i)) c)"
    by (rule holds_concat[OF h len kc])
  have len': "\<forall>i < c. length (?enc (k + i)) = degree * 4" using len kc by simp
  then have r: "read_r (nf_content file) (nf_header_size file + k * (degree * 4)) (c * (degree * 4)) = Inr (rows_of (\<lambda>i. ?enc (k + i)) c)"
    by (intro read_r_holds[OF buf] length_concat_rows[symmetric])
  have row: "base_link_row mapping n degree row_bytes (array_of_bytes get_uint (slice (rows_of (\<lambda>i. ?enc (k + i)) c) (i * (degree * 4)) (degree * 4)))
      = Some (base_row mapping row_bytes (graph ! (k + i)))" if "i < c" for i
  proof -
    have m: "graph ! (k + i) \<in> set graph" using mem that kc by simp
    have "array_of_bytes get_uint (?enc (k + i)) = graph ! (k + i)" using graph(2) m by (intro u32_array) blast
    then show ?thesis unfolding slice_concat[OF that len'] using base_link_row_eq[OF _ _ rb] graph(2) m by auto
  qed
  let ?l = "map (\<lambda>i. base_link_row mapping n degree row_bytes
    (array_of_bytes get_uint (slice (rows_of (\<lambda>i. ?enc (k + i)) c) (i * (degree * 4)) (degree * 4)))) [0..<c]"
  have l: "?l = map (\<lambda>i. Some (base_row mapping row_bytes (graph ! (k + i)))) [0..<c]" using row by simp
  have nodes: "array_bytes (put_uint 4) (map (\<lambda>i. mapping ! (k + i)) [0..<c]) = rows_of (\<lambda>i. put_uint 4 (mapping ! (k + i))) c"
    by (simp add: array_bytes_def comp_def)
  have none: "None \<notin> set (map (\<lambda>i. Some (base_row mapping row_bytes (graph ! (k + i)))) [0..<c])" by auto
  have the: "map the (map (\<lambda>i. Some (base_row mapping row_bytes (graph ! (k + i)))) [0..<c]) =
      map (\<lambda>i. base_row mapping row_bytes (graph ! (k + i))) [0..<c]" by simp
  show ?thesis
    unfolding write_base_batch_def Let_def split r bind_r_simps l nodes the bind_expects if_P[OF none] ..
qed

lemma base_links_written:
  assumes d: "disk_graph rd dtype fs ix mapping graph" and n: "n = ix_size ix" and deg: "ix_graph_degree ix \<le> maxM0" "4 + maxM0 * 4 \<le> rb"
    and fit: "bn + n * 4 \<le> bl" "bl + n * rb \<le> length file"
  shows "\<exists>file'. write_layered_base_links_from_disk rd dtype fs ix bn bl rb maxM0 file = Inr file' \<and> length file' = length file \<and>
    holds file' bn (rows_of (\<lambda>i. put_uint 4 (mapping ! i)) n) \<and>
    holds file' bl (rows_of (\<lambda>i. base_row mapping rb (graph ! i)) n) \<and>
    (\<forall>off bs. outside bn (n * 4) bl (n * rb) off (length bs) \<longrightarrow> holds file off bs \<longrightarrow> holds file' off bs)"
proof -
  obtain gp mp gf mf where g: "ix_graph_fd ix = Some (True, gp)" "gp \<noteq> []" "open_npy_file rd fs gp = Inr gf" "nf_dtype gf = dtype"
      "\<not> nf_fortran_order gf" "nf_shape gf = [n, ix_graph_degree ix]"
      "holds (nf_content gf) (nf_header_size gf) (rows_of (\<lambda>i. array_bytes (put_uint 4) (graph ! i)) n)"
    and m: "ix_mapping_fd ix = Some (True, mp)" "mp \<noteq> []" "open_npy_file rd fs mp = Inr mf" "nf_dtype mf = dtype"
      "\<not> nf_fortran_order mf" "nf_shape mf = [n]" "holds (nf_content mf) (nf_header_size mf) (array_bytes (put_uint 4) mapping)"
    using d unfolding disk_graph_def npy_at_def n by blast
  have map: "length mapping = n" "\<forall>id \<in> set mapping. id < n" "n \<le> 2 ^ 32" and pos: "0 < ix_graph_degree ix"
    and gr: "length graph = n" "\<forall>row \<in> set graph. length row = ix_graph_degree ix \<and> (\<forall>v \<in> set row. v < 2 ^ 32) \<and>
        (\<forall>v \<in> set (takeWhile (\<lambda>v. v \<noteq> kInvalidNeighbor) row). v < n)"
    using d by (simp_all add: disk_graph_def n)
  have small: "\<forall>id \<in> set mapping. id < 2 ^ 32" using map(2,3) by auto
  have rm: "read_r (nf_content mf) (nf_header_size mf) (n * 4) = Inr (array_bytes (put_uint 4) mapping)"
    by (rule read_r_holds[OF m(7)]) (simp add: map(1))
  have rb: "4 + ix_graph_degree ix * 4 \<le> rb" using deg by linarith
  let ?w = "write_base_batch gf mapping n (ix_graph_degree ix) rb bn bl"
  let ?bs = "max 1 (target_batch_bytes div (ix_graph_degree ix * 4 + 4 + rb))"
  have eq: "write_layered_base_links_from_disk rd dtype fs ix bn bl rb maxM0 file = fold_r ?w (batches ?bs n) file"
    unfolding write_layered_base_links_from_disk_def
    by (simp add: g m map(2) pos deg n[symmetric] bind_expects validate_npy_file_def Let_def rm u32_array[OF small])
  have "\<exists>file'. fold_r ?w (batches ?bs n) file = Inr file' \<and> length file' = length file \<and>
    holds file' bn (rows_of (\<lambda>i. put_uint 4 (mapping ! i)) n) \<and>
    holds file' bl (rows_of (\<lambda>i. base_row mapping rb (graph ! i)) n) \<and>
    (\<forall>off bs. outside bn (n * 4) bl (n * rb) off (length bs) \<longrightarrow> holds file off bs \<longrightarrow> holds file' off bs)"
    by (rule write_two_sections[OF _ _ _ fit write_base_batch_eq[OF gr g(7) rb]])
      (use gr length_base_row[OF _ rb] in auto)
  then show ?thesis unfolding eq .
qed

lemma links_of_link_row:
  assumes "\<forall>v \<in> set ids. v < 2 ^ 32" "length ids < 2 ^ 32"
  shows "links_of (link_row rb ids) = ids"
proof -
  let ?z = "replicate (rb - (4 + length ids * 4)) (0 :: u8)"
  have c: "get_uint (slice (link_row rb ids) 0 4) = length ids"
    using assms(2) by (simp add: link_row_def slice_def)
  have a: "array_bytes (put_uint 4) ids = rows_of (\<lambda>i. put_uint 4 (ids ! i)) (length ids)"
    unfolding array_bytes_def by (rule arg_cong[of _ _ concat], rule nth_equalityI) simp_all
  have "slice (link_row rb ids) (4 + j * 4) 4 = put_uint 4 (ids ! j)" if "j < length ids" for j
  proof -
    have "slice (link_row rb ids) (4 + j * 4) 4 = take 4 (drop (j * 4) (array_bytes (put_uint 4) ids @ ?z))"
      by (simp add: link_row_def slice_def)
    also have "\<dots> = slice (array_bytes (put_uint 4) ids) (j * 4) 4"
      using that by (simp add: slice_def)
    also have "\<dots> = put_uint 4 (ids ! j)" unfolding a by (rule slice_concat[OF that]) simp
    finally show ?thesis .
  qed
  then show ?thesis using assms(1) unfolding links_of_def c by (intro nth_equalityI) simp_all
qed

section \<open>Writing the upper layers\<close>

lemma upper_link_row_eq:
  assumes "length src = degree" "4 + degree * 4 \<le> rb"
  shows "upper_link_row plan start degree rb src = link_row rb (map (\<lambda>v. lp_row_ids_by_level plan ! (v + start)) src)"
proof -
  let ?ids = "map (\<lambda>j. lp_row_ids_by_level plan ! (src ! j + start)) [0..<degree]"
  have ids: "?ids = map (\<lambda>v. lp_row_ids_by_level plan ! (v + start)) src"
    using assms(1) by (intro nth_equalityI) simp_all
  have "overwrite (overwrite (replicate rb 0) 0 (put_uint 4 degree)) 4 (array_bytes (put_uint 4) ?ids) =
      put_uint 4 degree @ array_bytes (put_uint 4) ?ids @ replicate (rb - (4 + degree * 4)) 0"
    using assms(2) by (simp add: overwrite_def)
  then show ?thesis unfolding upper_link_row_def ids link_row_def using assms(1) by simp
qed

lemma length_link_row: "4 + length ids * 4 \<le> rb \<Longrightarrow> length (link_row rb ids) = rb"
  by (simp add: link_row_def)

lemma upper_layer_written:
  assumes li: "md_layers md ! (l - 1) = \<lparr>li_level = l, li_row_count = cnt, li_degree = degree, li_node_offset = so, li_link_offset = so\<rparr>"
    and rows: "\<And>v. v < cnt \<Longrightarrow> lp_row_ids_by_level plan ! (start + v) = rows ! v"
    and nb: "length nbrs = cnt" "\<forall>r \<in> set nbrs. length r = degree \<and> (\<forall>v \<in> set r. v < cnt)"
    and rb: "rb = md_upper_link_row_bytes md" "4 + degree * 4 \<le> rb"
    and fit: "lo_upper_nodes lo + (so + cnt) * 4 \<le> lo_upper_links lo + so * rb" "lo_upper_links lo + (so + cnt) * rb \<le> length file"
  shows "\<exists>file'. write_upper_layer plan md lo (l, start, nbrs) file = Inr file' \<and> length file' = length file \<and>
    holds file' (lo_upper_nodes lo + so * 4) (rows_of (\<lambda>i. put_uint 4 (rows ! i)) cnt) \<and>
    holds file' (lo_upper_links lo + so * rb) (rows_of (\<lambda>i. link_row rb (map (\<lambda>v. rows ! v) (nbrs ! i))) cnt) \<and>
    (\<forall>off bs. outside (lo_upper_nodes lo + so * 4) (cnt * 4) (lo_upper_links lo + so * rb) (cnt * rb) off (length bs) \<longrightarrow>
       holds file off bs \<longrightarrow> holds file' off bs)"
proof -
  let ?A = "lo_upper_nodes lo + so * 4" and ?B = "lo_upper_links lo + so * rb"
  let ?g = "\<lambda>i. link_row rb (map (\<lambda>v. rows ! v) (nbrs ! i))"
  have mem: "nbrs ! i \<in> set nbrs" if "i < cnt" for i using that nb(1) by simp
  have link: "upper_link_row plan start degree rb (nbrs ! i) = ?g i" if "i < cnt" for i
  proof -
    have "map (\<lambda>v. lp_row_ids_by_level plan ! (v + start)) (nbrs ! i) = map (\<lambda>v. rows ! v) (nbrs ! i)"
      using nb(2) mem[OF that] rows by (auto simp: add.commute)
    then show ?thesis using upper_link_row_eq[OF _ rb(2)] nb(2) mem[OF that] by metis
  qed
  have w: "write_upper_batch plan start (md_layers md ! (l - 1)) nbrs (md_upper_link_row_bytes md) (lo_upper_nodes lo) (lo_upper_links lo) (k, c) s =
      Inr (overwrite (overwrite s (?A + k * 4) (rows_of (\<lambda>i. put_uint 4 (rows ! (k + i))) c)) (?B + k * rb) (rows_of (\<lambda>i. ?g (k + i)) c))"
    if kc: "k + c \<le> cnt" for k c s
  proof -
    have n: "array_bytes (put_uint 4) (map (\<lambda>i. lp_row_ids_by_level plan ! (start + (k + i))) [0..<c]) = rows_of (\<lambda>i. put_uint 4 (rows ! (k + i))) c"
      unfolding array_bytes_def by (rule arg_cong[of _ _ concat], rule nth_equalityI) (use rows kc in simp_all)
    have l: "map (\<lambda>i. upper_link_row plan start degree rb (nbrs ! (k + i))) [0..<c] = map (\<lambda>i. ?g (k + i)) [0..<c]"
      using link kc by simp
    have o: "lo_upper_nodes lo + (so + k) * 4 = ?A + k * 4" "lo_upper_links lo + (so + k) * rb = ?B + k * rb"
      by (simp_all add: algebra_simps)
    show ?thesis unfolding write_upper_batch_def li Let_def split layer_info.simps n rb(1)[symmetric] l o ..
  qed
  have fit': "?A + cnt * 4 \<le> ?B" "?B + cnt * rb \<le> length file" using fit by (simp_all add: algebra_simps)
  have "length (?g i) = rb" if "i < cnt" for i using nb(2) mem[OF that] rb(2) by (intro length_link_row) simp
  then show ?thesis
    unfolding write_upper_layer_def Let_def split li layer_info.simps
    using write_two_sections[OF _ _ _ fit' w[unfolded li], where b = "max 1 (target_batch_bytes div (4 + md_upper_link_row_bytes md))"]
    by simp
qed

text \<open>What the writer knows of the plan: \<open>lv\<close> is the level of a row.\<close>

definition groups_levels :: "hnsw_level_plan \<Rightarrow> nat \<Rightarrow> (nat \<Rightarrow> nat) \<Rightarrow> bool" where
  "groups_levels plan n lv \<longleftrightarrow> 0 < n \<and> lp_n_rows plan = n \<and> length (lp_levels plan) = n \<and>
     (\<forall>r < n. unat (lp_levels plan ! r) = lv r) \<and>
     lp_row_ids_by_level plan = sort_key lv [0..<n] \<and>
     (\<forall>r < n. lp_position_by_row_id plan ! r < n \<and> sort_key lv [0..<n] ! (lp_position_by_row_id plan ! r) = r) \<and>
     max_level plan = Max (lv ` {..<n}) \<and> length (lp_hist plan) = max_level plan + 1 \<and>
     lp_hist plan ! 0 = lp_offsets plan ! 0 \<and>
     (\<forall>l. 1 \<le> l \<and> l \<le> max_level plan + 1 \<longrightarrow> lp_offsets plan ! (l - 1) \<le> n \<and>
        drop (lp_offsets plan ! (l - 1)) (sort_key lv [0..<n]) = layer_rows lv n l)"

lemma draw_levels_ok:
  "\<forall>i \<in> set is. 0 \<le> random i \<and> random i \<le> 255 \<Longrightarrow>
   draw_levels random is = Inr (map (\<lambda>i. word_of_int (random i)) is)"
  by (induction "is") (simp_all add: bind_expects bind_r_simps)

lemma sort_key_agree:
  assumes "\<forall>x \<in> set xs. f x = g x"
  shows "sort_key f xs = sort_key g xs"
proof (rule properties_for_sort_key)
  show "filter (\<lambda>x. f k = f x) (sort_key g xs) = filter (\<lambda>x. f k = f x) xs" if "k \<in> set (sort_key g xs)" for k
  proof -
    have "filter (\<lambda>x. f k = f x) (sort_key g xs) = filter (\<lambda>x. g x = g k) (sort_key g xs)"
      by (rule filter_cong) (use assms that in auto)
    also have "\<dots> = filter (\<lambda>x. g x = g k) xs" by (rule sort_key_stable)
    also have "\<dots> = filter (\<lambda>x. f k = f x) xs" by (rule filter_cong) (use assms that in auto)
    finally show ?thesis .
  qed
  have "map f (sort_key g xs) = map g (sort_key g xs)" using assms by simp
  then show "sorted (map f (sort_key g xs))" using sorted_sort_key[of g xs] by metis
qed simp

lemma random_plan_groups:
  assumes "0 < n" "\<forall>i < n. 0 \<le> random i \<and> random i \<le> 255" "length un = n" "length un' = n"
  shows "\<exists>plan. make_random_hnsw_level_plan un un' n random = Inr plan \<and> groups_levels plan n (\<lambda>r. nat (random r))"
proof -
  let ?levels = "map (\<lambda>i. word_of_int (random i)) [0..<n] :: u8 list"
  have lv: "unat (?levels ! r) = nat (random r)" if "r < n" for r
  proof -
    have "0 \<le> random r" "random r < 256" using assms(2) that by force+
    then show ?thesis using that by (simp add: unsigned_of_int take_bit_eq_mod)
  qed
  have k: "sort_key (\<lambda>r. unat (?levels ! r)) [0..<n] = sort_key (\<lambda>r. nat (random r)) [0..<n]"
    by (rule sort_key_agree) (use lv in simp_all)
  have m: "(\<lambda>r. unat (?levels ! r)) ` {..<n} = (\<lambda>r. nat (random r)) ` {..<n}" by (rule image_cong) (use lv in simp_all)
  have y: "layer_rows (\<lambda>r. unat (?levels ! r)) n l = layer_rows (\<lambda>r. nat (random r)) n l" for l
  proof -
    have "filter (\<lambda>r. l \<le> unat (?levels ! r)) [0..<n] = filter (\<lambda>r. l \<le> nat (random r)) [0..<n]"
      by (rule filter_cong) (use lv in simp_all)
    then show ?thesis unfolding layer_rows_def
      using sort_key_agree[of "filter (\<lambda>r. l \<le> nat (random r)) [0..<n]" "\<lambda>r. unat (?levels ! r)" "\<lambda>r. nat (random r)"] lv by simp
  qed
  have d: "draw_levels random [0..<n] = Inr ?levels" by (rule draw_levels_ok) (use assms(2) in simp)
  show ?thesis
    using level_plan_facts[OF assms(1) _ assms(3,4), of ?levels True] lv assms(1)
    unfolding make_random_hnsw_level_plan_def d bind_r_simps groups_levels_def k m y by auto
qed

text \<open>The counts of the layers, and where each begins.\<close>

definition layer_count :: "(nat \<Rightarrow> nat) \<Rightarrow> nat \<Rightarrow> nat \<Rightarrow> nat" where
  "layer_count lv n l = length (layer_rows lv n l)"

definition layer_start :: "(nat \<Rightarrow> nat) \<Rightarrow> nat \<Rightarrow> nat \<Rightarrow> nat" where
  "layer_start lv n l = sum_list (map (layer_count lv n) [1..<l])"

lemma layer_start_Suc: "1 \<le> l \<Longrightarrow> layer_start lv n (Suc l) = layer_start lv n l + layer_count lv n l"
  by (simp add: layer_start_def)

lemma layer_start_mono: "l \<le> k \<Longrightarrow> layer_start lv n l \<le> layer_start lv n k"
proof (induction k rule: dec_induct)
  case (step k)
  have "layer_start lv n k \<le> layer_start lv n (Suc k)" by (simp add: layer_start_def)
  then show ?case using step by simp
qed simp

lemma groups_row:
  assumes "groups_levels plan n lv" "1 \<le> l" "l \<le> max_level plan + 1"
  shows "n - lp_offsets plan ! (l - 1) = layer_count lv n l"
    "v < layer_count lv n l \<Longrightarrow> lp_row_ids_by_level plan ! (n - layer_count lv n l + v) = layer_rows lv n l ! v"
proof -
  have d: "lp_offsets plan ! (l - 1) \<le> n" "drop (lp_offsets plan ! (l - 1)) (sort_key lv [0..<n]) = layer_rows lv n l"
    "lp_row_ids_by_level plan = sort_key lv [0..<n]"
    using assms by (auto simp: groups_levels_def)
  show c: "n - lp_offsets plan ! (l - 1) = layer_count lv n l"
    using arg_cong[OF d(2), of length] by (simp add: layer_count_def)
  assume v: "v < layer_count lv n l"
  have "layer_rows lv n l ! v = sort_key lv [0..<n] ! (lp_offsets plan ! (l - 1) + v)"
    unfolding d(2)[symmetric] using d(1) by simp
  moreover have "n - layer_count lv n l = lp_offsets plan ! (l - 1)" using c d(1) by linarith
  ultimately show "lp_row_ids_by_level plan ! (n - layer_count lv n l + v) = layer_rows lv n l ! v" using d(3) by simp
qed

lemma layer_infos_eq:
  assumes "groups_levels plan n lv"
  shows "layer_infos plan n M =
    (map (\<lambda>l. \<lparr>li_level = l, li_row_count = layer_count lv n l, li_degree = hnsw_upper_layer_degree (layer_count lv n l) M,
       li_node_offset = layer_start lv n l, li_link_offset = layer_start lv n l\<rparr>) [1..<max_level plan + 1],
     layer_start lv n (max_level plan + 1))"
proof -
  let ?F = "\<lambda>pt_level (layers, next_offset).
       let start_idx = lp_offsets plan ! (pt_level - 1); row_count = n - start_idx
       in (layers @ [\<lparr>li_level = pt_level, li_row_count = row_count, li_degree = hnsw_upper_layer_degree row_count M,
                      li_node_offset = next_offset, li_link_offset = next_offset\<rparr>], next_offset + row_count)"
  have "fold ?F [1..<k + 1] ([], 0) = (map (\<lambda>l. \<lparr>li_level = l, li_row_count = layer_count lv n l,
       li_degree = hnsw_upper_layer_degree (layer_count lv n l) M,
       li_node_offset = layer_start lv n l, li_link_offset = layer_start lv n l\<rparr>) [1..<k + 1], layer_start lv n (k + 1))"
    if "k \<le> max_level plan" for k
    using that
  proof (induction k)
    case (Suc k)
    then show ?case using groups_row(1)[OF assms, of "Suc k"] by (simp add: layer_start_Suc Let_def)
  qed (simp add: layer_start_def)
  note F = this[of "max_level plan", OF order_refl]
  have g: "lp_n_rows plan = n" "length (lp_hist plan) = max_level plan + 1" using assms by (simp_all add: groups_levels_def)
  show ?thesis unfolding layer_infos_def g(2) by (rule F)
qed

text \<open>The rows of a layer.\<close>

lemma layer_rows_props:
  "distinct (layer_rows lv n l)" "r \<in> set (layer_rows lv n l) \<longleftrightarrow> r < n \<and> l \<le> lv r"
  by (auto simp: layer_rows_def)

lemma gather_promoted_eq:
  assumes g: "groups_levels plan n lv" and q: "length qs = promoted_count plan" and d: "length dataset = n"
  shows "gather_promoted plan dataset qs = map (\<lambda>r. dataset ! r) (drop (lp_offsets plan ! 0) (lp_row_ids_by_level plan))"
proof -
  let ?h = "lp_hist plan ! 0" and ?ids = "sort_key lv [0..<n]" and ?pos = "\<lambda>r. lp_position_by_row_id plan ! r"
  have p: "lp_n_rows plan = n" "\<And>r. r < n \<Longrightarrow> unat (lp_levels plan ! r) = lv r" "lp_row_ids_by_level plan = ?ids"
    "\<And>r. r < n \<Longrightarrow> ?pos r < n \<and> ?ids ! ?pos r = r" "?h = lp_offsets plan ! 0" "lp_hist plan \<noteq> []"
    using g by (auto simp: groups_levels_def)
  have l1: "?h \<le> n" "drop ?h ?ids = layer_rows lv n 1"
    using g unfolding groups_levels_def by (auto dest!: spec[of _ "1 :: nat"])
  have dist: "distinct ?ids" "length ?ids = n" by simp_all
  have lev: "lp_levels plan ! i \<noteq> 0 \<longleftrightarrow> 0 < lv i" if "i < n" for i using p(2)[OF that] by (metis unat_eq_zero neq0_conv)
  have pos: "?h \<le> ?pos i" if "i < n" "0 < lv i" for i
  proof -
    have "i \<in> set (drop ?h ?ids)" unfolding l1(2) using that by (simp add: layer_rows_props)
    then obtain k where k: "k < n - ?h" "?ids ! (?h + k) = i" using dist(2) by (auto simp: in_set_conv_nth)
    then have "?pos i = ?h + k" using p(4)[OF that(1)] dist l1(1) nth_eq_iff_index_eq[OF dist(1), of "?pos i" "?h + k"] by simp
    then show ?thesis by simp
  qed
  have inj: "inj_on (\<lambda>i. ?pos i - ?h) {i. i < n \<and> lp_levels plan ! i \<noteq> 0}"
  proof (rule inj_onI)
    fix i j assume a: "i \<in> {i. i < n \<and> lp_levels plan ! i \<noteq> 0}" "j \<in> {i. i < n \<and> lp_levels plan ! i \<noteq> 0}" "?pos i - ?h = ?pos j - ?h"
    have ij: "i < n" "j < n" "0 < lv i" "0 < lv j" using a(1,2) lev by blast+
    have "?pos i = ?pos j" using pos[OF ij(1,3)] pos[OF ij(2,4)] a(3) by linarith
    then show "i = j" using p(4)[OF ij(1)] p(4)[OF ij(2)] by metis
  qed
  have len: "length qs = n - ?h" using q p by (simp add: promoted_count_def)
  have bound: "\<forall>i < n. lp_levels plan ! i \<noteq> 0 \<longrightarrow> ?pos i - ?h < length qs"
  proof (intro allI impI)
    fix i assume i: "i < n" "lp_levels plan ! i \<noteq> 0"
    then have "?h \<le> ?pos i" using pos lev by blast
    then show "?pos i - ?h < length qs" unfolding len using p(4)[OF i(1)] by linarith
  qed
  have sc: "length (gather_promoted plan dataset qs) = length qs"
    "\<And>i. i < n \<Longrightarrow> lp_levels plan ! i \<noteq> 0 \<Longrightarrow> gather_promoted plan dataset qs ! (?pos i - ?h) = dataset ! i"
    using scatter[OF inj bound, of "\<lambda>i. dataset ! i"] unfolding gather_promoted_def p(1) by blast+
  have "gather_promoted plan dataset qs ! k = dataset ! (drop ?h ?ids ! k)" if k: "k < n - ?h" for k
  proof -
    let ?r = "drop ?h ?ids ! k"
    have r: "?r \<in> set (layer_rows lv n 1)" unfolding l1(2)[symmetric] using k dist(2) by (intro nth_mem) simp
    have "?ids ! (?h + k) = ?r" using l1(1) dist(2) k by simp
    moreover have "?pos ?r < n" "?ids ! ?pos ?r = ?r" using p(4) r by (simp_all add: layer_rows_props)
    ultimately have at: "?pos ?r = ?h + k" using nth_eq_iff_index_eq[OF dist(1), of "?pos ?r" "?h + k"] dist(2) k by simp
    have "?r < n" "lp_levels plan ! ?r \<noteq> 0" using r lev by (simp_all add: layer_rows_props)
    from sc(2)[OF this] show ?thesis unfolding at by simp
  qed
  moreover have "length (gather_promoted plan dataset qs) = n - ?h" unfolding sc(1) by (rule len)
  ultimately show ?thesis unfolding p(3) p(5)[symmetric] by (intro nth_equalityI) (use l1(1) dist(2) in simp_all)
qed

text \<open>The neighbours that the device computes among the rows of a layer.\<close>

definition layer_neighbors :: "('r list \<Rightarrow> nat \<Rightarrow> nat list list) \<Rightarrow> 'r list \<Rightarrow> (nat \<Rightarrow> nat) \<Rightarrow> nat \<Rightarrow> nat \<Rightarrow> nat \<Rightarrow> nat list list" where
  "layer_neighbors nb dataset lv n M l =
     (let rows = map (\<lambda>r. dataset ! r) (layer_rows lv n l); degree = hnsw_upper_layer_degree (length rows) M
      in if 0 < degree then nb rows degree else replicate (length rows) [])"

text \<open>As documented, a row of neighbours for every row, among the rows.\<close>

definition neighbors_ok :: "('r list \<Rightarrow> nat \<Rightarrow> nat list list) \<Rightarrow> bool" where
  "neighbors_ok nb \<longleftrightarrow> (\<forall>rows k. 0 < k \<and> k < length rows \<longrightarrow> length (nb rows k) = length rows \<and>
     (\<forall>r \<in> set (nb rows k). length r = k \<and> (\<forall>v \<in> set r. v < length rows)))"

lemma layer_neighbors_ok:
  assumes "neighbors_ok nb"
  shows "length (layer_neighbors nb dataset lv n M l) = layer_count lv n l"
    "\<forall>r \<in> set (layer_neighbors nb dataset lv n M l).
       length r = hnsw_upper_layer_degree (layer_count lv n l) M \<and> (\<forall>v \<in> set r. v < layer_count lv n l)"
proof -
  let ?d = "hnsw_upper_layer_degree (layer_count lv n l) M" and ?rows = "map (\<lambda>r. dataset ! r) (layer_rows lv n l)"
  have d: "?d < layer_count lv n l" if "0 < ?d" using that by (auto simp: hnsw_upper_layer_degree_def split: if_splits)
  have len: "length ?rows = layer_count lv n l" by (simp add: layer_count_def)
  have "length (nb ?rows ?d) = layer_count lv n l \<and>
      (\<forall>r \<in> set (nb ?rows ?d). length r = ?d \<and> (\<forall>v \<in> set r. v < layer_count lv n l))" if "0 < ?d"
  proof -
    have "0 < ?d \<and> ?d < length ?rows" unfolding len using that d by blast
    with assms show ?thesis unfolding neighbors_ok_def len[symmetric] by blast
  qed
  moreover have "layer_neighbors nb dataset lv n M l = (if 0 < ?d then nb ?rows ?d else replicate (layer_count lv n l) [])"
    by (simp only: layer_neighbors_def Let_def layer_count_def length_map)
  ultimately have "length (layer_neighbors nb dataset lv n M l) = layer_count lv n l \<and>
    (\<forall>r \<in> set (layer_neighbors nb dataset lv n M l). length r = ?d \<and> (\<forall>v \<in> set r. v < layer_count lv n l))"
    by (cases "0 < ?d") simp_all
  then show "length (layer_neighbors nb dataset lv n M l) = layer_count lv n l"
    "\<forall>r \<in> set (layer_neighbors nb dataset lv n M l). length r = ?d \<and> (\<forall>v \<in> set r. v < layer_count lv n l)" by blast+
qed

lemma upper_degree_le: "hnsw_upper_layer_degree c M \<le> M"
  by (auto simp: hnsw_upper_layer_degree_def)

text \<open>The nodes and links of a layer as they are in the file.\<close>

definition layer_nodes_bytes :: "(nat \<Rightarrow> nat) \<Rightarrow> nat \<Rightarrow> nat \<Rightarrow> bytes" where
  "layer_nodes_bytes lv n l = rows_of (\<lambda>i. put_uint 4 (layer_rows lv n l ! i)) (layer_count lv n l)"

definition upper_row :: "nat \<Rightarrow> (nat \<Rightarrow> nat) \<Rightarrow> nat \<Rightarrow> nat \<Rightarrow> nat list \<Rightarrow> bytes" where
  "upper_row rb lv n l nbrs = link_row rb (map (\<lambda>v. layer_rows lv n l ! v) nbrs)"

definition layer_links_bytes :: "nat \<Rightarrow> (nat \<Rightarrow> nat) \<Rightarrow> nat \<Rightarrow> nat \<Rightarrow> nat list list \<Rightarrow> bytes" where
  "layer_links_bytes rb lv n l nbrs = rows_of (\<lambda>i. upper_row rb lv n l (nbrs ! i)) (layer_count lv n l)"

lemma upper_layers_written:
  fixes dataset :: "'r list"
  assumes g: "groups_levels plan n lv" and nb: "neighbors_ok nb" and rb: "rb = md_upper_link_row_bytes md" "4 + M * 4 \<le> rb"
    and md: "md_layers md = map (\<lambda>l. \<lparr>li_level = l, li_row_count = layer_count lv n l,
       li_degree = hnsw_upper_layer_degree (layer_count lv n l) M,
       li_node_offset = layer_start lv n l, li_link_offset = layer_start lv n l\<rparr>) [1..<L + 1]" and L: "L = max_level plan"
    and fit: "lo_upper_nodes lo + layer_start lv n (L + 1) * 4 \<le> lo_upper_links lo"
      "lo_upper_links lo + layer_start lv n (L + 1) * rb \<le> length file"
  defines "nbrs \<equiv> layer_neighbors nb dataset lv n M"
  shows "\<exists>file'. fold_r (write_upper_layer plan md lo) (map (\<lambda>l. (l, n - layer_count lv n l, nbrs l)) [1..<L + 1]) file = Inr file' \<and>
    length file' = length file \<and>
    (\<forall>l. 1 \<le> l \<and> l < L + 1 \<longrightarrow> holds file' (lo_upper_nodes lo + layer_start lv n l * 4) (layer_nodes_bytes lv n l) \<and>
       holds file' (lo_upper_links lo + layer_start lv n l * rb) (layer_links_bytes rb lv n l (nbrs l))) \<and>
    (\<forall>off bs. off + length bs \<le> lo_upper_nodes lo \<longrightarrow> holds file off bs \<longrightarrow> holds file' off bs)"
proof -
  let ?so = "layer_start lv n" and ?cnt = "layer_count lv n" and ?A = "lo_upper_nodes lo" and ?B = "lo_upper_links lo"
  define Inv where "Inv m s \<longleftrightarrow> length s = length file \<and>
    (\<forall>l. 1 \<le> l \<and> l < m \<longrightarrow> holds s (?A + ?so l * 4) (layer_nodes_bytes lv n l) \<and>
       holds s (?B + ?so l * rb) (layer_links_bytes rb lv n l (nbrs l))) \<and>
    (\<forall>off bs. off + length bs \<le> ?A \<longrightarrow> holds file off bs \<longrightarrow> holds s off bs)" for m s
  have lenN: "length (layer_nodes_bytes lv n l) = ?cnt l * 4" for l
    unfolding layer_nodes_bytes_def by (rule length_concat_rows) simp
  have lenL: "length (layer_links_bytes rb lv n l (nbrs l)) = ?cnt l * rb" for l
  proof -
    have "length (upper_row rb lv n l (nbrs l ! i)) = rb" if "i < ?cnt l" for i
    proof -
      have "nbrs l ! i \<in> set (nbrs l)" using that layer_neighbors_ok(1)[OF nb] unfolding nbrs_def by (metis nth_mem)
      then have "length (nbrs l ! i) \<le> M" using layer_neighbors_ok(2)[OF nb] upper_degree_le unfolding nbrs_def by metis
      then show ?thesis unfolding upper_row_def using rb(2) by (intro length_link_row) simp
    qed
    then show ?thesis unfolding layer_links_bytes_def by (intro length_concat_rows) blast
  qed
  have step: "\<exists>s'. write_upper_layer plan md lo (l, n - ?cnt l, nbrs l) s = Inr s' \<and> Inv (Suc l) s'"
    if l: "1 \<le> l" "l < L + 1" and inv: "Inv l s" for l s
  proof -
    have li: "md_layers md ! (l - 1) = \<lparr>li_level = l, li_row_count = ?cnt l, li_degree = hnsw_upper_layer_degree (?cnt l) M,
       li_node_offset = ?so l, li_link_offset = ?so l\<rparr>" unfolding md by (subst nth_map_upt) (use l in simp_all)
    have end_l: "?so l + ?cnt l \<le> ?so (L + 1)"
      using layer_start_Suc[OF l(1)] layer_start_mono[of "Suc l" "L + 1" lv n] l(2) by simp
    then have m: "(?so l + ?cnt l) * 4 \<le> ?so (L + 1) * 4" "(?so l + ?cnt l) * rb \<le> ?so (L + 1) * rb" by (simp_all add: mult_le_mono1)
    have s: "length s = length file" using inv by (simp add: Inv_def)
    have fit': "?A + (?so l + ?cnt l) * 4 \<le> ?B + ?so l * rb" "?B + (?so l + ?cnt l) * rb \<le> length s"
      using fit m s by linarith+
    have rows: "lp_row_ids_by_level plan ! (n - ?cnt l + v) = layer_rows lv n l ! v" if "v < ?cnt l" for v
      using groups_row(2)[OF g l(1)] l(2) L that by simp
    have nbl: "length (nbrs l) = ?cnt l"
      "\<forall>r \<in> set (nbrs l). length r = hnsw_upper_layer_degree (?cnt l) M \<and> (\<forall>v \<in> set r. v < ?cnt l)"
      unfolding nbrs_def by (rule layer_neighbors_ok[OF nb])+
    have rb': "4 + hnsw_upper_layer_degree (?cnt l) M * 4 \<le> rb" using rb(2) upper_degree_le[of "?cnt l" M] by linarith
    obtain s' where s': "write_upper_layer plan md lo (l, n - ?cnt l, nbrs l) s = Inr s'" "length s' = length s"
      "holds s' (?A + ?so l * 4) (layer_nodes_bytes lv n l)" "holds s' (?B + ?so l * rb) (layer_links_bytes rb lv n l (nbrs l))"
      "\<forall>off bs. outside (?A + ?so l * 4) (?cnt l * 4) (?B + ?so l * rb) (?cnt l * rb) off (length bs) \<longrightarrow> holds s off bs \<longrightarrow> holds s' off bs"
      using upper_layer_written[OF li rows nbl rb(1) rb' fit']
      unfolding layer_nodes_bytes_def layer_links_bytes_def upper_row_def by blast
    have old: "holds s' (?A + ?so k * 4) (layer_nodes_bytes lv n k) \<and> holds s' (?B + ?so k * rb) (layer_links_bytes rb lv n k (nbrs k))"
      if k: "1 \<le> k" "k < l" for k
    proof -
      have e: "?so k + ?cnt k \<le> ?so l" using layer_start_Suc[OF k(1)] layer_start_mono[of "Suc k" l lv n] k(2) by simp
      have e4: "(?so k + ?cnt k) * 4 \<le> ?so l * 4" using e by simp
      have er: "(?so k + ?cnt k) * rb \<le> ?so l * rb" using e by (rule mult_le_mono1)
      have "outside (?A + ?so l * 4) (?cnt l * 4) (?B + ?so l * rb) (?cnt l * rb) (?A + ?so k * 4) (?cnt k * 4)"
        using e4 by (simp add: outside_def add_mult_distrib)
      moreover have "outside (?A + ?so l * 4) (?cnt l * 4) (?B + ?so l * rb) (?cnt l * rb) (?B + ?so k * rb) (?cnt k * rb)"
        using er m(1) fit(1) by (simp add: outside_def add_mult_distrib)
      ultimately show ?thesis using s'(5) inv k lenN lenL unfolding Inv_def by metis
    qed
    have "holds s' off bs" if "off + length bs \<le> ?A" "holds file off bs" for off bs
    proof -
      have "holds s off bs" using inv that unfolding Inv_def by blast
      moreover have "outside (?A + ?so l * 4) (?cnt l * 4) (?B + ?so l * rb) (?cnt l * rb) off (length bs)"
        using that(1) by (simp add: outside_def)
      ultimately show ?thesis using s'(5) by blast
    qed
    moreover have "holds s' (?A + ?so k * 4) (layer_nodes_bytes lv n k) \<and> holds s' (?B + ?so k * rb) (layer_links_bytes rb lv n k (nbrs k))"
      if "1 \<le> k \<and> k < Suc l" for k
      using old[of k] s'(3,4) that by (cases "k = l") auto
    moreover have "length s' = length file" using s'(2) inv by (simp add: Inv_def)
    ultimately have "Inv (Suc l) s'" unfolding Inv_def by blast
    then show ?thesis using s'(1) by blast
  qed
  have "Inv 1 file" by (simp add: Inv_def)
  with step have "\<exists>file'. fold_r (\<lambda>l. write_upper_layer plan md lo (l, n - ?cnt l, nbrs l)) [1..<L + 1] file = Inr file' \<and> Inv (L + 1) file'"
    by (intro fold_r_upt) auto
  then show ?thesis unfolding fold_r_map Inv_def by blast
qed

section \<open>The whole artifact is written\<close>

text \<open>What the constructor of hnswlib's index documents, for a parameter up to its limit of 10000.\<close>

definition hnswlib_ok :: "(nat \<Rightarrow> nat \<Rightarrow> hnsw_alg) \<Rightarrow> bool" where
  "hnswlib_ok ctor \<longleftrightarrow> (\<forall>M ef. M \<le> 10000 \<longrightarrow> ha_M (ctor M ef) = M \<and> ha_maxM (ctor M ef) = M \<and> ha_maxM0 (ctor M ef) = 2 * M \<and>
     ha_ef_construction (ctor M ef) < 2 ^ 64 \<and> ha_mult (ctor M ef) < 2 ^ 64 \<and>
     ha_size_links_level0 (ctor M ef) = 4 + 2 * M * 4 \<and> ha_size_links_per_element (ctor M ef) = 4 + M * 4)"

definition env_ok :: "'r hnsw_env \<Rightarrow> bool" where
  "env_ok env \<longleftrightarrow> hnswlib_ok (he_make_alg env) \<and> neighbors_ok (he_all_neighbors env) \<and>
     (\<forall>n. length (he_uninit env n) = n \<and> length (he_uninit_rows env n) = n)"

text \<open>An index that the format can hold: ids are positive \<^verbatim>\<open>int\<close>s, and so is the dimension.\<close>

definition index_fits :: "ace_index \<Rightarrow> bool" where
  "index_fits ix \<longleftrightarrow> 0 < ix_size ix \<and> ix_size ix \<le> 2 ^ 31 \<and> 0 < ix_dim ix \<and> ix_dim ix < 2 ^ 31 \<and> ix_graph_degree ix \<le> 20000"

text \<open>What a file holds that was written for these levels, this graph and these upper layers.\<close>

definition artifact_holds :: "bytes \<Rightarrow> element \<Rightarrow> layered_metadata \<Rightarrow> distance_type \<Rightarrow> bytes \<Rightarrow> (nat \<Rightarrow> nat) \<Rightarrow> nat list \<Rightarrow>
    nat list list \<Rightarrow> (nat \<Rightarrow> nat list list) \<Rightarrow> bool" where
  "artifact_holds file T md metric levels lv mapping graph nbrs \<longleftrightarrow>
     (let lo = artifact_layout (length (md_layers md)) md; n = md_n_rows md
      in length file = lo_file_size lo \<and>
         holds file 0 (header_bytes (make_layered_hnsw_header T md metric)) \<and>
         holds file 192 (concat (map descriptor_bytes (md_layers md))) \<and>
         holds file (lo_levels lo) levels \<and>
         holds file (lo_base_nodes lo) (rows_of (\<lambda>i. put_uint 4 (mapping ! i)) n) \<and>
         holds file (lo_base_links lo) (rows_of (\<lambda>i. base_row mapping (md_base_link_row_bytes md) (graph ! i)) n) \<and>
         (\<forall>l. 1 \<le> l \<and> l < length (md_layers md) + 1 \<longrightarrow>
            holds file (lo_upper_nodes lo + layer_start lv n l * 4) (layer_nodes_bytes lv n l) \<and>
            holds file (lo_upper_links lo + layer_start lv n l * md_upper_link_row_bytes md)
              (layer_links_bytes (md_upper_link_row_bytes md) lv n l (nbrs l))))"

lemma layout_unwrapped:
  assumes "align_up (192 + k * 40) 64 + md_levels_bytes md + md_base_nodes_bytes md + md_base_links_bytes md +
    md_upper_nodes_bytes md + md_upper_links_bytes md < 2 ^ 64"
  defines "P \<equiv> align_up (192 + k * 40) 64"
  shows "artifact_layout k md = \<lparr>lo_levels = P, lo_base_nodes = P + md_levels_bytes md,
    lo_base_links = P + md_levels_bytes md + md_base_nodes_bytes md,
    lo_upper_nodes = P + md_levels_bytes md + md_base_nodes_bytes md + md_base_links_bytes md,
    lo_upper_links = P + md_levels_bytes md + md_base_nodes_bytes md + md_base_links_bytes md + md_upper_nodes_bytes md,
    lo_file_size = P + md_levels_bytes md + md_base_nodes_bytes md + md_base_links_bytes md + md_upper_nodes_bytes md +
      md_upper_links_bytes md\<rparr>"
proof -
  have w: "wrap64 x = x" if "x < 2 ^ 64" for x using that by (simp add: wrap64_def)
  note a = assms(1)[folded P_def]
  have "P + md_levels_bytes md < 2 ^ 64" "P + md_levels_bytes md + md_base_nodes_bytes md < 2 ^ 64"
    "P + md_levels_bytes md + md_base_nodes_bytes md + md_base_links_bytes md < 2 ^ 64"
    "P + md_levels_bytes md + md_base_nodes_bytes md + md_base_links_bytes md + md_upper_nodes_bytes md < 2 ^ 64"
    using a by linarith+
  then show ?thesis unfolding artifact_layout_def Let_def layered_hnsw_alignment_def P_def[symmetric]
    using a by (simp only: w)
qed

lemma align_up_bounds: "x \<le> align_up x 64" "align_up x 64 < x + 64"
proof -
  have "(x + 63) div 64 * 64 + (x + 63) mod 64 = x + 63" "(x + 63) mod 64 < 64" by (simp_all add: div_mult_mod_eq)
  moreover have "align_up x 64 = (x + 63) div 64 * 64" by (simp add: align_up_def)
  ultimately show "x \<le> align_up x 64" "align_up x 64 < x + 64" by linarith+
qed

lemma layer_count_le: "layer_count lv n l \<le> n"
proof -
  have "length (layer_rows lv n l) \<le> length [0..<n]" unfolding layer_rows_def length_sort by (rule length_filter_le)
  then show ?thesis by (simp add: layer_count_def)
qed

lemma layer_start_le: "1 \<le> l \<Longrightarrow> layer_start lv n l \<le> (l - 1) * n"
proof (induction l rule: dec_induct)
  case (step l)
  then have "(l - 1) * n + n = l * n" by (cases l) simp_all
  then show ?case using step layer_start_Suc[of l lv n] layer_count_le[of lv n l] by simp
qed (simp add: layer_start_def)

text \<open>The metadata of the writer, spelled out.\<close>

lemma writer_metadata:
  fixes ef :: nat
  assumes g: "groups_levels plan (ix_size ix) lv" and mk: "hnswlib_ok ctor" and M: "M \<le> 10000"
  defines "md \<equiv> layered_metadata_of plan (ctor M ef) ix" and "U \<equiv> layer_start lv (ix_size ix) (max_level plan + 1)"
  shows "md_n_rows md = ix_size ix" "md_dim md = ix_dim ix" "md_M md = M" "md_maxM md = M" "md_maxM0 md = 2 * M"
    "md_ef_construction md < 2 ^ 64" "md_mult md < 2 ^ 64" "md_base_degree md = ix_graph_degree ix" "md_levels_bytes md = ix_size ix"
    "md_base_nodes_bytes md = ix_size ix * 4" "md_base_link_row_bytes md = 4 + 2 * M * 4"
    "md_base_links_bytes md = ix_size ix * (4 + 2 * M * 4)" "md_upper_nodes_count md = U" "md_upper_nodes_bytes md = U * 4"
    "md_upper_link_row_bytes md = 4 + M * 4" "md_upper_links_bytes md = U * (4 + M * 4)" "md_maxlevel md = int (max_level plan)"
    "md_enterpoint_node md = to_int32 (sort_key lv [0..<ix_size ix] ! (ix_size ix - 1))"
    "md_layers md = map (\<lambda>l. \<lparr>li_level = l, li_row_count = layer_count lv (ix_size ix) l,
       li_degree = hnsw_upper_layer_degree (layer_count lv (ix_size ix) l) M, li_node_offset = layer_start lv (ix_size ix) l,
       li_link_offset = layer_start lv (ix_size ix) l\<rparr>) [1..<max_level plan + 1]"
proof -
  have r: "lp_row_ids_by_level plan = sort_key lv [0..<ix_size ix]" using g by (simp add: groups_levels_def)
  note a = mk[unfolded hnswlib_ok_def, rule_format, OF M, of ef]
  show "md_n_rows md = ix_size ix" "md_dim md = ix_dim ix" "md_M md = M" "md_maxM md = M" "md_maxM0 md = 2 * M"
    "md_ef_construction md < 2 ^ 64" "md_mult md < 2 ^ 64" "md_base_degree md = ix_graph_degree ix" "md_levels_bytes md = ix_size ix"
    "md_base_nodes_bytes md = ix_size ix * 4" "md_base_link_row_bytes md = 4 + 2 * M * 4"
    "md_base_links_bytes md = ix_size ix * (4 + 2 * M * 4)" "md_upper_nodes_count md = U" "md_upper_nodes_bytes md = U * 4"
    "md_upper_link_row_bytes md = 4 + M * 4" "md_upper_links_bytes md = U * (4 + M * 4)" "md_maxlevel md = int (max_level plan)"
    "md_enterpoint_node md = to_int32 (sort_key lv [0..<ix_size ix] ! (ix_size ix - 1))"
    "md_layers md = map (\<lambda>l. \<lparr>li_level = l, li_row_count = layer_count lv (ix_size ix) l,
       li_degree = hnsw_upper_layer_degree (layer_count lv (ix_size ix) l) M, li_node_offset = layer_start lv (ix_size ix) l,
       li_link_offset = layer_start lv (ix_size ix) l\<rparr>) [1..<max_level plan + 1]"
    unfolding md_def layered_metadata_of_def U_def layer_infos_eq[OF g] Let_def split layered_metadata.simps r
    using a by (simp_all only: length_sort length_upt minus_nat.diff_0)
qed

text \<open>All sizes stay far below the range of \<^verbatim>\<open>size_t\<close>.\<close>

lemma writer_layout:
  fixes ef :: nat
  assumes g: "groups_levels plan (ix_size ix) lv" and mk: "hnswlib_ok ctor" and M: "M \<le> 10000"
    and n: "ix_size ix \<le> 2 ^ 31" and L: "max_level plan \<le> 255"
  defines "md \<equiv> layered_metadata_of plan (ctor M ef) ix" and "U \<equiv> layer_start lv (ix_size ix) (max_level plan + 1)"
    and "P \<equiv> align_up (192 + max_level plan * 40) 64" and "n \<equiv> ix_size ix"
  shows "artifact_layout (length (md_layers md)) md = \<lparr>lo_levels = P, lo_base_nodes = P + n, lo_base_links = P + n + n * 4,
    lo_upper_nodes = P + n + n * 4 + n * (4 + 2 * M * 4), lo_upper_links = P + n + n * 4 + n * (4 + 2 * M * 4) + U * 4,
    lo_file_size = P + n + n * 4 + n * (4 + 2 * M * 4) + U * 4 + U * (4 + M * 4)\<rparr>"
    "P + n + n * 4 + n * (4 + 2 * M * 4) + U * 4 + U * (4 + M * 4) < 2 ^ 63" "U \<le> 255 * 2 ^ 31"
proof -
  note m = writer_metadata[OF g mk M, of ef, folded md_def U_def n_def]
  have "U \<le> max_level plan * n" using layer_start_le[of "max_level plan + 1" lv n] by (simp add: U_def n_def)
  also have "\<dots> \<le> 255 * 2 ^ 31" using n L unfolding n_def by (rule mult_le_mono[rotated])
  finally show U: "U \<le> 255 * 2 ^ 31" .
  have "U * (4 + M * 4) \<le> 255 * 2 ^ 31 * 40004" using U M by (intro mult_le_mono) simp_all
  moreover have "n * (4 + 2 * M * 4) \<le> 2 ^ 31 * 80004" using n M unfolding n_def by (intro mult_le_mono) simp_all
  moreover have "P < 192 + 255 * 40 + 64" using align_up_bounds(2)[of "192 + max_level plan * 40"] L by (simp add: P_def)
  ultimately show b: "P + n + n * 4 + n * (4 + 2 * M * 4) + U * 4 + U * (4 + M * 4) < 2 ^ 63"
    using U n by (simp add: n_def)
  have k: "length (md_layers md) = max_level plan" unfolding m(19) by simp
  show "artifact_layout (length (md_layers md)) md = \<lparr>lo_levels = P, lo_base_nodes = P + n, lo_base_links = P + n + n * 4,
    lo_upper_nodes = P + n + n * 4 + n * (4 + 2 * M * 4), lo_upper_links = P + n + n * 4 + n * (4 + 2 * M * 4) + U * 4,
    lo_file_size = P + n + n * 4 + n * (4 + 2 * M * 4) + U * 4 + U * (4 + M * 4)\<rparr>"
    unfolding k using layout_unwrapped[of "max_level plan" md] b unfolding m P_def[symmetric] by simp
qed

lemma length_descriptors: "length (concat (map descriptor_bytes ls)) = length ls * 40"
  by (induction ls) (simp_all add: descriptor_bytes_def)

text \<open>The three writes in front of the base layer.\<close>

lemma prefix_written:
  assumes "length h = 192" "192 + length d \<le> P" "P + length v \<le> sz"
  defines "f1 \<equiv> overwrite (replicate sz 0) 0 h"
  defines "f2 \<equiv> (if 0 < length d then overwrite f1 192 d else f1)"
  defines "f3 \<equiv> overwrite f2 P v"
  shows "length f3 = sz" "holds f3 0 h" "holds f3 192 d" "holds f3 P v"
proof -
  have fit1: "0 + length h \<le> length (replicate sz (0 :: u8))" using assms(1-3) by simp
  have l1: "length f1 = sz" unfolding f1_def by (subst length_overwrite_inside[OF fit1]) simp
  have h1: "holds f1 0 h" unfolding f1_def by (rule holds_overwrite[OF fit1])
  have fit2: "192 + length d \<le> length f1" using assms(2,3) l1 by simp
  have l2: "length f2 = sz" unfolding f2_def using length_overwrite_inside[OF fit2] l1 by simp
  have h2: "holds f2 0 h" "holds f2 192 d"
    unfolding f2_def using h1 holds_overwrite_frame[OF fit2 h1] holds_overwrite[OF fit2] assms(1) fit2 by auto
  have fit3: "P + length v \<le> length f2" using assms(3) l2 by simp
  show "length f3 = sz" unfolding f3_def length_overwrite_inside[OF fit3] by (rule l2)
  show "holds f3 P v" unfolding f3_def by (rule holds_overwrite[OF fit3])
  show "holds f3 0 h" "holds f3 192 d" unfolding f3_def
    using holds_overwrite_frame[OF fit3 h2(1)] holds_overwrite_frame[OF fit3 h2(2)] assms(1,2) by simp_all
qed

lemma length_magic_field: "length magic_field = 32"
  by (simp add: magic_field_def)

lemma written_layers_eq:
  assumes g: "groups_levels plan n lv" and q: "length qs = promoted_count plan" and d: "length dataset = n"
  shows "build_hnsw_upper_layer_graphs nb (gather_promoted plan dataset qs) plan M =
    map (\<lambda>l. (l, n - layer_count lv n l, layer_neighbors nb dataset lv n M l)) [1..<max_level plan + 1]"
proof -
  have p: "lp_n_rows plan = n" "length (lp_hist plan) = max_level plan + 1" "lp_row_ids_by_level plan = sort_key lv [0..<n]"
    "\<And>l. 1 \<le> l \<Longrightarrow> l \<le> max_level plan + 1 \<Longrightarrow> lp_offsets plan ! (l - 1) \<le> n \<and>
        drop (lp_offsets plan ! (l - 1)) (sort_key lv [0..<n]) = layer_rows lv n l"
    using g unfolding groups_levels_def by blast+
  show ?thesis unfolding gather_promoted_eq[OF g q d] p(3)
    by (subst upper_layers_eq[OF p(1,2,3) _ p(4)]) (simp_all add: layer_rows_shrink layer_neighbors_def layer_count_def Let_def)
qed

lemma artifact_written:
  fixes ef :: nat
  assumes g: "groups_levels plan (ix_size ix) lv" and env: "env_ok env" and fits: "index_fits ix"
    and d: "disk_graph (he_read_npy_header env) (he_u32_dtype env) fs ix mapping graph"
    and L: "max_level plan \<le> 255" and ds: "length dataset = ix_size ix"
  defines "M \<equiv> (ix_graph_degree ix + 1) div 2"
  defines "alg \<equiv> he_make_alg env M ef"
  defines "md \<equiv> layered_metadata_of plan alg ix"
  shows "\<exists>file. write_artifact env T fs ix plan alg dataset = Inr file \<and>
    artifact_holds file T md (ix_metric ix) (lp_levels plan) lv mapping graph
      (layer_neighbors (he_all_neighbors env) dataset lv (ix_size ix) M)"
proof -
  let ?n = "ix_size ix" and ?L = "max_level plan" and ?nb = "he_all_neighbors env"
  define P where "P = align_up (192 + ?L * 40) 64"
  define U where "U = layer_start lv ?n (?L + 1)"
  have mk: "hnswlib_ok (he_make_alg env)" and nb: "neighbors_ok ?nb" and un: "length (he_uninit_rows env k) = k" for k
    using env by (simp_all add: env_ok_def)
  have M: "M \<le> 10000" and n: "?n \<le> 2 ^ 31" and deg: "ix_graph_degree ix \<le> 2 * M"
    using fits unfolding index_fits_def M_def by linarith+
  note m = writer_metadata[OF g mk M, of ef, folded alg_def md_def U_def]
  note lo = writer_layout(1)[OF g mk M n L, of ef, folded alg_def md_def U_def P_def]
  let ?lo = "artifact_layout (length (md_layers md)) md" and ?h = "header_bytes (make_layered_hnsw_header T md (ix_metric ix))"
    and ?d = "concat (map descriptor_bytes (md_layers md))"
  let ?f1 = "overwrite (replicate (lo_file_size ?lo) 0) 0 ?h"
  let ?f2 = "if 0 < length ?d then overwrite ?f1 192 ?d else ?f1"
  let ?f3 = "overwrite ?f2 (lo_levels ?lo) (lp_levels plan)"
  have K: "length (md_layers md) = ?L" unfolding m(19) by simp
  have hist: "length (lp_levels plan) = ?n" "length (lp_hist plan) = ?L + 1" using g unfolding groups_levels_def by blast+
  have "length ?h = 192" by (rule length_header_bytes) (simp add: make_layered_hnsw_header_def length_magic_field)
  moreover have "length ?d = ?L * 40" unfolding length_descriptors K ..
  ultimately have lens: "length ?h = 192" "length ?d = ?L * 40" "length (lp_levels plan) = ?n" "length (lp_hist plan) = ?L + 1"
    using hist by blast+
  have P: "192 + ?L * 40 \<le> P" unfolding P_def by (rule align_up_bounds)
  have f3: "length ?f3 = lo_file_size ?lo" "holds ?f3 0 ?h" "holds ?f3 192 ?d" "holds ?f3 (lo_levels ?lo) (lp_levels plan)"
    by (rule prefix_written; use lens P in \<open>simp add: lo\<close>)+
  obtain f4 where f4: "write_layered_base_links_from_disk (he_read_npy_header env) (he_u32_dtype env) fs ix
        (lo_base_nodes ?lo) (lo_base_links ?lo) (md_base_link_row_bytes md) (md_maxM0 md) ?f3 = Inr f4"
      "length f4 = lo_file_size ?lo" "holds f4 (lo_base_nodes ?lo) (rows_of (\<lambda>i. put_uint 4 (mapping ! i)) ?n)"
      "holds f4 (lo_base_links ?lo) (rows_of (\<lambda>i. base_row mapping (md_base_link_row_bytes md) (graph ! i)) ?n)"
      "\<And>off bs. outside (lo_base_nodes ?lo) (?n * 4) (lo_base_links ?lo) (?n * md_base_link_row_bytes md) off (length bs) \<Longrightarrow>
         holds ?f3 off bs \<Longrightarrow> holds f4 off bs"
  proof -
    have "ix_graph_degree ix \<le> md_maxM0 md" "4 + md_maxM0 md * 4 \<le> md_base_link_row_bytes md"
      "lo_base_nodes ?lo + ?n * 4 \<le> lo_base_links ?lo" "lo_base_links ?lo + ?n * md_base_link_row_bytes md \<le> length ?f3"
      unfolding f3(1) using deg by (simp_all add: lo m(1-18))
    from base_links_written[OF d refl this] show ?thesis using that unfolding f3(1) by blast
  qed
  have keep4: "holds f4 0 ?h" "holds f4 192 ?d" "holds f4 (lo_levels ?lo) (lp_levels plan)"
    by (rule f4(5); use f3 lens P in \<open>simp add: outside_def lo\<close>)+
  have base_rows: "length (rows_of (\<lambda>i. base_row mapping (md_base_link_row_bytes md) (graph ! i)) ?n) = ?n * md_base_link_row_bytes md"
  proof (rule length_concat_rows, intro allI impI)
    fix i assume "i < ?n"
    then have "length (graph ! i) = ix_graph_degree ix" using d unfolding disk_graph_def by simp
    then show "length (base_row mapping (md_base_link_row_bytes md) (graph ! i)) = md_base_link_row_bytes md"
      using deg by (intro length_base_row[OF _]) (simp_all add: m(1-18))
  qed
  have nodes: "length (rows_of (\<lambda>i. put_uint 4 (mapping ! i)) ?n) = ?n * 4" by (rule length_concat_rows) simp
  show ?thesis
  proof (cases "1 < length (lp_hist plan)")
    case False
    then have "write_artifact env T fs ix plan alg dataset = Inr f4" "?L = 0"
      using f4(1) lens(4) unfolding write_artifact_def Let_def md_def[symmetric] by simp_all
    then show ?thesis using f4(2-4) keep4 unfolding artifact_holds_def Let_def K m(1) by simp
  next
    case True
    have q: "length (he_uninit_rows env (promoted_count plan)) = promoted_count plan" by (rule un)
    have fit: "lo_upper_nodes ?lo + layer_start lv ?n (?L + 1) * 4 \<le> lo_upper_links ?lo"
      "lo_upper_links ?lo + layer_start lv ?n (?L + 1) * md_upper_link_row_bytes md \<le> length f4"
      unfolding f4(2) U_def[symmetric] by (simp_all add: lo m(1-18))
    have rb: "4 + M * 4 \<le> md_upper_link_row_bytes md" by (simp add: m(1-18))
    note up = upper_layers_written[OF g nb refl rb m(19) refl fit, of dataset]
    obtain f5 where f5: "fold_r (write_upper_layer plan md ?lo)
          (build_hnsw_upper_layer_graphs ?nb (gather_promoted plan dataset (he_uninit_rows env (promoted_count plan))) plan M) f4 = Inr f5"
        "length f5 = length f4"
        "\<And>l. 1 \<le> l \<and> l < ?L + 1 \<Longrightarrow> holds f5 (lo_upper_nodes ?lo + layer_start lv ?n l * 4) (layer_nodes_bytes lv ?n l) \<and>
           holds f5 (lo_upper_links ?lo + layer_start lv ?n l * md_upper_link_row_bytes md)
             (layer_links_bytes (md_upper_link_row_bytes md) lv ?n l (layer_neighbors ?nb dataset lv ?n M l))"
        "\<And>off bs. off + length bs \<le> lo_upper_nodes ?lo \<Longrightarrow> holds f4 off bs \<Longrightarrow> holds f5 off bs"
      using up unfolding written_layers_eq[OF g q ds, of ?nb M] by blast
    have aM: "ha_M alg = M" using mk M by (simp add: hnswlib_ok_def alg_def)
    have w: "write_artifact env T fs ix plan alg dataset = Inr f5"
      using True unfolding write_artifact_def Let_def md_def[symmetric] f4(1) bind_r_simps aM f5(1) by simp
    have "holds f5 0 ?h" by (rule f5(4)[OF _ keep4(1)]) (use lens P in \<open>simp add: lo\<close>)
    moreover have "holds f5 192 ?d" by (rule f5(4)[OF _ keep4(2)]) (use lens P in \<open>simp add: lo\<close>)
    moreover have "holds f5 (lo_levels ?lo) (lp_levels plan)" by (rule f5(4)[OF _ keep4(3)]) (simp add: lo lens)
    moreover have "holds f5 (lo_base_nodes ?lo) (rows_of (\<lambda>i. put_uint 4 (mapping ! i)) ?n)"
      by (rule f5(4)[OF _ f4(3)]) (simp add: lo nodes)
    moreover have "holds f5 (lo_base_links ?lo) (rows_of (\<lambda>i. base_row mapping (md_base_link_row_bytes md) (graph ! i)) ?n)"
      by (rule f5(4)[OF _ f4(4)]) (unfold base_rows, simp add: lo m(1-18))
    moreover have "length f5 = lo_file_size ?lo" unfolding f5(2) by (rule f4(2))
    ultimately show ?thesis using w f5(3) unfolding artifact_holds_def Let_def m(1) K by blast
  qed
qed

end
