(* ===== verification/HnswLoad.thy ===== *)
theory HnswLoad imports HnswArtifact begin

text \<open>
  Loading a layered HNSW artifact (\<^verbatim>\<open>deserialize_layered_hnswlib\<close> of \<^verbatim>\<open>hnsw.hpp\<close>), and the theorem that
  what is loaded is the hierarchy that was written: the links of every row, in every layer, under the
  ids of the dataset.
\<close>

section \<open>The dataset file\<close>

text \<open>\<^verbatim>\<open>std::filesystem::path::extension\<close>.\<close>

definition path_extension :: "string \<Rightarrow> string" where
  "path_extension p =
     (let filename = rev (takeWhile (\<lambda>c. c \<noteq> CHR ''/'') (rev p));
          suffix = rev (takeWhile (\<lambda>c. c \<noteq> CHR ''.'') (rev filename))
      in if filename = ''..'' \<or> length filename \<le> length suffix + 1 then [] else CHR ''.'' # suffix)"

definition ends_with :: "string \<Rightarrow> string \<Rightarrow> bool" where
  "ends_with value suffix \<longleftrightarrow> length suffix \<le> length value \<and> drop (length value - length suffix) value = suffix"

definition extension_fits :: "element \<Rightarrow> string \<Rightarrow> bool" where
  "extension_fits T path =
     (let ext = path_extension path in
      case T of
        Float \<Rightarrow> ext = ''.fbin'' \<and> \<not> ends_with path ''.fp16.fbin''
      | Half \<Rightarrow> ext = ''.f16bin'' \<or> ends_with path ''.fp16.fbin''
      | UInt8 \<Rightarrow> ext = ''.u8bin''
      | Int8 \<Rightarrow> ext = ''.i8bin''
      | OtherElement \<Rightarrow> True)"

definition open_layered_dataset_file :: "npy_reader \<Rightarrow> (element \<Rightarrow> string) \<Rightarrow> element \<Rightarrow> directory \<Rightarrow> string \<Rightarrow>
    artifact_error + npy_file" where
  "open_layered_dataset_file rd dtype_string T fs path =
     (if path_extension path = ''.npy'' then open_npy_file rd fs path
      else case fs path of
        None \<Rightarrow> Inl OpenFailed
      | Some content \<Rightarrow>
          bind_r (expects (8 \<le> length content) BadDatasetHeader) (\<lambda>_.
          bind_r (expects (extension_fits T path) WrongExtension) (\<lambda>_.
            Inr \<lparr>nf_header_size = 8, nf_shape = [get_uint (slice content 0 4), get_uint (slice content 4 4)],
                 nf_dtype = dtype_string T, nf_fortran_order = False, nf_content = content\<rparr>)))"

section \<open>The loaded index\<close>

text \<open>
  Element \<open>i\<close> of hnswlib: its level, vector, label, the links of layer 0, and the block of its upper
  links, one row per level. \<open>ld_outside\<close> records the link rows that were copied to memory outside
  every block, each with its element: nothing is known of the index once there is one.
\<close>

record loaded =
  ld_dim :: nat
  ld_metric :: distance_type
  ld_maxlevel :: int
  ld_enterpoint :: int
  ld_levels :: "nat list"
  ld_data :: "bytes list"
  ld_labels :: "nat list"
  ld_link0 :: "bytes list"
  ld_links :: "bytes list list"
  ld_outside :: "(nat \<times> bytes) list"

definition get_linklist0 :: "loaded \<Rightarrow> nat \<Rightarrow> bytes" where
  "get_linklist0 g i = ld_link0 g ! i"

definition get_linklist :: "loaded \<Rightarrow> nat \<Rightarrow> nat \<Rightarrow> bytes" where
  "get_linklist g i level = ld_links g ! i ! (level - 1)"

text \<open>The memory that the library and \<^verbatim>\<open>malloc\<close> hand out, and for which rows \<^verbatim>\<open>malloc\<close> succeeds.\<close>

record heap_env =
  hp_rows :: "nat \<Rightarrow> bytes list"
  hp_block :: "nat \<Rightarrow> nat \<Rightarrow> bytes list"
  hp_malloc :: "nat \<Rightarrow> bool"

definition load_data_batch :: "heap_env \<Rightarrow> npy_file \<Rightarrow> nat \<Rightarrow> bytes \<Rightarrow> nat \<times> nat \<Rightarrow> loaded \<Rightarrow> artifact_error + loaded" where
  "load_data_batch hp file row_bytes levels = (\<lambda>(batch_start, count) g.
     bind_r (read_r (nf_content file) (wrap64 (nf_header_size file + batch_start * row_bytes)) (count * row_bytes)) (\<lambda>buffer.
     bind_r (expects (\<forall>k < count. levels ! (batch_start + k) \<noteq> 0 \<longrightarrow> hp_malloc hp (batch_start + k)) OutOfMemory) (\<lambda>_.
       Inr (fold (\<lambda>k g. let i = batch_start + k; level = unat (levels ! i) in
           g\<lparr>ld_levels := (ld_levels g)[i := level], ld_data := (ld_data g)[i := slice buffer (k * row_bytes) row_bytes],
             ld_labels := (ld_labels g)[i := i],
             ld_links := (if 0 < level then (ld_links g)[i := hp_block hp i level] else ld_links g)\<rparr>) [0..<count] g))))"

definition load_base_batch :: "bytes \<Rightarrow> layered_metadata \<Rightarrow> layout \<Rightarrow> nat \<times> nat \<Rightarrow> loaded \<Rightarrow> artifact_error + loaded" where
  "load_base_batch artifact md lo = (\<lambda>(batch_start, count) g.
     let row_bytes = md_base_link_row_bytes md in
     bind_r (read_r artifact (wrap64 (lo_base_nodes lo + batch_start * 4)) (count * 4)) (\<lambda>node_buffer.
     bind_r (read_r artifact (wrap64 (lo_base_links lo + batch_start * row_bytes)) (count * row_bytes)) (\<lambda>link_buffer.
       let nodes = array_of_bytes get_uint node_buffer;
           g' = g\<lparr>ld_link0 := fold (\<lambda>k l0. if nodes ! k < md_n_rows md
                   then l0[nodes ! k := slice link_buffer (k * row_bytes) row_bytes] else l0) [0..<count] (ld_link0 g)\<rparr>
       in bind_r (expects (\<forall>k < count. nodes ! k < md_n_rows md) InvalidBaseNode) (\<lambda>_. Inr g'))))"

text \<open>
  \<^verbatim>\<open>get_linklist(i, level)\<close> is row \<open>level - 1\<close> of the block of element \<open>i\<close>. Nothing in the code refuses an
  upper layer of level 0: its rows are copied to where row -1 would be, in front of the block (or of the
  null pointer, when the element has none).
\<close>

definition load_upper_batch :: "bytes \<Rightarrow> layered_metadata \<Rightarrow> layout \<Rightarrow> bytes \<Rightarrow> layer_info \<Rightarrow> nat \<times> nat \<Rightarrow> loaded \<Rightarrow>
    artifact_error + loaded" where
  "load_upper_batch artifact md lo levels layer = (\<lambda>(batch_start, count) g.
     let row_bytes = md_upper_link_row_bytes md in
     bind_r (read_r artifact (wrap64 (lo_upper_nodes lo + (li_node_offset layer + batch_start) * 4)) (count * 4)) (\<lambda>node_buffer.
     bind_r (read_r artifact (wrap64 (lo_upper_links lo + (li_link_offset layer + batch_start) * row_bytes)) (count * row_bytes)) (\<lambda>link_buffer.
       let nodes = array_of_bytes get_uint node_buffer;
           level = li_level layer;
           fits = (\<lambda>k. level \<le> unat (levels ! (nodes ! k)));
           g' = (if level = 0
             then g\<lparr>ld_outside := ld_outside g @ map (\<lambda>k. (nodes ! k, slice link_buffer (k * row_bytes) row_bytes))
                   (filter (\<lambda>k. nodes ! k < md_n_rows md) [0..<count])\<rparr>
             else g\<lparr>ld_links := fold (\<lambda>k ls. if nodes ! k < md_n_rows md \<and> fits k
                   then ls[nodes ! k := (ls ! (nodes ! k))[level - 1 := slice link_buffer (k * row_bytes) row_bytes]] else ls)
                   [0..<count] (ld_links g)\<rparr>)
       in bind_r (expects (\<forall>k < count. nodes ! k < md_n_rows md) InvalidUpperNode) (\<lambda>_.
          bind_r (expects (\<forall>k < count. fits k) InvalidUpperLevel) (\<lambda>_. Inr g')))))"

definition load_upper_layer :: "bytes \<Rightarrow> layered_metadata \<Rightarrow> layout \<Rightarrow> bytes \<Rightarrow> layer_info \<Rightarrow> loaded \<Rightarrow> artifact_error + loaded" where
  "load_upper_layer artifact md lo levels layer =
     (let layer_row_bytes = 4 + md_upper_link_row_bytes md;
          layer_batch_size = min (max 1 (target_batch_bytes div layer_row_bytes)) (li_row_count layer)
      in fold_r (load_upper_batch artifact md lo levels layer) (batches layer_batch_size (li_row_count layer)))"

section \<open>Reading the header\<close>

definition int_max :: nat where "int_max = 2 ^ 31 - 1"

definition metric_of_code :: "nat \<Rightarrow> distance_type option" where
  "metric_of_code code = (case List.find (\<lambda>p. snd p = int code) distance_types of Some p \<Rightarrow> Some (fst p) | None \<Rightarrow> None)"

text \<open>The metadata of an artifact with its layers, and the metric.\<close>

definition read_layered_metadata :: "bytes \<Rightarrow> artifact_error + layered_metadata \<times> distance_type" where
  "read_layered_metadata artifact =
     bind_r (read_r artifact 0 192) (\<lambda>header_buffer.
     let header = header_of_bytes header_buffer;
         metric = metric_of_code (lh_metric header) in
     bind_r (expects (magic_matches (lh_magic header)) WrongMagic) (\<lambda>_.
     bind_r (expects (lh_version header = layered_hnsw_version) WrongVersion) (\<lambda>_.
     bind_r (expects (is_supported_layered_dtype (of_nat (lh_construction_dtype header))) UnsupportedDtype) (\<lambda>_.
     bind_r (expects (metric = Some L2Expanded \<or> metric = Some InnerProduct) UnsupportedMetric) (\<lambda>_.
     bind_r (expects (lh_dim header \<le> int_max) DimTooLarge) (\<lambda>_.
     let descriptors_offset = 192;
         descriptors_bytes = lh_num_layers header * 40 in
     bind_r (expects (descriptors_offset + descriptors_bytes \<le> length artifact) DescriptorsOutside) (\<lambda>_.
     bind_r (read_r artifact descriptors_offset descriptors_bytes) (\<lambda>descriptors.
     let md = (layered_hnsw_metadata_from_header header)
           \<lparr>md_layers := map (\<lambda>k. descriptor_of_bytes (slice descriptors (k * 40) 40)) [0..<lh_num_layers header]\<rparr> in
     bind_r (expects (0 < md_n_rows md) EmptyArtifact) (\<lambda>_.
     bind_r (expects (0 < md_dim md) EmptyArtifact) (\<lambda>_.
     bind_r (expects (0 \<le> md_enterpoint_node md \<and> nat (md_enterpoint_node md) < md_n_rows md) BadEnterpoint) (\<lambda>_.
     bind_r (expects (int (length (md_layers md)) = md_maxlevel md mod 2 ^ 64) LayerCountMismatch) (\<lambda>_.
       Inr (md, the metric)))))))))))))"

definition check_sections :: "layered_metadata \<Rightarrow> artifact_error + unit" where
  "check_sections md =
     bind_r (expects (md_levels_bytes md = md_n_rows md) SectionSizeMismatch) (\<lambda>_.
     bind_r (expects (md_base_nodes_bytes md = wrap64 (md_n_rows md * 4)) SectionSizeMismatch) (\<lambda>_.
     bind_r (expects (md_base_links_bytes md = wrap64 (md_n_rows md * md_base_link_row_bytes md)) SectionSizeMismatch) (\<lambda>_.
     bind_r (expects (md_upper_nodes_bytes md = wrap64 (md_upper_nodes_count md * 4)) SectionSizeMismatch) (\<lambda>_.
     bind_r (expects (md_upper_links_bytes md = wrap64 (md_upper_nodes_count md * md_upper_link_row_bytes md)) SectionSizeMismatch) (\<lambda>_.
       expects (md_base_degree md \<le> md_maxM0 md) DegreeTooLarge)))))"

section \<open>Loading\<close>

definition deserialize_layered_hnswlib :: "'r hnsw_env \<Rightarrow> heap_env \<Rightarrow> element \<Rightarrow> nat \<Rightarrow> directory \<Rightarrow> string \<Rightarrow> string \<Rightarrow>
    artifact_error + loaded" where
  "deserialize_layered_hnswlib env hp T sizeof_T fs artifact_path dataset_path =
     (case fs artifact_path of
        None \<Rightarrow> Inl OpenFailed
      | Some artifact \<Rightarrow>
     bind_r (read_layered_metadata artifact) (\<lambda>(md, metric).
     bind_r (expects (dataset_path \<noteq> []) NoDatasetPath) (\<lambda>_.
     let lo = artifact_layout (length (md_layers md)) md;
         n_rows = md_n_rows md in
     bind_r (expects (lo_file_size lo \<le> length artifact) TruncatedArtifact) (\<lambda>_.
     bind_r (open_layered_dataset_file (he_read_npy_header env) (he_dtype_string env) T fs dataset_path) (\<lambda>dataset_file.
     bind_r (expects (nf_shape dataset_file = [n_rows, md_dim md]) ShapeMismatch) (\<lambda>_.
     bind_r (validate_npy_file (he_dtype_string env T) dataset_file) (\<lambda>_.
     bind_r (check_sections md) (\<lambda>_.
     bind_r (read_r artifact (lo_levels lo) (md_levels_bytes md)) (\<lambda>levels.
     bind_r (expects (int (Max (unat ` set levels)) = md_maxlevel md) MaxLevelMismatch) (\<lambda>_.
     bind_r (expects (has_space T metric) UnsupportedMetric) (\<lambda>_.
     let alg = he_make_alg env (md_M md) (md_ef_construction md);
         g = \<lparr>ld_dim = md_dim md, ld_metric = metric, ld_maxlevel = md_maxlevel md, ld_enterpoint = md_enterpoint_node md,
              ld_levels = replicate n_rows 0, ld_data = hp_rows hp n_rows, ld_labels = replicate n_rows 0,
              ld_link0 = hp_rows hp n_rows, ld_links = replicate n_rows [], ld_outside = []\<rparr>;
         dataset_row_bytes = md_dim md * sizeof_T in
     bind_r (expects (ha_size_links_level0 alg = md_base_link_row_bytes md) RowSizeMismatch) (\<lambda>_.
     bind_r (expects (ha_size_links_per_element alg = md_upper_link_row_bytes md) RowSizeMismatch) (\<lambda>_.
     bind_r (expects (ha_maxM0 alg = md_maxM0 md \<and> ha_maxM alg = md_maxM md) MMismatch) (\<lambda>_.
     bind_r (fold_r (load_data_batch hp dataset_file dataset_row_bytes levels)
       (batches (max 1 (target_batch_bytes div dataset_row_bytes)) n_rows) g) (\<lambda>g.
     bind_r (fold_r (load_base_batch artifact md lo)
       (batches (max 1 (target_batch_bytes div (4 + md_base_link_row_bytes md))) n_rows) g) (\<lambda>g.
       fold_r (load_upper_layer artifact md lo levels) (md_layers md) g))))))))))))))))"

section \<open>Reading the header back\<close>

lemma magic_field_matches: "magic_matches magic_field"
  by code_simp

lemma magic_field_bytes: "magic_field = lh_magic (make_layered_hnsw_header T md metric)"
  by (simp add: make_layered_hnsw_header_def)

lemma metadata_from_header:
  "(layered_hnsw_metadata_from_header (make_layered_hnsw_header T md metric))\<lparr>md_layers := md_layers md\<rparr> = md"
  by (simp add: layered_hnsw_metadata_from_header_def make_layered_hnsw_header_def)

lemma metric_codes: "metric = L2Expanded \<or> metric = InnerProduct \<Longrightarrow>
    metric_of_code (nat (the (map_of distance_types metric))) = Some metric \<and> nat (the (map_of distance_types metric)) < 2 ^ 32"
  by (elim disjE; simp add: metric_of_code_def distance_types_def)

lemma dtype_supported: "T \<noteq> OtherElement \<Longrightarrow>
    is_supported_layered_dtype (of_nat (unat (dtype_code (layered_dtype_code T)))) \<and> unat (dtype_code (layered_dtype_code T)) < 2 ^ 32"
  by (cases T; simp add: layered_dtype_code_def dtype_code_def layered_dtypes_def is_supported_layered_dtype_def)

lemma to_int32_small: "e < 2 ^ 31 \<Longrightarrow> to_int32 e = int e"
proof -
  assume "e < 2 ^ 31"
  then have "signed_take_bit 31 (int e) = int e" by (intro signed_take_bit_int_eq_self) simp_all
  moreover have "(of_nat e :: u32) = word_of_int (int e)" by simp
  ultimately show ?thesis unfolding to_int32_def by (simp only: sint_sbintrunc' len_bit0 len_num1) simp
qed

lemma slice_descriptors:
  assumes "k < length ls"
  shows "slice (concat (map descriptor_bytes ls)) (k * 40) 40 = descriptor_bytes (ls ! k)"
proof -
  have "concat (map descriptor_bytes ls) = rows_of (\<lambda>k. descriptor_bytes (ls ! k)) (length ls)"
    by (rule arg_cong[of _ _ concat], rule nth_equalityI) simp_all
  moreover have "\<forall>k < length ls. length (descriptor_bytes (ls ! k)) = 40" by (simp add: descriptor_bytes_def)
  ultimately show ?thesis using slice_concat[OF assms, of "\<lambda>k. descriptor_bytes (ls ! k)" 40] by simp
qed

lemma metadata_read:
  assumes a: "artifact_holds file T md metric levels lv mapping graph nbrs"
    and u: "\<forall>x \<in> set (header_u64s (make_layered_hnsw_header T md metric)). x < 2 ^ 64"
    and layers: "\<forall>l \<in> set (md_layers md). \<forall>x \<in> {li_level l, li_row_count l, li_degree l, li_node_offset l, li_link_offset l}. x < 2 ^ 64"
    and T: "T \<noteq> OtherElement" and metric: "metric = L2Expanded \<or> metric = InnerProduct"
    and pos: "0 < md_n_rows md" "0 < md_dim md" "md_dim md \<le> int_max"
    and ep: "md_enterpoint_node md = int e" "e < md_n_rows md" "e < 2 ^ 31"
    and ml: "md_maxlevel md = int (length (md_layers md))" "length (md_layers md) < 2 ^ 31"
  shows "read_layered_metadata file = Inr (md, metric)"
proof -
  let ?h = "make_layered_hnsw_header T md metric" and ?d = "concat (map descriptor_bytes (md_layers md))"
  have h: "holds file 0 (header_bytes ?h)" "holds file 192 ?d" using a by (simp_all add: artifact_holds_def Let_def)
  have m: "length (lh_magic ?h) = 32" by (simp add: make_layered_hnsw_header_def length_magic_field)
  have r1: "read_r file 0 192 = Inr (header_bytes ?h)" by (rule read_r_holds[OF h(1)]) (simp add: length_header_bytes[OF m])
  have r2: "read_r file 192 (length (md_layers md) * 40) = Inr ?d" by (rule read_r_holds[OF h(2)]) (simp add: length_descriptors)
  have rt: "header_of_bytes (header_bytes ?h) = ?h"
    by (rule header_roundtrip[OF m u])
      (use ml ep dtype_supported[OF T] metric_codes[OF metric] in \<open>simp_all add: make_layered_hnsw_header_def layered_hnsw_version_def\<close>)
  have f: "lh_metric ?h = nat (the (map_of distance_types metric))" "lh_magic ?h = magic_field" "lh_version ?h = layered_hnsw_version"
    "lh_construction_dtype ?h = unat (dtype_code (layered_dtype_code T))" "lh_dim ?h = md_dim md" "lh_num_layers ?h = length (md_layers md)"
    by (simp_all add: make_layered_hnsw_header_def)
  have mt: "metric_of_code (nat (the (map_of distance_types metric))) = Some metric" using metric_codes[OF metric] by blast
  have ls: "map (\<lambda>k. descriptor_of_bytes (slice ?d (k * 40) 40)) [0..<length (md_layers md)] = md_layers md"
    by (rule nth_equalityI) (use layers in \<open>simp_all add: slice_descriptors descriptor_roundtrip\<close>)
  have len: "192 + length (md_layers md) * 40 \<le> length file" using h(2) unfolding holds_def length_descriptors by blast
  show ?thesis
    unfolding read_layered_metadata_def r1 bind_r_simps Let_def rt f mt r2 ls metadata_from_header
    using magic_field_matches dtype_supported[OF T] metric pos len ep ml by (simp add: bind_expects)
qed

section \<open>The vectors\<close>

text \<open>The vectors that a file of the dataset holds, row by row.\<close>

definition vectors_at :: "npy_reader \<Rightarrow> (element \<Rightarrow> string) \<Rightarrow> element \<Rightarrow> directory \<Rightarrow> string \<Rightarrow> nat \<Rightarrow> nat \<Rightarrow> nat \<Rightarrow> bytes list \<Rightarrow> bool" where
  "vectors_at rd dtype_string T fs path n dim row_bytes vectors \<longleftrightarrow> path \<noteq> [] \<and> length vectors = n \<and>
     (\<forall>v \<in> set vectors. length v = row_bytes) \<and>
     (\<exists>file. open_layered_dataset_file rd dtype_string T fs path = Inr file \<and> nf_shape file = [n, dim] \<and>
        nf_dtype file = dtype_string T \<and> \<not> nf_fortran_order file \<and> length (nf_content file) < 2 ^ 64 \<and>
        holds (nf_content file) (nf_header_size file) (rows_of (\<lambda>i. vectors ! i) n))"

text \<open>What the loop over the vectors does to one row.\<close>

definition init_row :: "heap_env \<Rightarrow> bytes \<Rightarrow> bytes list \<Rightarrow> nat \<Rightarrow> loaded \<Rightarrow> loaded" where
  "init_row hp levels vectors i g =
     g\<lparr>ld_levels := (ld_levels g)[i := unat (levels ! i)], ld_data := (ld_data g)[i := vectors ! i],
       ld_labels := (ld_labels g)[i := i],
       ld_links := (if 0 < unat (levels ! i) then (ld_links g)[i := hp_block hp i (unat (levels ! i))] else ld_links g)\<rparr>"

lemma vectors_loaded:
  assumes h: "holds (nf_content file) (nf_header_size file) (rows_of (\<lambda>i. vectors ! i) n)" "length (nf_content file) < 2 ^ 64"
    and len: "length vectors = n" "\<forall>v \<in> set vectors. length v = rb" and malloc: "\<forall>i. hp_malloc hp i"
  shows "fold_r (load_data_batch hp file rb levels) (batches (max 1 b) n) g = Inr (fold (init_row hp levels vectors) [0..<n] g)"
proof (rule read_batches)
  fix k c assume kc: "k + c \<le> n" "0 < c"
  have len': "\<forall>i < n. length (vectors ! i) = rb" using len by simp
  have part: "holds (nf_content file) (nf_header_size file + k * rb) (rows_of (\<lambda>i. vectors ! (k + i)) c)"
    by (rule holds_concat[OF h(1) len' kc(1)])
  have lenp: "length (rows_of (\<lambda>i. vectors ! (k + i)) c) = c * rb" by (rule length_concat_rows) (use len' kc in simp)
  have "wrap64 (nf_header_size file + k * rb) = nf_header_size file + k * rb"
    using part h(2) by (simp add: holds_def wrap64_def)
  then have r: "read_r (nf_content file) (wrap64 (nf_header_size file + k * rb)) (c * rb) = Inr (rows_of (\<lambda>i. vectors ! (k + i)) c)"
    using read_r_holds[OF part lenp[symmetric]] by simp
  have step: "(let i = k + j; level = unat (levels ! i) in
      g\<lparr>ld_levels := (ld_levels g)[i := level], ld_data := (ld_data g)[i := slice (rows_of (\<lambda>i. vectors ! (k + i)) c) (j * rb) rb],
        ld_labels := (ld_labels g)[i := i], ld_links := (if 0 < level then (ld_links g)[i := hp_block hp i level] else ld_links g)\<rparr>)
      = init_row hp levels vectors (k + j) g" if "j < c" for j g
  proof -
    have "slice (rows_of (\<lambda>i. vectors ! (k + i)) c) (j * rb) rb = vectors ! (k + j)"
      by (rule slice_concat[OF that]) (use len' kc in simp)
    then show ?thesis by (simp add: init_row_def Let_def)
  qed
  have e: "expects (\<forall>j < c. levels ! (k + j) \<noteq> 0 \<longrightarrow> hp_malloc hp (k + j)) OutOfMemory = Inr ()" using malloc by (simp add: expects_def)
  show "load_data_batch hp file rb levels (k, c) (fold (init_row hp levels vectors) [0..<k] g) =
      Inr (fold (\<lambda>i. init_row hp levels vectors (k + i)) [0..<c] (fold (init_row hp levels vectors) [0..<k] g))"
    unfolding load_data_batch_def split r bind_r_simps e
    by (rule arg_cong[of _ _ Inr], rule fold_cong) (use step in auto)
qed simp

lemma init_rows:
  fixes g :: loaded and hp :: heap_env and levels :: bytes and vectors :: "bytes list"
  assumes "length (ld_levels g) = n" "length (ld_data g) = n" "length (ld_labels g) = n" "length (ld_links g) = n"
  defines "g' \<equiv> fold (init_row hp levels vectors) [0..<n] g"
  shows "\<forall>i < n. ld_levels g' ! i = unat (levels ! i) \<and> ld_data g' ! i = vectors ! i \<and> ld_labels g' ! i = i \<and>
      (0 < unat (levels ! i) \<longrightarrow> ld_links g' ! i = hp_block hp i (unat (levels ! i)))"
    "length (ld_levels g') = n" "length (ld_data g') = n" "length (ld_labels g') = n" "length (ld_links g') = n"
    "ld_link0 g' = ld_link0 g" "ld_dim g' = ld_dim g" "ld_metric g' = ld_metric g" "ld_maxlevel g' = ld_maxlevel g"
    "ld_enterpoint g' = ld_enterpoint g" "ld_outside g' = ld_outside g"
proof -
  have "let g' = fold (init_row hp levels vectors) [0..<m] g in
      (\<forall>i < m. ld_levels g' ! i = unat (levels ! i) \<and> ld_data g' ! i = vectors ! i \<and> ld_labels g' ! i = i \<and>
        (0 < unat (levels ! i) \<longrightarrow> ld_links g' ! i = hp_block hp i (unat (levels ! i)))) \<and>
      length (ld_levels g') = n \<and> length (ld_data g') = n \<and> length (ld_labels g') = n \<and> length (ld_links g') = n \<and>
      ld_link0 g' = ld_link0 g \<and> ld_dim g' = ld_dim g \<and> ld_metric g' = ld_metric g \<and> ld_maxlevel g' = ld_maxlevel g \<and>
      ld_enterpoint g' = ld_enterpoint g \<and> ld_outside g' = ld_outside g" if "m \<le> n" for m
    using that
  proof (induction m)
    case (Suc m)
    then show ?case by (auto simp: Let_def init_row_def less_Suc_eq nth_list_update)
  qed (use assms in simp)
  from this[of n] show "\<forall>i < n. ld_levels g' ! i = unat (levels ! i) \<and> ld_data g' ! i = vectors ! i \<and> ld_labels g' ! i = i \<and>
      (0 < unat (levels ! i) \<longrightarrow> ld_links g' ! i = hp_block hp i (unat (levels ! i)))"
    "length (ld_levels g') = n" "length (ld_data g') = n" "length (ld_labels g') = n" "length (ld_links g') = n"
    "ld_link0 g' = ld_link0 g" "ld_dim g' = ld_dim g" "ld_metric g' = ld_metric g" "ld_maxlevel g' = ld_maxlevel g"
    "ld_enterpoint g' = ld_enterpoint g" "ld_outside g' = ld_outside g" unfolding g'_def Let_def by blast+
qed

section \<open>The base layer\<close>

lemma fold_link0: "fold (\<lambda>i g. g\<lparr>ld_link0 := h i (ld_link0 g)\<rparr>) is g = g\<lparr>ld_link0 := fold h is (ld_link0 g)\<rparr>"
  by (induction "is" arbitrary: g) simp_all

lemma base_loaded:
  assumes nodes: "holds artifact (lo_base_nodes lo) (rows_of (\<lambda>i. put_uint 4 (mapping ! i)) n)"
    and links: "holds artifact (lo_base_links lo) (rows_of row n)" "\<forall>i < n. length (row i) = md_base_link_row_bytes md"
    and md: "md_n_rows md = n" "length artifact < 2 ^ 64" and ids: "length mapping = n" "\<forall>i < n. mapping ! i < n" "n \<le> 2 ^ 32"
  shows "fold_r (load_base_batch artifact md lo) (batches (max 1 b) n) g =
    Inr (fold (\<lambda>i g. g\<lparr>ld_link0 := (ld_link0 g)[mapping ! i := row i]\<rparr>) [0..<n] g)"
proof (rule read_batches)
  let ?rb = "md_base_link_row_bytes md" and ?F = "\<lambda>i g. g\<lparr>ld_link0 := (ld_link0 g)[mapping ! i := row i]\<rparr>"
  fix k c assume kc: "k + c \<le> n" "0 < c"
  let ?N = "rows_of (\<lambda>i. put_uint 4 (mapping ! (k + i))) c" and ?R = "rows_of (\<lambda>i. row (k + i)) c"
  have pN: "holds artifact (lo_base_nodes lo + k * 4) ?N" by (rule holds_concat[OF nodes _ kc(1)]) simp
  have pR: "holds artifact (lo_base_links lo + k * ?rb) ?R" by (rule holds_concat[OF links(1) links(2) kc(1)])
  have lN: "length ?N = c * 4" by (rule length_concat_rows) simp
  have lR: "length ?R = c * ?rb" by (rule length_concat_rows) (use links(2) kc in simp)
  have w: "wrap64 (lo_base_nodes lo + k * 4) = lo_base_nodes lo + k * 4" "wrap64 (lo_base_links lo + k * ?rb) = lo_base_links lo + k * ?rb"
    using pN pR md(2) by (simp_all add: holds_def wrap64_def)
  have r: "read_r artifact (wrap64 (lo_base_nodes lo + k * 4)) (c * 4) = Inr ?N"
    "read_r artifact (wrap64 (lo_base_links lo + k * ?rb)) (c * ?rb) = Inr ?R"
    unfolding w by (rule read_r_holds[OF pN lN[symmetric]], rule read_r_holds[OF pR lR[symmetric]])
  have N: "?N = array_bytes (put_uint 4) (map (\<lambda>i. mapping ! (k + i)) [0..<c])"
    by (simp add: array_bytes_def comp_def)
  have id: "mapping ! (k + i) < n" if "i < c" for i using ids that kc by simp
  have "\<forall>v \<in> set (map (\<lambda>i. mapping ! (k + i)) [0..<c]). v < 2 ^ 32" using id ids(3) by fastforce
  then have a: "array_of_bytes get_uint ?N = map (\<lambda>i. mapping ! (k + i)) [0..<c]" unfolding N by (rule u32_array)
  have e: "expects (\<forall>i < c. map (\<lambda>i. mapping ! (k + i)) [0..<c] ! i < md_n_rows md) InvalidBaseNode = Inr ()"
    using id md(1) by (simp add: expects_def)
  have sl: "slice ?R (i * ?rb) ?rb = row (k + i)" if "i < c" for i
    by (rule slice_concat[OF that]) (use links(2) kc in simp)
  have f: "fold (\<lambda>i l0. if map (\<lambda>i. mapping ! (k + i)) [0..<c] ! i < md_n_rows md
        then l0[map (\<lambda>i. mapping ! (k + i)) [0..<c] ! i := slice ?R (i * ?rb) ?rb] else l0) [0..<c] l0 =
      fold (\<lambda>i l0. l0[mapping ! (k + i) := row (k + i)]) [0..<c] l0" for l0
    by (rule fold_cong) (use id md(1) sl in auto)
  show "load_base_batch artifact md lo (k, c) (fold ?F [0..<k] g) = Inr (fold (\<lambda>i. ?F (k + i)) [0..<c] (fold ?F [0..<k] g))"
    unfolding load_base_batch_def split Let_def r bind_r_simps a e f
      fold_link0[of "\<lambda>i l0. l0[mapping ! (k + i) := row (k + i)]"] ..
qed simp

lemma base_links_of:
  assumes "distinct mapping" "length mapping = n" "\<forall>i < n. mapping ! i < n" "length (ld_link0 g) = n"
  shows "\<forall>i < n. ld_link0 (fold (\<lambda>i g. g\<lparr>ld_link0 := (ld_link0 g)[mapping ! i := row i]\<rparr>) [0..<n] g) ! (mapping ! i) = row i"
proof -
  have inj: "inj_on (\<lambda>i. mapping ! i) {i. i < n \<and> True}" using assms(1,2) by (auto simp: inj_on_def nth_eq_iff_index_eq)
  have b: "\<forall>i < n. True \<longrightarrow> mapping ! i < length (ld_link0 g)" using assms by simp
  show ?thesis unfolding fold_link0[of "\<lambda>i l0. l0[mapping ! i := row i]"] using scatter[OF inj b, of row] by simp
qed

section \<open>The upper layers\<close>

text \<open>What the loop over the rows of layer \<open>l\<close> does to one of them.\<close>

definition set_upper_row :: "nat list \<Rightarrow> (nat \<Rightarrow> bytes) \<Rightarrow> nat \<Rightarrow> nat \<Rightarrow> bytes list list \<Rightarrow> bytes list list" where
  "set_upper_row rows row l j ls = ls[rows ! j := (ls ! (rows ! j))[l - 1 := row j]]"

lemma fold_links: "fold (\<lambda>i g. g\<lparr>ld_links := h i (ld_links g)\<rparr>) is g = g\<lparr>ld_links := fold h is (ld_links g)\<rparr>"
  by (induction "is" arbitrary: g) simp_all

lemma upper_layer_loaded:
  assumes li: "layer = \<lparr>li_level = l, li_row_count = length rows, li_degree = d, li_node_offset = so, li_link_offset = so\<rparr>"
    and nodes: "holds artifact (lo_upper_nodes lo + so * 4) (rows_of (\<lambda>i. put_uint 4 (rows ! i)) (length rows))"
    and links: "holds artifact (lo_upper_links lo + so * md_upper_link_row_bytes md) (rows_of row (length rows))"
      "\<forall>i < length rows. length (row i) = md_upper_link_row_bytes md"
    and md: "length artifact < 2 ^ 64" and l: "1 \<le> l" and ids: "\<forall>r \<in> set rows. r < md_n_rows md \<and> l \<le> unat (levels ! r)" "md_n_rows md \<le> 2 ^ 32"
  shows "load_upper_layer artifact md lo levels layer g = Inr (g\<lparr>ld_links := fold (set_upper_row rows row l) [0..<length rows] (ld_links g)\<rparr>)"
proof (cases "rows = []")
  case True
  then show ?thesis by (simp add: li load_upper_layer_def batches_def batches_from.simps Let_def)
next
  case False
  let ?rb = "md_upper_link_row_bytes md" and ?n = "length rows" and ?F = "\<lambda>j g. g\<lparr>ld_links := set_upper_row rows row l j (ld_links g)\<rparr>"
  have b: "0 < min (max 1 (target_batch_bytes div (4 + ?rb))) ?n" using False by simp
  have "fold_r (load_upper_batch artifact md lo levels layer) (batches (min (max 1 (target_batch_bytes div (4 + ?rb))) ?n) ?n) g =
      Inr (fold ?F [0..<?n] g)"
  proof (rule read_batches[OF b])
    fix k c assume kc: "k + c \<le> ?n" "0 < c"
    let ?N = "rows_of (\<lambda>i. put_uint 4 (rows ! (k + i))) c" and ?R = "rows_of (\<lambda>i. row (k + i)) c"
    have o: "lo_upper_nodes lo + (so + k) * 4 = lo_upper_nodes lo + so * 4 + k * 4"
      "lo_upper_links lo + (so + k) * ?rb = lo_upper_links lo + so * ?rb + k * ?rb" by (simp_all add: algebra_simps)
    have pN: "holds artifact (lo_upper_nodes lo + (so + k) * 4) ?N" unfolding o by (rule holds_concat[OF nodes _ kc(1)]) simp
    have pR: "holds artifact (lo_upper_links lo + (so + k) * ?rb) ?R" unfolding o by (rule holds_concat[OF links(1) links(2) kc(1)])
    have lN: "length ?N = c * 4" by (rule length_concat_rows) simp
    have lR: "length ?R = c * ?rb" by (rule length_concat_rows) (use links(2) kc in simp)
    have w: "wrap64 (lo_upper_nodes lo + (so + k) * 4) = lo_upper_nodes lo + (so + k) * 4"
      "wrap64 (lo_upper_links lo + (so + k) * ?rb) = lo_upper_links lo + (so + k) * ?rb"
      using pN pR md by (simp_all add: holds_def wrap64_def)
    have r: "read_r artifact (wrap64 (lo_upper_nodes lo + (so + k) * 4)) (c * 4) = Inr ?N"
      "read_r artifact (wrap64 (lo_upper_links lo + (so + k) * ?rb)) (c * ?rb) = Inr ?R"
      unfolding w by (rule read_r_holds[OF pN lN[symmetric]], rule read_r_holds[OF pR lR[symmetric]])
    let ?ns = "map (\<lambda>i. rows ! (k + i)) [0..<c]"
    have N: "?N = array_bytes (put_uint 4) ?ns" by (simp add: array_bytes_def comp_def)
    have id: "rows ! (k + i) < md_n_rows md \<and> l \<le> unat (levels ! (rows ! (k + i)))" if "i < c" for i using ids(1) that kc by simp
    have "\<forall>v \<in> set ?ns. v < 2 ^ 32" using id ids(2) by fastforce
    then have a: "array_of_bytes get_uint ?N = ?ns" unfolding N by (rule u32_array)
    have e: "expects (\<forall>i < c. ?ns ! i < md_n_rows md) InvalidUpperNode = Inr ()"
      "expects (\<forall>i < c. l \<le> unat (levels ! (?ns ! i))) InvalidUpperLevel = Inr ()" "(l = 0) = False" using id l by (simp_all add: expects_def)
    have sl: "slice ?R (i * ?rb) ?rb = row (k + i)" if "i < c" for i
      by (rule slice_concat[OF that]) (use links(2) kc in simp)
    have f: "fold (\<lambda>i ls. if ?ns ! i < md_n_rows md \<and> l \<le> unat (levels ! (?ns ! i))
          then ls[?ns ! i := (ls ! (?ns ! i))[l - 1 := slice ?R (i * ?rb) ?rb]] else ls) [0..<c] ls =
        fold (\<lambda>i. set_upper_row rows row l (k + i)) [0..<c] ls" for ls
      by (rule fold_cong) (use id sl in \<open>auto simp: set_upper_row_def\<close>)
    show "load_upper_batch artifact md lo levels layer (k, c) (fold ?F [0..<k] g) = Inr (fold (\<lambda>i. ?F (k + i)) [0..<c] (fold ?F [0..<k] g))"
      unfolding load_upper_batch_def split Let_def li layer_info.simps r bind_r_simps a e if_False f
        fold_links[of "\<lambda>i. set_upper_row rows row l (k + i)"] ..
  qed
  then show ?thesis unfolding load_upper_layer_def Let_def li layer_info.simps fold_links[of "set_upper_row rows row l"] .
qed

lemma set_upper_rows:
  fixes row :: "nat \<Rightarrow> bytes" and l :: nat
  assumes "distinct rows" "\<forall>r \<in> set rows. r < length ls"
  defines "ls' \<equiv> fold (set_upper_row rows row l) [0..<length rows] ls"
  shows "length ls' = length ls" "\<forall>j < length rows. ls' ! (rows ! j) = (ls ! (rows ! j))[l - 1 := row j]"
    "\<forall>r. r \<notin> set rows \<longrightarrow> ls' ! r = ls ! r"
proof -
  have "length (fold (set_upper_row rows row l) [0..<m] ls) = length ls \<and>
      (\<forall>j < length rows. fold (set_upper_row rows row l) [0..<m] ls ! (rows ! j) =
         (if j < m then (ls ! (rows ! j))[l - 1 := row j] else ls ! (rows ! j))) \<and>
      (\<forall>r. r \<notin> set rows \<longrightarrow> fold (set_upper_row rows row l) [0..<m] ls ! r = ls ! r)" if "m \<le> length rows" for m
    using that
  proof (induction m)
    case (Suc m)
    have "rows ! m \<noteq> rows ! j" if "j < length rows" "j \<noteq> m" for j
      using assms(1) Suc.prems that by (simp add: nth_eq_iff_index_eq)
    moreover have "rows ! m \<in> set rows" using Suc.prems by simp
    ultimately show ?case using Suc assms(2) by (auto simp: set_upper_row_def nth_list_update less_Suc_eq)
  qed simp
  from this[of "length rows"] show "length ls' = length ls" "\<forall>j < length rows. ls' ! (rows ! j) = (ls ! (rows ! j))[l - 1 := row j]"
    "\<forall>r. r \<notin> set rows \<longrightarrow> ls' ! r = ls ! r" unfolding ls'_def by auto
qed

lemma upper_layers_loaded:
  assumes a: "\<forall>l. 1 \<le> l \<and> l < L + 1 \<longrightarrow>
        holds artifact (lo_upper_nodes lo + layer_start lv n l * 4) (layer_nodes_bytes lv n l) \<and>
        holds artifact (lo_upper_links lo + layer_start lv n l * rb) (layer_links_bytes rb lv n l (nbrs l))"
    and rb: "rb = md_upper_link_row_bytes md"
      "\<And>l i. i < layer_count lv n l \<Longrightarrow> length (upper_row rb lv n l (nbrs l ! i)) = rb"
    and md: "md_n_rows md = n" "length artifact < 2 ^ 64" "n \<le> 2 ^ 32" and lv: "\<forall>r < n. unat (levels ! r) = lv r"
    and layers: "md_layers md = map (\<lambda>l. \<lparr>li_level = l, li_row_count = layer_count lv n l, li_degree = deg l,
       li_node_offset = layer_start lv n l, li_link_offset = layer_start lv n l\<rparr>) [1..<L + 1]"
    and g0: "length (ld_links g0) = n" "\<forall>i < n. 0 < lv i \<longrightarrow> length (ld_links g0 ! i) = lv i"
  shows "\<exists>g. fold_r (load_upper_layer artifact md lo levels) (md_layers md) g0 = Inr g \<and> g = g0\<lparr>ld_links := ld_links g\<rparr> \<and>
    (\<forall>l j. 1 \<le> l \<and> l < L + 1 \<and> j < layer_count lv n l \<longrightarrow>
       get_linklist g (layer_rows lv n l ! j) l = upper_row rb lv n l (nbrs l ! j))"
proof -
  let ?rows = "layer_rows lv n" and ?row = "\<lambda>l i. upper_row rb lv n l (nbrs l ! i)"
  define Inv where "Inv m g \<longleftrightarrow> g = g0\<lparr>ld_links := ld_links g\<rparr> \<and> length (ld_links g) = n \<and>
    (\<forall>i < n. 0 < lv i \<longrightarrow> length (ld_links g ! i) = lv i) \<and>
    (\<forall>l j. 1 \<le> l \<and> l < m \<and> j < layer_count lv n l \<longrightarrow> get_linklist g (?rows l ! j) l = ?row l j)" for m g
  have "\<exists>g'. load_upper_layer artifact md lo levels \<lparr>li_level = l, li_row_count = layer_count lv n l, li_degree = deg l,
       li_node_offset = layer_start lv n l, li_link_offset = layer_start lv n l\<rparr> g = Inr g' \<and> Inv (Suc l) g'"
    if l: "1 \<le> l" "l < L + 1" and inv: "Inv l g" for l g
  proof -
    let ?ls = "fold (set_upper_row (?rows l) (?row l) l) [0..<length (?rows l)] (ld_links g)"
    have ids: "\<forall>r \<in> set (?rows l). r < md_n_rows md \<and> l \<le> unat (levels ! r)" using lv md(1) by (auto simp: layer_rows_props)
    have "load_upper_layer artifact md lo levels \<lparr>li_level = l, li_row_count = layer_count lv n l, li_degree = deg l,
       li_node_offset = layer_start lv n l, li_link_offset = layer_start lv n l\<rparr> g = Inr (g\<lparr>ld_links := ?ls\<rparr>)"
      unfolding layer_count_def
      by (rule upper_layer_loaded[OF refl _ _ _ md(2) l(1) ids])
        (use a[rule_format, of l] l rb md in \<open>simp_all add: layer_nodes_bytes_def layer_links_bytes_def layer_count_def\<close>)
    moreover have "Inv (Suc l) (g\<lparr>ld_links := ?ls\<rparr>)"
    proof -
      have i: "g = g0\<lparr>ld_links := ld_links g\<rparr>" "length (ld_links g) = n" "\<And>i. i < n \<Longrightarrow> 0 < lv i \<Longrightarrow> length (ld_links g ! i) = lv i"
        "\<And>k j. 1 \<le> k \<Longrightarrow> k < l \<Longrightarrow> j < layer_count lv n k \<Longrightarrow> ld_links g ! (?rows k ! j) ! (k - 1) = ?row k j"
        using inv unfolding Inv_def get_linklist_def by blast+
      have "\<forall>r \<in> set (?rows l). r < length (ld_links g)" using i(2) by (simp add: layer_rows_props)
      note s = set_upper_rows[OF layer_rows_props(1) this, of "?row l" l]
      have at: "?ls ! r = ld_links g ! r \<or> (\<exists>x. ?ls ! r = (ld_links g ! r)[l - 1 := x])" for r
      proof (cases "r \<in> set (?rows l)")
        case True
        then obtain j where "j < length (?rows l)" "r = ?rows l ! j" by (metis in_set_conv_nth)
        then show ?thesis using s(2) by blast
      qed (use s(3) in blast)
      have len: "length (?ls ! r) = length (ld_links g ! r)" for r using at[of r] by auto
      have other: "?ls ! r ! (k - 1) = ld_links g ! r ! (k - 1)" if "k \<noteq> l" "1 \<le> k" for r k
        using at[of r] l(1) that by (auto simp: nth_list_update_neq)
      have new: "?ls ! (?rows l ! j) ! (l - 1) = ?row l j" if j: "j < layer_count lv n l" for j
      proof -
        have "?rows l ! j \<in> set (?rows l)" using j by (simp add: layer_count_def)
        then have "?rows l ! j < n" "l \<le> lv (?rows l ! j)" by (simp_all add: layer_rows_props)
        then have "l - 1 < length (ld_links g ! (?rows l ! j))" using i(3)[of "?rows l ! j"] l(1) by simp
        then show ?thesis using s(2) j by (simp add: layer_count_def)
      qed
      have "?ls ! (?rows k ! j) ! (k - 1) = ?row k j" if "1 \<le> k" "k < Suc l" "j < layer_count lv n k" for k j
        using that new other i(4)[of k j] by (cases "k = l") auto
      moreover have "g\<lparr>ld_links := ?ls\<rparr> = g0\<lparr>ld_links := ?ls\<rparr>" by (subst i(1)) simp
      ultimately show ?thesis using i(2,3) s(1) len unfolding Inv_def get_linklist_def by simp
    qed
    ultimately show ?thesis by blast
  qed
  moreover have "Inv 1 g0" using g0 by (simp add: Inv_def)
  ultimately have "\<exists>g. fold_r (\<lambda>l. load_upper_layer artifact md lo levels \<lparr>li_level = l, li_row_count = layer_count lv n l, li_degree = deg l,
       li_node_offset = layer_start lv n l, li_link_offset = layer_start lv n l\<rparr>) [1..<L + 1] g0 = Inr g \<and> Inv (L + 1) g"
    by (intro fold_r_upt) auto
  then show ?thesis unfolding layers fold_r_map Inv_def by blast
qed

section \<open>The artifact is loaded\<close>

lemma max_of_levels:
  assumes g: "groups_levels plan n lv"
  shows "Max (unat ` set (lp_levels plan)) = max_level plan"
proof -
  have p: "length (lp_levels plan) = n" "\<forall>r < n. unat (lp_levels plan ! r) = lv r" "max_level plan = Max (lv ` {..<n})"
    using g unfolding groups_levels_def by blast+
  have "set (lp_levels plan) = (\<lambda>r. lp_levels plan ! r) ` {..<n}" using p(1) by (auto simp: set_conv_nth)
  then have "unat ` set (lp_levels plan) = (\<lambda>r. unat (lp_levels plan ! r)) ` {..<n}" by (simp add: image_image)
  also have "\<dots> = lv ` {..<n}" by (rule image_cong) (use p(2) in auto)
  finally show ?thesis using p(3) by simp
qed

text \<open>The row that the entry point names is one of the highest level.\<close>

lemma entry_point:
  assumes "0 < n"
  shows "sort_key lv [0..<n] ! (n - 1) < n" "lv (sort_key lv [0..<n] ! (n - 1)) = Max (lv ` {..<n})"
proof -
  let ?ids = "sort_key lv [0..<n]"
  have "?ids ! (n - 1) \<in> set ?ids" using assms by (intro nth_mem) simp
  then show lt: "?ids ! (n - 1) < n" by simp
  have "lv r \<le> lv (?ids ! (n - 1))" if "r < n" for r
  proof -
    have "r \<in> set ?ids" using that by simp
    then obtain j where j: "j < n" "?ids ! j = r" by (metis in_set_conv_nth length_sort length_upt minus_nat.diff_0)
    have "map lv ?ids ! j \<le> map lv ?ids ! (n - 1)" by (rule sorted_nth_mono) (use j in simp_all)
    then show ?thesis using j assms by simp
  qed
  then have "Max (lv ` {..<n}) = lv (?ids ! (n - 1))" by (intro Max_eqI) (use lt in auto)
  then show "lv (?ids ! (n - 1)) = Max (lv ` {..<n})" by simp
qed

lemma writer_header_bounds:
  fixes ef :: nat
  assumes g: "groups_levels plan (ix_size ix) lv" and mk: "hnswlib_ok ctor" and fits: "index_fits ix" and L: "max_level plan \<le> 255"
  defines "M \<equiv> (ix_graph_degree ix + 1) div 2"
  defines "md \<equiv> layered_metadata_of plan (ctor M ef) ix"
  shows "\<forall>x \<in> set (header_u64s (make_layered_hnsw_header T md metric)). x < 2 ^ 64"
    "\<forall>l \<in> set (md_layers md). \<forall>x \<in> {li_level l, li_row_count l, li_degree l, li_node_offset l, li_link_offset l}. x < 2 ^ 64"
    "check_sections md = Inr ()" "length (md_layers md) = max_level plan"
proof -
  have M: "M \<le> 10000" and n: "ix_size ix \<le> 2 ^ 31" and deg: "ix_graph_degree ix \<le> 2 * M" and dim: "ix_dim ix < 2 ^ 31"
    using fits unfolding index_fits_def M_def by linarith+
  define n where "n = ix_size ix"
  define U where "U = layer_start lv n (max_level plan + 1)"
  note m = writer_metadata[OF g mk M, of ef, folded md_def n_def, folded U_def]
  note lo = writer_layout(2,3)[OF g mk M n L, folded n_def, folded U_def]
  have b: "n < 2 ^ 63" "n * 4 < 2 ^ 63" "n * (4 + 2 * M * 4) < 2 ^ 63" "U * 4 < 2 ^ 63" "U * (4 + M * 4) < 2 ^ 63" using lo(1) by linarith+
  show "\<forall>x \<in> set (header_u64s (make_layered_hnsw_header T md metric)). x < 2 ^ 64"
    using b lo(2) M dim deg m(6,7) by (simp add: header_u64s_def make_layered_hnsw_header_def m(1-5,8-18))
  show "\<forall>l \<in> set (md_layers md). \<forall>x \<in> {li_level l, li_row_count l, li_degree l, li_node_offset l, li_link_offset l}. x < 2 ^ 64"
  proof (intro ballI)
    fix l x assume l: "l \<in> set (md_layers md)" "x \<in> {li_level l, li_row_count l, li_degree l, li_node_offset l, li_link_offset l}"
    obtain k where l_k: "k < max_level plan + 1" "l = \<lparr>li_level = k, li_row_count = layer_count lv n k,
        li_degree = hnsw_upper_layer_degree (layer_count lv n k) M, li_node_offset = layer_start lv n k, li_link_offset = layer_start lv n k\<rparr>"
      using l(1) unfolding m(19) set_map set_upt by (metis (no_types, lifting) atLeastLessThan_iff imageE)
    then have k: "k < max_level plan + 1" "x \<in> {k, layer_count lv n k, hnsw_upper_layer_degree (layer_count lv n k) M, layer_start lv n k}"
      using l(2) by simp_all
    have "layer_start lv n k \<le> U" unfolding U_def using k(1) by (intro layer_start_mono) simp
    then show "x < 2 ^ 64" using k L lo(2) M b(1) layer_count_le[of lv n k] upper_degree_le[of "layer_count lv n k" M] by auto
  qed
  have w: "wrap64 x = x" if "x < 2 ^ 63" for x using that by (simp add: wrap64_def)
  show "check_sections md = Inr ()"
    unfolding check_sections_def m(1-18) w[OF b(2)] w[OF b(3)] w[OF b(4)] w[OF b(5)]
    using deg by (simp add: bind_expects bind_r_simps expects_def)
  show "length (md_layers md) = max_level plan" unfolding m(19) by simp
qed

text \<open>What is left to memory and to the reader of the header.\<close>

definition heap_ok :: "heap_env \<Rightarrow> bool" where
  "heap_ok hp \<longleftrightarrow> (\<forall>n. length (hp_rows hp n) = n) \<and> (\<forall>i level. length (hp_block hp i level) = level) \<and> (\<forall>i. hp_malloc hp i)"

text \<open>
  The hierarchy of a loaded index: every row's links of layer 0 and of each layer it belongs to,
  translated to ids of the dataset, the vectors, and an entry point of the highest level; and no row was
  copied outside the index.
\<close>

definition is_hierarchy :: "loaded \<Rightarrow> nat \<Rightarrow> (nat \<Rightarrow> nat) \<Rightarrow> nat list \<Rightarrow> nat list list \<Rightarrow> (nat \<Rightarrow> nat list list) \<Rightarrow> bytes list \<Rightarrow> bool" where
  "is_hierarchy g n lv mapping graph nbrs vectors \<longleftrightarrow>
     (\<forall>i < n. links_of (get_linklist0 g (mapping ! i)) = map (\<lambda>v. mapping ! v) (takeWhile (\<lambda>v. v \<noteq> kInvalidNeighbor) (graph ! i))) \<and>
     (\<forall>l j. 1 \<le> l \<and> l \<le> Max (lv ` {..<n}) \<and> j < layer_count lv n l \<longrightarrow>
        links_of (get_linklist g (layer_rows lv n l ! j) l) = map (\<lambda>v. layer_rows lv n l ! v) (nbrs l ! j)) \<and>
     ld_levels g = map lv [0..<n] \<and> ld_data g = vectors \<and> ld_labels g = [0..<n] \<and> ld_maxlevel g = int (Max (lv ` {..<n})) \<and>
     0 \<le> ld_enterpoint g \<and> nat (ld_enterpoint g) < n \<and> int (lv (nat (ld_enterpoint g))) = ld_maxlevel g \<and> ld_outside g = []"

lemma same_but_link0:
  "g' = g\<lparr>ld_link0 := x\<rparr> \<Longrightarrow> ld_links g' = ld_links g \<and> ld_levels g' = ld_levels g \<and> ld_data g' = ld_data g \<and> ld_labels g' = ld_labels g \<and>
     ld_dim g' = ld_dim g \<and> ld_metric g' = ld_metric g \<and> ld_maxlevel g' = ld_maxlevel g \<and> ld_enterpoint g' = ld_enterpoint g \<and> ld_outside g' = ld_outside g"
  by simp

lemma same_but_links:
  "g' = g\<lparr>ld_links := x\<rparr> \<Longrightarrow> ld_link0 g' = ld_link0 g \<and> ld_levels g' = ld_levels g \<and> ld_data g' = ld_data g \<and> ld_labels g' = ld_labels g \<and>
     ld_dim g' = ld_dim g \<and> ld_metric g' = ld_metric g \<and> ld_maxlevel g' = ld_maxlevel g \<and> ld_enterpoint g' = ld_enterpoint g \<and> ld_outside g' = ld_outside g"
  by simp

lemma artifact_loaded:
  fixes ef :: nat and dataset :: "'r list" and env :: "'r hnsw_env"
  assumes g: "groups_levels plan (ix_size ix) lv" and env: "env_ok env" and heap: "heap_ok hp" and fits: "index_fits ix"
    and d: "disk_graph (he_read_npy_header env) (he_u32_dtype env) fs0 ix mapping graph" and dist: "distinct mapping"
    and L: "max_level plan \<le> 255" and T: "T \<noteq> OtherElement" and metric: "ix_metric ix = L2Expanded \<or> ix_metric ix = InnerProduct"
    and vec: "vectors_at (he_read_npy_header env) (he_dtype_string env) T fs path (ix_size ix) (ix_dim ix) (ix_dim ix * sz) vectors"
  defines "M \<equiv> (ix_graph_degree ix + 1) div 2"
  defines "nbrs \<equiv> layer_neighbors (he_all_neighbors env) dataset lv (ix_size ix) M"
  assumes art: "fs artifact = Some file" "artifact_holds file T (layered_metadata_of plan (he_make_alg env M ef) ix) (ix_metric ix)
      (lp_levels plan) lv mapping graph nbrs"
  shows "\<exists>g md. deserialize_layered_hnswlib env hp T sz fs artifact path = Inr g \<and>
    read_layered_metadata file = Inr (md, ix_metric ix) \<and> (\<forall>l \<in> set (md_layers md). li_level l \<noteq> 0) \<and>
    ld_dim g = ix_dim ix \<and> ld_metric g = ix_metric ix \<and> is_hierarchy g (ix_size ix) lv mapping graph nbrs vectors"
proof -
  define n where "n = ix_size ix"
  define md where "md = layered_metadata_of plan (he_make_alg env M ef) ix"
  let ?L = "max_level plan" and ?lo = "artifact_layout (length (md_layers md)) md" and ?lv = "lp_levels plan"
  have mk: "hnswlib_ok (he_make_alg env)" and nb: "neighbors_ok (he_all_neighbors env)" using env by (simp_all add: env_ok_def)
  have M: "M \<le> 10000" and n31: "ix_size ix \<le> 2 ^ 31" and deg: "ix_graph_degree ix \<le> 2 * M" and pos: "0 < n" "0 < ix_dim ix" "ix_dim ix \<le> int_max"
    using fits unfolding index_fits_def M_def n_def int_max_def by linarith+
  have n32: "n \<le> 2 ^ 32" using n31 by (simp add: n_def)
  have G: "groups_levels plan n lv" using g by (simp add: n_def)
  have p: "length ?lv = n" "\<And>r. r < n \<Longrightarrow> unat (?lv ! r) = lv r" "?L = Max (lv ` {..<n})"
    using G unfolding groups_levels_def by blast+
  note m = writer_metadata[OF g mk M, of ef, folded md_def n_def]
  note lo = writer_layout(1)[OF g mk M n31 L, of ef, folded md_def n_def]
  note lo2 = writer_layout(2)[OF g mk M n31 L, folded n_def]
  note hb = writer_header_bounds[where ef = ef, OF g mk fits L, folded M_def, folded md_def]
  have a: "artifact_holds file T md (ix_metric ix) ?lv lv mapping graph nbrs" using art(2) by (simp add: md_def)
  define e where "e = sort_key lv [0..<n] ! (n - 1)"
  have e: "e < n" "lv e = Max (lv ` {..<n})" unfolding e_def using entry_point[OF pos(1)] by blast+
  have e31: "e < 2 ^ 31" using e(1) n31 by (simp add: n_def)
  have me: "md_enterpoint_node md = int e" unfolding m(18) e_def[symmetric] by (rule to_int32_small[OF e31])
  have rd: "read_layered_metadata file = Inr (md, ix_metric ix)"
    by (rule metadata_read[OF a hb(1,2) T metric _ _ _ me _ e31]) (use pos e L in \<open>simp_all add: m(1,2,17) hb(4)\<close>)
  obtain df where df: "open_layered_dataset_file (he_read_npy_header env) (he_dtype_string env) T fs path = Inr df"
      "nf_shape df = [n, ix_dim ix]" "nf_dtype df = he_dtype_string env T" "\<not> nf_fortran_order df" "length (nf_content df) < 2 ^ 64"
      "holds (nf_content df) (nf_header_size df) (rows_of (\<lambda>i. vectors ! i) n)"
    and v: "path \<noteq> []" "length vectors = n" "\<forall>v \<in> set vectors. length v = ix_dim ix * sz"
    using vec unfolding vectors_at_def n_def by blast
  have len: "length file = lo_file_size ?lo" and lvh: "holds file (lo_levels ?lo) ?lv"
    and bn: "holds file (lo_base_nodes ?lo) (rows_of (\<lambda>i. put_uint 4 (mapping ! i)) n)"
    and bl: "holds file (lo_base_links ?lo) (rows_of (\<lambda>i. base_row mapping (md_base_link_row_bytes md) (graph ! i)) n)"
    and up: "\<forall>l. 1 \<le> l \<and> l < ?L + 1 \<longrightarrow> holds file (lo_upper_nodes ?lo + layer_start lv n l * 4) (layer_nodes_bytes lv n l) \<and>
        holds file (lo_upper_links ?lo + layer_start lv n l * md_upper_link_row_bytes md) (layer_links_bytes (md_upper_link_row_bytes md) lv n l (nbrs l))"
    using a unfolding artifact_holds_def Let_def m(1) hb(4) by blast+
  have small: "length file < 2 ^ 64" unfolding len lo layout.simps using lo2 by simp
  have rl: "read_r file (lo_levels ?lo) (md_levels_bytes md) = Inr ?lv" by (rule read_r_holds[OF lvh]) (simp add: m(9) p(1))
  note alg = mk[unfolded hnswlib_ok_def, rule_format, OF M]
  define g0 where "g0 = \<lparr>ld_dim = md_dim md, ld_metric = ix_metric ix, ld_maxlevel = md_maxlevel md, ld_enterpoint = md_enterpoint_node md,
              ld_levels = replicate n 0, ld_data = hp_rows hp n, ld_labels = replicate n 0,
              ld_link0 = hp_rows hp n, ld_links = replicate n [], ld_outside = []\<rparr>"
  have hp: "\<And>k. length (hp_rows hp k) = k" "\<And>i k. length (hp_block hp i k) = k" "\<forall>i. hp_malloc hp i" using heap by (simp_all add: heap_ok_def)
  define g1 where "g1 = fold (init_row hp ?lv vectors) [0..<n] g0"
  have s0: "length (ld_levels g0) = n" "length (ld_data g0) = n" "length (ld_labels g0) = n" "length (ld_links g0) = n" "length (ld_link0 g0) = n"
    using hp(1) by (simp_all add: g0_def)
  note i1 = init_rows[OF s0(1-4), of hp ?lv vectors, folded g1_def]
  have l1: "fold_r (load_data_batch hp df (ix_dim ix * sz) ?lv) (batches (max 1 b) n) g0 = Inr g1" for b
    unfolding g1_def by (rule vectors_loaded[OF df(6,5) v(2,3) hp(3)])
  let ?row = "\<lambda>i. base_row mapping (md_base_link_row_bytes md) (graph ! i)"
  define g2 where "g2 = fold (\<lambda>i g. g\<lparr>ld_link0 := (ld_link0 g)[mapping ! i := ?row i]\<rparr>) [0..<n] g1"
  have mp: "length mapping = n" "\<forall>i < n. mapping ! i < n" "\<forall>id \<in> set mapping. id < n" using d unfolding disk_graph_def n_def by auto
  have gr: "length (graph ! i) = ix_graph_degree ix" "\<forall>v \<in> set (takeWhile (\<lambda>v. v \<noteq> kInvalidNeighbor) (graph ! i)). v < n" if "i < n" for i
    using d that unfolding disk_graph_def n_def by auto
  have rowlen: "\<forall>i < n. length (?row i) = md_base_link_row_bytes md"
    using length_base_row[OF gr(1)] deg unfolding m(11) by simp
  have l2: "fold_r (load_base_batch file md ?lo) (batches (max 1 b) n) g1 = Inr g2" for b
    unfolding g2_def by (rule base_loaded[OF bn bl rowlen m(1) small mp(1,2) n32])
  have "g2 = g1\<lparr>ld_link0 := ld_link0 g2\<rparr>" unfolding g2_def
    unfolding fold_link0[of "\<lambda>i l0. l0[mapping ! i := ?row i]"] by simp
  from same_but_link0[OF this] have g2: "ld_links g2 = ld_links g1" "ld_levels g2 = ld_levels g1" "ld_data g2 = ld_data g1"
    "ld_labels g2 = ld_labels g1" "ld_dim g2 = ld_dim g1" "ld_metric g2 = ld_metric g1" "ld_maxlevel g2 = ld_maxlevel g1"
    "ld_enterpoint g2 = ld_enterpoint g1" "ld_outside g2 = ld_outside g1" by blast+
  have b2: "\<And>i. i < n \<Longrightarrow> ld_link0 g2 ! (mapping ! i) = ?row i"
    unfolding g2_def using base_links_of[OF dist mp(1,2), of g1 ?row] s0(5) i1(6) by simp
  have urow: "length (upper_row (md_upper_link_row_bytes md) lv n l (nbrs l ! i)) = md_upper_link_row_bytes md"
    "length (nbrs l ! i) \<le> M" "\<forall>v \<in> set (nbrs l ! i). v < layer_count lv n l" if "i < layer_count lv n l" for l i
  proof -
    have nl: "nbrs l ! i \<in> set (nbrs l)" using that layer_neighbors_ok(1)[OF nb] unfolding nbrs_def n_def by (metis nth_mem)
    then show "length (nbrs l ! i) \<le> M" "\<forall>v \<in> set (nbrs l ! i). v < layer_count lv n l"
      using layer_neighbors_ok(2)[OF nb] upper_degree_le unfolding nbrs_def n_def by metis+
    then show "length (upper_row (md_upper_link_row_bytes md) lv n l (nbrs l ! i)) = md_upper_link_row_bytes md"
      unfolding upper_row_def m(15) by (intro length_link_row) simp
  qed
  have s2: "length (ld_links g2) = n" "\<forall>i < n. 0 < lv i \<longrightarrow> length (ld_links g2 ! i) = lv i"
    using i1(1,5) p(2) hp(2) by (simp_all add: g2)
  have lvs: "\<forall>r < n. unat (?lv ! r) = lv r" using p(2) by blast
  obtain g3 where g3: "fold_r (load_upper_layer file md ?lo ?lv) (md_layers md) g2 = Inr g3" "g3 = g2\<lparr>ld_links := ld_links g3\<rparr>"
      "\<forall>l j. 1 \<le> l \<and> l < ?L + 1 \<and> j < layer_count lv n l \<longrightarrow>
         get_linklist g3 (layer_rows lv n l ! j) l = upper_row (md_upper_link_row_bytes md) lv n l (nbrs l ! j)"
  proof (rule exE[OF upper_layers_loaded[OF up refl urow(1) m(1) small n32 lvs m(19) s2]])
    fix g assume "fold_r (load_upper_layer file md ?lo ?lv) (md_layers md) g2 = Inr g \<and> g = g2\<lparr>ld_links := ld_links g\<rparr> \<and>
      (\<forall>l j. 1 \<le> l \<and> l < ?L + 1 \<and> j < layer_count lv n l \<longrightarrow>
         get_linklist g (layer_rows lv n l ! j) l = upper_row (md_upper_link_row_bytes md) lv n l (nbrs l ! j))"
    then show thesis by (intro that) (elim conjE, assumption)+
  qed assumption
  have "deserialize_layered_hnswlib env hp T sz fs artifact path = Inr g3"
  proof -
    have x: "expects (path \<noteq> []) NoDatasetPath = Inr ()" "expects (lo_file_size ?lo \<le> length file) TruncatedArtifact = Inr ()"
      "expects (nf_shape df = [n, md_dim md]) ShapeMismatch = Inr ()" "validate_npy_file (he_dtype_string env T) df = Inr ()"
      "expects (int (Max (unat ` set ?lv)) = md_maxlevel md) MaxLevelMismatch = Inr ()"
      "expects (has_space T (ix_metric ix)) UnsupportedMetric = Inr ()"
      using v(1) len df(2-4) max_of_levels[OF G] T metric by (auto simp: validate_npy_file_def bind_expects m(2,17) has_space_def)
    let ?alg = "he_make_alg env (md_M md) (md_ef_construction md)"
    have y: "expects (ha_size_links_level0 ?alg = md_base_link_row_bytes md) RowSizeMismatch = Inr ()"
      "expects (ha_size_links_per_element ?alg = md_upper_link_row_bytes md) RowSizeMismatch = Inr ()"
      "expects (ha_maxM0 ?alg = md_maxM0 md \<and> ha_maxM ?alg = md_maxM md) MMismatch = Inr ()"
      using alg by (simp_all add: m(3,4,5,11,15))
    have g0: "\<lparr>ld_dim = md_dim md, ld_metric = ix_metric ix, ld_maxlevel = md_maxlevel md, ld_enterpoint = md_enterpoint_node md,
              ld_levels = replicate n 0, ld_data = hp_rows hp n, ld_labels = replicate n 0,
              ld_link0 = hp_rows hp n, ld_links = replicate n [], ld_outside = []\<rparr> = g0" by (simp add: g0_def)
    have l1': "fold_r (load_data_batch hp df (md_dim md * sz) ?lv) (batches (max 1 b) n) g0 = Inr g1" for b
      unfolding m(2) by (rule l1)
    show ?thesis
      unfolding deserialize_layered_hnswlib_def art(1) option.case rd bind_r_simps split Let_def m(1) x df(1) hb(3) rl y g0 l1' l2
      by (rule g3(1))
  qed
  moreover from same_but_links[OF g3(2)] have f3: "ld_link0 g3 = ld_link0 g2" "ld_levels g3 = ld_levels g2" "ld_data g3 = ld_data g2"
    "ld_labels g3 = ld_labels g2" "ld_dim g3 = ld_dim g2" "ld_metric g3 = ld_metric g2" "ld_maxlevel g3 = ld_maxlevel g2"
    "ld_enterpoint g3 = ld_enterpoint g2" "ld_outside g3 = ld_outside g2" by blast+
  moreover have "ld_dim g3 = ix_dim ix" "ld_metric g3 = ix_metric ix" by (simp_all add: f3 g2 i1 g0_def m(2))
  moreover have "is_hierarchy g3 n lv mapping graph nbrs vectors"
    unfolding is_hierarchy_def
  proof (intro conjI allI impI)
    fix i assume i: "i < n"
    let ?ids = "map (\<lambda>v. mapping ! v) (takeWhile (\<lambda>v. v \<noteq> kInvalidNeighbor) (graph ! i))"
    have "\<forall>v \<in> set ?ids. v < 2 ^ 32" using gr(2)[OF i] mp(2) n32 by fastforce
    moreover have "length ?ids < 2 ^ 32"
      using gr(1)[OF i] length_takeWhile_le[of "\<lambda>v. v \<noteq> kInvalidNeighbor" "graph ! i"] deg M by simp
    ultimately show "links_of (get_linklist0 g3 (mapping ! i)) = ?ids"
      unfolding get_linklist0_def f3(1) b2[OF i] base_row_def by (rule links_of_link_row)
  next
    fix l j assume lj: "1 \<le> l \<and> l \<le> Max (lv ` {..<n}) \<and> j < layer_count lv n l"
    let ?ids = "map (\<lambda>v. layer_rows lv n l ! v) (nbrs l ! j)"
    have "layer_rows lv n l ! v < n" if "v < layer_count lv n l" for v
      using that nth_mem[of v "layer_rows lv n l"] by (simp add: layer_count_def layer_rows_props)
    then have "\<forall>v \<in> set ?ids. v < 2 ^ 32" using urow(3)[of j l] lj n32 by fastforce
    moreover have "length ?ids < 2 ^ 32" using urow(2)[of j l] lj M by simp
    ultimately have "links_of (link_row (md_upper_link_row_bytes md) ?ids) = ?ids" by (rule links_of_link_row)
    then show "links_of (get_linklist g3 (layer_rows lv n l ! j) l) = ?ids"
      using g3(3)[rule_format, of l j] lj unfolding p(3) upper_row_def by simp
  next
    show "ld_levels g3 = map lv [0..<n]" unfolding f3 g2 by (rule nth_equalityI) (use i1(1,2) p(2) in simp_all)
    show "ld_outside g3 = []" by (simp add: f3 g2 i1 g0_def)
    show "ld_data g3 = vectors" unfolding f3 g2 by (rule nth_equalityI) (use i1(1,3) v(2) in simp_all)
    show "ld_labels g3 = [0..<n]" unfolding f3 g2 by (rule nth_equalityI) (use i1(1,4) in simp_all)
    show ml: "ld_maxlevel g3 = int (Max (lv ` {..<n}))" by (simp add: f3 g2 i1 g0_def m(17) p(3))
    have ep: "ld_enterpoint g3 = int e" by (simp add: f3 g2 i1 g0_def me)
    show "0 \<le> ld_enterpoint g3" "nat (ld_enterpoint g3) < n" "int (lv (nat (ld_enterpoint g3))) = ld_maxlevel g3"
      unfolding ep ml using e by simp_all
  qed
  moreover have "\<forall>l \<in> set (md_layers md). li_level l \<noteq> 0" unfolding m(19) by auto
  ultimately show ?thesis using rd unfolding n_def by blast
qed

section \<open>The round trip\<close>

text \<open>Where the artifact goes: beside the file of the graph.\<close>

definition layered_artifact_path :: "ace_index \<Rightarrow> string" where
  "layered_artifact_path ix =
     (case ix_graph_fd ix of None \<Rightarrow> [] | Some (_, graph_path) \<Rightarrow> path_join (parent_path graph_path) ''hnsw_index.cuvs'')"

text \<open>The new file that \<^verbatim>\<open>mkstemp\<close> makes.\<close>

definition fresh_temp :: "directory \<Rightarrow> string option \<Rightarrow> string \<Rightarrow> bool" where
  "fresh_temp fs temp output_path \<longleftrightarrow> (\<exists>t. temp = Some t \<and> fs t = None \<and> t \<noteq> output_path)"

lemma vectors_at_cong:
  assumes "fs' path = fs path" "vectors_at rd ds T fs path n dim rb vectors"
  shows "vectors_at rd ds T fs' path n dim rb vectors"
proof -
  have "open_layered_dataset_file rd ds T fs' path = open_layered_dataset_file rd ds T fs path"
    unfolding open_layered_dataset_file_def open_npy_file_def assms(1) ..
  then show ?thesis using assms(2) unfolding vectors_at_def by metis
qed

lemma vectors_at_exists: "vectors_at rd ds T fs path n dim rb vectors \<Longrightarrow> fs path \<noteq> None"
  by (auto simp: vectors_at_def open_layered_dataset_file_def open_npy_file_def split: if_splits option.splits)

lemma serialize_shape:
  assumes d: "disk_graph rd u32 fs ix mapping graph" and plan: "make_random_hnsw_level_plan (he_uninit env (ix_size ix)) (he_uninit env (ix_size ix))
      (ix_size ix) (he_random_level env) = Inr plan" and ds: "length dataset = ix_size ix" and sp: "has_space T (ix_metric ix)"
  shows "serialize_to_layered_hnswlib_from_disk env T ef fs temp can_allocate ix (ix_dim ix) dataset =
    with_exclusive_temp fs temp (layered_artifact_path ix)
      (if can_allocate then write_artifact env T fs ix plan (he_make_alg env ((ix_graph_degree ix + 1) div 2) ef) dataset else Inl NoSpace)"
proof -
  obtain gp mp where "ix_graph_fd ix = Some (True, gp)" "ix_mapping_fd ix = Some (True, mp)" "gp \<noteq> []"
    using d unfolding disk_graph_def npy_at_def by blast
  then show ?thesis using plan ds sp by (simp add: serialize_to_layered_hnswlib_from_disk_def layered_artifact_path_def Let_def)
qed

lemma artifact_serialized:
  fixes dataset :: "'r list" and env :: "'r hnsw_env" and ef :: nat
  assumes env: "env_ok env" and fits: "index_fits ix"
    and graph: "disk_graph (he_read_npy_header env) (he_u32_dtype env) fs ix mapping graph"
    and levels: "\<forall>i < ix_size ix. 0 \<le> he_random_level env i \<and> he_random_level env i \<le> 255"
    and ds: "length dataset = ix_size ix" and T: "T \<noteq> OtherElement" and metric: "ix_metric ix = L2Expanded \<or> ix_metric ix = InnerProduct"
    and new: "fs (layered_artifact_path ix) = None" "fresh_temp fs temp (layered_artifact_path ix)"
  defines "lv \<equiv> \<lambda>i. nat (he_random_level env i)" and "M \<equiv> (ix_graph_degree ix + 1) div 2"
  shows "\<exists>plan bs. groups_levels plan (ix_size ix) lv \<and> max_level plan \<le> 255 \<and>
    serialize_to_layered_hnswlib_from_disk env T ef fs temp True ix (ix_dim ix) dataset =
      (Inr (layered_artifact_path ix), fs(layered_artifact_path ix \<mapsto> bs)) \<and>
    artifact_holds bs T (layered_metadata_of plan (he_make_alg env M ef) ix) (ix_metric ix) (lp_levels plan) lv mapping graph
      (layer_neighbors (he_all_neighbors env) dataset lv (ix_size ix) M)"
proof -
  let ?n = "ix_size ix" and ?art = "layered_artifact_path ix"
  have n: "0 < ?n" using fits by (simp add: index_fits_def)
  have un: "length (he_uninit env k) = k" for k using env by (simp add: env_ok_def)
  obtain plan where plan: "make_random_hnsw_level_plan (he_uninit env ?n) (he_uninit env ?n) ?n (he_random_level env) = Inr plan"
    and g: "groups_levels plan ?n lv"
    using random_plan_groups[OF n levels un un] unfolding lv_def by blast
  have "max_level plan = Max (lv ` {..<?n})" using g unfolding groups_levels_def by blast
  also have "\<dots> \<le> 255" using n levels by (subst Max_le_iff) (auto simp: lv_def nat_le_iff)
  finally have L: "max_level plan \<le> 255" .
  obtain bs where art: "write_artifact env T fs ix plan (he_make_alg env M ef) dataset = Inr bs"
      "artifact_holds bs T (layered_metadata_of plan (he_make_alg env M ef) ix) (ix_metric ix) (lp_levels plan) lv mapping graph
        (layer_neighbors (he_all_neighbors env) dataset lv ?n M)"
    using artifact_written[OF g env fits graph L ds] unfolding M_def by blast
  obtain t where t: "temp = Some t" "fs t = None" "t \<noteq> ?art" using new(2) by (auto simp: fresh_temp_def)
  have sp: "has_space T (ix_metric ix)" using T metric by (auto simp: has_space_def)
  have "(fs(t \<mapsto> bs, ?art \<mapsto> bs))(t := None) = fs(?art \<mapsto> bs)" using t by (auto simp: fun_eq_iff)
  then have "serialize_to_layered_hnswlib_from_disk env T ef fs temp True ix (ix_dim ix) dataset = (Inr ?art, fs(?art \<mapsto> bs))"
    unfolding serialize_shape[OF graph plan ds sp] if_True M_def[symmetric] art(1) using t new(1) by (simp add: with_exclusive_temp_def Let_def)
  then show ?thesis using g L art(2) by blast
qed

text \<open>
  C3: An index whose ACE graph and mapping are on the disk is written as a layered artifact, and the
  artifact, loaded with a file of its vectors, gives back the whole hierarchy: every row has in layer 0
  the neighbours of the ACE graph and in every layer it was drawn into the neighbours computed there,
  all translated to ids of the dataset, with its level, vector and label, and the entry point is a row
  of the highest level. This is so whatever the batches, the order of the rows in the graph and the
  memory that the loader starts from.
\<close>

theorem layered_artifact_roundtrip:
  fixes dataset :: "'r list" and env :: "'r hnsw_env"
  assumes env: "env_ok env" and heap: "heap_ok hp" and fits: "index_fits ix"
    and graph: "disk_graph (he_read_npy_header env) (he_u32_dtype env) fs ix mapping graph" and dist: "distinct mapping"
    and levels: "\<forall>i < ix_size ix. 0 \<le> he_random_level env i \<and> he_random_level env i \<le> 255"
    and ds: "length dataset = ix_size ix" and T: "T \<noteq> OtherElement"
    and metric: "ix_metric ix = L2Expanded \<or> ix_metric ix = InnerProduct"
    and new: "fs (layered_artifact_path ix) = None" "fresh_temp fs temp (layered_artifact_path ix)"
    and vec: "vectors_at (he_read_npy_header env) (he_dtype_string env) T fs path (ix_size ix) (ix_dim ix) (ix_dim ix * sz) vectors"
  shows "\<exists>fs' g. serialize_to_layered_hnswlib_from_disk env T ef fs temp True ix (ix_dim ix) dataset =
        (Inr (layered_artifact_path ix), fs') \<and>
      deserialize_layered_hnswlib env hp T sz fs' (layered_artifact_path ix) path = Inr g \<and>
      ld_dim g = ix_dim ix \<and> ld_metric g = ix_metric ix \<and>
      is_hierarchy g (ix_size ix) (\<lambda>i. nat (he_random_level env i)) mapping graph
        (layer_neighbors (he_all_neighbors env) dataset (\<lambda>i. nat (he_random_level env i)) (ix_size ix) ((ix_graph_degree ix + 1) div 2))
        vectors"
proof -
  let ?art = "layered_artifact_path ix"
  obtain plan bs where g: "groups_levels plan (ix_size ix) (\<lambda>i. nat (he_random_level env i))" "max_level plan \<le> 255"
    and ser: "serialize_to_layered_hnswlib_from_disk env T ef fs temp True ix (ix_dim ix) dataset = (Inr ?art, fs(?art \<mapsto> bs))"
    and art: "artifact_holds bs T (layered_metadata_of plan (he_make_alg env ((ix_graph_degree ix + 1) div 2) ef) ix) (ix_metric ix)
        (lp_levels plan) (\<lambda>i. nat (he_random_level env i)) mapping graph
        (layer_neighbors (he_all_neighbors env) dataset (\<lambda>i. nat (he_random_level env i)) (ix_size ix) ((ix_graph_degree ix + 1) div 2))"
    using artifact_serialized[OF env fits graph levels ds T metric new] by blast
  have "path \<noteq> ?art" using vectors_at_exists[OF vec] new(1) by auto
  then have vec': "vectors_at (he_read_npy_header env) (he_dtype_string env) T (fs(?art \<mapsto> bs)) path (ix_size ix) (ix_dim ix) (ix_dim ix * sz) vectors"
    by (intro vectors_at_cong[OF _ vec]) simp
  have "(fs(?art \<mapsto> bs)) ?art = Some bs" by simp
  from artifact_loaded[OF g(1) env heap fits graph dist g(2) T metric vec' this art] ser show ?thesis by blast
qed

text \<open>A small index: two rows of one dimension, one of them on a layer of its own.\<close>

definition demo_env :: "nat hnsw_env" where
  "demo_env = \<lparr>he_make_alg = (\<lambda>M ef. \<lparr>ha_M = M, ha_maxM = M, ha_maxM0 = 2 * M, ha_ef_construction = 0, ha_mult = 0,
       ha_size_links_level0 = 4 + 2 * M * 4, ha_size_links_per_element = 4 + M * 4\<rparr>),
     he_random_level = (\<lambda>i. if i = 0 then 1 else 0), he_all_neighbors = (\<lambda>rows k. map (\<lambda>_. [0..<k]) rows),
     he_uninit = (\<lambda>n. replicate n 0), he_uninit_rows = (\<lambda>n. replicate n 0),
     he_read_npy_header = (\<lambda>bs. if hd bs = 0 then Some (1, [2, 1], ''<u4'', False) else Some (1, [2], ''<u4'', False)),
     he_dtype_string = (\<lambda>_. ''<f4''), he_u32_dtype = ''<u4''\<rparr>"

definition demo_heap :: heap_env where
  "demo_heap = \<lparr>hp_rows = (\<lambda>n. replicate n []), hp_block = (\<lambda>_ level. replicate level []), hp_malloc = (\<lambda>_. True)\<rparr>"

definition demo_ace_index :: ace_index where
  "demo_ace_index = \<lparr>ix_size = 2, ix_dim = 1, ix_graph_degree = 1, ix_metric = InnerProduct,
     ix_graph_fd = Some (True, ''d/g''), ix_mapping_fd = Some (True, ''d/m'')\<rparr>"

definition demo_dir :: directory where
  "demo_dir = [''d/g'' \<mapsto> 0 # [1, 0, 0, 0, 0, 0, 0, 0], ''d/m'' \<mapsto> 1 # [1, 0, 0, 0, 0, 0, 0, 0],
     ''v.fbin'' \<mapsto> [2, 0, 0, 0, 1, 0, 0, 0] @ [5, 6, 7, 8] @ [1, 2, 3, 4]]"

lemma demo_path: "layered_artifact_path demo_ace_index = ''d/hnsw_index.cuvs''"
  by code_simp

lemma demo_ok:
  "env_ok demo_env" "heap_ok demo_heap" "index_fits demo_ace_index"
  "disk_graph (he_read_npy_header demo_env) (he_u32_dtype demo_env) demo_dir demo_ace_index [1, 0] [[1], [0]]"
  "vectors_at (he_read_npy_header demo_env) (he_dtype_string demo_env) Float demo_dir ''v.fbin'' 2 1 (1 * 4) [[5, 6, 7, 8], [1, 2, 3, 4]]"
proof -
  show "env_ok demo_env"
    by (auto simp: env_ok_def demo_env_def hnswlib_ok_def neighbors_ok_def)
  show "heap_ok demo_heap" by (simp add: heap_ok_def demo_heap_def)
  show "index_fits demo_ace_index" by (simp add: index_fits_def demo_ace_index_def)
  have u: "[0..<2] = [0, 1 :: nat]" "[0..<Suc (Suc 0)] = [0, 1 :: nat]" by (simp_all add: upt_conv_Cons)
  have p: "put_uint 4 0 = [0, 0, 0, 0]" "put_uint 4 (Suc 0) = [1, 0, 0, 0]" by code_simp+
  show "disk_graph (he_read_npy_header demo_env) (he_u32_dtype demo_env) demo_dir demo_ace_index [1, 0] [[1], [0]]"
    by (simp add: disk_graph_def demo_ace_index_def npy_at_def open_npy_file_def demo_dir_def demo_env_def array_bytes_def u p
      holds_def slice_def kInvalidNeighbor_def)
  have e: "path_extension ''v.fbin'' = ''.fbin''" "extension_fits Float ''v.fbin''" by code_simp+
  show "vectors_at (he_read_npy_header demo_env) (he_dtype_string demo_env) Float demo_dir ''v.fbin'' 2 1 (1 * 4) [[5, 6, 7, 8], [1, 2, 3, 4]]"
    by (simp add: vectors_at_def open_layered_dataset_file_def e demo_dir_def demo_env_def bind_expects slice_def holds_def u)
qed

theorem layered_artifact_roundtrip_witness:
  "\<exists>fs' g. serialize_to_layered_hnswlib_from_disk demo_env Float 100 demo_dir (Some ''t'') True demo_ace_index 1 [3, 4] =
        (Inr ''d/hnsw_index.cuvs'', fs') \<and>
      deserialize_layered_hnswlib demo_env demo_heap Float 4 fs' ''d/hnsw_index.cuvs'' ''v.fbin'' = Inr g \<and>
      links_of (get_linklist0 g 1) = [0] \<and> links_of (get_linklist0 g 0) = [1] \<and> ld_levels g = [1, 0]"
proof -
  have d: "ix_size demo_ace_index = 2" "ix_dim demo_ace_index = 1" "ix_metric demo_ace_index = InnerProduct" by (simp_all add: demo_ace_index_def)
  have lv: "\<forall>i < ix_size demo_ace_index. 0 \<le> he_random_level demo_env i \<and> he_random_level demo_env i \<le> 255" by (simp add: demo_env_def)
  have new: "demo_dir (layered_artifact_path demo_ace_index) = None" "fresh_temp demo_dir (Some ''t'') (layered_artifact_path demo_ace_index)"
    by (simp_all add: demo_dir_def fresh_temp_def demo_path)
  have small: "distinct [1, 0 :: nat]" "length [3, 4 :: nat] = ix_size demo_ace_index" "Float \<noteq> OtherElement"
    "ix_metric demo_ace_index = L2Expanded \<or> ix_metric demo_ace_index = InnerProduct" by (simp_all add: d)
  obtain fs' g where r: "serialize_to_layered_hnswlib_from_disk demo_env Float 100 demo_dir (Some ''t'') True demo_ace_index 1 [3, 4] =
        (Inr ''d/hnsw_index.cuvs'', fs')"
      "deserialize_layered_hnswlib demo_env demo_heap Float 4 fs' ''d/hnsw_index.cuvs'' ''v.fbin'' = Inr g"
    and h: "is_hierarchy g 2 (\<lambda>i. nat (he_random_level demo_env i)) [1, 0] [[1], [0]]
        (layer_neighbors (he_all_neighbors demo_env) [3, 4] (\<lambda>i. nat (he_random_level demo_env i)) 2 ((ix_graph_degree demo_ace_index + 1) div 2))
        [[5, 6, 7, 8], [1, 2, 3, 4]]"
    using layered_artifact_roundtrip[OF demo_ok(1-4) small(1) lv small(2-4) new, of "''v.fbin''" 4, unfolded d, OF demo_ok(5), of 100]
    unfolding demo_path by blast
  have u: "[0..<2] = [0, 1 :: nat]" by (simp add: upt_conv_Cons)
  have l0: "\<And>i. i < 2 \<Longrightarrow> links_of (get_linklist0 g ([1, 0] ! i)) =
        map (\<lambda>v. [1, 0] ! v) (takeWhile (\<lambda>v. v \<noteq> kInvalidNeighbor) ([[1], [0]] ! i))"
    "ld_levels g = map (\<lambda>i. nat (he_random_level demo_env i)) [0..<2]" using h unfolding is_hierarchy_def by blast+
  then have "links_of (get_linklist0 g 1) = [0]" "links_of (get_linklist0 g 0) = [1]" "ld_levels g = [1, 0]"
    using l0(1)[of 0] l0(1)[of 1] by (simp_all add: kInvalidNeighbor_def demo_env_def u)
  then show ?thesis using r by blast
qed

lemma serialize_ends:
  "(\<exists>e. serialize_to_layered_hnswlib_from_disk env T ef fs temp can_allocate ix cols dataset = (Inl e, fs)) \<or>
   (\<exists>c. serialize_to_layered_hnswlib_from_disk env T ef fs temp can_allocate ix cols dataset =
      with_exclusive_temp fs temp (layered_artifact_path ix) c)"
proof (cases "ix_graph_fd ix")
  case (Some gfd)
  then have "layered_artifact_path ix = path_join (parent_path (snd gfd)) ''hnsw_index.cuvs''"
    by (simp add: layered_artifact_path_def split_def)
  then show ?thesis
    by (cases "ix_mapping_fd ix"; cases "make_random_hnsw_level_plan (he_uninit env (ix_size ix)) (he_uninit env (ix_size ix)) (ix_size ix) (he_random_level env)")
      (auto simp: Some serialize_to_layered_hnswlib_from_disk_def Let_def)
qed (simp add: serialize_to_layered_hnswlib_from_disk_def)

text \<open>
  C12: The artifact appears at once or not at all: whatever fails, the directory is as it was and the
  temporary file is gone; a file that is already there is never replaced; and on success the only
  change of the directory is the new artifact.
\<close>

theorem layered_artifact_atomic:
  assumes "\<And>t. temp = Some t \<Longrightarrow> fs t = None \<and> t \<noteq> layered_artifact_path ix"
  shows "case serialize_to_layered_hnswlib_from_disk env T ef fs temp can_allocate ix cols dataset of
      (Inl e, fs') \<Rightarrow> fs' = fs
    | (Inr p, fs') \<Rightarrow> p = layered_artifact_path ix \<and> fs p = None \<and> (\<exists>bs. fs' = fs(p \<mapsto> bs))"
proof -
  have w: "case with_exclusive_temp fs temp (layered_artifact_path ix) c of
      (Inl e, fs') \<Rightarrow> fs' = fs
    | (Inr p, fs') \<Rightarrow> p = layered_artifact_path ix \<and> fs p = None \<and> (\<exists>bs. fs' = fs(p \<mapsto> bs))" for c
    using assms by (auto simp: with_exclusive_temp_def Let_def fun_upd_idem split: option.splits sum.splits)
  consider e where "serialize_to_layered_hnswlib_from_disk env T ef fs temp can_allocate ix cols dataset = (Inl e, fs)"
    | c where "serialize_to_layered_hnswlib_from_disk env T ef fs temp can_allocate ix cols dataset =
        with_exclusive_temp fs temp (layered_artifact_path ix) c"
    using serialize_ends by blast
  then show ?thesis using w by cases simp_all
qed

theorem layered_artifact_atomic_witness:
  "case serialize_to_layered_hnswlib_from_disk demo_env Float 100 demo_dir (Some ''t'') False demo_ace_index 1 [3, 4] of
      (Inl e, fs') \<Rightarrow> fs' = demo_dir
    | (Inr p, fs') \<Rightarrow> p = ''d/hnsw_index.cuvs'' \<and> demo_dir p = None \<and> (\<exists>bs. fs' = demo_dir(p \<mapsto> bs))"
proof -
  have t: "demo_dir t = None \<and> t \<noteq> layered_artifact_path demo_ace_index" if "Some ''t'' = Some t" for t
    using that unfolding demo_path by (auto simp: demo_dir_def)
  show ?thesis
    using layered_artifact_atomic[of "Some ''t''" demo_dir demo_ace_index demo_env Float 100 False 1 "[3, 4]", OF t] unfolding demo_path .
qed

section \<open>Whatever is loaded is well formed\<close>

text \<open>The rows that the first loop has reached, and the memory behind every row.\<close>

definition rows_ready :: "nat \<Rightarrow> bytes \<Rightarrow> nat \<Rightarrow> loaded \<Rightarrow> bool" where
  "rows_ready n levels k g \<longleftrightarrow> length (ld_levels g) = n \<and> length (ld_data g) = n \<and> length (ld_labels g) = n \<and>
     length (ld_link0 g) = n \<and> length (ld_links g) = n \<and>
     (\<forall>i < k. ld_levels g ! i = unat (levels ! i) \<and> ld_labels g ! i = i \<and> length (ld_links g ! i) = unat (levels ! i)) \<and>
     (\<forall>i < n. k \<le> i \<longrightarrow> ld_links g ! i = [])"

definition set_row :: "heap_env \<Rightarrow> bytes \<Rightarrow> nat \<Rightarrow> bytes \<Rightarrow> loaded \<Rightarrow> loaded" where
  "set_row hp levels i v g =
     g\<lparr>ld_levels := (ld_levels g)[i := unat (levels ! i)], ld_data := (ld_data g)[i := v], ld_labels := (ld_labels g)[i := i],
       ld_links := (if 0 < unat (levels ! i) then (ld_links g)[i := hp_block hp i (unat (levels ! i))] else ld_links g)\<rparr>"

lemma set_row_ready:
  assumes "rows_ready n levels i g" "i < n" "\<And>i level. length (hp_block hp i level) = level"
  shows "rows_ready n levels (Suc i) (set_row hp levels i v g)"
  using assms unfolding rows_ready_def set_row_def by (auto simp: less_Suc_eq nth_list_update)

lemma set_row_keeps: "ld_maxlevel (set_row hp levels i v g) = ld_maxlevel g" "ld_enterpoint (set_row hp levels i v g) = ld_enterpoint g"
  by (simp_all add: set_row_def)

lemma load_data_batch_ready:
  assumes "load_data_batch hp df rb levels (k, c) g = Inr g'" "k + c \<le> n" "rows_ready n levels k g" "heap_ok hp"
  shows "rows_ready n levels (k + c) g' \<and> ld_maxlevel g' = ld_maxlevel g \<and> ld_enterpoint g' = ld_enterpoint g"
proof -
  have F: "(\<lambda>j g. let i = k + j; level = unat (levels ! i) in
           g\<lparr>ld_levels := (ld_levels g)[i := level], ld_data := (ld_data g)[i := slice buffer (j * rb) rb],
             ld_labels := (ld_labels g)[i := i], ld_links := (if 0 < level then (ld_links g)[i := hp_block hp i level] else ld_links g)\<rparr>) =
      (\<lambda>j. set_row hp levels (k + j) (slice buffer (j * rb) rb))" for buffer
    by (simp add: set_row_def Let_def fun_eq_iff)
  obtain buffer where g': "g' = fold (\<lambda>j. set_row hp levels (k + j) (slice buffer (j * rb) rb)) [0..<c] g"
    using assms(1) unfolding load_data_batch_def split bind_r_Inr_iff F by blast
  let ?G = "\<lambda>m. fold (\<lambda>j. set_row hp levels (k + j) (slice buffer (j * rb) rb)) [0..<m] g"
  have bl: "length (hp_block hp i level) = level" for i level using assms(4) by (simp add: heap_ok_def)
  have "rows_ready n levels (k + m) (?G m) \<and> ld_maxlevel (?G m) = ld_maxlevel g \<and> ld_enterpoint (?G m) = ld_enterpoint g"
    if "m \<le> c" for m
    using that
  proof (induction m)
    case (Suc m)
    then have "rows_ready n levels (k + m) (?G m)" "k + m < n" using assms(2) by simp_all
    from set_row_ready[OF this bl] show ?case using Suc by (simp add: set_row_keeps)
  qed (use assms(3) in simp)
  then show ?thesis unfolding g' by blast
qed

text \<open>The later loops only change link rows, and keep their number.\<close>

definition rows_kept :: "loaded \<Rightarrow> loaded \<Rightarrow> bool" where
  "rows_kept g g' \<longleftrightarrow> ld_levels g' = ld_levels g \<and> ld_data g' = ld_data g \<and> ld_labels g' = ld_labels g \<and>
     length (ld_link0 g') = length (ld_link0 g) \<and> map length (ld_links g') = map length (ld_links g) \<and>
     ld_maxlevel g' = ld_maxlevel g \<and> ld_enterpoint g' = ld_enterpoint g"

lemma rows_kept_trans: "rows_kept g0 g \<Longrightarrow> rows_kept g g' \<Longrightarrow> rows_kept g0 g'"
  by (simp add: rows_kept_def)

lemma fold_keeps: "(\<And>x s. x \<in> set xs \<Longrightarrow> P (h x s) = P s) \<Longrightarrow> P (fold h xs s) = P s"
  by (induction xs arbitrary: s) simp_all

lemma map_length_update: "map length (ls[i := (ls ! i)[m := x]]) = map length ls"
proof (cases "i < length ls")
  case True
  then show ?thesis by (intro nth_equalityI) (auto simp: nth_list_update)
next
  case False
  then show ?thesis by (simp add: list_update_beyond)
qed

lemma load_base_batch_kept: "load_base_batch artifact md lo b g = Inr g' \<Longrightarrow> rows_kept g g'"
  unfolding load_base_batch_def Let_def
  by (auto simp: bind_r_Inr_iff rows_kept_def split: prod.splits intro!: fold_keeps)

lemma load_upper_batch_kept: "load_upper_batch artifact md lo levels layer b g = Inr g' \<Longrightarrow> rows_kept g g'"
  unfolding load_upper_batch_def Let_def
  by (auto simp: bind_r_Inr_iff rows_kept_def map_length_update simp del: map_update split: prod.splits intro!: fold_keeps)

lemma load_upper_layer_kept: "load_upper_layer artifact md lo levels layer g = Inr g' \<Longrightarrow> rows_kept g g'"
  unfolding load_upper_layer_def Let_def
  by (erule fold_r_keeps[rotated]) (auto simp: rows_kept_def dest!: load_upper_batch_kept)

lemma metadata_checked:
  "read_layered_metadata artifact = Inr (md, metric) \<Longrightarrow>
     0 < md_n_rows md \<and> 0 \<le> md_enterpoint_node md \<and> nat (md_enterpoint_node md) < md_n_rows md"
  by (auto simp: read_layered_metadata_def Let_def bind_r_Inr_iff)

text \<open>
  Where the rows of a layer of level 0 go: every one of them is copied outside, and nothing is refused
  for it. The other layers copy nothing outside.
\<close>

lemma load_upper_batch_outside:
  assumes "load_upper_batch artifact md lo levels layer (k, c) g = Inr g'"
  shows "length (ld_outside g') = length (ld_outside g) + (if li_level layer = 0 then c else 0)"
proof -
  obtain nodes buffer where valid: "\<forall>j < c. nodes ! j < md_n_rows md"
    and g': "g' = (if li_level layer = 0
       then g\<lparr>ld_outside := ld_outside g @ map (\<lambda>k. (nodes ! k, buffer k)) (filter (\<lambda>k. nodes ! k < md_n_rows md) [0..<c])\<rparr>
       else g\<lparr>ld_links := ld_links g'\<rparr>)"
    using assms unfolding load_upper_batch_def Let_def split bind_r_Inr_iff expects_Inr_iff by (fastforce split: if_splits)
  have "filter (\<lambda>k. nodes ! k < md_n_rows md) [0..<c] = [0..<c]" using valid by (simp add: filter_id_conv)
  then show ?thesis by (subst g') simp
qed

lemma load_upper_layer_outside:
  assumes "load_upper_layer artifact md lo levels layer g = Inr g'"
  shows "length (ld_outside g') = length (ld_outside g) + (if li_level layer = 0 then li_row_count layer else 0)"
proof (cases "li_row_count layer = 0")
  case True
  then show ?thesis using assms by (simp add: load_upper_layer_def batches_def batches_from.simps Let_def)
next
  case False
  let ?b = "min (max 1 (target_batch_bytes div (4 + md_upper_link_row_bytes md))) (li_row_count layer)"
  have "fold_r (load_upper_batch artifact md lo levels layer) (batches ?b (li_row_count layer)) g = Inr g'"
    using assms by (simp add: load_upper_layer_def Let_def)
  from fold_batches_keeps[OF _ _ this, where Inv = "\<lambda>k s. length (ld_outside s) = length (ld_outside g) +
      (if li_level layer = 0 then k else 0)"] False
  show ?thesis by (simp add: load_upper_batch_outside)
qed

lemma load_upper_layers_outside:
  "fold_r (load_upper_layer artifact md lo levels) layers g = Inr g' \<Longrightarrow>
     length (ld_outside g') = length (ld_outside g) + (\<Sum>l \<leftarrow> layers. if li_level l = 0 then li_row_count l else 0)"
  by (induction layers arbitrary: g) (auto simp: bind_r_Inr_iff dest!: load_upper_layer_outside)

lemma load_base_batch_keeps_outside: "load_base_batch artifact md lo b g = Inr g' \<Longrightarrow> ld_outside g' = ld_outside g"
  unfolding load_base_batch_def Let_def by (auto simp: bind_r_Inr_iff split: prod.splits)

lemma load_data_batch_keeps_outside: "load_data_batch hp df rb levels b g = Inr g' \<Longrightarrow> ld_outside g' = ld_outside g"
  unfolding load_data_batch_def Let_def by (auto simp: bind_r_Inr_iff split: prod.splits intro!: fold_keeps)

text \<open>
  At least one row, one entry per row in all arrays, as many rows of upper links per row as its level,
  the row's own id as label, the maximum of the levels as the level of the index, and an entry point
  among the rows.
\<close>

definition well_formed_index :: "loaded \<Rightarrow> bool" where
  "well_formed_index g \<longleftrightarrow> 0 < length (ld_levels g) \<and> length (ld_data g) = length (ld_levels g) \<and>
    length (ld_link0 g) = length (ld_levels g) \<and> map length (ld_links g) = ld_levels g \<and>
    ld_labels g = [0..<length (ld_levels g)] \<and> ld_maxlevel g = int (Max (set (ld_levels g))) \<and>
    0 \<le> ld_enterpoint g \<and> nat (ld_enterpoint g) < length (ld_levels g)"

text \<open>The steps of a load that returns an index.\<close>

lemma load_steps:
  assumes "deserialize_layered_hnswlib env hp T sz fs artifact_path dataset_path = Inr g" "heap_ok hp"
  obtains artifact md metric df levels g1 g2 where "fs artifact_path = Some artifact" "read_layered_metadata artifact = Inr (md, metric)"
    "length levels = md_n_rows md" "int (Max (unat ` set levels)) = md_maxlevel md"
    "fold_r (load_data_batch hp df (md_dim md * sz) levels)
       (batches (max 1 (target_batch_bytes div (md_dim md * sz))) (md_n_rows md))
       \<lparr>ld_dim = md_dim md, ld_metric = metric, ld_maxlevel = md_maxlevel md, ld_enterpoint = md_enterpoint_node md,
        ld_levels = replicate (md_n_rows md) 0, ld_data = hp_rows hp (md_n_rows md), ld_labels = replicate (md_n_rows md) 0,
        ld_link0 = hp_rows hp (md_n_rows md), ld_links = replicate (md_n_rows md) [], ld_outside = []\<rparr> = Inr g1"
    "fold_r (load_base_batch artifact md (artifact_layout (length (md_layers md)) md))
       (batches (max 1 (target_batch_bytes div (4 + md_base_link_row_bytes md))) (md_n_rows md)) g1 = Inr g2"
    "fold_r (load_upper_layer artifact md (artifact_layout (length (md_layers md)) md) levels) (md_layers md) g2 = Inr g"
proof -
  obtain artifact where art: "fs artifact_path = Some artifact"
    using assms(1) by (auto simp: deserialize_layered_hnswlib_def split: option.splits)
  obtain md metric df levels g1 g2 u where rd: "read_layered_metadata artifact = Inr (md, metric)" and cs: "check_sections md = Inr u"
    and rl: "read_r artifact (lo_levels (artifact_layout (length (md_layers md)) md)) (md_levels_bytes md) = Inr levels"
    and mx: "int (Max (unat ` set levels)) = md_maxlevel md"
    and l1: "fold_r (load_data_batch hp df (md_dim md * sz) levels)
       (batches (max 1 (target_batch_bytes div (md_dim md * sz))) (md_n_rows md))
       \<lparr>ld_dim = md_dim md, ld_metric = metric, ld_maxlevel = md_maxlevel md, ld_enterpoint = md_enterpoint_node md,
        ld_levels = replicate (md_n_rows md) 0, ld_data = hp_rows hp (md_n_rows md), ld_labels = replicate (md_n_rows md) 0,
        ld_link0 = hp_rows hp (md_n_rows md), ld_links = replicate (md_n_rows md) [], ld_outside = []\<rparr> = Inr g1"
    and l2: "fold_r (load_base_batch artifact md (artifact_layout (length (md_layers md)) md))
       (batches (max 1 (target_batch_bytes div (4 + md_base_link_row_bytes md))) (md_n_rows md)) g1 = Inr g2"
    and l3: "fold_r (load_upper_layer artifact md (artifact_layout (length (md_layers md)) md) levels) (md_layers md) g2 = Inr g"
    using assms(1) unfolding deserialize_layered_hnswlib_def art option.case Let_def bind_r_Inr_iff split_paired_Ex split expects_Inr_iff
    by blast
  have len: "length levels = md_n_rows md"
  proof -
    have "length levels = md_levels_bytes md" using rl by (auto simp: read_r_def read_at_def slice_def split: option.splits if_splits)
    then show ?thesis using cs by (auto simp: check_sections_def bind_r_Inr_iff)
  qed
  from that[OF art rd len mx l1 l2 l3] show thesis .
qed

text \<open>
  C13: Whatever file is given to the loader, if it returns an index then the file has a valid header,
  the link rows copied outside the index are exactly those that its descriptors list in layers of level
  0, which the loader does not refuse, and if they list none then the index is well formed: it has at
  least one row, all arrays have one entry per row, every row has as many rows of upper links as its
  level, its own id as label, the maximum of the levels as the level of the index, and an entry point
  among the rows.
\<close>

theorem loaded_index_well_formed:
  assumes "deserialize_layered_hnswlib env hp T sz fs artifact_path dataset_path = Inr g" "heap_ok hp"
  shows "\<exists>artifact md metric. fs artifact_path = Some artifact \<and> read_layered_metadata artifact = Inr (md, metric) \<and>
    length (ld_outside g) = (\<Sum>l \<leftarrow> md_layers md. if li_level l = 0 then li_row_count l else 0) \<and>
    ((\<forall>l \<in> set (md_layers md). li_level l = 0 \<longrightarrow> li_row_count l = 0) \<longrightarrow> ld_outside g = [] \<and> well_formed_index g)"
proof -
  obtain artifact md metric df levels g1 g2 where art: "fs artifact_path = Some artifact" and rd: "read_layered_metadata artifact = Inr (md, metric)"
    and len: "length levels = md_n_rows md" and mx: "int (Max (unat ` set levels)) = md_maxlevel md"
    and l1: "fold_r (load_data_batch hp df (md_dim md * sz) levels)
       (batches (max 1 (target_batch_bytes div (md_dim md * sz))) (md_n_rows md))
       \<lparr>ld_dim = md_dim md, ld_metric = metric, ld_maxlevel = md_maxlevel md, ld_enterpoint = md_enterpoint_node md,
        ld_levels = replicate (md_n_rows md) 0, ld_data = hp_rows hp (md_n_rows md), ld_labels = replicate (md_n_rows md) 0,
        ld_link0 = hp_rows hp (md_n_rows md), ld_links = replicate (md_n_rows md) [], ld_outside = []\<rparr> = Inr g1"
    and l2: "fold_r (load_base_batch artifact md (artifact_layout (length (md_layers md)) md))
       (batches (max 1 (target_batch_bytes div (4 + md_base_link_row_bytes md))) (md_n_rows md)) g1 = Inr g2"
    and l3: "fold_r (load_upper_layer artifact md (artifact_layout (length (md_layers md)) md) levels) (md_layers md) g2 = Inr g"
    by (rule load_steps[OF assms])
  let ?n = "md_n_rows md"
  have "rows_ready ?n levels ?n g1 \<and> ld_maxlevel g1 = md_maxlevel md \<and> ld_enterpoint g1 = md_enterpoint_node md"
    by (rule fold_batches_keeps[OF _ _ l1, where Inv = "\<lambda>k g. rows_ready ?n levels k g \<and> ld_maxlevel g = md_maxlevel md \<and>
          ld_enterpoint g = md_enterpoint_node md"])
      (use load_data_batch_ready[OF _ _ _ assms(2)] assms(2) in \<open>auto simp: rows_ready_def heap_ok_def\<close>)
  then have ready: "rows_ready ?n levels ?n g1" "ld_maxlevel g1 = md_maxlevel md" "ld_enterpoint g1 = md_enterpoint_node md" by blast+
  have "rows_kept g1 g2"
    by (rule fold_r_keeps[OF _ l2]) (auto dest: load_base_batch_kept intro: rows_kept_trans simp: rows_kept_def)
  moreover have "rows_kept g2 g"
    by (rule fold_r_keeps[OF _ l3]) (auto dest: load_upper_layer_kept intro: rows_kept_trans simp: rows_kept_def)
  ultimately have k: "rows_kept g1 g" by (rule rows_kept_trans)
  have lv: "ld_levels g = map unat levels" using ready(1) k len by (auto simp: rows_ready_def rows_kept_def intro: nth_equalityI)
  have "map length (ld_links g1) = map unat levels" using ready(1) len by (auto simp: rows_ready_def intro: nth_equalityI)
  then have "map length (ld_links g) = ld_levels g" using k lv by (simp add: rows_kept_def)
  moreover have "ld_labels g = [0..<?n]" using ready(1) k by (auto simp: rows_ready_def rows_kept_def intro: nth_equalityI)
  moreover have "int (Max (set (ld_levels g))) = md_maxlevel md" unfolding lv set_map by (rule mx)
  moreover have "length (ld_levels g) = ?n" unfolding lv by (simp add: len)
  ultimately have wf: "well_formed_index g"
    using metadata_checked[OF rd] ready k by (simp add: rows_ready_def rows_kept_def well_formed_index_def)
  have "ld_outside g1 = []" by (rule fold_r_keeps[OF _ l1]) (simp_all add: load_data_batch_keeps_outside)
  then have "ld_outside g2 = []" using fold_r_keeps[OF _ l2, where P = "\<lambda>g. ld_outside g = []"] load_base_batch_keeps_outside by force
  then have out: "length (ld_outside g) = (\<Sum>l \<leftarrow> md_layers md. if li_level l = 0 then li_row_count l else 0)"
    using load_upper_layers_outside[OF l3] by simp
  show ?thesis
  proof (intro exI conjI impI)
    assume "\<forall>l \<in> set (md_layers md). li_level l = 0 \<longrightarrow> li_row_count l = 0"
    then show "ld_outside g = []" using out by (auto simp: sum_list_eq_0_iff simp flip: length_0_conv)
  qed (rule art rd out wf)+
qed

lemma demo_loaded:
  "\<exists>fs g artifact md metric. deserialize_layered_hnswlib demo_env demo_heap Float 4 fs ''d/hnsw_index.cuvs'' ''v.fbin'' = Inr g \<and>
     fs ''d/hnsw_index.cuvs'' = Some artifact \<and> read_layered_metadata artifact = Inr (md, metric) \<and>
     (\<forall>l \<in> set (md_layers md). li_level l \<noteq> 0)"
proof -
  let ?art = "layered_artifact_path demo_ace_index" and ?lv = "\<lambda>i. nat (he_random_level demo_env i)"
  have d: "ix_size demo_ace_index = 2" "ix_dim demo_ace_index = 1" "ix_metric demo_ace_index = InnerProduct" by (simp_all add: demo_ace_index_def)
  have lv: "\<forall>i < ix_size demo_ace_index. 0 \<le> he_random_level demo_env i \<and> he_random_level demo_env i \<le> 255" by (simp add: demo_env_def)
  have new: "demo_dir ?art = None" "fresh_temp demo_dir (Some ''t'') ?art" by (simp_all add: demo_dir_def fresh_temp_def demo_path)
  have small: "distinct [1, 0 :: nat]" "length [3, 4 :: nat] = ix_size demo_ace_index" "Float \<noteq> OtherElement"
    "ix_metric demo_ace_index = L2Expanded \<or> ix_metric demo_ace_index = InnerProduct" by (simp_all add: d)
  obtain plan bs where s: "groups_levels plan (ix_size demo_ace_index) ?lv" "max_level plan \<le> 255"
      "artifact_holds bs Float (layered_metadata_of plan (he_make_alg demo_env ((ix_graph_degree demo_ace_index + 1) div 2) 100) demo_ace_index)
        (ix_metric demo_ace_index) (lp_levels plan) ?lv [1, 0] [[1], [0]]
        (layer_neighbors (he_all_neighbors demo_env) [3, 4] ?lv (ix_size demo_ace_index) ((ix_graph_degree demo_ace_index + 1) div 2))"
    using artifact_serialized[OF demo_ok(1,3,4) lv small(2-4) new] by blast
  have "vectors_at (he_read_npy_header demo_env) (he_dtype_string demo_env) Float (demo_dir(?art \<mapsto> bs)) ''v.fbin''
      (ix_size demo_ace_index) (ix_dim demo_ace_index) (ix_dim demo_ace_index * 4) [[5, 6, 7, 8], [1, 2, 3, 4]]"
    using vectors_at_cong[OF _ demo_ok(5), of "demo_dir(?art \<mapsto> bs)"] by (simp add: d demo_path)
  from artifact_loaded[OF s(1) demo_ok(1-4) small(1) s(2) small(3,4) this _ s(3), of ?art]
  show ?thesis unfolding d demo_path by (fastforce simp: demo_path)
qed

theorem loaded_index_well_formed_witness:
  "\<exists>fs g artifact md metric. deserialize_layered_hnswlib demo_env demo_heap Float 4 fs ''d/hnsw_index.cuvs'' ''v.fbin'' = Inr g \<and>
     fs ''d/hnsw_index.cuvs'' = Some artifact \<and> read_layered_metadata artifact = Inr (md, metric) \<and>
     (\<forall>l \<in> set (md_layers md). li_level l \<noteq> 0) \<and> ld_outside g = [] \<and> well_formed_index g"
proof -
  obtain fs g artifact md metric where g: "deserialize_layered_hnswlib demo_env demo_heap Float 4 fs ''d/hnsw_index.cuvs'' ''v.fbin'' = Inr g"
      "fs ''d/hnsw_index.cuvs'' = Some artifact" "read_layered_metadata artifact = Inr (md, metric)" "\<forall>l \<in> set (md_layers md). li_level l \<noteq> 0"
    using demo_loaded by blast
  from loaded_index_well_formed[OF g(1) demo_ok(2)] g(2-4) have "ld_outside g = [] \<and> well_formed_index g" by auto
  then show ?thesis using g by blast
qed

end
