(* ===== verification/AcePartition.thy ===== *)
theory AcePartition imports Buckets HnswArtifact begin

text \<open>
  The partitioned CAGRA build ACE (\<^verbatim>\<open>cpp/src/neighbors/detail/cagra/cagra_ace.cuh\<close>), its data in memory:
  the two partitions of a vector, and the lists that map the partitions to the rows of the dataset and
  back. \<^verbatim>\<open>IdxT\<close> is
  \<^verbatim>\<open>uint32_t\<close>: a store into an array of it is \<open>to_idx\<close>. A row of the dataset is the bytes of its elements.
\<close>

definition to_idx :: "nat \<Rightarrow> nat" where \<comment> \<open>\<^verbatim>\<open>static_cast<IdxT>\<close>\<close>
  "to_idx n = n mod 2 ^ 32"

lemma to_idx_small [simp]: "n < 2 ^ 32 \<Longrightarrow> to_idx n = n"
  by (simp add: to_idx_def)

datatype ace_error =
    LabelExtents | NoDimension | RowTooShort | KmeansFailed | DistanceFailed | MappingSize | VectorIdTooLarge
  | ForeignGraphRows | ForeignGraphDegree | AdjustedShape | AugmentedTooLarge | TotalMismatch
  | EmptyWrite | NoFile | IncompleteWrite | NullDestination | BadDescriptor | PartitionOutOfRange
  | WrongRows | WrongColumns | ReadFailed | ShortPartitionRead | NotAceParams | EmptyDataset | NoDegree
  | TooManyPartitions | TooFewRows | NoHostMemory | WorkspaceArguments | NoBuildDir | HostOverhead | GpuOverhead
  | MkdirFailed | InspectFailed | NotADirectory | NumpyFailed | RemoveFailed | SubIndexFailed | IndexFailed
  | OutOfDeviceMemory | Terminated | StillRunning

text \<open>
  An exception that leaves an OpenMP region ends the process: \<open>Terminated\<close> is not an exception that could be
  caught. \<open>StillRunning\<close> is not a result of the code either: it stands for a run that has not ended.
\<close>

fun omp_region :: "(ace_error + 'a) \<times> 's \<Rightarrow> (ace_error + 'a) \<times> 's" where
  "omp_region (Inl e, s) = (Inl Terminated, s)"
| "omp_region (Inr a, s) = (Inr a, s)"

lemma omp_region_Inr_iff: "omp_region m = (Inr a, s) \<longleftrightarrow> m = (Inr a, s)"
  by (cases m rule: omp_region.cases) auto

definition thrown :: "ace_error \<Rightarrow> bool" where
  "thrown e \<longleftrightarrow> e \<noteq> Terminated \<and> e \<noteq> StillRunning"

section \<open>The two closest partitions\<close>

text \<open>
  A matrix in host memory: its rows as bytes, \<open>hm_extent\<close> elements each. What the labelling calls is a
  record: the conversion of an element to \<^verbatim>\<open>float\<close>, balanced k-means (the samples and the number of
  centroids give the centroids), the distances of rows to centroids, the comparison \<^verbatim>\<open><\<close> of two
  distances, and the product of the size with the sampling rate, cut to an integer.
\<close>

record host_matrix =
  hm_rows :: "bytes list"
  hm_extent :: nat

record 'f label_lib =
  ll_float :: "bytes \<Rightarrow> 'f"
  ll_fit :: "'f list list \<Rightarrow> nat \<Rightarrow> ace_error + 'f list list"
  ll_distances :: "'f list list \<Rightarrow> 'f list list \<Rightarrow> ace_error + 'f list list"
  ll_less :: "'f \<Rightarrow> 'f \<Rightarrow> bool"
  ll_sampled :: "nat \<Rightarrow> nat"

text \<open>The labels of the rows (core and augmented partition) and the two columns of the histogram.\<close>

record ace_labels =
  al_labels :: "(nat \<times> nat) list"
  al_core :: "nat list"
  al_augmented :: "nat list"

definition row_floats :: "'f label_lib \<Rightarrow> nat \<Rightarrow> nat \<Rightarrow> bytes \<Rightarrow> 'f list" where
  "row_floats lib sz dim row = map (\<lambda>k. ll_float lib (slice row (k * sz) sz)) [0..<dim]"

definition sample_count :: "'f label_lib \<Rightarrow> nat \<Rightarrow> nat \<Rightarrow> nat" where
  "sample_count lib dataset_size n_partitions =
     (let min_samples = 100 * n_partitions in min (max (ll_sampled lib dataset_size) min_samples) dataset_size)"

definition sample_db :: "'f label_lib \<Rightarrow> nat \<Rightarrow> nat \<Rightarrow> host_matrix \<Rightarrow> nat \<Rightarrow> 'f list list" where
  "sample_db lib sz dim dataset n_samples =
     map (\<lambda>i. let j = wrap64 (i * length (hm_rows dataset)) div n_samples in row_floats lib sz dim (hm_rows dataset ! j))
       [0..<n_samples]"

definition closer_step :: "('f \<Rightarrow> 'f \<Rightarrow> bool) \<Rightarrow> 'f list \<Rightarrow> nat \<Rightarrow> nat \<times> nat \<Rightarrow> nat \<times> nat" where
  "closer_step lt dist c labels =
     (let (core_label, augmented_label) = labels in
      if lt (dist ! c) (dist ! core_label) then (c, core_label)
      else if lt (dist ! c) (dist ! augmented_label) then (core_label, c)
      else (core_label, augmented_label))"

definition two_closest :: "('f \<Rightarrow> 'f \<Rightarrow> bool) \<Rightarrow> 'f list \<Rightarrow> nat \<Rightarrow> nat \<times> nat" where
  "two_closest lt dist n_partitions =
     fold (closer_step lt dist) [2..<n_partitions] (if lt (dist ! 1) (dist ! 0) then (1, 0) else (0, 1))"

text \<open>One row: its labels, and the atomic increments of the histogram, which commute.\<close>

definition label_row :: "('f \<Rightarrow> 'f \<Rightarrow> bool) \<Rightarrow> nat \<Rightarrow> 'f list \<Rightarrow> nat \<Rightarrow> ace_labels \<Rightarrow> ace_labels" where
  "label_row lt n_partitions dist i st =
     (let (core_label, augmented_label) = two_closest lt dist n_partitions in
      st\<lparr>al_labels := (al_labels st)[i := (to_idx core_label, to_idx augmented_label)],
         al_core := (al_core st)[core_label := to_idx (al_core st ! core_label + 1)],
         al_augmented := (al_augmented st)[augmented_label := to_idx (al_augmented st ! augmented_label + 1)]\<rparr>)"

definition label_chunk :: "'f label_lib \<Rightarrow> nat \<Rightarrow> nat \<Rightarrow> host_matrix \<Rightarrow> 'f list list \<Rightarrow> nat \<Rightarrow> nat \<times> nat \<Rightarrow> ace_labels \<Rightarrow>
    ace_error + ace_labels" where
  "label_chunk lib sz dim dataset centroids n_partitions chunk st =
     (let (i_base, sub_dataset_size) = chunk;
          sub_dataset = map (\<lambda>i_sub. row_floats lib sz dim (hm_rows dataset ! (i_base + i_sub))) [0..<sub_dataset_size]
      in bind_r (ll_distances lib sub_dataset centroids) (\<lambda>sub_distances.
           Inr (fold (\<lambda>i_sub. label_row (ll_less lib) n_partitions (sub_distances ! i_sub) (i_base + i_sub)) [0..<sub_dataset_size] st)))"

definition ace_get_partition_labels :: "'f label_lib \<Rightarrow> nat \<Rightarrow> host_matrix \<Rightarrow> nat \<Rightarrow> nat \<Rightarrow> ace_labels \<Rightarrow> ace_error + ace_labels" where
  "ace_get_partition_labels lib sz dataset dim n_partitions st =
     (let dataset_size = length (hm_rows dataset) in
      bind_r (expects (dataset_size = length (al_labels st)) LabelExtents) (\<lambda>_.
      bind_r (expects (0 < dim) NoDimension) (\<lambda>_.
      bind_r (expects (dim \<le> hm_extent dataset) RowTooShort) (\<lambda>_.
      let n_samples = sample_count lib dataset_size n_partitions in
      bind_r (ll_fit lib (sample_db lib sz dim dataset n_samples) n_partitions) (\<lambda>centroids.
        let chunk_size = 32 * 1024 in
        fold_r (label_chunk lib sz dim dataset centroids n_partitions) (batches chunk_size dataset_size) st)))))"

text \<open>On a row of distances with a strict weak order (no NaN), the labels are the two closest partitions, the first of equals.\<close>

definition weakly_ordered :: "('f \<Rightarrow> 'f \<Rightarrow> bool) \<Rightarrow> 'f list \<Rightarrow> bool" where
  "weakly_ordered lt dist \<longleftrightarrow> (\<forall>x \<in> set dist. \<forall>y \<in> set dist. lt x y \<longrightarrow> \<not> lt y x) \<and>
     (\<forall>x \<in> set dist. \<forall>y \<in> set dist. \<forall>z \<in> set dist. lt x z \<longrightarrow> lt x y \<or> lt y z)"

definition closest_two :: "('f \<Rightarrow> 'f \<Rightarrow> bool) \<Rightarrow> 'f list \<Rightarrow> nat \<Rightarrow> nat \<Rightarrow> nat \<Rightarrow> bool" where
  "closest_two lt dist n core aug \<longleftrightarrow>
     (\<forall>c < n. \<not> lt (dist ! c) (dist ! core)) \<and> (\<forall>c < core. lt (dist ! core) (dist ! c)) \<and>
     (\<forall>c < n. c \<noteq> core \<longrightarrow> \<not> lt (dist ! c) (dist ! aug)) \<and> (\<forall>c < aug. c \<noteq> core \<longrightarrow> lt (dist ! aug) (dist ! c))"

lemma two_closest_range:
  assumes "2 \<le> n"
  shows "fst (two_closest lt dist n) < n \<and> snd (two_closest lt dist n) < n \<and> fst (two_closest lt dist n) \<noteq> snd (two_closest lt dist n)"
  using assms
proof (induction n rule: nat_induct_at_least)
  case base
  show ?case by (simp add: two_closest_def)
next
  case (Suc n)
  have "two_closest lt dist (Suc n) = closer_step lt dist n (two_closest lt dist n)"
    using Suc.hyps by (simp add: two_closest_def)
  then show ?case using Suc.IH by (cases "two_closest lt dist n") (auto simp: closer_step_def)
qed

lemma weak_trans:
  assumes "weakly_ordered lt dist" "a < length dist" "b < length dist" "c < length dist"
    and "lt (dist ! a) (dist ! b)" "\<not> lt (dist ! c) (dist ! b)"
  shows "lt (dist ! a) (dist ! c)"
  using assms unfolding weakly_ordered_def by (meson nth_mem)

lemma weak_not_trans:
  assumes "weakly_ordered lt dist" "a < length dist" "b < length dist" "c < length dist"
    and "lt (dist ! a) (dist ! b)" "\<not> lt (dist ! c) (dist ! b)"
  shows "\<not> lt (dist ! c) (dist ! a)"
  using assms unfolding weakly_ordered_def by (meson nth_mem)

lemma two_closest_closest:
  assumes w: "weakly_ordered lt dist" and n: "2 \<le> n" "n \<le> length dist"
  shows "closest_two lt dist n (fst (two_closest lt dist n)) (snd (two_closest lt dist n))"
  using n
proof (induction n rule: nat_induct_at_least)
  case base
  have irr: "\<not> lt (dist ! c) (dist ! c)" if "c < 2" for c
    using w base that nth_mem[of c dist] unfolding weakly_ordered_def by (metis order_less_le_trans)
  have asym: "lt (dist ! 1) (dist ! 0) \<Longrightarrow> \<not> lt (dist ! 0) (dist ! 1)"
    using w base nth_mem[of 0 dist] nth_mem[of 1 dist] unfolding weakly_ordered_def by fastforce
  show ?case
    using irr asym unfolding closest_two_def two_closest_def by (auto simp: less_2_cases_iff less_Suc_eq)
next
  case (Suc n)
  obtain a b where ab: "two_closest lt dist n = (a, b)" by force
  have r: "a < n" "b < n" "a \<noteq> b" using two_closest_range[OF Suc.hyps, of lt dist] ab by auto
  have IH: "closest_two lt dist n a b" using Suc.IH Suc.prems ab by simp
  have len: "n < length dist" "a < length dist" "b < length dist" using Suc.prems r by auto
  have irr: "\<not> lt (dist ! c) (dist ! c)" if "c < length dist" for c
    using w nth_mem[OF that] unfolding weakly_ordered_def by blast
  have lt: "lt (dist ! n) (dist ! c)" if "lt (dist ! n) (dist ! x)" "c < n" "x < n" "\<not> lt (dist ! c) (dist ! x)" for c x
    using weak_trans[OF w len(1) _ _ that(1,4)] that len by simp
  have nl: "\<not> lt (dist ! c) (dist ! n)" if "lt (dist ! n) (dist ! x)" "c < n" "x < n" "\<not> lt (dist ! c) (dist ! x)" for c x
    using weak_not_trans[OF w len(1) _ _ that(1,4)] that len by simp
  have step: "two_closest lt dist (Suc n) = closer_step lt dist n (a, b)"
    using Suc.hyps ab by (simp add: two_closest_def)
  consider (core) "lt (dist ! n) (dist ! a)" | (aug) "\<not> lt (dist ! n) (dist ! a)" "lt (dist ! n) (dist ! b)" |
    (none) "\<not> lt (dist ! n) (dist ! a)" "\<not> lt (dist ! n) (dist ! b)" by blast
  then show ?case
  proof cases
    case core
    then show ?thesis unfolding step using IH r lt[OF core] nl[OF core] irr[OF len(1)]
      by (auto simp: closer_step_def closest_two_def less_Suc_eq)
  next
    case aug
    then show ?thesis unfolding step using IH r lt[OF aug(2)] nl[OF aug(2)] irr[OF len(1)]
      by (auto simp: closer_step_def closest_two_def less_Suc_eq)
  next
    case none
    then show ?thesis unfolding step using IH r by (auto simp: closer_step_def closest_two_def less_Suc_eq)
  qed
qed

section \<open>All rows are labelled\<close>

text \<open>Balanced k-means gives as many centroids as asked for; distances are computed row by row.\<close>

definition label_lib_ok :: "'f label_lib \<Rightarrow> ('f list \<Rightarrow> 'f list \<Rightarrow> 'f) \<Rightarrow> bool" where
  "label_lib_ok lib d \<longleftrightarrow> (\<forall>X k C. ll_fit lib X k = Inr C \<longrightarrow> length C = k) \<and>
     (\<forall>rows C. ll_distances lib rows C = Inr (map (\<lambda>r. map (d r) C) rows))"

text \<open>The labels of a dataset: in range, two different ones per row, and counted in the histogram.\<close>

definition core_of :: "(nat \<times> nat) list \<Rightarrow> nat \<Rightarrow> nat" where
  "core_of labels i = fst (labels ! i)"

definition augmented_of :: "(nat \<times> nat) list \<Rightarrow> nat \<Rightarrow> nat" where
  "augmented_of labels i = snd (labels ! i)"

definition labels_ok :: "nat \<Rightarrow> nat \<Rightarrow> ace_labels \<Rightarrow> bool" where
  "labels_ok n P st \<longleftrightarrow> length (al_labels st) = n \<and>
     (\<forall>i < n. core_of (al_labels st) i < P \<and> augmented_of (al_labels st) i < P \<and> core_of (al_labels st) i \<noteq> augmented_of (al_labels st) i) \<and>
     al_core st = map (\<lambda>p. length (bucket (core_of (al_labels st)) p n)) [0..<P] \<and>
     al_augmented st = map (\<lambda>p. length (bucket (augmented_of (al_labels st)) p n)) [0..<P]"

definition no_labels :: "nat \<Rightarrow> nat \<Rightarrow> ace_labels \<Rightarrow> bool" where
  "no_labels n P st \<longleftrightarrow> length (al_labels st) = n \<and> al_core st = replicate P 0 \<and> al_augmented st = replicate P 0"

lemma length_bucket_le: "length (bucket lv k i) \<le> i"
  unfolding bucket_def by (metis diff_zero length_filter_le length_upt)

definition labelled :: "nat \<Rightarrow> nat \<Rightarrow> (nat \<Rightarrow> nat \<times> nat) \<Rightarrow> nat \<Rightarrow> ace_labels \<Rightarrow> bool" where
  "labelled n P lab k st \<longleftrightarrow> length (al_labels st) = n \<and> (\<forall>i < k. al_labels st ! i = lab i) \<and>
     al_core st = map (\<lambda>p. length (bucket (\<lambda>i. fst (lab i)) p k)) [0..<P] \<and>
     al_augmented st = map (\<lambda>p. length (bucket (\<lambda>i. snd (lab i)) p k)) [0..<P]"

lemma label_row_step:
  assumes st: "labelled n P lab k st" and k: "k < n" "n < 2 ^ 32" and P: "2 \<le> P" "P \<le> n"
    and lab: "lab k = two_closest lt dist P"
  shows "labelled n P lab (Suc k) (label_row lt P dist k st)"
proof -
  obtain a b where ab: "two_closest lt dist P = (a, b)" by force
  have r: "a < P" "b < P" using two_closest_range[OF P(1), of lt dist] ab by auto
  have small: "a < 2 ^ 32" "b < 2 ^ 32" using r P(2) k(2) by linarith+
  have c: "length (bucket lv p k) + 1 < 2 ^ 32" for lv p using length_bucket_le[of lv p k] k by linarith
  have "(map (\<lambda>p. length (bucket lv p k)) [0..<P])[x := length (bucket lv x k) + 1] = map (\<lambda>p. length (bucket lv p (Suc k))) [0..<P]"
    if "lv k = x" "x < P" for lv x
    using that by (intro nth_equalityI) (auto simp: bucket_Suc nth_list_update)
  note count = this
  have "al_core (label_row lt P dist k st) = map (\<lambda>p. length (bucket (\<lambda>i. fst (lab i)) p (Suc k))) [0..<P]"
    using st lab ab r c by (simp add: label_row_def labelled_def count del: add_2_eq_Suc' One_nat_def)
  moreover have "al_augmented (label_row lt P dist k st) = map (\<lambda>p. length (bucket (\<lambda>i. snd (lab i)) p (Suc k))) [0..<P]"
    using st lab ab r c by (simp add: label_row_def labelled_def count del: add_2_eq_Suc' One_nat_def)
  moreover have "al_labels (label_row lt P dist k st) = (al_labels st)[k := (a, b)]"
    using ab small by (simp add: label_row_def)
  ultimately show ?thesis using st k lab ab by (auto simp: labelled_def less_Suc_eq)
qed

lemma label_chunk_step:
  assumes ok: "label_lib_ok lib d" and st: "labelled n P lab k st" and k: "k + c \<le> n" "n < 2 ^ 32" and P: "2 \<le> P" "P \<le> n"
    and lab: "\<And>i. i < n \<Longrightarrow> lab i = two_closest (ll_less lib) (map (d (row_floats lib sz dim (hm_rows ds ! i))) C) P"
  shows "\<exists>st'. label_chunk lib sz dim ds C P (k, c) st = Inr st' \<and> labelled n P lab (k + c) st'"
proof -
  let ?D = "map (\<lambda>r. map (d r) C) (map (\<lambda>i_sub. row_floats lib sz dim (hm_rows ds ! (k + i_sub))) [0..<c])"
  have "labelled n P lab (k + m) (fold (\<lambda>i_sub. label_row (ll_less lib) P (?D ! i_sub) (k + i_sub)) [0..<m] st)" if "m \<le> c" for m
    using that
  proof (induction m)
    case (Suc m)
    then have IH: "labelled n P lab (k + m) (fold (\<lambda>i_sub. label_row (ll_less lib) P (?D ! i_sub) (k + i_sub)) [0..<m] st)" by simp
    show ?case
      using label_row_step[OF IH _ k(2) P, of "ll_less lib" "?D ! m"] lab[of "k + m"] Suc.prems k(1) by simp
  qed (use st in simp)
  then show ?thesis using ok by (simp add: label_chunk_def label_lib_ok_def)
qed

abbreviation dist_row :: "'f label_lib \<Rightarrow> ('f list \<Rightarrow> 'f list \<Rightarrow> 'f) \<Rightarrow> nat \<Rightarrow> nat \<Rightarrow> host_matrix \<Rightarrow> 'f list list \<Rightarrow> nat \<Rightarrow> 'f list" where
  "dist_row lib d sz dim ds C i \<equiv> map (d (row_floats lib sz dim (hm_rows ds ! i))) C"

lemma labels_computed:
  assumes ok: "label_lib_ok lib d" and P: "2 \<le> P" "P \<le> length (hm_rows ds)" and n: "length (hm_rows ds) < 2 ^ 32"
    and st0: "no_labels (length (hm_rows ds)) P st0" and dim: "0 < dim" "dim \<le> hm_extent ds"
    and C: "ll_fit lib (sample_db lib sz dim ds (sample_count lib (length (hm_rows ds)) P)) P = Inr C"
  shows "\<exists>st. ace_get_partition_labels lib sz ds dim P st0 = Inr st \<and>
    labelled (length (hm_rows ds)) P (\<lambda>i. two_closest (ll_less lib) (dist_row lib d sz dim ds C i) P) (length (hm_rows ds)) st"
proof -
  let ?n = "length (hm_rows ds)"
  let ?lab = "\<lambda>i. two_closest (ll_less lib) (dist_row lib d sz dim ds C i) P"
  have "labelled ?n P ?lab 0 st0" using st0 by (simp add: labelled_def no_labels_def bucket_def map_replicate_const)
  then have "\<exists>st. fold_r (label_chunk lib sz dim ds C P) (batches (32 * 1024) ?n) st0 = Inr st \<and> labelled ?n P ?lab ?n st"
    using label_chunk_step[OF ok _ _ n P, where lab = ?lab and sz = sz and dim = dim and ds = ds and C = C]
    by (intro fold_batches[where Inv = "labelled ?n P ?lab"]) auto
  moreover have "length (al_labels st0) = ?n" using st0 by (simp add: no_labels_def)
  ultimately show ?thesis using C dim by (simp add: ace_get_partition_labels_def Let_def bind_expects)
qed

lemma labelled_ok:
  assumes st: "labelled n P lab n st" and lab: "\<And>i. i < n \<Longrightarrow> lab i = two_closest lt (dist i) P" and P: "2 \<le> P"
  shows "labels_ok n P st"
proof -
  have eq: "al_labels st ! i = lab i" if "i < n" for i using st that by (simp add: labelled_def)
  have "bucket (core_of (al_labels st)) p n = bucket (\<lambda>i. fst (lab i)) p n"
    "bucket (augmented_of (al_labels st)) p n = bucket (\<lambda>i. snd (lab i)) p n" for p
    using eq unfolding bucket_def core_of_def augmented_of_def by (auto intro!: filter_cong)
  then show ?thesis
    using st eq lab two_closest_range[OF P, of lt] by (auto simp: labels_ok_def labelled_def core_of_def augmented_of_def)
qed

text \<open>
  C34: Labelling a dataset for ACE gives every row two different partitions in range and a histogram that
  counts them, whatever the distances are; where the distances of a row have no NaN, the two are the
  closest partition and the closest of the others, the first of equals. It fails only when k-means does.
\<close>

theorem ace_labels_two_closest:
  assumes "label_lib_ok lib d" "2 \<le> P" "P \<le> length (hm_rows ds)" "length (hm_rows ds) < 2 ^ 32"
    and "no_labels (length (hm_rows ds)) P st0" "0 < dim" "dim \<le> hm_extent ds"
    and "ll_fit lib (sample_db lib sz dim ds (sample_count lib (length (hm_rows ds)) P)) P = Inr C"
  shows "\<exists>st. ace_get_partition_labels lib sz ds dim P st0 = Inr st \<and> labels_ok (length (hm_rows ds)) P st \<and>
    (\<forall>i < length (hm_rows ds). weakly_ordered (ll_less lib) (dist_row lib d sz dim ds C i) \<longrightarrow>
       closest_two (ll_less lib) (dist_row lib d sz dim ds C i) P (core_of (al_labels st) i) (augmented_of (al_labels st) i))"
proof -
  let ?lab = "\<lambda>i. two_closest (ll_less lib) (dist_row lib d sz dim ds C i) P"
  obtain st where st: "ace_get_partition_labels lib sz ds dim P st0 = Inr st"
    "labelled (length (hm_rows ds)) P ?lab (length (hm_rows ds)) st"
    using labels_computed[OF assms] by blast
  have "length C = P" using assms(1,8) unfolding label_lib_ok_def by blast
  then have "closest_two (ll_less lib) (dist_row lib d sz dim ds C i) P (core_of (al_labels st) i) (augmented_of (al_labels st) i)"
    if "i < length (hm_rows ds)" "weakly_ordered (ll_less lib) (dist_row lib d sz dim ds C i)" for i
    using two_closest_closest[OF that(2) assms(2)] st(2) that(1) by (simp add: labelled_def core_of_def augmented_of_def)
  then show ?thesis using st(1) labelled_ok[OF st(2) refl assms(2)] by blast
qed

definition demo_lib :: "int label_lib" where
  "demo_lib = \<lparr>ll_float = (\<lambda>b. sint (hd b)), ll_fit = (\<lambda>X k. Inr (map (\<lambda>c. [int (10 * c)]) [0..<k])),
     ll_distances = (\<lambda>rows C. Inr (map (\<lambda>r. map (\<lambda>c. \<bar>hd r - hd c\<bar>) C) rows)), ll_less = (<), ll_sampled = (\<lambda>n. n div 100)\<rparr>"

definition demo_matrix :: host_matrix where
  "demo_matrix = \<lparr>hm_rows = [[9], [1], [19], [11], [2]], hm_extent = 1\<rparr>"

definition demo_labels :: ace_labels where
  "demo_labels = \<lparr>al_labels = replicate 5 (0, 0), al_core = [0, 0, 0], al_augmented = [0, 0, 0]\<rparr>"

lemma demo_lib_ok: "label_lib_ok demo_lib (\<lambda>r c. \<bar>hd r - hd c\<bar>)"
  by (simp add: label_lib_ok_def demo_lib_def)

theorem ace_labels_two_closest_witness:
  "\<exists>st. ace_get_partition_labels demo_lib 1 demo_matrix 1 3 demo_labels = Inr st \<and> labels_ok 5 3 st"
proof -
  have n: "length (hm_rows demo_matrix) = 5" by (simp add: demo_matrix_def)
  have fit: "ll_fit demo_lib (sample_db demo_lib 1 1 demo_matrix (sample_count demo_lib (length (hm_rows demo_matrix)) 3)) 3 =
      Inr (map (\<lambda>c. [int (10 * c)]) [0..<3])"
    by (simp add: demo_lib_def)
  have "no_labels (length (hm_rows demo_matrix)) 3 demo_labels" unfolding n by (simp add: no_labels_def demo_labels_def numeral_eq_Suc)
  note h = ace_labels_two_closest[OF demo_lib_ok _ _ _ this _ _ fit]
  have "1 \<le> hm_extent demo_matrix" by (simp add: demo_matrix_def)
  then show ?thesis using h n by auto
qed

section \<open>Forward and backward lists\<close>

text \<open>
  The arrays the lists are made in. \<open>pl_core_forward\<close> is empty in the memory build. An iteration of the
  loop claims a place for the row in the core partition and one in the augmented partition.
\<close>

record ace_lists =
  pl_core_forward :: "nat list"
  pl_core_backward :: "nat list"
  pl_augmented_backward :: "nat list"
  pl_core_offsets :: "nat list"
  pl_augmented_offsets :: "nat list"

definition partition_offsets :: "nat list \<Rightarrow> nat \<Rightarrow> nat list \<Rightarrow> nat list" where
  "partition_offsets hist n_partitions offsets =
     fold (\<lambda>c offs. offs[c := to_idx (offs ! (c - 1) + hist ! (c - 1))]) [1..<n_partitions] (offsets[0 := 0])"

definition restore_offsets :: "nat \<Rightarrow> nat list \<Rightarrow> nat list" where
  "restore_offsets n_partitions offsets =
     (fold (\<lambda>c offs. offs[c := offs ! (c - 1)]) (rev [1..<n_partitions + 1]) offsets)[0 := 0]"

text \<open>The disk path: one iteration after the other.\<close>

definition place_vector :: "nat \<Rightarrow> (nat \<times> nat) list \<Rightarrow> nat \<Rightarrow> ace_lists \<Rightarrow> ace_error + ace_lists" where
  "place_vector dataset_size labels i L =
     (let core_partition_id = fst (labels ! i);
          core_id = pl_core_offsets L ! core_partition_id;
          L1 = L\<lparr>pl_core_offsets := (pl_core_offsets L)[core_partition_id := to_idx (core_id + 1)]\<rparr>
      in bind_r (expects (core_id < dataset_size) VectorIdTooLarge) (\<lambda>_.
           let L2 = L1\<lparr>pl_core_backward := (pl_core_backward L1)[core_id := to_idx i],
                       pl_core_forward := (pl_core_forward L1)[i := to_idx core_id]\<rparr>;
               augmented_partition_id = snd (labels ! i);
               augmented_id = pl_augmented_offsets L2 ! augmented_partition_id;
               L3 = L2\<lparr>pl_augmented_offsets := (pl_augmented_offsets L2)[augmented_partition_id := to_idx (augmented_id + 1)]\<rparr>
           in bind_r (expects (augmented_id < dataset_size) VectorIdTooLarge) (\<lambda>_.
                Inr (L3\<lparr>pl_augmented_backward := (pl_augmented_backward L3)[augmented_id := to_idx i]\<rparr>))))"

text \<open>
  The memory path: the iterations run in parallel. An iteration captures and increments a counter
  atomically, then stores its row, first for the core partition and then for the augmented one. A
  schedule names the iteration that makes the next step; a failed check ends the process.
\<close>

datatype placing = Pending | CoreClaimed nat | CoreStored | AugmentedClaimed nat | Placed | Aborted

record placing_state =
  ps_lists :: ace_lists
  ps_phase :: "placing list"

definition place_step :: "nat \<Rightarrow> (nat \<times> nat) list \<Rightarrow> nat \<Rightarrow> placing_state \<Rightarrow> placing_state" where
  "place_step dataset_size labels i s =
     (let L = ps_lists s;
          core_partition_id = fst (labels ! i);
          augmented_partition_id = snd (labels ! i)
      in case ps_phase s ! i of
        Pending \<Rightarrow>
          let core_id = pl_core_offsets L ! core_partition_id in
          \<lparr>ps_lists = L\<lparr>pl_core_offsets := (pl_core_offsets L)[core_partition_id := to_idx (core_id + 1)]\<rparr>,
           ps_phase = (ps_phase s)[i := CoreClaimed core_id]\<rparr>
      | CoreClaimed core_id \<Rightarrow>
          if core_id < dataset_size
          then \<lparr>ps_lists = L\<lparr>pl_core_backward := (pl_core_backward L)[core_id := to_idx i]\<rparr>, ps_phase = (ps_phase s)[i := CoreStored]\<rparr>
          else s\<lparr>ps_phase := (ps_phase s)[i := Aborted]\<rparr>
      | CoreStored \<Rightarrow>
          let augmented_id = pl_augmented_offsets L ! augmented_partition_id in
          \<lparr>ps_lists = L\<lparr>pl_augmented_offsets := (pl_augmented_offsets L)[augmented_partition_id := to_idx (augmented_id + 1)]\<rparr>,
           ps_phase = (ps_phase s)[i := AugmentedClaimed augmented_id]\<rparr>
      | AugmentedClaimed augmented_id \<Rightarrow>
          if augmented_id < dataset_size
          then \<lparr>ps_lists = L\<lparr>pl_augmented_backward := (pl_augmented_backward L)[augmented_id := to_idx i]\<rparr>,
                ps_phase = (ps_phase s)[i := Placed]\<rparr>
          else s\<lparr>ps_phase := (ps_phase s)[i := Aborted]\<rparr>
      | Placed \<Rightarrow> s
      | Aborted \<Rightarrow> s)"

definition run_placing :: "nat \<Rightarrow> (nat \<times> nat) list \<Rightarrow> nat list \<Rightarrow> ace_lists \<Rightarrow> placing_state" where
  "run_placing dataset_size labels schedule L =
     fold (place_step dataset_size labels) schedule \<lparr>ps_lists = L, ps_phase = replicate dataset_size Pending\<rparr>"

text \<open>No result: the schedule ended before the loop.\<close>

definition place_in_parallel :: "nat \<Rightarrow> (nat \<times> nat) list \<Rightarrow> nat list \<Rightarrow> ace_lists \<Rightarrow> (ace_error + ace_lists) option" where
  "place_in_parallel dataset_size labels schedule L =
     (let s = run_placing dataset_size labels schedule L in
      if list_ex (\<lambda>ph. ph = Aborted) (ps_phase s) then Some (Inl Terminated)
      else if list_all (\<lambda>ph. ph = Placed) (ps_phase s) then Some (Inr (ps_lists s))
      else None)"

definition ace_create_forward_and_backward_lists :: "nat \<Rightarrow> nat \<Rightarrow> ace_labels \<Rightarrow> nat list \<Rightarrow> ace_lists \<Rightarrow> (ace_error + ace_lists) option" where
  "ace_create_forward_and_backward_lists dataset_size n_partitions lb schedule L =
     (let L0 = L\<lparr>pl_core_offsets := partition_offsets (al_core lb) n_partitions (pl_core_offsets L),
                 pl_augmented_offsets := partition_offsets (al_augmented lb) n_partitions (pl_augmented_offsets L)\<rparr>;
          restore = (\<lambda>L. L\<lparr>pl_core_offsets := restore_offsets n_partitions (pl_core_offsets L),
                           pl_augmented_offsets := restore_offsets n_partitions (pl_augmented_offsets L)\<rparr>)
      in map_option (map_sum id restore)
        (if length (pl_core_forward L0) = 0 then
           (case bind_r (expects (length (pl_core_backward L0) = dataset_size) MappingSize) (\<lambda>_.
                   expects (length (pl_augmented_backward L0) = dataset_size) MappingSize) of
              Inl e \<Rightarrow> Some (Inl e)
            | Inr _ \<Rightarrow> place_in_parallel dataset_size (al_labels lb) schedule L0)
         else
           Some (bind_r (expects (length (pl_core_forward L0) = dataset_size) MappingSize) (\<lambda>_.
                 bind_r (expects (length (pl_core_backward L0) = dataset_size) MappingSize) (\<lambda>_.
                 bind_r (expects (length (pl_augmented_backward L0) = dataset_size) MappingSize) (\<lambda>_.
                   fold_r (place_vector dataset_size (al_labels lb)) [0..<dataset_size] L0))))))"

subsection \<open>The offsets\<close>

text \<open>While the loop runs, the counter of a partition is its start and the rows that have claimed a place in it.\<close>

definition counters :: "(nat \<Rightarrow> nat) \<Rightarrow> nat \<Rightarrow> nat \<Rightarrow> nat list \<Rightarrow> nat list \<Rightarrow> bool" where
  "counters lab n P ord offs \<longleftrightarrow> length offs = P + 1 \<and>
     (\<forall>p < P. offs ! p = bucket_start lab n p + length (filter (\<lambda>i. lab i = p) ord))"

definition starts :: "(nat \<Rightarrow> nat) \<Rightarrow> nat \<Rightarrow> nat \<Rightarrow> nat list" where
  "starts lab n P = map (bucket_start lab n) [0..<P + 1]"

lemma bucket_start_le:
  assumes "\<And>r. r < n \<Longrightarrow> lab r < P" "p \<le> P"
  shows "bucket_start lab n p \<le> n"
proof (cases p)
  case (Suc k)
  then show ?thesis using bucket_end_le[of n lab P k] assms by (simp add: bucket_start_Suc)
qed (simp add: bucket_start_def)

lemma partition_offsets_counters:
  assumes lab: "\<And>r. r < n \<Longrightarrow> lab r < P" and n: "n < 2 ^ 32" and len: "length offs = P + 1"
    and hist: "hist = map (\<lambda>p. length (bucket lab p n)) [0..<P]" and P: "0 < P"
  shows "counters lab n P [] (partition_offsets hist P offs)"
proof -
  let ?f = "\<lambda>c offs. offs[c := to_idx (offs ! (c - 1) + hist ! (c - 1))]"
  have "length (fold ?f [1..<Suc k] (offs[0 := 0])) = P + 1 \<and>
      (\<forall>p \<le> k. fold ?f [1..<Suc k] (offs[0 := 0]) ! p = bucket_start lab n p)" if "k < P" for k
    using that
  proof (induction k)
    case (Suc k)
    have le: "bucket_start lab n (Suc k) \<le> n" by (rule bucket_start_le[of n lab P, OF lab]) (use Suc.prems in simp_all)
    have up: "fold ?f [1..<Suc (Suc k)] (offs[0 := 0]) = ?f (Suc k) (fold ?f [1..<Suc k] (offs[0 := 0]))"
      by (simp add: upt_Suc)
    have IH: "length (fold ?f [1..<Suc k] (offs[0 := 0])) = P + 1"
      "\<And>p. p \<le> k \<Longrightarrow> fold ?f [1..<Suc k] (offs[0 := 0]) ! p = bucket_start lab n p" using Suc by auto
    have "to_idx (fold ?f [1..<Suc k] (offs[0 := 0]) ! k + hist ! k) = bucket_start lab n (Suc k)"
      using IH(2)[of k] le n Suc.prems hist by (simp add: bucket_start_Suc)
    then show ?case unfolding up using IH Suc.prems by (auto simp: nth_list_update le_Suc_eq)
  qed (use len in \<open>simp add: bucket_start_def\<close>)
  from this[of "P - 1"] P show ?thesis unfolding counters_def partition_offsets_def by auto
qed

lemma restore_offsets_starts:
  assumes c: "counters lab n P ord offs" and all: "\<And>p. p < P \<Longrightarrow> length (filter (\<lambda>i. lab i = p) ord) = length (bucket lab p n)"
  shows "restore_offsets P offs = starts lab n P"
proof -
  let ?f = "\<lambda>c offs. offs[c := offs ! (c - 1)]"
  have shift: "length (fold ?f (rev [1..<k + 1]) xs) = length xs \<and>
      (\<forall>i < length xs. fold ?f (rev [1..<k + 1]) xs ! i = (if 1 \<le> i \<and> i \<le> k then xs ! (i - 1) else xs ! i))"
    if "k < length xs" for k and xs :: "nat list"
    using that
  proof (induction k arbitrary: xs)
    case (Suc k)
    have step: "fold ?f (rev [1..<Suc k + 1]) xs = fold ?f (rev [1..<k + 1]) (xs[Suc k := xs ! k])" by simp
    define ys where "ys = xs[Suc k := xs ! k]"
    have ys: "length ys = length xs" "k < length ys" using Suc.prems by (simp_all add: ys_def)
    note IH = Suc.IH[OF ys(2)]
    have "fold ?f (rev [1..<k + 1]) ys ! i = (if 1 \<le> i \<and> i \<le> Suc k then xs ! (i - 1) else xs ! i)" if i: "i < length xs" for i
    proof -
      have "fold ?f (rev [1..<k + 1]) ys ! i = (if 1 \<le> i \<and> i \<le> k then ys ! (i - 1) else ys ! i)"
        using conjunct2[OF IH] i ys(1) by (simp only:)
      also have "\<dots> = (if 1 \<le> i \<and> i \<le> Suc k then xs ! (i - 1) else xs ! i)"
        using i by (cases "i = Suc k") (auto simp: ys_def)
      finally show ?thesis .
    qed
    then show ?case unfolding step ys_def[symmetric] using conjunct1[OF IH] ys(1) by (intro conjI allI impI) (simp_all only:)
  qed simp
  have len: "length offs = P + 1" using c by (simp add: counters_def)
  have val: "offs ! p = bucket_start lab n (Suc p)" if "p < P" for p
    using c all[OF that] that by (simp add: counters_def bucket_start_Suc)
  have at: "restore_offsets P offs ! i = bucket_start lab n i" if i: "i < P + 1" for i
  proof (cases "i = 0")
    case True
    then show ?thesis using shift[of P offs] len by (simp add: restore_offsets_def bucket_start_def del: upt_Suc)
  next
    case False
    then have "restore_offsets P offs ! i = offs ! (i - 1)"
      using shift[of P offs] len i unfolding restore_offsets_def by (simp del: upt_Suc)
    then show ?thesis using val[of "i - 1"] False i by simp
  qed
  have "length (restore_offsets P offs) = P + 1" using shift[of P offs] len by (simp add: restore_offsets_def del: upt_Suc)
  then show ?thesis using at by (intro nth_equalityI) (auto simp: starts_def simp del: upt_Suc)
qed

subsection \<open>Claiming and storing\<close>

text \<open>
  One array of places: \<open>ord\<close> are the rows that have claimed a place, in the order of their claims, and
  \<open>held i\<close> is the place a row has claimed and not yet filled.
\<close>

definition lane_inv :: "(nat \<Rightarrow> nat) \<Rightarrow> nat \<Rightarrow> nat \<Rightarrow> nat list \<Rightarrow> (nat \<Rightarrow> nat option) \<Rightarrow> nat list \<Rightarrow> nat list \<Rightarrow> bool" where
  "lane_inv lab n P ord held bw offs \<longleftrightarrow> distinct ord \<and> set ord \<subseteq> {..<n} \<and> counters lab n P ord offs \<and> length bw = n \<and>
     (\<forall>i \<in> set ord. case held i of Some pos \<Rightarrow> pos = slot lab n ord i | None \<Rightarrow> bw ! slot lab n ord i = i)"

lemma lane_cong:
  assumes "lane_inv lab n P ord held bw offs" "\<And>i. i \<in> set ord \<Longrightarrow> held' i = held i"
  shows "lane_inv lab n P ord held' bw offs"
  using assms by (simp add: lane_inv_def)

lemma lane_claim:
  assumes inv: "lane_inv lab n P ord held bw offs" and i: "i < n" "i \<notin> set ord" and n: "n < 2 ^ 32"
    and lab: "\<And>r. r < n \<Longrightarrow> lab r < P"
  shows "offs ! lab i < n \<and>
    lane_inv lab n P (ord @ [i]) (held(i := Some (offs ! lab i))) bw (offs[lab i := to_idx (offs ! lab i + 1)])"
proof -
  have at: "offs ! lab i = slot lab n (ord @ [i]) i"
    using inv lab[OF i(1)] i(2) by (simp add: lane_inv_def counters_def slot_new)
  have d: "distinct (ord @ [i])" "set (ord @ [i]) \<subseteq> {..<n}" using inv i by (auto simp: lane_inv_def)
  have "offs ! lab i < n" unfolding at by (rule slot_below[OF _ d lab]) simp_all
  moreover have "counters lab n P (ord @ [i]) (offs[lab i := to_idx (offs ! lab i + 1)])"
    using inv lab[OF i(1)] calculation n by (auto simp: lane_inv_def counters_def nth_list_update)
  moreover have "case (held(i := Some (offs ! lab i))) j of Some pos \<Rightarrow> pos = slot lab n (ord @ [i]) j | None \<Rightarrow> bw ! slot lab n (ord @ [i]) j = j"
    if "j \<in> set (ord @ [i])" for j
  proof (cases "j = i")
    case False
    then have "j \<in> set ord" using that by simp
    moreover have "case held j of Some pos \<Rightarrow> pos = slot lab n ord j | None \<Rightarrow> bw ! slot lab n ord j = j"
      using inv calculation by (simp add: lane_inv_def)
    ultimately show ?thesis using False slot_append[of j ord lab n i] by (simp split: option.splits)
  qed (use at in simp)
  ultimately show ?thesis using d inv by (simp add: lane_inv_def)
qed

lemma lane_store:
  assumes inv: "lane_inv lab n P ord held bw offs" and i: "i \<in> set ord" "held i = Some pos" and lab: "\<And>r. r < n \<Longrightarrow> lab r < P"
  shows "pos < n \<and> lane_inv lab n P ord (held(i := None)) (bw[pos := i]) offs"
proof -
  have d: "distinct ord" "set ord \<subseteq> {..<n}" using inv by (simp_all add: lane_inv_def)
  have pos: "pos = slot lab n ord i" using inv i by (auto simp: lane_inv_def)
  have less: "pos < n" unfolding pos by (rule slot_below[OF i(1) d lab])
  have "case (held(i := None)) j of Some pos \<Rightarrow> pos = slot lab n ord j | None \<Rightarrow> bw[pos := i] ! slot lab n ord j = j" if j: "j \<in> set ord" for j
  proof (cases "j = i")
    case True
    then show ?thesis using less inv pos by (simp add: lane_inv_def)
  next
    case False
    then have "slot lab n ord j \<noteq> pos" using slot_distinct[OF j i(1) d, of lab P] lab pos by blast
    moreover have "case held j of Some pos \<Rightarrow> pos = slot lab n ord j | None \<Rightarrow> bw ! slot lab n ord j = j"
      using inv j by (simp add: lane_inv_def)
    ultimately show ?thesis using False by (simp split: option.splits)
  qed
  then show ?thesis using less inv by (simp add: lane_inv_def)
qed

text \<open>What the lists are in the end: each partition has its places, filled with its rows.\<close>

definition blocks :: "(nat \<Rightarrow> nat) \<Rightarrow> nat \<Rightarrow> nat \<Rightarrow> nat list \<Rightarrow> bool" where
  "blocks lab n P bw \<longleftrightarrow> length bw = n \<and>
     (\<forall>p < P. mset (slice bw (bucket_start lab n p) (length (bucket lab p n))) = mset (bucket lab p n))"

definition lists_ok :: "nat \<Rightarrow> nat \<Rightarrow> (nat \<times> nat) list \<Rightarrow> ace_lists \<Rightarrow> bool" where
  "lists_ok n P labels L \<longleftrightarrow> blocks (core_of labels) n P (pl_core_backward L) \<and> blocks (augmented_of labels) n P (pl_augmented_backward L) \<and>
     pl_core_offsets L = starts (core_of labels) n P \<and> pl_augmented_offsets L = starts (augmented_of labels) n P"

lemma lane_full:
  assumes inv: "lane_inv lab n P ord held bw offs" and full: "set ord = {..<n}" "\<And>i. i < n \<Longrightarrow> held i = None"
    and lab: "\<And>r. r < n \<Longrightarrow> lab r < P" and k: "k < P"
  shows "slice bw (bucket_start lab n k) (length (bucket lab k n)) = filter (\<lambda>i. lab i = k) ord"
    "length (filter (\<lambda>i. lab i = k) ord) = length (bucket lab k n)"
proof -
  have d: "distinct ord" using inv by (simp add: lane_inv_def)
  show l: "length (filter (\<lambda>i. lab i = k) ord) = length (bucket lab k n)"
    using mset_claimed[OF d full(1), of lab k] by (rule mset_eq_length)
  have "\<forall>i < n. bw ! slot lab n ord i = i" using inv full by (auto simp: lane_inv_def)
  note at = all_claimed[OF d full(1) k _ this]
  have "length bw = n" using inv by (simp add: lane_inv_def)
  then have room: "bucket_start lab n k + length (bucket lab k n) \<le> length bw" using bucket_end_le[of n lab P k] lab k by simp
  then show "slice bw (bucket_start lab n k) (length (bucket lab k n)) = filter (\<lambda>i. lab i = k) ord"
    using at l by (intro nth_equalityI) (auto simp: slice_def)
qed

lemma lane_blocks:
  assumes "lane_inv lab n P ord held bw offs" "set ord = {..<n}" "\<And>i. i < n \<Longrightarrow> held i = None" "\<And>r. r < n \<Longrightarrow> lab r < P"
  shows "blocks lab n P bw" "restore_offsets P offs = starts lab n P"
proof -
  note full = lane_full[OF assms]
  have inv: "distinct ord" "length bw = n" "counters lab n P ord offs" using assms(1) by (simp_all add: lane_inv_def)
  show "blocks lab n P bw" unfolding blocks_def using full(1) mset_claimed[OF inv(1) assms(2), of lab] inv(2) by simp
  show "restore_offsets P offs = starts lab n P" by (rule restore_offsets_starts[OF inv(3) full(2)])
qed

subsection \<open>The parallel loop\<close>

definition held_core :: "placing list \<Rightarrow> nat \<Rightarrow> nat option" where
  "held_core phase i = (case phase ! i of CoreClaimed pos \<Rightarrow> Some pos | _ \<Rightarrow> None)"

definition held_augmented :: "placing list \<Rightarrow> nat \<Rightarrow> nat option" where
  "held_augmented phase i = (case phase ! i of AugmentedClaimed pos \<Rightarrow> Some pos | _ \<Rightarrow> None)"

definition in_augmented :: "placing \<Rightarrow> bool" where
  "in_augmented ph = (case ph of AugmentedClaimed _ \<Rightarrow> True | Placed \<Rightarrow> True | _ \<Rightarrow> False)"

lemma in_augmented_simps [simp]:
  "\<not> in_augmented Pending" "\<not> in_augmented (CoreClaimed p)" "\<not> in_augmented CoreStored"
  "in_augmented (AugmentedClaimed p)" "in_augmented Placed" "\<not> in_augmented Aborted"
  by (simp_all add: in_augmented_def)

definition placing_inv :: "nat \<Rightarrow> nat \<Rightarrow> (nat \<times> nat) list \<Rightarrow> placing_state \<Rightarrow> bool" where
  "placing_inv n P labels s \<longleftrightarrow> length (ps_phase s) = n \<and> Aborted \<notin> set (ps_phase s) \<and>
     (\<exists>co. set co = {i. i < n \<and> ps_phase s ! i \<noteq> Pending} \<and>
        lane_inv (core_of labels) n P co (held_core (ps_phase s)) (pl_core_backward (ps_lists s)) (pl_core_offsets (ps_lists s))) \<and>
     (\<exists>ao. set ao = {i. i < n \<and> in_augmented (ps_phase s ! i)} \<and>
        lane_inv (augmented_of labels) n P ao (held_augmented (ps_phase s)) (pl_augmented_backward (ps_lists s))
          (pl_augmented_offsets (ps_lists s)))"

lemma phase_set:
  assumes "i < n" "length phase = n"
  shows "{j. j < n \<and> Q (phase[i := ph] ! j)} = (if Q ph then insert i {j. j < n \<and> Q (phase ! j)} else {j. j < n \<and> Q (phase ! j)} - {i})"
  using assms by (auto simp: nth_list_update split: if_splits)

lemma phase_kept:
  assumes "i < n" "length phase = n" "set xs = {j. j < n \<and> Q (phase ! j)}" "Q (phase ! i)" "Q ph"
  shows "set xs = {j. j < n \<and> Q (phase[i := ph] ! j)}"
  unfolding phase_set[OF assms(1,2)] assms(3) using assms(1,4,5) by auto

lemma placing_invI:
  assumes "length ph = n" "Aborted \<notin> set ph" "set co = {i. i < n \<and> ph ! i \<noteq> Pending}" "set ao = {i. i < n \<and> in_augmented (ph ! i)}"
    and "lane_inv (core_of labels) n P co (held_core ph) (pl_core_backward L) (pl_core_offsets L)"
    and "lane_inv (augmented_of labels) n P ao (held_augmented ph) (pl_augmented_backward L) (pl_augmented_offsets L)"
  shows "placing_inv n P labels \<lparr>ps_lists = L, ps_phase = ph\<rparr>"
  unfolding placing_inv_def placing_state.simps using assms by blast

lemma place_step_inv:
  assumes inv: "placing_inv n P labels s" and i: "i < n" and n: "n < 2 ^ 32"
    and lab: "\<And>r. r < n \<Longrightarrow> core_of labels r < P \<and> augmented_of labels r < P"
  shows "placing_inv n P labels (place_step n labels i s)"
proof -
  let ?ph = "ps_phase s" and ?L = "ps_lists s"
  let ?c = "core_of labels" and ?a = "augmented_of labels"
  have len: "length ?ph = n" and na: "Aborted \<notin> set ?ph" using inv by (simp_all add: placing_inv_def)
  obtain co where co: "set co = {j. j < n \<and> ?ph ! j \<noteq> Pending}"
    "lane_inv ?c n P co (held_core ?ph) (pl_core_backward ?L) (pl_core_offsets ?L)"
    using inv by (auto simp: placing_inv_def)
  obtain ao where ao: "set ao = {j. j < n \<and> in_augmented (?ph ! j)}"
    "lane_inv ?a n P ao (held_augmented ?ph) (pl_augmented_backward ?L) (pl_augmented_offsets ?L)"
    using inv by (auto simp: placing_inv_def)
  have lc: "r < n \<Longrightarrow> ?c r < P" and la: "r < n \<Longrightarrow> ?a r < P" for r using lab by auto
  have i32: "to_idx i = i" using i n by (intro to_idx_small) linarith
  have na': "Aborted \<notin> set (?ph[i := ph])" if "ph \<noteq> Aborted" for ph
    using na that set_update_subset_insert[of ?ph i ph] by auto
  show ?thesis
  proof (cases "?ph ! i")
    case Pending
    have out: "i \<notin> set co" using co(1) Pending by simp
    let ?at = "pl_core_offsets ?L ! ?c i"
    let ?s = "?ph[i := CoreClaimed ?at]"
    note claim = lane_claim[OF co(2) i out n lc]
    have c_inv: "lane_inv ?c n P (co @ [i]) (held_core ?s) (pl_core_backward ?L) ((pl_core_offsets ?L)[?c i := to_idx (?at + 1)])"
      by (rule lane_cong[OF claim[THEN conjunct2]]) (use i len in \<open>auto simp: held_core_def nth_list_update\<close>)
    have c_set: "set (co @ [i]) = {j. j < n \<and> ?s ! j \<noteq> Pending}"
      using phase_set[OF i len, of "\<lambda>ph. ph \<noteq> Pending"] co(1) by simp
    have a_inv: "lane_inv ?a n P ao (held_augmented ?s) (pl_augmented_backward ?L) (pl_augmented_offsets ?L)"
      by (rule lane_cong[OF ao(2)]) (use i len Pending in \<open>auto simp: held_augmented_def nth_list_update\<close>)
    have a_set: "set ao = {j. j < n \<and> in_augmented (?s ! j)}"
      using phase_set[OF i len, of in_augmented "CoreClaimed ?at"] ao(1) Pending by auto
    have step: "place_step n labels i s = \<lparr>ps_lists = ?L\<lparr>pl_core_offsets := (pl_core_offsets ?L)[?c i := to_idx (?at + 1)]\<rparr>, ps_phase = ?s\<rparr>"
      using Pending by (simp add: place_step_def Let_def core_of_def)
    show ?thesis unfolding step by (rule placing_invI[OF _ na' c_set a_set]) (simp_all add: len c_inv a_inv del: One_nat_def)
  next
    case (CoreClaimed pos)
    note ph = this
    have i_in: "i \<in> set co" "held_core ?ph i = Some pos" using co(1) CoreClaimed i by (simp_all add: held_core_def)
    note store = lane_store[OF co(2) i_in lc]
    let ?s = "?ph[i := CoreStored]"
    have c_inv: "lane_inv ?c n P co (held_core ?s) ((pl_core_backward ?L)[pos := i]) (pl_core_offsets ?L)"
      by (rule lane_cong[OF store[THEN conjunct2]]) (use i len in \<open>auto simp: held_core_def nth_list_update\<close>)
    have c_set: "set co = {j. j < n \<and> ?s ! j \<noteq> Pending}"
      by (rule phase_kept[OF i len co(1)]) (use ph in simp_all)
    have a_inv: "lane_inv ?a n P ao (held_augmented ?s) (pl_augmented_backward ?L) (pl_augmented_offsets ?L)"
      by (rule lane_cong[OF ao(2)]) (use i len CoreClaimed in \<open>auto simp: held_augmented_def nth_list_update\<close>)
    have a_set: "set ao = {j. j < n \<and> in_augmented (?s ! j)}"
      using phase_set[OF i len, of in_augmented CoreStored] ao(1) CoreClaimed by auto
    have step: "place_step n labels i s = \<lparr>ps_lists = ?L\<lparr>pl_core_backward := (pl_core_backward ?L)[pos := i]\<rparr>, ps_phase = ?s\<rparr>"
      using CoreClaimed store i32 by (simp add: place_step_def Let_def)
    show ?thesis unfolding step by (rule placing_invI[OF _ na' c_set a_set]) (simp_all add: len c_inv a_inv del: One_nat_def)
  next
    case CoreStored
    note ph = this
    have out: "i \<notin> set ao" using ao(1) CoreStored by simp
    let ?at = "pl_augmented_offsets ?L ! ?a i"
    let ?s = "?ph[i := AugmentedClaimed ?at]"
    note claim = lane_claim[OF ao(2) i out n la]
    have a_inv: "lane_inv ?a n P (ao @ [i]) (held_augmented ?s) (pl_augmented_backward ?L) ((pl_augmented_offsets ?L)[?a i := to_idx (?at + 1)])"
      by (rule lane_cong[OF claim[THEN conjunct2]]) (use i len in \<open>auto simp: held_augmented_def nth_list_update\<close>)
    have a_set: "set (ao @ [i]) = {j. j < n \<and> in_augmented (?s ! j)}"
      by (simp only: phase_set[OF i len] in_augmented_simps ao(1)[symmetric] if_True) simp
    have c_inv: "lane_inv ?c n P co (held_core ?s) (pl_core_backward ?L) (pl_core_offsets ?L)"
      by (rule lane_cong[OF co(2)]) (use i len CoreStored in \<open>auto simp: held_core_def nth_list_update\<close>)
    have c_set: "set co = {j. j < n \<and> ?s ! j \<noteq> Pending}"
      by (rule phase_kept[OF i len co(1)]) (use ph in simp_all)
    have step: "place_step n labels i s =
        \<lparr>ps_lists = ?L\<lparr>pl_augmented_offsets := (pl_augmented_offsets ?L)[?a i := to_idx (?at + 1)]\<rparr>, ps_phase = ?s\<rparr>"
      using CoreStored by (simp add: place_step_def Let_def augmented_of_def)
    show ?thesis unfolding step by (rule placing_invI[OF _ na' c_set a_set]) (simp_all add: len c_inv a_inv del: One_nat_def)
  next
    case (AugmentedClaimed pos)
    note ph = this
    have i_in: "i \<in> set ao" "held_augmented ?ph i = Some pos"
      using ao(1) AugmentedClaimed i by (simp_all add: held_augmented_def)
    note store = lane_store[OF ao(2) i_in la]
    let ?s = "?ph[i := Placed]"
    have a_inv: "lane_inv ?a n P ao (held_augmented ?s) ((pl_augmented_backward ?L)[pos := i]) (pl_augmented_offsets ?L)"
      by (rule lane_cong[OF store[THEN conjunct2]]) (use i len in \<open>auto simp: held_augmented_def nth_list_update\<close>)
    have a_set: "set ao = {j. j < n \<and> in_augmented (?s ! j)}"
      by (rule phase_kept[OF i len ao(1)]) (use ph in simp_all)
    have c_inv: "lane_inv ?c n P co (held_core ?s) (pl_core_backward ?L) (pl_core_offsets ?L)"
      by (rule lane_cong[OF co(2)]) (use i len AugmentedClaimed in \<open>auto simp: held_core_def nth_list_update\<close>)
    have c_set: "set co = {j. j < n \<and> ?s ! j \<noteq> Pending}"
      by (rule phase_kept[OF i len co(1)]) (use ph in simp_all)
    have step: "place_step n labels i s =
        \<lparr>ps_lists = ?L\<lparr>pl_augmented_backward := (pl_augmented_backward ?L)[pos := i]\<rparr>, ps_phase = ?s\<rparr>"
      using AugmentedClaimed store i32 by (simp add: place_step_def Let_def)
    show ?thesis unfolding step by (rule placing_invI[OF _ na' c_set a_set]) (simp_all add: len c_inv a_inv del: One_nat_def)
  next
    case Placed
    then show ?thesis using inv by (simp add: place_step_def Let_def)
  next
    case Aborted
    then show ?thesis using na i len nth_mem[of i ?ph] by simp
  qed
qed

lemma blocks_permute:
  assumes "blocks lab n P bw" "\<And>r. r < n \<Longrightarrow> lab r < P"
  shows "set bw = {..<n}" "distinct bw"
proof -
  have len: "length bw = n" using assms(1) by (simp add: blocks_def)
  have part: "set (slice bw (bucket_start lab n k) (length (bucket lab k n))) = set (bucket lab k n)" if "k < P" for k
    using assms(1) that unfolding blocks_def by (metis set_mset_mset)
  have "bw ! r < n" if r: "r < n" for r
  proof -
    obtain k j where kj: "k < P" "j < length (bucket lab k n)" "r = bucket_start lab n k + j" using bucket_cover[of n lab P r, OF assms(2) r] by blast
    have "bw ! r \<in> set (slice bw (bucket_start lab n k) (length (bucket lab k n)))"
      using kj bucket_end_le[of n lab P k] assms(2) len by (auto simp: slice_def in_set_conv_nth intro!: exI[of _ j])
    then show ?thesis using part[OF kj(1)] by (auto simp: bucket_def)
  qed
  then have "set bw \<subseteq> {..<n}" using len by (auto simp: in_set_conv_nth)
  moreover have "i \<in> set bw" if "i < n" for i
  proof -
    have "i \<in> set (slice bw (bucket_start lab n (lab i)) (length (bucket lab (lab i) n)))"
      using part[of "lab i"] assms(2)[OF that] that by (simp add: bucket_def)
    then show ?thesis by (auto simp: slice_def dest: in_set_takeD in_set_dropD)
  qed
  ultimately show s: "set bw = {..<n}" by auto
  show "distinct bw" by (rule card_distinct) (use s len in simp)
qed

lemma list_allocation:
  assumes lb: "labels_ok n P lb" and n: "n < 2 ^ 32" and P: "0 < P" and len: "length offs = P + 1" "length bw = n"
  shows "lane_inv (core_of (al_labels lb)) n P [] held bw (partition_offsets (al_core lb) P offs)"
    "lane_inv (augmented_of (al_labels lb)) n P [] held bw (partition_offsets (al_augmented lb) P offs)"
  using partition_offsets_counters[OF _ n len(1) _ P] lb len(2) by (simp_all add: lane_inv_def labels_ok_def)

lemma placing_start:
  assumes "labels_ok n P lb" "n < 2 ^ 32" "0 < P"
    and "length (pl_core_backward L) = n" "length (pl_augmented_backward L) = n"
    and "length (pl_core_offsets L) = P + 1" "length (pl_augmented_offsets L) = P + 1"
  shows "placing_inv n P (al_labels lb)
    \<lparr>ps_lists = L\<lparr>pl_core_offsets := partition_offsets (al_core lb) P (pl_core_offsets L),
                  pl_augmented_offsets := partition_offsets (al_augmented lb) P (pl_augmented_offsets L)\<rparr>,
     ps_phase = replicate n Pending\<rparr>"
  by (rule placing_invI[where co = "[]" and ao = "[]"])
    (use list_allocation[OF assms(1-3)] assms(4-7) in \<open>auto simp: held_core_def held_augmented_def\<close>)

lemma placing_run:
  assumes "placing_inv n P labels s" "n < 2 ^ 32" "\<And>r. r < n \<Longrightarrow> core_of labels r < P \<and> augmented_of labels r < P" "set schedule \<subseteq> {..<n}"
  shows "placing_inv n P labels (fold (place_step n labels) schedule s)"
  using assms(1,4) by (induction schedule arbitrary: s) (auto intro: place_step_inv[OF _ _ assms(2,3)])

lemma placing_done:
  assumes inv: "placing_inv n P labels s" and all: "list_all (\<lambda>ph. ph = Placed) (ps_phase s)"
    and lab: "\<And>r. r < n \<Longrightarrow> core_of labels r < P \<and> augmented_of labels r < P"
  shows "lists_ok n P labels ((ps_lists s)\<lparr>pl_core_offsets := restore_offsets P (pl_core_offsets (ps_lists s)),
    pl_augmented_offsets := restore_offsets P (pl_augmented_offsets (ps_lists s))\<rparr>)"
proof -
  have len: "length (ps_phase s) = n" using inv by (simp add: placing_inv_def)
  have ph: "ps_phase s ! i = Placed" if "i < n" for i using all that len by (simp add: list_all_length)
  then have all_in: "{i. i < n \<and> ps_phase s ! i \<noteq> Pending} = {..<n}" "{i. i < n \<and> in_augmented (ps_phase s ! i)} = {..<n}" by auto
  have none: "held_core (ps_phase s) i = None" "held_augmented (ps_phase s) i = None" if "i < n" for i
    using ph[OF that] by (simp_all add: held_core_def held_augmented_def)
  have lc: "r < n \<Longrightarrow> core_of labels r < P" and la: "r < n \<Longrightarrow> augmented_of labels r < P" for r using lab by auto
  obtain co where co: "set co = {..<n}"
    "lane_inv (core_of labels) n P co (held_core (ps_phase s)) (pl_core_backward (ps_lists s)) (pl_core_offsets (ps_lists s))"
    using inv unfolding placing_inv_def all_in by blast
  obtain ao where ao: "set ao = {..<n}"
    "lane_inv (augmented_of labels) n P ao (held_augmented (ps_phase s)) (pl_augmented_backward (ps_lists s)) (pl_augmented_offsets (ps_lists s))"
    using inv unfolding placing_inv_def all_in by blast
  show ?thesis
    using lane_blocks[OF co(2,1) none(1) lc] lane_blocks[OF ao(2,1) none(2) la] by (simp add: lists_ok_def)
qed

text \<open>Some steps are left as long as an iteration is not placed, and every step of it is one less.\<close>

definition steps_left :: "placing \<Rightarrow> nat" where
  "steps_left ph = (case ph of Pending \<Rightarrow> 4 | CoreClaimed _ \<Rightarrow> 3 | CoreStored \<Rightarrow> 2 | AugmentedClaimed _ \<Rightarrow> 1 | Placed \<Rightarrow> 0 | Aborted \<Rightarrow> 0)"

lemma place_step_progress:
  assumes "placing_inv n P labels s" "i < n" "ps_phase s ! i \<noteq> Placed"
  shows "\<exists>ph. ps_phase (place_step n labels i s) = (ps_phase s)[i := ph] \<and> steps_left ph < steps_left (ps_phase s ! i)"
proof -
  have "ps_phase s ! i \<noteq> Aborted" using assms(1,2) nth_mem[of i "ps_phase s"] unfolding placing_inv_def by metis
  then show ?thesis using assms(3)
    by (cases "ps_phase s ! i") (auto simp: place_step_def Let_def steps_left_def)
qed

lemma placing_finishes:
  assumes "placing_inv n P labels s" "n < 2 ^ 32" "\<And>r. r < n \<Longrightarrow> core_of labels r < P \<and> augmented_of labels r < P"
  shows "\<exists>rest. set rest \<subseteq> {..<n} \<and> list_all (\<lambda>ph. ph = Placed) (ps_phase (fold (place_step n labels) rest s))"
  using assms(1)
proof (induction "sum_list (map steps_left (ps_phase s))" arbitrary: s rule: less_induct)
  case less
  show ?case
  proof (cases "list_all (\<lambda>ph. ph = Placed) (ps_phase s)")
    case True
    then show ?thesis by (intro exI[of _ "[]"]) simp
  next
    case False
    have len: "length (ps_phase s) = n" using less.prems by (simp add: placing_inv_def)
    obtain i where i: "i < n" "ps_phase s ! i \<noteq> Placed" using False len by (auto simp: list_all_length)
    obtain ph where ph: "ps_phase (place_step n labels i s) = (ps_phase s)[i := ph]" "steps_left ph < steps_left (ps_phase s ! i)"
      using place_step_progress[OF less.prems i] by blast
    have "sum_list (map steps_left (ps_phase (place_step n labels i s))) < sum_list (map steps_left (ps_phase s))"
      unfolding ph(1) using ph(2) i(1) len elem_le_sum_list[of i "map steps_left (ps_phase s)"]
      by (simp add: map_update sum_list_update)
    from less.hyps[OF this place_step_inv[OF less.prems i(1) assms(2,3)]]
    obtain rest where "set rest \<subseteq> {..<n}" "list_all (\<lambda>ph. ph = Placed) (ps_phase (fold (place_step n labels) rest (place_step n labels i s)))"
      by blast
    then show ?thesis using i(1) by (intro exI[of _ "i # rest"]) simp
  qed
qed

subsection \<open>The sequential loop\<close>

definition sequential_inv :: "nat \<Rightarrow> nat \<Rightarrow> (nat \<times> nat) list \<Rightarrow> nat \<Rightarrow> ace_lists \<Rightarrow> bool" where
  "sequential_inv n P labels k L \<longleftrightarrow> length (pl_core_forward L) = n \<and>
     (\<forall>i < k. pl_core_forward L ! i = slot (core_of labels) n [0..<k] i) \<and>
     lane_inv (core_of labels) n P [0..<k] (\<lambda>_. None) (pl_core_backward L) (pl_core_offsets L) \<and>
     lane_inv (augmented_of labels) n P [0..<k] (\<lambda>_. None) (pl_augmented_backward L) (pl_augmented_offsets L)"

lemma lane_place:
  assumes inv: "lane_inv lab n P [0..<k] (\<lambda>_. None) bw offs" and k: "k < n" "n < 2 ^ 32" and lab: "\<And>r. r < n \<Longrightarrow> lab r < P"
  shows "offs ! lab k < n" "offs ! lab k = slot lab n [0..<Suc k] k"
    "lane_inv lab n P [0..<Suc k] (\<lambda>_. None) (bw[offs ! lab k := k]) (offs[lab k := to_idx (offs ! lab k + 1)])"
proof -
  note claim = lane_claim[OF inv k(1) _ k(2) lab]
  have c: "offs ! lab k < n" "lane_inv lab n P ([0..<k] @ [k]) ((\<lambda>_. None)(k := Some (offs ! lab k))) bw (offs[lab k := to_idx (offs ! lab k + 1)])"
    using claim by simp_all
  have "lane_inv lab n P ([0..<k] @ [k]) ((\<lambda>_. None)(k := Some (offs ! lab k), k := None)) (bw[offs ! lab k := k]) (offs[lab k := to_idx (offs ! lab k + 1)])"
    using lane_store[OF c(2), of k "offs ! lab k"] lab by simp
  then show "lane_inv lab n P [0..<Suc k] (\<lambda>_. None) (bw[offs ! lab k := k]) (offs[lab k := to_idx (offs ! lab k + 1)])"
    by (simp add: fun_upd_def if_distrib cong: if_cong)
  show "offs ! lab k < n" by (rule c(1))
  show "offs ! lab k = slot lab n [0..<Suc k] k" using c(2) unfolding lane_inv_def by simp
qed

lemma place_vector_inv:
  assumes inv: "sequential_inv n P labels k L" and k: "k < n" "n < 2 ^ 32"
    and lab: "\<And>r. r < n \<Longrightarrow> core_of labels r < P \<and> augmented_of labels r < P"
  shows "\<exists>L'. place_vector n labels k L = Inr L' \<and> sequential_inv n P labels (Suc k) L'"
proof -
  let ?c = "core_of labels" and ?a = "augmented_of labels"
  have lc: "r < n \<Longrightarrow> ?c r < P" and la: "r < n \<Longrightarrow> ?a r < P" for r using lab by auto
  have ic: "lane_inv ?c n P [0..<k] (\<lambda>_. None) (pl_core_backward L) (pl_core_offsets L)"
    and ia: "lane_inv ?a n P [0..<k] (\<lambda>_. None) (pl_augmented_backward L) (pl_augmented_offsets L)"
    and fw: "length (pl_core_forward L) = n" "\<And>i. i < k \<Longrightarrow> pl_core_forward L ! i = slot ?c n [0..<k] i"
    using inv by (auto simp: sequential_inv_def)
  note c = lane_place[OF ic k lc] and a = lane_place[OF ia k la]
  let ?at = "pl_core_offsets L ! ?c k" and ?aug = "pl_augmented_offsets L ! ?a k"
  have small: "to_idx k = k" "to_idx ?at = ?at" using k c(1) by (auto intro!: to_idx_small)
  let ?L = "\<lparr>pl_core_forward = (pl_core_forward L)[k := ?at], pl_core_backward = (pl_core_backward L)[?at := k],
     pl_augmented_backward = (pl_augmented_backward L)[?aug := k],
     pl_core_offsets = (pl_core_offsets L)[?c k := to_idx (?at + 1)],
     pl_augmented_offsets = (pl_augmented_offsets L)[?a k := to_idx (?aug + 1)]\<rparr>"
  have "place_vector n labels k L = Inr ?L"
    using c(1) a(1) small unfolding core_of_def augmented_of_def by (simp add: place_vector_def Let_def bind_expects)
  moreover have "(pl_core_forward L)[k := ?at] ! i = slot ?c n [0..<Suc k] i" if "i < Suc k" for i
  proof (cases "i = k")
    case False
    then have "i \<in> set [0..<k]" using that by simp
    then show ?thesis using False fw(2)[of i] slot_append[of i "[0..<k]" ?c n k] that by simp
  qed (use c(2) fw(1) k in simp)
  ultimately show ?thesis using fw(1) c(3) a(3) by (simp add: sequential_inv_def del: upt_Suc)
qed

text \<open>The core rows in order of their partitions, and the inverse of that permutation.\<close>

definition sorted_lists :: "nat \<Rightarrow> nat \<Rightarrow> (nat \<times> nat) list \<Rightarrow> ace_lists \<Rightarrow> bool" where
  "sorted_lists n P labels L \<longleftrightarrow> pl_core_backward L = sort_key (core_of labels) [0..<n] \<and>
     pl_augmented_backward L = sort_key (augmented_of labels) [0..<n] \<and> length (pl_core_forward L) = n \<and>
     (\<forall>i < n. pl_core_forward L ! i < n \<and> pl_core_backward L ! (pl_core_forward L ! i) = i \<and>
        pl_core_forward L ! (pl_core_backward L ! i) = i)"

lemma lane_sorted:
  assumes inv: "lane_inv lab n P [0..<n] (\<lambda>_. None) bw offs" and lab: "\<And>r. r < n \<Longrightarrow> lab r < P"
  shows "bw = sort_key lab [0..<n]"
proof -
  have len: "length bw = n" using inv by (simp add: lane_inv_def)
  have all: "set [0..<n] = {..<n}" by auto
  have g: "grouped lab n P = sort_key lab [0..<n]"
    using buckets_sort[of n lab P 0] lab by (simp add: grouped_def)
  have "bw ! r = grouped lab n P ! r" if r: "r < n" for r
  proof -
    obtain k j where kj: "k < P" "j < length (bucket lab k n)" "r = bucket_start lab n k + j"
      using bucket_cover[of n lab P r, OF lab r] by blast
    have "slice bw (bucket_start lab n k) (length (bucket lab k n)) ! j = filter (\<lambda>i. lab i = k) [0..<n] ! j"
      using lane_full(1)[OF inv all _ lab kj(1)] by simp
    then have "bw ! r = bucket lab k n ! j"
      using kj bucket_end_le[of n lab P k, OF lab kj(1)] len by (simp add: slice_def bucket_def)
    then show ?thesis using grouped_nth(2)[OF kj(1,2)] kj(3) by simp
  qed
  moreover have "length (grouped lab n P) = n" by (rule grouped_length) (rule lab)
  ultimately show ?thesis unfolding g[symmetric] using len by (intro nth_equalityI) auto
qed

text \<open>Arrays of the sizes the build allocates.\<close>

definition list_arrays :: "nat \<Rightarrow> nat \<Rightarrow> bool \<Rightarrow> ace_lists \<Rightarrow> bool" where
  "list_arrays n P disk L \<longleftrightarrow> length (pl_core_forward L) = (if disk then n else 0) \<and>
     length (pl_core_backward L) = n \<and> length (pl_augmented_backward L) = n \<and>
     length (pl_core_offsets L) = P + 1 \<and> length (pl_augmented_offsets L) = P + 1"

lemma disk_lists:
  assumes lb: "labels_ok n P lb" and n: "0 < n" "n < 2 ^ 32" and P: "0 < P" and L: "list_arrays n P True L"
  shows "\<exists>L'. ace_create_forward_and_backward_lists n P lb schedule L = Some (Inr L') \<and>
    lists_ok n P (al_labels lb) L' \<and> sorted_lists n P (al_labels lb) L'"
proof -
  let ?lb = "al_labels lb"
  let ?L0 = "L\<lparr>pl_core_offsets := partition_offsets (al_core lb) P (pl_core_offsets L),
    pl_augmented_offsets := partition_offsets (al_augmented lb) P (pl_augmented_offsets L)\<rparr>"
  have lab: "r < n \<Longrightarrow> core_of ?lb r < P \<and> augmented_of ?lb r < P" for r using lb by (simp add: labels_ok_def)
  have lc: "r < n \<Longrightarrow> core_of ?lb r < P" and la: "r < n \<Longrightarrow> augmented_of ?lb r < P" for r using lab by auto
  have "sequential_inv n P ?lb 0 ?L0"
    using list_allocation[OF lb n(2) P] L by (simp add: sequential_inv_def list_arrays_def)
  then obtain L1 where L1: "fold_r (place_vector n ?lb) [0..<n] ?L0 = Inr L1" "sequential_inv n P ?lb n L1"
    using fold_r_upt[of 0 n "sequential_inv n P ?lb" "place_vector n ?lb" ?L0] place_vector_inv[OF _ _ n(2) lab] by auto
  have ic: "lane_inv (core_of ?lb) n P [0..<n] (\<lambda>_. None) (pl_core_backward L1) (pl_core_offsets L1)"
    and ia: "lane_inv (augmented_of ?lb) n P [0..<n] (\<lambda>_. None) (pl_augmented_backward L1) (pl_augmented_offsets L1)"
    and fw: "length (pl_core_forward L1) = n" "\<And>i. i < n \<Longrightarrow> pl_core_forward L1 ! i = slot (core_of ?lb) n [0..<n] i"
    using L1(2) by (auto simp: sequential_inv_def)
  have all: "set [0..<n] = {..<n}" by auto
  note bc = lane_blocks[OF ic all _ lc] and ba = lane_blocks[OF ia all _ la]
  have perm: "distinct (pl_core_backward L1)" "set (pl_core_backward L1) = {..<n}" "length (pl_core_backward L1) = n"
    using blocks_permute[OF bc(1) lc] bc(1) by (auto simp: blocks_def)
  have f: "pl_core_forward L1 ! i < n \<and> pl_core_backward L1 ! (pl_core_forward L1 ! i) = i" if "i < n" for i
    using fw(2)[OF that] ic that slot_below[of i "[0..<n]" n "core_of ?lb" P] lc by (auto simp: lane_inv_def)
  have "pl_core_forward L1 ! (pl_core_backward L1 ! r) = r" if r: "r < n" for r
  proof -
    have "pl_core_backward L1 ! r < n" using perm r by (metis lessThan_iff nth_mem)
    note b = f[OF this]
    then show ?thesis using nth_eq_iff_index_eq[OF perm(1), of "pl_core_forward L1 ! (pl_core_backward L1 ! r)" r] perm(3) r by blast
  qed
  then have "lists_ok n P ?lb (L1\<lparr>pl_core_offsets := restore_offsets P (pl_core_offsets L1), pl_augmented_offsets := restore_offsets P (pl_augmented_offsets L1)\<rparr>) \<and>
      sorted_lists n P ?lb (L1\<lparr>pl_core_offsets := restore_offsets P (pl_core_offsets L1), pl_augmented_offsets := restore_offsets P (pl_augmented_offsets L1)\<rparr>)"
    using bc ba f fw(1) lane_sorted[OF ic lc] lane_sorted[OF ia la] by (simp add: lists_ok_def sorted_lists_def)
  moreover have "pl_core_forward L \<noteq> []" using L n(1) by (auto simp: list_arrays_def)
  ultimately show ?thesis
    using L1(1) L n(1) by (simp add: ace_create_forward_and_backward_lists_def Let_def list_arrays_def bind_expects)
qed

section \<open>The lists are right\<close>

text \<open>
  C14: In the memory build the loop that makes the lists runs in parallel, with two atomic counters. Under
  every interleaving of its iterations no bound check fails; when the loop is over, each partition's
  places hold exactly its rows, in some order, the lists are permutations of the rows and the offsets are
  the starts of the partitions; and from every point the loop can be finished.
\<close>

theorem ace_parallel_lists:
  assumes "labels_ok n P lb" "n < 2 ^ 32" "0 < P" "list_arrays n P False L" "set schedule \<subseteq> {..<n}"
  shows "(case ace_create_forward_and_backward_lists n P lb schedule L of
      None \<Rightarrow> True
    | Some (Inl _) \<Rightarrow> False
    | Some (Inr L') \<Rightarrow> lists_ok n P (al_labels lb) L' \<and> distinct (pl_core_backward L') \<and> set (pl_core_backward L') = {..<n}) \<and>
    (\<exists>rest. set rest \<subseteq> {..<n} \<and> ace_create_forward_and_backward_lists n P lb (schedule @ rest) L \<noteq> None)"
proof -
  let ?lb = "al_labels lb"
  let ?L0 = "L\<lparr>pl_core_offsets := partition_offsets (al_core lb) P (pl_core_offsets L),
    pl_augmented_offsets := partition_offsets (al_augmented lb) P (pl_augmented_offsets L)\<rparr>"
  have lab: "\<And>r. r < n \<Longrightarrow> core_of ?lb r < P \<and> augmented_of ?lb r < P" using assms(1) by (simp add: labels_ok_def)
  have start: "placing_inv n P ?lb \<lparr>ps_lists = ?L0, ps_phase = replicate n Pending\<rparr>"
    by (rule placing_start[OF assms(1-3)]) (use assms(4) in \<open>simp_all add: list_arrays_def\<close>)
  have inv: "placing_inv n P ?lb (run_placing n ?lb schedule ?L0)"
    unfolding run_placing_def by (rule placing_run[OF start assms(2) lab assms(5)])
  have created: "ace_create_forward_and_backward_lists n P lb sch L = map_option (map_sum id (\<lambda>L. L\<lparr>pl_core_offsets := restore_offsets P (pl_core_offsets L),
      pl_augmented_offsets := restore_offsets P (pl_augmented_offsets L)\<rparr>)) (place_in_parallel n ?lb sch ?L0)" for sch
    using assms(4) by (simp add: ace_create_forward_and_backward_lists_def Let_def list_arrays_def bind_expects expects_def)
  have ok: "\<not> list_ex (\<lambda>ph. ph = Aborted) (ps_phase (run_placing n ?lb schedule ?L0))"
    using inv by (auto simp: placing_inv_def list_ex_iff)
  have fin: "lists_ok n P ?lb L' \<and> distinct (pl_core_backward L') \<and> set (pl_core_backward L') = {..<n}"
    if "ace_create_forward_and_backward_lists n P lb schedule L = Some (Inr L')" for L'
  proof -
    have "lists_ok n P ?lb L'"
      using that placing_done[OF inv _ lab] ok unfolding created place_in_parallel_def Let_def by (auto split: if_splits)
    moreover have "\<And>r. r < n \<Longrightarrow> core_of ?lb r < P" using lab by blast
    ultimately show ?thesis using blocks_permute[of "core_of ?lb" n P] by (simp add: lists_ok_def)
  qed
  have "\<not> (\<exists>e. ace_create_forward_and_backward_lists n P lb schedule L = Some (Inl e))"
    using ok unfolding created place_in_parallel_def Let_def by auto
  moreover obtain rest where "set rest \<subseteq> {..<n}" "list_all (\<lambda>ph. ph = Placed) (ps_phase (fold (place_step n ?lb) rest (run_placing n ?lb schedule ?L0)))"
    using placing_finishes[OF inv assms(2) lab] by blast
  then have "\<exists>rest. set rest \<subseteq> {..<n} \<and> ace_create_forward_and_backward_lists n P lb (schedule @ rest) L \<noteq> None"
    unfolding created place_in_parallel_def Let_def run_placing_def fold_append comp_def by (intro exI[of _ rest]) simp
  ultimately show ?thesis using fin by (auto split: option.splits sum.splits)
qed

text \<open>
  C35: In the disk build the lists are the stable sorts of the rows by their core and their augmented
  partition, no bound check fails, and the forward mapping is the inverse of the core list.
\<close>

theorem ace_disk_lists_sorted:
  assumes "labels_ok n P lb" "0 < n" "n < 2 ^ 32" "0 < P" "list_arrays n P True L"
  shows "\<exists>L'. ace_create_forward_and_backward_lists n P lb schedule L = Some (Inr L') \<and>
    pl_core_backward L' = sort_key (core_of (al_labels lb)) [0..<n] \<and>
    pl_augmented_backward L' = sort_key (augmented_of (al_labels lb)) [0..<n] \<and>
    pl_core_offsets L' = starts (core_of (al_labels lb)) n P \<and> pl_augmented_offsets L' = starts (augmented_of (al_labels lb)) n P \<and>
    (\<forall>i < n. pl_core_backward L' ! (pl_core_forward L' ! i) = i \<and> pl_core_forward L' ! (pl_core_backward L' ! i) = i)"
  using disk_lists[OF assms, of schedule] by (auto simp: lists_ok_def sorted_lists_def)

definition demo_labelled :: ace_labels where
  "demo_labelled = \<lparr>al_labels = [(1, 0), (0, 1), (1, 2)], al_core = [1, 2, 0], al_augmented = [1, 1, 1]\<rparr>"

definition demo_lists :: "nat list \<Rightarrow> ace_lists" where
  "demo_lists fw = \<lparr>pl_core_forward = fw, pl_core_backward = [0, 0, 0], pl_augmented_backward = [0, 0, 0],
     pl_core_offsets = [0, 0, 0, 0], pl_augmented_offsets = [0, 0, 0, 0]\<rparr>"

lemma demo_labelled_ok: "labels_ok 3 3 demo_labelled"
  by (simp add: labels_ok_def demo_labelled_def core_of_def augmented_of_def bucket_def numeral_eq_Suc less_Suc_eq)

theorem ace_parallel_lists_witness:
  "(case ace_create_forward_and_backward_lists 3 3 demo_labelled [2, 0, 0, 2, 1, 2, 1, 0, 1, 2, 0, 1] (demo_lists []) of
      Some (Inr L') \<Rightarrow> lists_ok 3 3 (al_labels demo_labelled) L' \<and> pl_core_backward L' = [1, 2, 0] | _ \<Rightarrow> False)"
proof -
  have "ace_create_forward_and_backward_lists 3 3 demo_labelled [2, 0, 0, 2, 1, 2, 1, 0, 1, 2, 0, 1] (demo_lists []) =
      Some (Inr \<lparr>pl_core_forward = [], pl_core_backward = [1, 2, 0], pl_augmented_backward = [0, 1, 2],
        pl_core_offsets = [0, 1, 3, 3], pl_augmented_offsets = [0, 1, 2, 3]\<rparr>)"
    by (simp add: ace_create_forward_and_backward_lists_def place_in_parallel_def run_placing_def place_step_def Let_def
      demo_labelled_def demo_lists_def partition_offsets_def restore_offsets_def upt_rec expects_def numeral_3_eq_3)
  moreover have "list_arrays 3 3 False (demo_lists [])" by (simp add: list_arrays_def demo_lists_def)
  ultimately show ?thesis
    using ace_parallel_lists[OF demo_labelled_ok, of "demo_lists []" "[2, 0, 0, 2, 1, 2, 1, 0, 1, 2, 0, 1]"] by auto
qed

theorem ace_disk_lists_sorted_witness:
  "\<exists>L'. ace_create_forward_and_backward_lists 3 3 demo_labelled [] (demo_lists [0, 0, 0]) = Some (Inr L') \<and> pl_core_backward L' = [1, 0, 2]"
proof -
  have "list_arrays 3 3 True (demo_lists [0, 0, 0])" by (simp add: list_arrays_def demo_lists_def)
  moreover have "sort_key (core_of (al_labels demo_labelled)) [0..<3] = [1, 0, 2]"
    by (simp add: demo_labelled_def core_of_def upt_rec)
  ultimately show ?thesis using ace_disk_lists_sorted[OF demo_labelled_ok, of "demo_lists [0, 0, 0]" "[]"] by auto
qed

end
