(* ===== verification/AceGraph.thy ===== *)
theory AceGraph imports AcePartition begin

text \<open>
  The graph of a partition (\<^verbatim>\<open>cpp/src/neighbors/detail/cagra/cagra_ace.cuh\<close>): gathering the rows of a
  partition, and translating the ids of its graph, into rows of the dataset in the memory build and into
  places of the reordered dataset in the disk build. The two graphs are the same up to that order.
\<close>

section \<open>Gathering and translating\<close>

definition ace_gather_partition_dataset :: "nat \<Rightarrow> nat \<Rightarrow> nat \<Rightarrow> nat \<Rightarrow> host_matrix \<Rightarrow> ace_lists \<Rightarrow> bytes list \<Rightarrow> bytes list" where
  "ace_gather_partition_dataset vector_size_bytes core_sub_dataset_size augmented_sub_dataset_size partition_id dataset L sub_dataset =
     (let sub1 = fold (\<lambda>j sub. let i = pl_core_backward L ! (j + pl_core_offsets L ! partition_id)
                               in sub[j := take vector_size_bytes (hm_rows dataset ! i)]) [0..<core_sub_dataset_size] sub_dataset
      in fold (\<lambda>j sub. let i = pl_augmented_backward L ! (j + pl_augmented_offsets L ! partition_id)
                        in sub[j + core_sub_dataset_size := take vector_size_bytes (hm_rows dataset ! i)]) [0..<augmented_sub_dataset_size] sub1)"

text \<open>A matrix of ids on the device, row behind row.\<close>

record device_graph =
  dg_rows :: nat
  dg_cols :: nat
  dg_data :: "nat list"

text \<open>The copy of the first rows of a graph into host memory: it copies as many elements as the target has.\<close>

definition copy_sub_graph :: "device_graph \<Rightarrow> nat \<Rightarrow> nat \<Rightarrow> nat list list" where
  "copy_sub_graph g rows cols = map (\<lambda>i. slice (dg_data g) (i * cols) cols) [0..<rows]"

definition ace_adjust_sub_graph_ids :: "nat \<Rightarrow> nat \<Rightarrow> nat \<Rightarrow> nat list list \<Rightarrow> ace_lists \<Rightarrow> nat list list \<Rightarrow> nat list list" where
  "ace_adjust_sub_graph_ids core_sub_dataset_size graph_degree partition_id sub_search_graph L search_graph =
     fold (\<lambda>i sg.
       let i_reordered = i + pl_core_offsets L ! partition_id;
           i_original = pl_core_backward L ! i_reordered
       in fold (\<lambda>k sg.
            let j = sub_search_graph ! i ! k;
                value = (if j = kInvalidNeighbor then kInvalidNeighbor
                         else if j < core_sub_dataset_size then
                           let j_reordered = j + pl_core_offsets L ! partition_id in pl_core_backward L ! j_reordered
                         else
                           let j_augmented = j - core_sub_dataset_size in
                           pl_augmented_backward L ! (j_augmented + pl_augmented_offsets L ! partition_id))
            in sg[i_original := (sg ! i_original)[k := to_idx value]]) [0..<graph_degree] sg)
       [0..<core_sub_dataset_size] search_graph"

definition ace_adjust_sub_graph_ids_disk_kernel :: "nat list \<Rightarrow> nat \<Rightarrow> nat \<Rightarrow> nat \<Rightarrow> nat list \<Rightarrow> nat \<Rightarrow> nat list \<Rightarrow> nat list" where
  "ace_adjust_sub_graph_ids_disk_kernel sub_search_graph graph_edges core_sub_dataset_size core_partition_offset augmented_reordered_ids edge_id adjusted =
     (if graph_edges \<le> edge_id then adjusted
      else let neighbor = sub_search_graph ! edge_id in
        adjusted[edge_id :=
          (if neighbor = kInvalidNeighbor then kInvalidNeighbor
           else if neighbor < core_sub_dataset_size then to_idx (to_idx neighbor + core_partition_offset)
           else augmented_reordered_ids ! (neighbor - core_sub_dataset_size))])"

text \<open>The threads of the grid run in the order \<open>threads\<close>; each writes an element of its own.\<close>

definition ace_adjust_sub_graph_ids_disk :: "nat list \<Rightarrow> nat \<Rightarrow> nat \<Rightarrow> nat \<Rightarrow> nat \<Rightarrow> device_graph \<Rightarrow> device_graph \<Rightarrow> ace_lists \<Rightarrow> ace_error + device_graph" where
  "ace_adjust_sub_graph_ids_disk threads core_sub_dataset_size augmented_sub_dataset_size graph_degree partition_id sub_search_graph adjusted_search_graph L =
     bind_r (expects (core_sub_dataset_size \<le> dg_rows sub_search_graph) ForeignGraphRows) (\<lambda>_.
     bind_r (expects (dg_cols sub_search_graph = graph_degree) ForeignGraphDegree) (\<lambda>_.
     bind_r (expects (dg_rows adjusted_search_graph = core_sub_dataset_size \<and> dg_cols adjusted_search_graph = graph_degree) AdjustedShape) (\<lambda>_.
     let augmented_offset = pl_augmented_offsets L ! partition_id in
     bind_r (expects (augmented_offset + augmented_sub_dataset_size \<le> length (pl_augmented_backward L)) AugmentedTooLarge) (\<lambda>_.
     let augmented_reordered_ids =
           map (\<lambda>i. let original_id = pl_augmented_backward L ! (augmented_offset + i) in to_idx (pl_core_forward L ! original_id))
             [0..<augmented_sub_dataset_size];
         graph_edges = core_sub_dataset_size * graph_degree
     in if graph_edges = 0 then Inr adjusted_search_graph
        else Inr (adjusted_search_graph\<lparr>dg_data :=
          fold (ace_adjust_sub_graph_ids_disk_kernel (dg_data sub_search_graph) graph_edges core_sub_dataset_size
                  (pl_core_offsets L ! partition_id) augmented_reordered_ids)
            threads (dg_data adjusted_search_graph)\<rparr>)))))"

text \<open>The grid has blocks of 256 threads, enough for every edge.\<close>

definition grid_threads :: "nat \<Rightarrow> nat" where
  "grid_threads graph_edges = (graph_edges + 255) div 256 * 256"

lemma grid_covers: "e < edges \<Longrightarrow> e < grid_threads edges"
  unfolding grid_threads_def using div_mult_mod_eq[of "edges + 255" 256] mod_less_divisor[of 256 "edges + 255"] by linarith

section \<open>The rows of a partition\<close>

definition core_size :: "nat \<Rightarrow> (nat \<times> nat) list \<Rightarrow> nat \<Rightarrow> nat" where
  "core_size n labels p = length (bucket (core_of labels) p n)"

definition augmented_size :: "nat \<Rightarrow> (nat \<times> nat) list \<Rightarrow> nat \<Rightarrow> nat" where
  "augmented_size n labels p = length (bucket (augmented_of labels) p n)"

definition core_start :: "nat \<Rightarrow> (nat \<times> nat) list \<Rightarrow> nat \<Rightarrow> nat" where
  "core_start n labels p = bucket_start (core_of labels) n p"

definition augmented_start :: "nat \<Rightarrow> (nat \<times> nat) list \<Rightarrow> nat \<Rightarrow> nat" where
  "augmented_start n labels p = bucket_start (augmented_of labels) n p"

definition partition_rows :: "nat \<Rightarrow> (nat \<times> nat) list \<Rightarrow> ace_lists \<Rightarrow> nat \<Rightarrow> nat list" where
  "partition_rows n labels L p =
     slice (pl_core_backward L) (core_start n labels p) (core_size n labels p) @
     slice (pl_augmented_backward L) (augmented_start n labels p) (augmented_size n labels p)"

text \<open>What the later steps use of the lists: where a partition lies, and that its rows are rows of the dataset.\<close>

definition labels_in :: "nat \<Rightarrow> nat \<Rightarrow> (nat \<times> nat) list \<Rightarrow> bool" where
  "labels_in n P labels \<longleftrightarrow> (\<forall>r < n. core_of labels r < P \<and> augmented_of labels r < P)"

lemma labels_ok_in: "labels_ok n P lb \<Longrightarrow> labels_in n P (al_labels lb)"
  by (simp add: labels_ok_def labels_in_def)

lemma partition_room:
  assumes "labels_in n P labels" "p < P"
  shows "core_start n labels p + core_size n labels p \<le> n" "augmented_start n labels p + augmented_size n labels p \<le> n"
  using assms bucket_end_le[of n "core_of labels" P p] bucket_end_le[of n "augmented_of labels" P p]
  by (simp_all add: labels_in_def core_start_def core_size_def augmented_start_def augmented_size_def)

lemma lists_ok_facts:
  assumes "lists_ok n P labels L" "labels_in n P labels"
  shows "length (pl_core_backward L) = n" "length (pl_augmented_backward L) = n"
    "set (pl_core_backward L) = {..<n}" "set (pl_augmented_backward L) = {..<n}" "distinct (pl_core_backward L)"
    "p < P \<Longrightarrow> pl_core_offsets L ! p = core_start n labels p" "p < P \<Longrightarrow> pl_augmented_offsets L ! p = augmented_start n labels p"
proof -
  have b: "blocks (core_of labels) n P (pl_core_backward L)" "blocks (augmented_of labels) n P (pl_augmented_backward L)"
    using assms(1) by (simp_all add: lists_ok_def)
  show "length (pl_core_backward L) = n" "length (pl_augmented_backward L) = n" using b by (simp_all add: blocks_def)
  show "set (pl_core_backward L) = {..<n}" "distinct (pl_core_backward L)" "set (pl_augmented_backward L) = {..<n}"
    using blocks_permute[OF b(1)] blocks_permute[OF b(2)] assms(2) by (auto simp: labels_in_def)
  show "p < P \<Longrightarrow> pl_core_offsets L ! p = core_start n labels p" "p < P \<Longrightarrow> pl_augmented_offsets L ! p = augmented_start n labels p"
    using assms(1) by (simp_all add: lists_ok_def starts_def core_start_def augmented_start_def del: upt_Suc)
qed

lemma fold_own_slots:
  assumes "length xs = off + n" 
  shows "fold (\<lambda>j xs. xs[off + j := f j]) [0..<n] xs = take off xs @ map f [0..<n]"
proof -
  have "fold (\<lambda>j xs. xs[off + j := f j]) [0..<m] xs = take off xs @ map f [0..<m] @ drop (off + m) xs" if "m \<le> n" for m
    using that
  proof (induction m)
    case (Suc m)
    have "drop (off + m) xs = xs ! (off + m) # drop (off + Suc m) xs" using assms Suc.prems by (simp add: Cons_nth_drop_Suc)
    then show ?case using Suc assms by (simp add: list_update_append)
  qed simp
  from this[of n] assms show ?thesis by simp
qed

lemma gather_rows:
  assumes L: "lists_ok n P labels L" "labels_in n P labels" and p: "p < P"
    and sub: "length sub = core_size n labels p + augmented_size n labels p"
  shows "ace_gather_partition_dataset vs (core_size n labels p) (augmented_size n labels p) p ds L sub =
    map (\<lambda>i. take vs (hm_rows ds ! i)) (partition_rows n labels L p)"
proof -
  note f = lists_ok_facts[OF L]
  let ?c = "core_size n labels p" and ?a = "augmented_size n labels p"
  let ?cr = "\<lambda>j. take vs (hm_rows ds ! (pl_core_backward L ! (j + core_start n labels p)))"
  let ?ar = "\<lambda>j. take vs (hm_rows ds ! (pl_augmented_backward L ! (j + augmented_start n labels p)))"
  have one: "fold (\<lambda>j xs. xs[j := ?cr j]) [0..<?c] sub = map ?cr [0..<?c] @ drop ?c sub"
  proof -
    have "fold (\<lambda>j xs. xs[j := ?cr j]) [0..<m] sub = map ?cr [0..<m] @ drop m sub" if "m \<le> ?c" for m
      using that
    proof (induction m)
      case (Suc m)
      then have "drop m sub = sub ! m # drop (Suc m) sub" using sub by (simp add: Cons_nth_drop_Suc)
      then show ?case using Suc by (simp add: list_update_append)
    qed simp
    then show ?thesis by simp
  qed
  have two: "fold (\<lambda>j xs. xs[?c + j := ?ar j]) [0..<?a] (map ?cr [0..<?c] @ drop ?c sub) = map ?cr [0..<?c] @ map ?ar [0..<?a]"
    using fold_own_slots[of "map ?cr [0..<?c] @ drop ?c sub" ?c ?a ?ar] sub by simp
  have slices: "map g (slice bw st len) = map (\<lambda>j. g (bw ! (j + st))) [0..<len]" if "st + len \<le> length bw" for g :: "nat \<Rightarrow> bytes" and bw st len
    using that by (intro nth_equalityI) (simp_all add: slice_def add.commute)
  show ?thesis
    using one two partition_room[OF L(2) p] f p
    by (simp add: ace_gather_partition_dataset_def Let_def partition_rows_def slices add.commute)
qed

section \<open>The ids of a partition\<close>

text \<open>Local ids stand for the rows of the partition.\<close>

definition translate_id :: "(nat \<Rightarrow> nat) \<Rightarrow> nat \<Rightarrow> nat" where
  "translate_id f v = (if v = kInvalidNeighbor then kInvalidNeighbor else f v)"

definition graph_ok :: "nat \<Rightarrow> nat \<Rightarrow> device_graph \<Rightarrow> bool" where
  "graph_ok rows degree g \<longleftrightarrow> dg_rows g = rows \<and> dg_cols g = degree \<and> length (dg_data g) = rows * degree \<and>
     (\<forall>v \<in> set (dg_data g). v = kInvalidNeighbor \<or> v < rows)"

lemma partition_rows_nth:
  assumes L: "lists_ok n P labels L" "labels_in n P labels" and p: "p < P"
  shows "length (partition_rows n labels L p) = core_size n labels p + augmented_size n labels p"
    "v < core_size n labels p \<Longrightarrow> partition_rows n labels L p ! v = pl_core_backward L ! (v + core_start n labels p)"
    "core_size n labels p \<le> v \<Longrightarrow> v < core_size n labels p + augmented_size n labels p \<Longrightarrow>
       partition_rows n labels L p ! v = pl_augmented_backward L ! (v - core_size n labels p + augmented_start n labels p)"
    "v < core_size n labels p + augmented_size n labels p \<Longrightarrow> partition_rows n labels L p ! v < n"
proof -
  note room = partition_room[OF L(2) p] and f = lists_ok_facts[OF L]
  show len: "length (partition_rows n labels L p) = core_size n labels p + augmented_size n labels p"
    using room f by (simp add: partition_rows_def slice_def)
  show "v < core_size n labels p \<Longrightarrow> partition_rows n labels L p ! v = pl_core_backward L ! (v + core_start n labels p)"
    using room f by (simp add: partition_rows_def slice_def nth_append add.commute)
  show "core_size n labels p \<le> v \<Longrightarrow> v < core_size n labels p + augmented_size n labels p \<Longrightarrow>
       partition_rows n labels L p ! v = pl_augmented_backward L ! (v - core_size n labels p + augmented_start n labels p)"
    using room f by (simp add: partition_rows_def slice_def nth_append add.commute)
  have "set (partition_rows n labels L p) \<subseteq> {..<n}"
    using f(3,4) by (auto simp: partition_rows_def slice_def dest!: in_set_takeD in_set_dropD)
  then show "v < core_size n labels p + augmented_size n labels p \<Longrightarrow> partition_rows n labels L p ! v < n"
    using nth_mem[of v "partition_rows n labels L p"] len by (metis lessThan_iff subsetD)
qed

lemma fold_row_update:
  assumes "r < length sg" "length (sg ! r) = d"
  shows "fold (\<lambda>k sg. sg[r := (sg ! r)[k := f k]]) [0..<d] sg = sg[r := map f [0..<d]]"
proof -
  have "fold (\<lambda>k sg. sg[r := (sg ! r)[k := f k]]) [0..<m] sg = sg[r := map f [0..<m] @ drop m (sg ! r)]" if "m \<le> d" for m
    using that
  proof (induction m)
    case (Suc m)
    then have "drop m (sg ! r) = sg ! r ! m # drop (Suc m) (sg ! r)" using assms(2) by (simp add: Cons_nth_drop_Suc)
    then show ?case using Suc assms(1) by (simp add: list_update_append)
  qed simp
  from this[of d] assms(2) show ?thesis by simp
qed

definition places :: "nat \<Rightarrow> (nat \<times> nat) list \<Rightarrow> ace_lists \<Rightarrow> nat \<Rightarrow> nat set" where
  "places n labels L p = (\<lambda>i. pl_core_backward L ! (i + core_start n labels p)) ` {..<core_size n labels p}"

lemma copied_row:
  assumes "graph_ok rows d g" "i < c" "c \<le> rows" "k < d"
  shows "copy_sub_graph g c d ! i ! k = dg_data g ! (i * d + k)" "dg_data g ! (i * d + k) \<in> set (dg_data g)"
proof -
  have "i * d + k < (i + 1) * d" using assms(4) by simp
  also have "\<dots> \<le> rows * d" using assms(2,3) by (intro mult_le_mono1) simp
  finally have lt: "i * d + k < length (dg_data g)" using assms(1) by (simp add: graph_ok_def)
  then show "dg_data g ! (i * d + k) \<in> set (dg_data g)" by simp
  have "(i + 1) * d \<le> rows * d" using assms(2,3) by (intro mult_le_mono1) simp
  then have "(i + 1) * d \<le> length (dg_data g)" using assms(1) by (simp add: graph_ok_def)
  then show "copy_sub_graph g c d ! i ! k = dg_data g ! (i * d + k)"
    using assms(2,4) by (simp add: copy_sub_graph_def slice_def)
qed

text \<open>Every row of a set of distinct rows is filled, and no other changes.\<close>

lemma fill_rows:
  fixes v :: "nat \<Rightarrow> nat \<Rightarrow> nat"
  assumes "\<And>i. i < c \<Longrightarrow> at i < n" "\<And>i j. i < c \<Longrightarrow> j < c \<Longrightarrow> i \<noteq> j \<Longrightarrow> at i \<noteq> at j" "length sg = n" "\<forall>row \<in> set sg. length row = d"
  defines "fill m \<equiv> fold (\<lambda>i sg. fold (\<lambda>k sg. sg[at i := (sg ! at i)[k := v i k]]) [0..<d] sg) [0..<m] sg"
  assumes "m \<le> c"
  shows "length (fill m) = n \<and> (\<forall>row \<in> set (fill m). length row = d) \<and> (\<forall>i < m. fill m ! at i = map (v i) [0..<d]) \<and>
    (\<forall>r < n. r \<notin> at ` {..<m} \<longrightarrow> fill m ! r = sg ! r)"
  using assms(6)
proof (induction m)
  case 0
  show ?case using assms(3,4) by (simp add: fill_def)
next
  case (Suc m)
  have s: "length (fill m) = n" "\<forall>row \<in> set (fill m). length row = d" "\<forall>i < m. fill m ! at i = map (v i) [0..<d]"
    "\<forall>r < n. r \<notin> at ` {..<m} \<longrightarrow> fill m ! r = sg ! r" using Suc by auto
  have m: "at m < length (fill m)" using assms(1)[of m] Suc.prems s(1) by simp
  have "length (fill m ! at m) = d" using s(2) m by simp
  then have step: "fill (Suc m) = (fill m)[at m := map (v m) [0..<d]]"
    using fold_row_update[OF m, of d "v m"] by (simp add: fill_def)
  have "\<forall>row \<in> set (fill (Suc m)). length row = d"
    unfolding step using s(2) set_update_subset_insert[of "fill m" "at m" "map (v m) [0..<d]"] by auto
  moreover have "fill (Suc m) ! at i = map (v i) [0..<d]" if "i < Suc m" for i
    using that s(3) m assms(2)[of m i] Suc.prems unfolding step by (cases "i = m") simp_all
  moreover have "fill (Suc m) ! r = sg ! r" if "r < n" "r \<notin> at ` {..<Suc m}" for r
    using that s(4) unfolding step by (auto simp: lessThan_Suc)
  ultimately show ?case using s(1) step by simp
qed

text \<open>The memory build: the rows of the partition get their neighbours as rows of the dataset; no other row changes.\<close>

lemma adjusted_in_memory:
  assumes L: "lists_ok n P labels L" "labels_in n P labels" and p: "p < P" and n: "n < 2 ^ 32"
    and g: "graph_ok (core_size n labels p + augmented_size n labels p) d g"
    and sg: "length sg = n" "\<forall>row \<in> set sg. length row = d"
  defines "sg' \<equiv> ace_adjust_sub_graph_ids (core_size n labels p) d p (copy_sub_graph g (core_size n labels p) d) L sg"
  shows "length sg' = n" "\<forall>row \<in> set sg'. length row = d"
    "i < core_size n labels p \<Longrightarrow> sg' ! (pl_core_backward L ! (i + core_start n labels p)) =
       map (\<lambda>k. translate_id (\<lambda>v. partition_rows n labels L p ! v) (dg_data g ! (i * d + k))) [0..<d]"
    "r < n \<Longrightarrow> r \<notin> places n labels L p \<Longrightarrow> sg' ! r = sg ! r"
proof -
  let ?c = "core_size n labels p" and ?a = "augmented_size n labels p" and ?bw = "pl_core_backward L"
  let ?at = "\<lambda>i. ?bw ! (i + core_start n labels p)"
  note f = lists_ok_facts[OF L] and room = partition_room[OF L(2) p] and rows = partition_rows_nth[OF L p]
  have at: "?at i < n" if "i < ?c" for i
    using that room f(1,3) by (metis add.commute add_less_cancel_left lessThan_iff nth_mem order_less_le_trans)
  have inj: "?at i \<noteq> ?at j" if "i < ?c" "j < ?c" "i \<noteq> j" for i j
    using that room f(1,5) by (simp add: nth_eq_iff_index_eq)
  define val where "val i k = (let j = copy_sub_graph g ?c d ! i ! k;
      value = (if j = kInvalidNeighbor then kInvalidNeighbor else if j < ?c then ?bw ! (j + core_start n labels p)
        else pl_augmented_backward L ! (j - ?c + augmented_start n labels p)) in to_idx value)" for i k
  have val: "map (val i) [0..<d] = map (\<lambda>k. translate_id (\<lambda>v. partition_rows n labels L p ! v) (dg_data g ! (i * d + k))) [0..<d]"
    if i: "i < ?c" for i
  proof (rule map_cong[OF refl])
    fix k assume "k \<in> set [0..<d]"
    then have "k < d" by simp
    note c = copied_row[OF g i le_add1 this]
    have "dg_data g ! (i * d + k) = kInvalidNeighbor \<or> dg_data g ! (i * d + k) < ?c + ?a" using g c(2) unfolding graph_ok_def by blast
    then show "val i k = translate_id (\<lambda>v. partition_rows n labels L p ! v) (dg_data g ! (i * d + k))"
      using rows(2,3,4)[of "dg_data g ! (i * d + k)"] n unfolding val_def c(1) Let_def
      by (auto simp: translate_id_def kInvalidNeighbor_def)
  qed
  have run: "sg' = fold (\<lambda>i sg. fold (\<lambda>k sg. sg[?at i := (sg ! ?at i)[k := val i k]]) [0..<d] sg) [0..<?c] sg"
    unfolding sg'_def ace_adjust_sub_graph_ids_def val_def Let_def f(6,7)[OF p] ..
  note filled = fill_rows[where v = val and c = "?c" and at = "?at" and n = n and sg = sg and d = d and m = "?c", OF at inj sg order_refl, folded run]
  show "length sg' = n" "\<forall>row \<in> set sg'. length row = d" using filled by simp_all
  show "i < ?c \<Longrightarrow> sg' ! ?at i = map (\<lambda>k. translate_id (\<lambda>v. partition_rows n labels L p ! v) (dg_data g ! (i * d + k))) [0..<d]"
    using filled val by simp
  show "r < n \<Longrightarrow> r \<notin> places n labels L p \<Longrightarrow> sg' ! r = sg ! r" using filled by (simp add: places_def)
qed

lemma forward_inverse:
  assumes "sorted_lists n P labels L" "i < n"
  shows "pl_core_forward L ! i < n" "pl_core_backward L ! (pl_core_forward L ! i) = i" "pl_core_forward L ! (pl_core_backward L ! i) = i"
  using assms unfolding sorted_lists_def by blast+

text \<open>The disk build: the threads fill the edges in any order.\<close>

lemma own_elements:
  assumes "\<forall>e < edges. e < length xs"
  shows "length (fold (\<lambda>e xs. if edges \<le> e then xs else xs[e := f e]) threads xs) = length xs \<and>
    (\<forall>e < edges. fold (\<lambda>e xs. if edges \<le> e then xs else xs[e := f e]) threads xs ! e = (if e \<in> set threads then f e else xs ! e))"
  using assms
proof (induction threads rule: rev_induct)
  case (snoc t threads)
  then show ?case by (auto simp: nth_list_update not_le)
qed simp

lemma adjusted_on_disk:
  assumes L: "lists_ok n P labels L" "labels_in n P labels" "sorted_lists n P labels L" and p: "p < P" and n: "n < 2 ^ 32"
    and g: "graph_ok (core_size n labels p + augmented_size n labels p) d g"
    and adj: "dg_rows adj = core_size n labels p" "dg_cols adj = d" "length (dg_data adj) = core_size n labels p * d"
    and th: "{..<core_size n labels p * d} \<subseteq> set threads"
  shows "\<exists>adj'. ace_adjust_sub_graph_ids_disk threads (core_size n labels p) (augmented_size n labels p) d p g adj L = Inr adj' \<and>
    dg_data adj' = map (translate_id (\<lambda>v. pl_core_forward L ! (partition_rows n labels L p ! v))) (take (core_size n labels p * d) (dg_data g))"
proof -
  let ?c = "core_size n labels p" and ?a = "augmented_size n labels p"
  note f = lists_ok_facts[OF L(1,2)] and room = partition_room[OF L(2) p] and rows = partition_rows_nth[OF L(1,2) p]
  have fw: "pl_core_forward L ! i < n \<and> pl_core_forward L ! (pl_core_backward L ! i) = i" if "i < n" for i
    using forward_inverse[OF L(3) that] by blast
  let ?ids = "map (\<lambda>i. to_idx (pl_core_forward L ! (pl_augmented_backward L ! (augmented_start n labels p + i)))) [0..<?a]"
  let ?new = "\<lambda>v. if v = kInvalidNeighbor then kInvalidNeighbor else if v < ?c then to_idx (to_idx v + core_start n labels p) else ?ids ! (v - ?c)"
  have new: "?new v = translate_id (\<lambda>v. pl_core_forward L ! (partition_rows n labels L p ! v)) v"
    if v: "v = kInvalidNeighbor \<or> v < ?c + ?a" for v
  proof (cases "v = kInvalidNeighbor \<or> ?c \<le> v")
    case True
    have "pl_core_forward L ! (partition_rows n labels L p ! v) < 2 ^ 32" if "v < ?c + ?a"
      using fw[OF rows(4)[OF that]] n by linarith
    then show ?thesis using True v rows(3)[of v] by (auto simp: translate_id_def add.commute)
  next
    case False
    then have c: "v < ?c" "v + core_start n labels p < n" using room(1) by simp_all
    have "to_idx (to_idx v + core_start n labels p) = v + core_start n labels p" using c n by simp
    then show ?thesis using False c rows(2)[OF c(1)] fw[OF c(2)] by (simp add: translate_id_def)
  qed
  have lg: "length (dg_data g) = (?c + ?a) * d" using g by (simp add: graph_ok_def)
  have cd: "?c * d \<le> (?c + ?a) * d" by (intro mult_le_mono1) simp
  let ?data = "fold (\<lambda>e xs. if ?c * d \<le> e then xs else xs[e := ?new (dg_data g ! e)]) threads (dg_data adj)"
  have own: "length ?data = ?c * d" "\<And>e. e < ?c * d \<Longrightarrow> ?data ! e = ?new (dg_data g ! e)"
    using own_elements[of "?c * d" "dg_data adj" "\<lambda>e. ?new (dg_data g ! e)" threads] adj(3) th by auto
  have data: "?data = map (translate_id (\<lambda>v. pl_core_forward L ! (partition_rows n labels L p ! v))) (take (?c * d) (dg_data g))"
  proof (rule nth_equalityI)
    show "length ?data = length (map (translate_id (\<lambda>v. pl_core_forward L ! (partition_rows n labels L p ! v))) (take (?c * d) (dg_data g)))"
      using own(1) lg cd by simp
    fix e assume "e < length ?data"
    then have e: "e < ?c * d" "e < length (dg_data g)" using own(1) lg cd by linarith+
    have "dg_data g ! e = kInvalidNeighbor \<or> dg_data g ! e < ?c + ?a" using g e(2) nth_mem unfolding graph_ok_def by blast
    then show "?data ! e = map (translate_id (\<lambda>v. pl_core_forward L ! (partition_rows n labels L p ! v))) (take (?c * d) (dg_data g)) ! e"
      using own(2)[OF e(1)] new e by simp
  qed
  have kernel: "ace_adjust_sub_graph_ids_disk_kernel (dg_data g) (?c * d) ?c (core_start n labels p) ?ids =
      (\<lambda>e xs. if ?c * d \<le> e then xs else xs[e := ?new (dg_data g ! e)])"
    by (intro ext) (simp add: ace_adjust_sub_graph_ids_disk_kernel_def Let_def)
  have "ace_adjust_sub_graph_ids_disk threads ?c ?a d p g adj L =
      (if ?c * d = 0 then Inr adj else Inr (adj\<lparr>dg_data := fold (ace_adjust_sub_graph_ids_disk_kernel (dg_data g) (?c * d) ?c (core_start n labels p) ?ids) threads (dg_data adj)\<rparr>))"
    using g adj(1,2) room f(2) f(6,7)[OF p]
    by (simp add: ace_adjust_sub_graph_ids_disk_def Let_def bind_expects graph_ok_def)
  then show ?thesis unfolding kernel data using adj(3) by (cases "?c * d = 0") simp_all
qed

text \<open>
  The disk build and the memory build of a partition translate its graph to the same graph: when the
  disk build, whose threads run in any order, stores a neighbour at a place of the reordered dataset, the
  memory build gives the row of that place the row of that neighbour; padding is padding in both.
\<close>

theorem ace_disk_graph_agrees:
  assumes "labels_ok n P lb" "0 < n" "n < 2 ^ 32" "list_arrays n P True L0"
    and "ace_create_forward_and_backward_lists n P lb [] L0 = Some (Inr L)" "p < P"
    and "graph_ok (core_size n (al_labels lb) p + augmented_size n (al_labels lb) p) d g"
    and "length sg = n" "\<forall>row \<in> set sg. length row = d"
    and "dg_rows adj = core_size n (al_labels lb) p" "dg_cols adj = d" "length (dg_data adj) = core_size n (al_labels lb) p * d"
    and "{..<core_size n (al_labels lb) p * d} \<subseteq> set threads"
  shows "\<exists>adj'. ace_adjust_sub_graph_ids_disk threads (core_size n (al_labels lb) p) (augmented_size n (al_labels lb) p) d p g adj L = Inr adj' \<and>
    (\<forall>i < core_size n (al_labels lb) p. \<forall>k < d.
       ace_adjust_sub_graph_ids (core_size n (al_labels lb) p) d p (copy_sub_graph g (core_size n (al_labels lb) p) d) L sg !
         (pl_core_backward L ! (i + core_start n (al_labels lb) p)) ! k =
       translate_id (\<lambda>place. pl_core_backward L ! place) (dg_data adj' ! (i * d + k)))"
proof -
  let ?l = "al_labels lb"
  let ?c = "core_size n ?l p"
  have P: "0 < P" using assms(6) by simp
  have "lists_ok n P ?l L" "sorted_lists n P ?l L" using disk_lists[OF assms(1-3) P assms(4), of "[]"] assms(5) by auto
  note L = this(1) labels_ok_in[OF assms(1)] this(2)
  obtain adj' where adj': "ace_adjust_sub_graph_ids_disk threads ?c (augmented_size n ?l p) d p g adj L = Inr adj'"
    "dg_data adj' = map (translate_id (\<lambda>v. pl_core_forward L ! (partition_rows n ?l L p ! v))) (take (?c * d) (dg_data g))"
    using adjusted_on_disk[OF L assms(6,3,7) assms(10-13)] by blast
  note mem = adjusted_in_memory(3)[OF L(1,2) assms(6,3,7-9)]
  have "translate_id (\<lambda>v. partition_rows n ?l L p ! v) (dg_data g ! (i * d + k)) =
      translate_id (\<lambda>place. pl_core_backward L ! place) (dg_data adj' ! (i * d + k))" if "i < ?c" "k < d" for i k
  proof -
    note c = copied_row[OF assms(7) that(1) le_add1 that(2)]
    let ?v = "dg_data g ! (i * d + k)"
    have "i * d + k < (i + 1) * d" using that(2) by simp
    also have "\<dots> \<le> ?c * d" using that(1) by (intro mult_le_mono1) simp
    finally have lt: "i * d + k < ?c * d" .
    have "?c * d \<le> length (dg_data g)" using assms(7) unfolding graph_ok_def by (simp add: add_mult_distrib)
    then have at: "dg_data adj' ! (i * d + k) = translate_id (\<lambda>v. pl_core_forward L ! (partition_rows n ?l L p ! v)) ?v"
      using adj'(2) lt by simp
    show ?thesis
    proof (cases "?v = kInvalidNeighbor")
      case False
      then have "?v < ?c + augmented_size n ?l p" using assms(7) c(2) unfolding graph_ok_def by blast
      then have "partition_rows n ?l L p ! ?v < n" using partition_rows_nth(4)[OF L(1,2) assms(6)] by blast
      then have "pl_core_forward L ! (partition_rows n ?l L p ! ?v) < n"
        "pl_core_backward L ! (pl_core_forward L ! (partition_rows n ?l L p ! ?v)) = partition_rows n ?l L p ! ?v"
        using forward_inverse[OF L(3)] by blast+
      then show ?thesis using False at assms(3) by (simp add: translate_id_def kInvalidNeighbor_def)
    qed (simp add: at translate_id_def)
  qed
  then show ?thesis using adj'(1) mem by (intro exI[of _ adj']) simp
qed

definition demo_graph :: device_graph where
  "demo_graph = \<lparr>dg_rows = 3, dg_cols = 1, dg_data = [2, kInvalidNeighbor, 0]\<rparr>"

definition demo_adjusted :: device_graph where
  "demo_adjusted = \<lparr>dg_rows = 2, dg_cols = 1, dg_data = [0, 0]\<rparr>"

lemma demo_disk_lists:
  "ace_create_forward_and_backward_lists 3 3 demo_labelled [] (demo_lists [0, 0, 0]) =
     Some (Inr \<lparr>pl_core_forward = [1, 0, 2], pl_core_backward = [1, 0, 2], pl_augmented_backward = [0, 1, 2],
       pl_core_offsets = [0, 1, 3, 3], pl_augmented_offsets = [0, 1, 2, 3]\<rparr>)"
  by (simp add: ace_create_forward_and_backward_lists_def place_vector_def Let_def demo_labelled_def demo_lists_def
    partition_offsets_def restore_offsets_def upt_rec expects_def numeral_3_eq_3 bind_r_def)

theorem ace_disk_graph_agrees_witness:
  "\<exists>L adj'. ace_create_forward_and_backward_lists 3 3 demo_labelled [] (demo_lists [0, 0, 0]) = Some (Inr L) \<and>
     ace_adjust_sub_graph_ids_disk [1, 0, 2] 2 1 1 1 demo_graph demo_adjusted L = Inr adj' \<and>
     ace_adjust_sub_graph_ids 2 1 1 (copy_sub_graph demo_graph 2 1) L [[7], [7], [7]] ! 0 ! 0 =
       translate_id (\<lambda>place. pl_core_backward L ! place) (dg_data adj' ! 0)"
proof -
  have sizes: "core_size 3 (al_labels demo_labelled) 1 = 2" "augmented_size 3 (al_labels demo_labelled) 1 = 1"
    "core_start 3 (al_labels demo_labelled) 1 = 1"
    by (simp_all add: core_size_def augmented_size_def core_start_def bucket_start_def bucket_def core_of_def augmented_of_def
      demo_labelled_def numeral_eq_Suc)
  have arrays: "list_arrays 3 3 True (demo_lists [0, 0, 0])" by (simp add: list_arrays_def demo_lists_def)
  have g: "graph_ok (core_size 3 (al_labels demo_labelled) 1 + augmented_size 3 (al_labels demo_labelled) 1) 1 demo_graph"
    unfolding sizes by (simp add: graph_ok_def demo_graph_def)
  have "\<forall>row \<in> set [[7], [7], [7 :: nat]]. length row = 1" by simp
  note h = ace_disk_graph_agrees[OF demo_labelled_ok _ _ arrays demo_disk_lists _ g _ this, of demo_adjusted "[1, 0, 2]", unfolded sizes]
  then obtain adj' where "ace_adjust_sub_graph_ids_disk [1, 0, 2] 2 1 1 1 demo_graph demo_adjusted
        \<lparr>pl_core_forward = [1, 0, 2], pl_core_backward = [1, 0, 2], pl_augmented_backward = [0, 1, 2],
         pl_core_offsets = [0, 1, 3, 3], pl_augmented_offsets = [0, 1, 2, 3]\<rparr> = Inr adj'"
    "\<forall>i < 2. \<forall>k < 1. ace_adjust_sub_graph_ids 2 1 1 (copy_sub_graph demo_graph 2 1)
        \<lparr>pl_core_forward = [1, 0, 2], pl_core_backward = [1, 0, 2], pl_augmented_backward = [0, 1, 2],
         pl_core_offsets = [0, 1, 3, 3], pl_augmented_offsets = [0, 1, 2, 3]\<rparr> [[7], [7], [7]] ! ([1, 0, 2] ! (i + 1)) ! k =
      translate_id (\<lambda>place. [1, 0, 2] ! place) (dg_data adj' ! (i * 1 + k))"
    by (force simp: demo_adjusted_def)
  then show ?thesis unfolding demo_disk_lists by (intro exI conjI) (auto dest!: spec[of _ 0])
qed

end
