(* ===== verification/AceStore.thy ===== *)
theory AceStore imports AceGraph begin

text \<open>
  The dataset of the ACE disk build (\<^verbatim>\<open>cpp/src/neighbors/detail/cagra/cagra_ace.cuh\<close>): the reordering of
  the rows into one file by core and one by augmented partition, through a buffer per partition, and the
  reading of a partition back from the two files.
\<close>

section \<open>Files\<close>

text \<open>
  A transfer by kvikio: a write of data at an offset of a file with the given contents tells whether all
  bytes were written and gives the contents after it; a read gives the bytes it got, or throws. A failed
  write may leave anything.
\<close>

record disk_io =
  io_write :: "string \<Rightarrow> nat \<Rightarrow> bytes \<Rightarrow> bytes \<Rightarrow> bool \<times> bytes"
  io_read :: "string \<Rightarrow> nat \<Rightarrow> nat \<Rightarrow> bytes \<Rightarrow> ace_error + bytes"

text \<open>\<^verbatim>\<open>write_large_file\<close> on a valid descriptor with a path.\<close>

definition write_file :: "disk_io \<Rightarrow> string \<Rightarrow> bytes \<Rightarrow> nat \<Rightarrow> directory \<Rightarrow> (ace_error + unit) \<times> directory" where
  "write_file io path data offset fs =
     (if length data = 0 then (Inl EmptyWrite, fs)
      else case fs path of
        None \<Rightarrow> (Inl NoFile, fs)
      | Some content \<Rightarrow>
          let (complete, content') = io_write io path offset data content
          in (if complete then Inr () else Inl IncompleteWrite, fs(path \<mapsto> content')))"

text \<open>Transfers inside of a file succeed and do what they say.\<close>

definition io_ok :: "disk_io \<Rightarrow> bool" where
  "io_ok io \<longleftrightarrow> (\<forall>path off data c. off + length data \<le> length c \<longrightarrow> io_write io path off data c = (True, overwrite c off data)) \<and>
     (\<forall>path off n c. off + n \<le> length c \<longrightarrow> io_read io path off n c = Inr (slice c off n))"

lemma write_file_ok:
  assumes "io_ok io" "fs path = Some c" "data \<noteq> []" "off + length data \<le> length c"
  shows "write_file io path data off fs = (Inr (), fs(path \<mapsto> overwrite c off data))"
  using assms by (simp add: write_file_def io_ok_def)

primrec fold_sr :: "('x \<Rightarrow> 'a \<Rightarrow> 's \<Rightarrow> ('e + 'a) \<times> 's) \<Rightarrow> 'x list \<Rightarrow> 'a \<Rightarrow> 's \<Rightarrow> ('e + 'a) \<times> 's" where
  "fold_sr f [] a s = (Inr a, s)"
| "fold_sr f (x # xs) a s = bind_sr (f x a s) (fold_sr f xs)"

lemma fold_sr_upt:
  assumes "\<And>i a s. i < n \<Longrightarrow> Inv i a s \<Longrightarrow> \<exists>a' s'. f i a s = (Inr a', s') \<and> Inv (Suc i) a' s'" "Inv 0 a s"
  shows "\<exists>a' s'. fold_sr f [0..<n] a s = (Inr a', s') \<and> Inv n a' s'"
proof -
  have append: "fold_sr f (xs @ [x]) a s = bind_sr (fold_sr f xs a s) (\<lambda>a s. f x a s)" for x xs
    by (induction xs arbitrary: a s) (auto simp: bind_sr_def split: prod.splits sum.splits)
  have "\<exists>a' s'. fold_sr f [0..<m] a s = (Inr a', s') \<and> Inv m a' s'" if "m \<le> n" for m
    using that
  proof (induction m)
    case (Suc m)
    then obtain a1 s1 where "fold_sr f [0..<m] a s = (Inr a1, s1)" "Inv m a1 s1" by auto
    then show ?case using assms(1)[of m a1 s1] Suc.prems by (simp add: append)
  qed (use assms(2) in simp)
  then show ?thesis by blast
qed

section \<open>Reordering through buffers\<close>

text \<open>
  One of the two files with the counters and buffers of its partitions: the start of a partition in rows,
  how many rows are written, how many are in the buffer.
\<close>

record lane =
  ln_path :: string
  ln_header :: nat
  ln_starts :: "nat list"
  ln_current :: "nat list"
  ln_counts :: "nat list"
  ln_buffers :: "bytes list list"

definition flush_lane :: "disk_io \<Rightarrow> nat \<Rightarrow> nat \<Rightarrow> lane \<Rightarrow> directory \<Rightarrow> (ace_error + lane) \<times> directory" where
  "flush_lane io vector_size partition_id ln fs =
     (let count = ln_counts ln ! partition_id in
      if count = 0 then (Inr ln, fs)
      else let file_offset = (ln_starts ln ! partition_id + ln_current ln ! partition_id) * vector_size + ln_header ln
        in bind_sr (write_file io (ln_path ln) (concat (take count (ln_buffers ln ! partition_id))) file_offset fs) (\<lambda>_ fs'.
             (Inr (ln\<lparr>ln_current := (ln_current ln)[partition_id := ln_current ln ! partition_id + count],
                      ln_counts := (ln_counts ln)[partition_id := 0]\<rparr>), fs')))"

definition buffer_vector :: "disk_io \<Rightarrow> nat \<Rightarrow> nat \<Rightarrow> bytes \<Rightarrow> nat \<Rightarrow> lane \<Rightarrow> directory \<Rightarrow> (ace_error + lane) \<times> directory" where
  "buffer_vector io vector_size vectors_per_buffer vector part ln fs =
     (let buffer_row = ln_counts ln ! part;
          ln1 = ln\<lparr>ln_buffers := (ln_buffers ln)[part := (ln_buffers ln ! part)[buffer_row := vector]],
                   ln_counts := (ln_counts ln)[part := buffer_row + 1]\<rparr>
      in if vectors_per_buffer \<le> ln_counts ln1 ! part then flush_lane io vector_size part ln1 fs else (Inr ln1, fs))"

definition store_vector :: "disk_io \<Rightarrow> nat \<Rightarrow> nat \<Rightarrow> host_matrix \<Rightarrow> (nat \<times> nat) list \<Rightarrow> nat \<Rightarrow> lane \<times> lane \<Rightarrow> directory \<Rightarrow>
    (ace_error + lane \<times> lane) \<times> directory" where
  "store_vector io vector_size vectors_per_buffer dataset labels i lanes fs =
     (let (core, augmented) = lanes;
          (core_partition, secondary_partition) = labels ! i;
          vector = take vector_size (hm_rows dataset ! i)
      in bind_sr (buffer_vector io vector_size vectors_per_buffer vector core_partition core fs) (\<lambda>core' fs1.
         bind_sr (buffer_vector io vector_size vectors_per_buffer vector secondary_partition augmented fs1) (\<lambda>augmented' fs2.
           (Inr (core', augmented'), fs2))))"

definition lane_starts :: "nat \<Rightarrow> nat list \<Rightarrow> nat list" where
  "lane_starts n_partitions hist = fold (\<lambda>p s. s[p + 1 := s ! p + hist ! p]) [0..<n_partitions] (replicate (n_partitions + 1) 0)"

text \<open>
  The number of rows of a buffer: a power of two near the share of the free memory, at most 64 MiB, and
  at least 64 rows. The share, a product of \<^verbatim>\<open>double\<close>s, and raft's power of two are arguments.
\<close>

record store_lib =
  st_free :: nat
  st_share :: "nat \<Rightarrow> nat \<Rightarrow> nat"
  st_bound :: "nat \<Rightarrow> nat"

definition buffer_rows :: "store_lib \<Rightarrow> nat \<Rightarrow> nat \<Rightarrow> nat" where
  "buffer_rows lib n_partitions vector_size =
     (let memory_per_partition = st_share lib (st_free lib) (n_partitions * 2);
          disk_write_size = min (st_bound lib memory_per_partition) (64 * 1024 * 1024)
      in max 64 (disk_write_size div vector_size))"

definition fresh_lane :: "string \<times> nat \<Rightarrow> nat \<Rightarrow> nat \<Rightarrow> nat list \<Rightarrow> bytes \<Rightarrow> lane" where
  "fresh_lane target n_partitions vectors_per_buffer hist uninitialized =
     \<lparr>ln_path = fst target, ln_header = snd target, ln_starts = lane_starts n_partitions hist,
      ln_current = replicate n_partitions 0, ln_counts = replicate n_partitions 0,
      ln_buffers = replicate n_partitions (replicate vectors_per_buffer uninitialized)\<rparr>"

text \<open>
  A target is the path of a file and the size of its header. The last buffers of the two files are
  flushed in parallel sections that share nothing; the model flushes one after the other. The sections are an
  OpenMP region.
\<close>

definition ace_reorder_and_store_dataset :: "disk_io \<Rightarrow> store_lib \<Rightarrow> bytes \<Rightarrow> nat \<Rightarrow> host_matrix \<Rightarrow> nat \<Rightarrow> nat \<Rightarrow> ace_labels \<Rightarrow> nat list \<Rightarrow>
    string \<times> nat \<Rightarrow> string \<times> nat \<Rightarrow> string \<times> nat \<Rightarrow> directory \<Rightarrow> (ace_error + unit) \<times> directory" where
  "ace_reorder_and_store_dataset io lib uninitialized sz dataset dim n_partitions lb core_backward_mapping reordered augmented mapping fs =
     (let dataset_size = length (hm_rows dataset) in
      case bind_r (expects (0 < dim) NoDimension) (\<lambda>_.
           bind_r (expects (dim \<le> hm_extent dataset) RowTooShort) (\<lambda>_.
           bind_r (expects (fold (\<lambda>p t. t + al_core lb ! p) [0..<n_partitions] 0 = dataset_size) TotalMismatch) (\<lambda>_.
             expects (fold (\<lambda>p t. t + al_augmented lb ! p) [0..<n_partitions] 0 = dataset_size) TotalMismatch))) of
        Inl e \<Rightarrow> (Inl e, fs)
      | Inr _ \<Rightarrow>
         let vector_size = dim * sz;
             vectors_per_buffer = buffer_rows lib n_partitions vector_size;
             core = fresh_lane reordered n_partitions vectors_per_buffer (al_core lb) uninitialized;
             aug = fresh_lane augmented n_partitions vectors_per_buffer (al_augmented lb) uninitialized
         in bind_sr (fold_sr (store_vector io vector_size vectors_per_buffer dataset (al_labels lb)) [0..<dataset_size] (core, aug) fs) (\<lambda>lanes fs1.
            bind_sr (omp_region (fold_sr (flush_lane io vector_size) [0..<n_partitions] (fst lanes) fs1)) (\<lambda>_ fs2.
            bind_sr (omp_region (fold_sr (flush_lane io vector_size) [0..<n_partitions] (snd lanes) fs2)) (\<lambda>_ fs3.
              write_file io (fst mapping) (array_bytes (put_uint 4) core_backward_mapping) (snd mapping) fs3))))"

section \<open>Reading a partition back\<close>

text \<open>A descriptor: whether it is valid, and its path. The destination is null or a matrix of rows and columns.\<close>

definition read_part :: "disk_io \<Rightarrow> string \<Rightarrow> nat \<Rightarrow> nat \<Rightarrow> directory \<Rightarrow> ace_error + bytes" where
  "read_part io path offset n fs =
     (case fs path of None \<Rightarrow> Inl NoFile | Some content \<Rightarrow> io_read io path offset n content)"

definition expect_complete_read :: "nat \<Rightarrow> bytes \<Rightarrow> ace_error + bytes" where
  "expect_complete_read expected got = bind_r (expects (length got = expected) ShortPartitionRead) (\<lambda>_. Inr got)"

definition ace_load_partition_dataset_from_disk :: "disk_io \<Rightarrow> nat \<Rightarrow> nat \<Rightarrow> nat \<Rightarrow> nat \<Rightarrow> ace_labels \<Rightarrow> ace_lists \<Rightarrow>
    bool \<times> string \<Rightarrow> bool \<times> string \<Rightarrow> nat \<Rightarrow> nat \<Rightarrow> (nat \<times> nat) option \<Rightarrow> directory \<Rightarrow> ace_error + bytes" where
  "ace_load_partition_dataset_from_disk io sz partition_id dim n_partitions lb L reordered_fd augmented_fd
     reordered_header_size augmented_header_size destination fs =
     bind_r (expects (destination \<noteq> None) NullDestination) (\<lambda>_.
     bind_r (expects (fst reordered_fd \<and> snd reordered_fd \<noteq> []) BadDescriptor) (\<lambda>_.
     bind_r (expects (fst augmented_fd \<and> snd augmented_fd \<noteq> []) BadDescriptor) (\<lambda>_.
     bind_r (expects (partition_id < n_partitions) PartitionOutOfRange) (\<lambda>_.
     bind_r (expects (partition_id < length (pl_core_offsets L)) PartitionOutOfRange) (\<lambda>_.
     bind_r (expects (partition_id < length (pl_augmented_offsets L)) PartitionOutOfRange) (\<lambda>_.
     let core_size = al_core lb ! partition_id;
         augmented_size = al_augmented lb ! partition_id;
         total_size = core_size + augmented_size
     in
     bind_r (expects (fst (the destination) = total_size) WrongRows) (\<lambda>_.
     bind_r (expects (snd (the destination) = dim) WrongColumns) (\<lambda>_.
     let vector_size = dim * sz;
         core_file_offset = reordered_header_size + pl_core_offsets L ! partition_id * vector_size;
         augmented_file_offset = augmented_header_size + pl_augmented_offsets L ! partition_id * vector_size;
         core_bytes = core_size * vector_size;
         augmented_bytes = augmented_size * vector_size
     in
     if 0 < core_bytes \<and> 0 < augmented_bytes then
       (case (read_part io (snd reordered_fd) core_file_offset core_bytes fs,
              read_part io (snd augmented_fd) augmented_file_offset augmented_bytes fs) of
          (Inl e, _) \<Rightarrow> Inl e
        | (_, Inl e) \<Rightarrow> Inl e
        | (Inr core_read, Inr augmented_read) \<Rightarrow>
            bind_r (expect_complete_read core_bytes core_read) (\<lambda>a.
            bind_r (expect_complete_read augmented_bytes augmented_read) (\<lambda>b. Inr (a @ b))))
     else if 0 < core_bytes then
       bind_r (read_part io (snd reordered_fd) core_file_offset core_bytes fs) (expect_complete_read core_bytes)
     else if 0 < augmented_bytes then
       bind_r (read_part io (snd augmented_fd) augmented_file_offset augmented_bytes fs) (expect_complete_read augmented_bytes)
     else Inr []))))))))"

section \<open>The files hold the reordered rows\<close>

lemma length_vectors: "(\<And>i. i \<in> set xs \<Longrightarrow> length (row i) = w) \<Longrightarrow> length (concat (map row xs)) = length xs * w"
  by (induction xs) auto

text \<open>
  After the first \<open>i\<close> rows: the rows of a partition seen so far are those written at the places of the
  partition, followed by those in its buffer. \<open>c0\<close> are the contents of the file before, whose header stays.
\<close>

definition lane_holds :: "(nat \<Rightarrow> nat) \<Rightarrow> (nat \<Rightarrow> bytes) \<Rightarrow> nat \<Rightarrow> nat \<Rightarrow> nat \<Rightarrow> nat \<Rightarrow> bytes \<Rightarrow> nat \<Rightarrow> lane \<Rightarrow> directory \<Rightarrow> bool" where
  "lane_holds lab row vs cap n P c0 i ln fs \<longleftrightarrow>
     (\<forall>p < P. ln_starts ln ! p = bucket_start lab n p) \<and> length (ln_current ln) = P \<and> length (ln_counts ln) = P \<and> length (ln_buffers ln) = P \<and>
     (\<forall>p < P. ln_counts ln ! p \<le> cap \<and> length (ln_buffers ln ! p) = cap \<and>
        ln_current ln ! p + ln_counts ln ! p = length (bucket lab p i) \<and>
        take (ln_counts ln ! p) (ln_buffers ln ! p) = map row (drop (ln_current ln ! p) (bucket lab p i))) \<and>
     (\<exists>c. fs (ln_path ln) = Some c \<and> length c = length c0 \<and> take (ln_header ln) c = take (ln_header ln) c0 \<and>
        (\<forall>p < P. holds c (ln_header ln + bucket_start lab n p * vs) (concat (map row (take (ln_current ln ! p) (bucket lab p i))))))"

definition row_sizes :: "(nat \<Rightarrow> nat) \<Rightarrow> (nat \<Rightarrow> bytes) \<Rightarrow> nat \<Rightarrow> nat \<Rightarrow> nat \<Rightarrow> nat \<Rightarrow> bytes \<Rightarrow> bool" where
  "row_sizes lab row vs n P header c0 \<longleftrightarrow> 0 < vs \<and> (\<forall>i < n. length (row i) = vs \<and> lab i < P) \<and> header + n * vs \<le> length c0"

text \<open>Writing more rows of a partition behind those that are there.\<close>

lemma rows_appended:
  assumes sz: "row_sizes lab row vs n P hs c" and i: "i \<le> n" and p: "p < P"
    and cur': "\<forall>q < P. cur q \<le> length (bucket lab q i)" and cnt: "cur p + cnt \<le> length (bucket lab p i)"
    and h': "\<forall>q < P. holds c (hs + bucket_start lab n q * vs) (concat (map row (take (cur q) (bucket lab q i))))"
  defines "data \<equiv> concat (map row (take cnt (drop (cur p) (bucket lab p i))))" and "off \<equiv> (bucket_start lab n p + cur p) * vs + hs"
  shows "length data = cnt * vs" "off + length data \<le> length c" "take hs (overwrite c off data) = take hs c"
    "q < P \<Longrightarrow> holds (overwrite c off data) (hs + bucket_start lab n q * vs)
       (concat (map row (take (if q = p then cur p + cnt else cur q) (bucket lab q i))))"
proof -
  note cur = cur'[rule_format] and h = h'[rule_format]
  have mem: "r \<in> set (bucket lab q i) \<Longrightarrow> length (row r) = vs" for q r using sz i by (auto simp: row_sizes_def bucket_def)
  have len: "length data = cnt * vs"
    unfolding data_def using cnt by (subst length_vectors[of _ row vs]) (auto dest: in_set_takeD in_set_dropD intro: mem)
  have size: "length (bucket lab q i) \<le> length (bucket lab q n)" for q by (rule bucket_le[OF i])
  have "bucket_start lab n p + length (bucket lab p n) \<le> n" by (rule bucket_end_le[of n lab P p]) (use sz p in \<open>auto simp: row_sizes_def\<close>)
  then have "(bucket_start lab n p + cur p + cnt) * vs \<le> n * vs" using cnt size[of p] by (intro mult_le_mono1) linarith
  then have fit: "off + length data \<le> length c" using sz len by (simp add: row_sizes_def add_mult_distrib off_def)
  have lq: "length (concat (map row (take (cur q) (bucket lab q i)))) = cur q * vs" if "q < P" for q
    using cur[OF that] by (subst length_vectors[of _ row vs]) (auto dest: in_set_takeD intro: mem)
  have other: "holds (overwrite c off data) (hs + bucket_start lab n q * vs) (concat (map row (take (cur q) (bucket lab q i))))"
    if q: "q < P" for q
  proof (rule holds_overwrite_frame[OF fit h[OF q]])
    have cq: "cur q \<le> length (bucket lab q n)" "cur p + cnt \<le> length (bucket lab p n)"
      using cur[OF q] cnt size[of q] size[of p] by linarith+
    consider "q < p" | "q = p" | "p < q" by linarith
    then have "bucket_start lab n q + cur q \<le> bucket_start lab n p + cur p \<or>
        bucket_start lab n p + cur p + cnt \<le> bucket_start lab n q"
      using bucket_before[of q p lab n] bucket_before[of p q lab n] cq by cases auto
    then have "(bucket_start lab n q + cur q) * vs \<le> (bucket_start lab n p + cur p) * vs \<or>
        (bucket_start lab n p + cur p + cnt) * vs \<le> bucket_start lab n q * vs" by (meson mult_le_mono1)
    then show "hs + bucket_start lab n q * vs + length (concat (map row (take (cur q) (bucket lab q i)))) \<le> off \<or>
        off + length data \<le> hs + bucket_start lab n q * vs"
      unfolding lq[OF q] len off_def by (simp add: add_mult_distrib) linarith
  qed
  have "map row (take (cur p + cnt) (bucket lab p i)) = map row (take (cur p) (bucket lab p i)) @ map row (take cnt (drop (cur p) (bucket lab p i)))"
    by (simp add: take_add)
  moreover have "holds (overwrite c off data) (hs + bucket_start lab n p * vs + cur p * vs) data"
    using holds_overwrite[OF fit] by (simp add: add_mult_distrib add.commute add.left_commute off_def)
  ultimately have "holds (overwrite c off data) (hs + bucket_start lab n p * vs) (concat (map row (take (cur p + cnt) (bucket lab p i))))"
    using other[OF p] lq[OF p] by (simp add: holds_append data_def)
  then show "q < P \<Longrightarrow> holds (overwrite c off data) (hs + bucket_start lab n q * vs)
       (concat (map row (take (if q = p then cur p + cnt else cur q) (bucket lab q i))))"
    using other by simp
  show "take hs (overwrite c off data) = take hs c" using fit by (simp add: overwrite_def min_def off_def)
  show "length data = cnt * vs" "off + length data \<le> length c" by (rule len, rule fit)
qed

lemma lane_flushed:
  assumes io: "io_ok io" and sz: "row_sizes lab row vs n P (ln_header ln) c0" and inv: "lane_holds lab row vs cap n P c0 i ln fs"
    and p: "p < P" and i: "i \<le> n"
  shows "\<exists>ln' fs'. flush_lane io vs p ln fs = (Inr ln', fs') \<and> lane_holds lab row vs cap n P c0 i ln' fs' \<and>
    ln_counts ln' = (ln_counts ln)[p := 0] \<and> ln_path ln' = ln_path ln \<and> ln_header ln' = ln_header ln \<and>
    (\<forall>q. q \<noteq> ln_path ln \<longrightarrow> fs' q = fs q)"
proof (cases "ln_counts ln ! p = 0")
  case True
  have "(ln_counts ln)[p := 0] = ln_counts ln" using True by (metis list_update_id)
  then show ?thesis using True inv by (simp add: flush_lane_def)
next
  case False
  let ?hd = "ln_header ln" and ?cur = "\<lambda>q. ln_current ln ! q" and ?cnt = "ln_counts ln ! p"
  obtain c where c: "fs (ln_path ln) = Some c" "length c = length c0" "take ?hd c = take ?hd c0"
    "\<forall>q < P. holds c (?hd + bucket_start lab n q * vs) (concat (map row (take (?cur q) (bucket lab q i))))"
    using inv unfolding lane_holds_def by blast
  have part: "?cur q + ln_counts ln ! q = length (bucket lab q i)"
    "take (ln_counts ln ! q) (ln_buffers ln ! q) = map row (drop (?cur q) (bucket lab q i))" if "q < P" for q
    using inv that unfolding lane_holds_def by blast+
  have cur: "\<forall>q < P. ?cur q \<le> length (bucket lab q i)" using part(1) by (metis le_add1)
  have sz': "row_sizes lab row vs n P ?hd c" using sz c(2) by (simp add: row_sizes_def)
  have "take ?cnt (ln_buffers ln ! p) = map row (take ?cnt (drop (?cur p) (bucket lab p i)))" using part[OF p] by simp
  then have data: "concat (take ?cnt (ln_buffers ln ! p)) = concat (map row (take ?cnt (drop (?cur p) (bucket lab p i))))" by simp
  let ?data = "concat (map row (take ?cnt (drop (?cur p) (bucket lab p i))))"
  let ?off = "(bucket_start lab n p + ?cur p) * vs + ?hd"
  note app = rows_appended[where cur = "?cur", OF sz' i p cur eq_refl[OF part(1)[OF p]] c(4)]
  have "0 < ?cnt * vs" using False sz by (simp add: row_sizes_def)
  then have "?data \<noteq> []" using app(1) by (metis less_irrefl list.size(3))
  note wr = write_file_ok[where fs = fs and path = "ln_path ln", OF io c(1) this app(2)]
  let ?c' = "overwrite c ?off ?data"
  let ?ln = "ln\<lparr>ln_current := (ln_current ln)[p := ?cur p + ?cnt], ln_counts := (ln_counts ln)[p := 0]\<rparr>"
  have st: "ln_starts ln ! p = bucket_start lab n p" "p < length (ln_current ln)" "p < length (ln_counts ln)"
    using inv p unfolding lane_holds_def by auto
  have run: "flush_lane io vs p ln fs = (Inr ?ln, fs(ln_path ln \<mapsto> ?c'))"
    using False wr st by (simp add: flush_lane_def Let_def data)
  have ho: "holds ?c' (?hd + bucket_start lab n q * vs) (concat (map row (take ((ln_current ln)[p := ?cur p + ?cnt] ! q) (bucket lab q i))))" if "q < P" for q
  proof -
    have "(ln_current ln)[p := ?cur p + ?cnt] ! q = (if q = p then ?cur p + ?cnt else ?cur q)" using st by simp
    then show ?thesis using app(4)[OF that] by (simp only:)
  qed
  have cn: "(ln_counts ln)[p := 0] ! q \<le> cap \<and> length (ln_buffers ln ! q) = cap \<and>
      (ln_current ln)[p := ?cur p + ?cnt] ! q + (ln_counts ln)[p := 0] ! q = length (bucket lab q i) \<and>
      take ((ln_counts ln)[p := 0] ! q) (ln_buffers ln ! q) = map row (drop ((ln_current ln)[p := ?cur p + ?cnt] ! q) (bucket lab q i))"
    if "q < P" for q
    using part[OF that] inv that st by (cases "q = p") (auto simp: lane_holds_def)
  have "lane_holds lab row vs cap n P c0 i ?ln (fs(ln_path ln \<mapsto> ?c'))"
    unfolding lane_holds_def lane.simps fun_upd_same option.inject
    using inv cn ho app(3) c(2,3) length_overwrite_inside[OF app(2)] by (intro conjI) (auto simp: lane_holds_def)
  then show ?thesis unfolding run by (intro exI[of _ ?ln] exI[of _ "fs(ln_path ln \<mapsto> ?c')"] conjI) simp_all
qed

lemma lane_frame: "lane_holds lab row vs cap n P c0 i ln fs \<Longrightarrow> fs' (ln_path ln) = fs (ln_path ln) \<Longrightarrow> lane_holds lab row vs cap n P c0 i ln fs'"
  by (simp add: lane_holds_def)

definition has_room :: "nat \<Rightarrow> nat \<Rightarrow> lane \<Rightarrow> bool" where
  "has_room cap P ln \<longleftrightarrow> (\<forall>p < P. ln_counts ln ! p < cap)"

lemma lane_buffered:
  assumes io: "io_ok io" and sz: "row_sizes lab row vs n P (ln_header ln) c0" and inv: "lane_holds lab row vs cap n P c0 i ln fs"
    and room: "has_room cap P ln" and i: "i < n"
  shows "\<exists>ln' fs'. buffer_vector io vs cap (row i) (lab i) ln fs = (Inr ln', fs') \<and> lane_holds lab row vs cap n P c0 (Suc i) ln' fs' \<and>
    has_room cap P ln' \<and> ln_path ln' = ln_path ln \<and> ln_header ln' = ln_header ln \<and> (\<forall>q. q \<noteq> ln_path ln \<longrightarrow> fs' q = fs q)"
proof -
  have p: "lab i < P" using sz i by (simp add: row_sizes_def)
  let ?cnt = "ln_counts ln ! lab i"
  let ?ln = "ln\<lparr>ln_buffers := (ln_buffers ln)[lab i := (ln_buffers ln ! lab i)[?cnt := row i]], ln_counts := (ln_counts ln)[lab i := ?cnt + 1]\<rparr>"
  have len: "length (ln_counts ln) = P" "length (ln_buffers ln) = P" using inv by (simp_all add: lane_holds_def)
  have part: "length (ln_buffers ln ! q) = cap" "ln_current ln ! q + ln_counts ln ! q = length (bucket lab q i)"
    "take (ln_counts ln ! q) (ln_buffers ln ! q) = map row (drop (ln_current ln ! q) (bucket lab q i))" if "q < P" for q
    using inv that unfolding lane_holds_def by blast+
  have cnt: "?cnt < cap" using room p by (simp add: has_room_def)
  have written: "take (ln_current ln ! q) (bucket lab q (Suc i)) = take (ln_current ln ! q) (bucket lab q i)" if "q < P" for q
    using part(2)[OF that] by (simp add: bucket_Suc)
  have "take (Suc ?cnt) ((ln_buffers ln ! lab i)[?cnt := row i]) = take ?cnt (ln_buffers ln ! lab i) @ [row i]"
    using cnt part(1)[OF p] by (simp add: take_Suc_conv_app_nth)
  also have "\<dots> = map row (drop (ln_current ln ! lab i) (bucket lab (lab i) (Suc i)))"
    using part(2,3)[OF p] by (simp add: bucket_Suc)
  finally have new: "take (Suc ?cnt) ((ln_buffers ln ! lab i)[?cnt := row i]) = map row (drop (ln_current ln ! lab i) (bucket lab (lab i) (Suc i)))" .
  have counts: "(ln_counts ln)[lab i := ?cnt + 1] ! q \<le> cap \<and> length (ln_buffers ?ln ! q) = cap \<and>
      ln_current ln ! q + (ln_counts ln)[lab i := ?cnt + 1] ! q = length (bucket lab q (Suc i)) \<and>
      take ((ln_counts ln)[lab i := ?cnt + 1] ! q) (ln_buffers ?ln ! q) = map row (drop (ln_current ln ! q) (bucket lab q (Suc i)))" if q: "q < P" for q
    using part[OF q] room q len cnt new by (cases "q = lab i") (auto simp: has_room_def bucket_Suc intro: less_imp_le)
  have inv': "lane_holds lab row vs cap n P c0 (Suc i) ?ln fs"
    using inv counts written by (simp add: lane_holds_def)
  have at: "ln_counts ?ln ! lab i = ?cnt + 1" using p len by simp
  show ?thesis
  proof (cases "cap \<le> ?cnt + 1")
    case True
    have run: "buffer_vector io vs cap (row i) (lab i) ln fs = flush_lane io vs (lab i) ?ln fs"
      using True at by (simp add: buffer_vector_def Let_def)
    have sz1: "row_sizes lab row vs n P (ln_header ?ln) c0" using sz by simp
    obtain ln' fs' where fl: "flush_lane io vs (lab i) ?ln fs = (Inr ln', fs')" "lane_holds lab row vs cap n P c0 (Suc i) ln' fs'"
      "ln_counts ln' = (ln_counts ?ln)[lab i := 0]" "ln_path ln' = ln_path ?ln" "ln_header ln' = ln_header ?ln" "\<forall>q. q \<noteq> ln_path ?ln \<longrightarrow> fs' q = fs q"
      using lane_flushed[OF io sz1 inv' p] i by auto
    have "0 < cap" using cnt by linarith
    then have "(ln_counts ln)[lab i := 0] ! q < cap" if "q < P" for q
      using room len that by (cases "q = lab i") (simp_all add: has_room_def)
    then have "has_room cap P ln'" using fl(3) by (simp add: has_room_def)
    then show ?thesis using fl run by auto
  next
    case False
    have "buffer_vector io vs cap (row i) (lab i) ln fs = (Inr ?ln, fs)" using False at by (simp add: buffer_vector_def Let_def)
    moreover have "(ln_counts ln)[lab i := ?cnt + 1] ! q < cap" if "q < P" for q
      using False room len that by (cases "q = lab i") (simp_all add: has_room_def)
    then have "has_room cap P ?ln" by (simp add: has_room_def)
    ultimately show ?thesis using inv' by (intro exI[of _ ?ln] exI[of _ fs]) simp
  qed
qed

lemma lane_finished:
  assumes io: "io_ok io" and sz: "row_sizes lab row vs n P (ln_header ln) c0" and inv: "lane_holds lab row vs cap n P c0 n ln fs"
  shows "\<exists>ln' fs' c. fold_sr (flush_lane io vs) [0..<P] ln fs = (Inr ln', fs') \<and> (\<forall>q. q \<noteq> ln_path ln \<longrightarrow> fs' q = fs q) \<and>
    fs' (ln_path ln) = Some c \<and> length c = length c0 \<and> take (ln_header ln) c = take (ln_header ln) c0 \<and>
    holds c (ln_header ln) (concat (map row (grouped lab n P)))"
proof -
  define Inv where "Inv k l s \<longleftrightarrow> lane_holds lab row vs cap n P c0 n l s \<and> (\<forall>p < k. ln_counts l ! p = 0) \<and> ln_path l = ln_path ln \<and>
    ln_header l = ln_header ln \<and> (\<forall>q. q \<noteq> ln_path ln \<longrightarrow> s q = fs q)" for k l s
  have "\<exists>l' s'. flush_lane io vs k l s = (Inr l', s') \<and> Inv (Suc k) l' s'" if k: "k < P" and v: "Inv k l s" for k l s
  proof -
    have l: "lane_holds lab row vs cap n P c0 n l s" "row_sizes lab row vs n P (ln_header l) c0" using v sz by (simp_all add: Inv_def)
    obtain l' s' where f: "flush_lane io vs k l s = (Inr l', s')" "lane_holds lab row vs cap n P c0 n l' s'"
      "ln_counts l' = (ln_counts l)[k := 0]" "ln_path l' = ln_path l" "ln_header l' = ln_header l" "\<forall>q. q \<noteq> ln_path l \<longrightarrow> s' q = s q"
      using lane_flushed[OF io l(2,1) k order_refl] by blast
    have "length (ln_counts l) = P" using l(1) by (simp add: lane_holds_def)
    then show ?thesis using f v k by (auto simp: Inv_def less_Suc_eq nth_list_update)
  qed
  moreover have "Inv 0 ln fs" using inv by (simp add: Inv_def)
  ultimately obtain ln' fs' where run: "fold_sr (flush_lane io vs) [0..<P] ln fs = (Inr ln', fs')" and fin: "Inv P ln' fs'"
    using fold_sr_upt[of P Inv "flush_lane io vs" ln fs] by blast
  have h: "lane_holds lab row vs cap n P c0 n ln' fs'" using fin by (simp add: Inv_def)
  have cur: "ln_current ln' ! p = length (bucket lab p n)" if "p < P" for p
    using h fin that unfolding lane_holds_def Inv_def by (metis add.right_neutral)
  obtain c where c: "fs' (ln_path ln) = Some c" "length c = length c0" "take (ln_header ln) c = take (ln_header ln) c0"
    "\<forall>p < P. holds c (ln_header ln + bucket_start lab n p * vs) (concat (map row (take (ln_current ln' ! p) (bucket lab p n))))"
    using h fin unfolding lane_holds_def Inv_def by metis
  have "holds c (ln_header ln) (concat (map row (grouped lab n k)))" if "k \<le> P" for k
    using that
  proof (induction k)
    case 0
    show ?case using c(2) sz by (simp add: grouped_def row_sizes_def)
  next
    case (Suc k)
    have "length (concat (map row (grouped lab n k))) = length (grouped lab n k) * vs"
      by (rule length_vectors) (use sz in \<open>auto simp: grouped_def bucket_def row_sizes_def\<close>)
    then have "length (concat (map row (grouped lab n k))) = bucket_start lab n k * vs" by (simp add: grouped_def bucket_start_def)
    moreover have "grouped lab n (Suc k) = grouped lab n k @ bucket lab k n" by (simp add: grouped_def)
    moreover have "holds c (ln_header ln + bucket_start lab n k * vs) (concat (map row (bucket lab k n)))"
      using c(4)[rule_format, of k] cur[of k] Suc.prems by simp
    ultimately show ?case using Suc by (simp add: holds_append)
  qed
  then show ?thesis using run fin c by (auto simp: Inv_def)
qed

lemma lane_starts_eq:
  assumes "hist = map (\<lambda>p. length (bucket lab p n)) [0..<P]"
  shows "length (lane_starts P hist) = P + 1 \<and> (\<forall>p \<le> P. lane_starts P hist ! p = bucket_start lab n p)"
proof -
  let ?f = "\<lambda>p s. s[p + 1 := s ! p + hist ! p]"
  have "length (fold ?f [0..<k] (replicate (P + 1) 0)) = P + 1 \<and> (\<forall>p \<le> k. fold ?f [0..<k] (replicate (P + 1) 0) ! p = bucket_start lab n p)"
    if "k \<le> P" for k
    using that
  proof (induction k)
    case (Suc k)
    then show ?case using assms by (auto simp: bucket_start_Suc nth_list_update le_Suc_eq)
  qed (simp add: bucket_start_def)
  from this[of P] show ?thesis by (simp add: lane_starts_def)
qed

lemma lane_fresh:
  assumes "fs path = Some c0" "row_sizes lab row vs n P header c0" "hist = map (\<lambda>p. length (bucket lab p n)) [0..<P]" "0 < cap"
  shows "lane_holds lab row vs cap n P c0 0 (fresh_lane (path, header) P cap hist junk) fs" "has_room cap P (fresh_lane (path, header) P cap hist junk)"
proof -
  have "bucket_start lab n p * vs \<le> n * vs" if "p < P" for p
    using bucket_start_le[of n lab P p] assms(2) that by (intro mult_le_mono1) (simp add: row_sizes_def)
  then have "header + bucket_start lab n p * vs \<le> length c0" if "p < P" for p
    using assms(2) that unfolding row_sizes_def by (meson add_left_mono order_trans)
  then show "lane_holds lab row vs cap n P c0 0 (fresh_lane (path, header) P cap hist junk) fs"
    using assms(1) lane_starts_eq[OF assms(3)] by (simp add: lane_holds_def fresh_lane_def bucket_def)
  show "has_room cap P (fresh_lane (path, header) P cap hist junk)" using assms(4) by (simp add: has_room_def fresh_lane_def)
qed

lemma histogram_total:
  assumes "hist = map (\<lambda>p. length (bucket lab p n)) [0..<P]" "\<And>r. r < n \<Longrightarrow> lab r < P"
  shows "fold (\<lambda>p t. t + hist ! p) [0..<P] 0 = n"
proof -
  have "fold (\<lambda>p t. t + hist ! p) [0..<k] 0 = bucket_start lab n k" if "k \<le> P" for k
    using that assms(1) by (induction k) (simp_all add: bucket_start_def)
  moreover have "bucket_start lab n P = n" using grouped_length[of n lab P] assms(2) by (simp add: grouped_def bucket_start_def)
  ultimately show ?thesis by simp
qed

section \<open>The whole dataset\<close>

text \<open>A file whose header and length are those of \<open>c0\<close> and whose data begin with the given bytes.\<close>

definition file_at :: "directory \<Rightarrow> string \<Rightarrow> nat \<Rightarrow> bytes \<Rightarrow> bytes \<Rightarrow> bool" where
  "file_at fs path header c0 data \<longleftrightarrow>
     (\<exists>c. fs path = Some c \<and> length c = length c0 \<and> take header c = take header c0 \<and> holds c header data)"

definition dataset_ok :: "host_matrix \<Rightarrow> nat \<Rightarrow> nat \<Rightarrow> bool" where
  "dataset_ok ds dim sz \<longleftrightarrow> 0 < dim \<and> 0 < sz \<and> dim \<le> hm_extent ds \<and> (\<forall>row \<in> set (hm_rows ds). dim * sz \<le> length row)"

definition vector_bytes :: "host_matrix \<Rightarrow> nat \<Rightarrow> nat \<Rightarrow> bytes" where
  "vector_bytes ds vs i = take vs (hm_rows ds ! i)"

lemma vectors_sized: "dataset_ok ds dim sz \<Longrightarrow> i < length (hm_rows ds) \<Longrightarrow> length (vector_bytes ds (dim * sz) i) = dim * sz"
  unfolding dataset_ok_def vector_bytes_def by (metis length_take min_absorb2 nth_mem)

lemma dataset_row_sizes:
  assumes "dataset_ok ds dim sz" "\<And>r. r < length (hm_rows ds) \<Longrightarrow> lab r < P" "header + length (hm_rows ds) * (dim * sz) \<le> length c0"
  shows "row_sizes lab (vector_bytes ds (dim * sz)) (dim * sz) (length (hm_rows ds)) P header c0"
  using assms vectors_sized[OF assms(1)] by (auto simp: row_sizes_def dataset_ok_def)

lemma rows_stored:
  assumes io: "io_ok io" and lab: "labels_in n P labels" and n: "n = length (hm_rows ds)" and cap: "0 < cap"
    and szc: "row_sizes (core_of labels) (vector_bytes ds vs) vs n P (ln_header core) cr"
    and sza: "row_sizes (augmented_of labels) (vector_bytes ds vs) vs n P (ln_header aug) ca"
    and c: "lane_holds (core_of labels) (vector_bytes ds vs) vs cap n P cr 0 core fs" "has_room cap P core"
    and a: "lane_holds (augmented_of labels) (vector_bytes ds vs) vs cap n P ca 0 aug fs" "has_room cap P aug"
    and ne: "ln_path core \<noteq> ln_path aug"
  shows "\<exists>core' aug' fs'. fold_sr (store_vector io vs cap ds labels) [0..<n] (core, aug) fs = (Inr (core', aug'), fs') \<and>
    lane_holds (core_of labels) (vector_bytes ds vs) vs cap n P cr n core' fs' \<and> ln_path core' = ln_path core \<and> ln_header core' = ln_header core \<and>
    lane_holds (augmented_of labels) (vector_bytes ds vs) vs cap n P ca n aug' fs' \<and> ln_path aug' = ln_path aug \<and> ln_header aug' = ln_header aug \<and>
    (\<forall>q. q \<noteq> ln_path core \<longrightarrow> q \<noteq> ln_path aug \<longrightarrow> fs' q = fs q)"
proof -
  let ?row = "vector_bytes ds vs"
  define Inv where "Inv k ls s \<longleftrightarrow>
    lane_holds (core_of labels) ?row vs cap n P cr k (fst ls) s \<and> has_room cap P (fst ls) \<and> ln_path (fst ls) = ln_path core \<and> ln_header (fst ls) = ln_header core \<and>
    lane_holds (augmented_of labels) ?row vs cap n P ca k (snd ls) s \<and> has_room cap P (snd ls) \<and> ln_path (snd ls) = ln_path aug \<and> ln_header (snd ls) = ln_header aug \<and>
    (\<forall>q. q \<noteq> ln_path core \<longrightarrow> q \<noteq> ln_path aug \<longrightarrow> s q = fs q)" for k ls s
  have step: "\<exists>ls' s'. store_vector io vs cap ds labels k ls s = (Inr ls', s') \<and> Inv (Suc k) ls' s'" if k: "k < n" and v: "Inv k ls s" for k ls s
  proof -
    obtain cl al where ls: "ls = (cl, al)" by force
    have vc: "lane_holds (core_of labels) ?row vs cap n P cr k cl s" "has_room cap P cl" "row_sizes (core_of labels) ?row vs n P (ln_header cl) cr"
      and va: "lane_holds (augmented_of labels) ?row vs cap n P ca k al s" "has_room cap P al" "row_sizes (augmented_of labels) ?row vs n P (ln_header al) ca"
      and paths: "ln_path cl = ln_path core" "ln_header cl = ln_header core" "ln_path al = ln_path aug" "ln_header al = ln_header aug"
      and rest: "\<forall>q. q \<noteq> ln_path core \<longrightarrow> q \<noteq> ln_path aug \<longrightarrow> s q = fs q"
      using v szc sza unfolding Inv_def ls by auto
    obtain cl' s1 where b1: "buffer_vector io vs cap (?row k) (core_of labels k) cl s = (Inr cl', s1)"
      "lane_holds (core_of labels) ?row vs cap n P cr (Suc k) cl' s1" "has_room cap P cl'" "ln_path cl' = ln_path cl" "ln_header cl' = ln_header cl"
      "\<forall>q. q \<noteq> ln_path cl \<longrightarrow> s1 q = s q"
      using lane_buffered[OF io vc(3,1,2) k] by blast
    have "lane_holds (augmented_of labels) ?row vs cap n P ca k al s1" by (rule lane_frame[OF va(1)]) (use b1(6) paths ne in auto)
    then obtain al' s2 where b2: "buffer_vector io vs cap (?row k) (augmented_of labels k) al s1 = (Inr al', s2)"
      "lane_holds (augmented_of labels) ?row vs cap n P ca (Suc k) al' s2" "has_room cap P al'" "ln_path al' = ln_path al" "ln_header al' = ln_header al"
      "\<forall>q. q \<noteq> ln_path al \<longrightarrow> s2 q = s1 q"
      using lane_buffered[OF io va(3) _ va(2) k] by blast
    have "lane_holds (core_of labels) ?row vs cap n P cr (Suc k) cl' s2" by (rule lane_frame[OF b1(2)]) (use b1(4) b2(6) paths ne in auto)
    moreover have "store_vector io vs cap ds labels k ls s = (Inr (cl', al'), s2)"
      using b1(1) b2(1) by (simp add: store_vector_def ls Let_def split_beta core_of_def augmented_of_def vector_bytes_def)
    ultimately show ?thesis using b1 b2 paths rest by (auto simp: Inv_def)
  qed
  have "Inv 0 (core, aug) fs" using c a by (simp add: Inv_def)
  then obtain ls' s' where "fold_sr (store_vector io vs cap ds labels) [0..<n] (core, aug) fs = (Inr ls', s')" "Inv n ls' s'"
    using fold_sr_upt[of n Inv "store_vector io vs cap ds labels" "(core, aug)" fs] step by blast
  then show ?thesis unfolding Inv_def by (intro exI[of _ "fst ls'"] exI[of _ "snd ls'"] exI[of _ s']) simp
qed

text \<open>The three files of the build, as they were created: their headers and room for the data.\<close>

definition files_created :: "directory \<Rightarrow> string \<times> nat \<Rightarrow> string \<times> nat \<Rightarrow> string \<times> nat \<Rightarrow> nat \<Rightarrow> nat \<Rightarrow> bytes \<Rightarrow> bytes \<Rightarrow> bytes \<Rightarrow> bool" where
  "files_created fs rt at mt n vs cr ca cm \<longleftrightarrow> distinct [fst rt, fst at, fst mt] \<and>
     fs (fst rt) = Some cr \<and> snd rt + n * vs \<le> length cr \<and> fs (fst at) = Some ca \<and> snd at + n * vs \<le> length ca \<and>
     fs (fst mt) = Some cm \<and> snd mt + n * 4 \<le> length cm"

lemma dataset_stored:
  assumes io: "io_ok io" and lb: "labels_ok n P lb" and n: "n = length (hm_rows ds)" "0 < n" and ds: "dataset_ok ds dim sz"
    and files: "files_created fs rt at mt n (dim * sz) cr ca cm" and bw: "length bw = n"
  shows "\<exists>fs'. ace_reorder_and_store_dataset io lib junk sz ds dim P lb bw rt at mt fs = (Inr (), fs') \<and>
    file_at fs' (fst rt) (snd rt) cr (concat (map (vector_bytes ds (dim * sz)) (grouped (core_of (al_labels lb)) n P))) \<and>
    file_at fs' (fst at) (snd at) ca (concat (map (vector_bytes ds (dim * sz)) (grouped (augmented_of (al_labels lb)) n P))) \<and>
    file_at fs' (fst mt) (snd mt) cm (array_bytes (put_uint 4) bw) \<and>
    (\<forall>q. q \<notin> {fst rt, fst at, fst mt} \<longrightarrow> fs' q = fs q)"
proof -
  let ?vs = "dim * sz" and ?l = "al_labels lb" and ?cap = "buffer_rows lib P (dim * sz)"
  let ?c = "core_of ?l" and ?a = "augmented_of ?l"
  have lab: "\<And>r. r < n \<Longrightarrow> ?c r < P" "\<And>r. r < n \<Longrightarrow> ?a r < P" and hist: "al_core lb = map (\<lambda>p. length (bucket ?c p n)) [0..<P]"
    "al_augmented lb = map (\<lambda>p. length (bucket ?a p n)) [0..<P]" using lb by (auto simp: labels_ok_def)
  have cap: "0 < ?cap" by (simp add: buffer_rows_def Let_def)
  have f: "fst rt \<noteq> fst at" "fst rt \<noteq> fst mt" "fst at \<noteq> fst mt" "fs (fst rt) = Some cr" "snd rt + n * ?vs \<le> length cr"
    "fs (fst at) = Some ca" "snd at + n * ?vs \<le> length ca" "fs (fst mt) = Some cm" "snd mt + n * 4 \<le> length cm"
    using files by (auto simp: files_created_def)
  have szc: "row_sizes ?c (vector_bytes ds ?vs) ?vs n P (snd rt) cr" "row_sizes ?a (vector_bytes ds ?vs) ?vs n P (snd at) ca"
    using dataset_row_sizes[OF ds] lab f(5,7) n(1) by auto
  let ?core = "fresh_lane rt P ?cap (al_core lb) junk" and ?aug = "fresh_lane at P ?cap (al_augmented lb) junk"
  have paths: "ln_path ?core = fst rt" "ln_header ?core = snd rt" "ln_path ?aug = fst at" "ln_header ?aug = snd at" by (simp_all add: fresh_lane_def)
  have lc: "lane_holds ?c (vector_bytes ds ?vs) ?vs ?cap n P cr 0 ?core fs" "has_room ?cap P ?core"
    using lane_fresh[where fs = fs and path = "fst rt", OF f(4) szc(1) hist(1) cap] by simp_all
  have la: "lane_holds ?a (vector_bytes ds ?vs) ?vs ?cap n P ca 0 ?aug fs" "has_room ?cap P ?aug"
    using lane_fresh[where fs = fs and path = "fst at", OF f(6) szc(2) hist(2) cap] by simp_all
  obtain core' aug' fs1 where s1: "fold_sr (store_vector io ?vs ?cap ds ?l) [0..<n] (?core, ?aug) fs = (Inr (core', aug'), fs1)"
    "lane_holds ?c (vector_bytes ds ?vs) ?vs ?cap n P cr n core' fs1" "ln_path core' = fst rt" "ln_header core' = snd rt"
    "lane_holds ?a (vector_bytes ds ?vs) ?vs ?cap n P ca n aug' fs1" "ln_path aug' = fst at" "ln_header aug' = snd at"
    "\<forall>q. q \<noteq> fst rt \<longrightarrow> q \<noteq> fst at \<longrightarrow> fs1 q = fs q"
    using rows_stored[OF io labels_ok_in[OF lb] n(1) cap _ _ lc la] szc f(1) paths by auto
  obtain l2 fs2 c2 where s2: "fold_sr (flush_lane io ?vs) [0..<P] core' fs1 = (Inr l2, fs2)" "\<forall>q. q \<noteq> fst rt \<longrightarrow> fs2 q = fs1 q"
    "fs2 (fst rt) = Some c2" "length c2 = length cr" "take (snd rt) c2 = take (snd rt) cr" "holds c2 (snd rt) (concat (map (vector_bytes ds ?vs) (grouped ?c n P)))"
    using lane_finished[OF io _ s1(2)] szc(1) s1(3,4) by auto
  have "lane_holds ?a (vector_bytes ds ?vs) ?vs ?cap n P ca n aug' fs2" by (rule lane_frame[OF s1(5)]) (use s2(2) s1(6) f(1) in auto)
  then obtain l3 fs3 c3 where s3: "fold_sr (flush_lane io ?vs) [0..<P] aug' fs2 = (Inr l3, fs3)" "\<forall>q. q \<noteq> fst at \<longrightarrow> fs3 q = fs2 q"
    "fs3 (fst at) = Some c3" "length c3 = length ca" "take (snd at) c3 = take (snd at) ca" "holds c3 (snd at) (concat (map (vector_bytes ds ?vs) (grouped ?a n P)))"
    using lane_finished[OF io] szc(2) s1(6,7) by (metis (no_types, lifting))
  let ?m = "array_bytes (put_uint 4) bw"
  have m: "length ?m = n * 4" using bw by simp
  then have "?m \<noteq> []" using n(2) by (metis list.size(3) mult_is_0 not_less_iff_gr_or_eq zero_neq_numeral)
  have "fs3 (fst mt) = Some cm" using s3(2) s2(2) s1(8) f(2,3,8) by metis
  note s4 = write_file_ok[where fs = fs3 and path = "fst mt" and off = "snd mt", OF io this \<open>?m \<noteq> []\<close>]
  have fit: "snd mt + length ?m \<le> length cm" using f(9) m by simp
  let ?fs = "fs3(fst mt \<mapsto> overwrite cm (snd mt) ?m)"
  have run: "ace_reorder_and_store_dataset io lib junk sz ds dim P lb bw rt at mt fs = (Inr (), ?fs)"
    using s1(1) s2(1) s3(1) s4[OF fit] ds histogram_total[OF hist(1) lab(1)] histogram_total[OF hist(2) lab(2)] n(1)
    by (simp add: ace_reorder_and_store_dataset_def Let_def bind_expects expects_def dataset_ok_def)
  have "take (snd mt) (overwrite cm (snd mt) ?m) = take (snd mt) cm" using fit by (simp add: overwrite_def)
  then have "file_at ?fs (fst mt) (snd mt) cm ?m"
    using holds_overwrite[OF fit] length_overwrite_inside[OF fit] by (simp add: file_at_def)
  moreover have "file_at ?fs (fst rt) (snd rt) cr (concat (map (vector_bytes ds ?vs) (grouped ?c n P)))"
    using s2 s3(2) f(1,2) by (simp add: file_at_def)
  moreover have "file_at ?fs (fst at) (snd at) ca (concat (map (vector_bytes ds ?vs) (grouped ?a n P)))"
    using s3 f(3) by (simp add: file_at_def)
  moreover have "\<forall>q. q \<notin> {fst rt, fst at, fst mt} \<longrightarrow> ?fs q = fs q" using s1(8) s2(2) s3(2) by simp
  ultimately show ?thesis using run by blast
qed

lemma sorted_grouped:
  assumes "\<And>r. r < n \<Longrightarrow> lab r < P"
  shows "grouped lab n P = sort_key lab [0..<n]"
  using buckets_sort[of n lab P 0] assms by (simp add: grouped_def)

text \<open>
  C15: Reordering the dataset to disk writes, whatever the size of the buffers, the rows in the order of
  the core list to one file, in the order of the augmented list to the other, and the core list to the
  mapping file, behind their headers; nothing else changes, and it fails in no check.
\<close>

theorem ace_dataset_reordered:
  assumes "io_ok io" "labels_ok n P lb" "n = length (hm_rows ds)" "0 < n" "n < 2 ^ 32" "dataset_ok ds dim sz" "0 < P" "list_arrays n P True L0"
    and "ace_create_forward_and_backward_lists n P lb [] L0 = Some (Inr L)" "files_created fs rt at mt n (dim * sz) cr ca cm"
  shows "\<exists>fs'. ace_reorder_and_store_dataset io lib junk sz ds dim P lb (pl_core_backward L) rt at mt fs = (Inr (), fs') \<and>
    file_at fs' (fst rt) (snd rt) cr (concat (map (vector_bytes ds (dim * sz)) (pl_core_backward L))) \<and>
    file_at fs' (fst at) (snd at) ca (concat (map (vector_bytes ds (dim * sz)) (pl_augmented_backward L))) \<and>
    file_at fs' (fst mt) (snd mt) cm (array_bytes (put_uint 4) (pl_core_backward L)) \<and>
    (\<forall>q. q \<notin> {fst rt, fst at, fst mt} \<longrightarrow> fs' q = fs q)"
proof -
  have L: "pl_core_backward L = sort_key (core_of (al_labels lb)) [0..<n]" "pl_augmented_backward L = sort_key (augmented_of (al_labels lb)) [0..<n]"
    using disk_lists[OF assms(2,4,5,7,8), of "[]"] assms(9) by (auto simp: sorted_lists_def)
  have g: "grouped (core_of (al_labels lb)) n P = pl_core_backward L" "grouped (augmented_of (al_labels lb)) n P = pl_augmented_backward L"
    unfolding L using assms(2) by (auto simp: labels_ok_def intro!: sorted_grouped)
  have "length (pl_core_backward L) = n" unfolding L by simp
  then show ?thesis using dataset_stored[OF assms(1-4,6,10), of "pl_core_backward L" lib junk] unfolding g by blast
qed

lemma part_read:
  assumes io: "io_ok io" and f: "file_at fs path header c0 (concat (map (vector_bytes ds (dim * sz)) xs))"
    and ds: "dataset_ok ds dim sz" "set xs \<subseteq> {..<length (hm_rows ds)}" and r: "start + k \<le> length xs"
  shows "read_part io path (header + start * (dim * sz)) (k * (dim * sz)) fs =
    Inr (concat (map (vector_bytes ds (dim * sz)) (slice xs start k)))"
    "length (concat (map (vector_bytes ds (dim * sz)) (slice xs start k))) = k * (dim * sz)"
proof -
  let ?w = "dim * sz" and ?v = "vector_bytes ds (dim * sz)"
  obtain c where c: "fs path = Some c" "holds c header (concat (map ?v xs))" using f by (auto simp: file_at_def)
  have each: "length (?v (xs ! i)) = ?w" if "i < length xs" for i using vectors_sized[OF ds(1), of "xs ! i"] ds(2) that nth_mem by blast
  have "map ?v xs = map (\<lambda>i. ?v (xs ! i)) [0..<length xs]" by (rule nth_equalityI) simp_all
  then have "holds c header (concat (map (\<lambda>i. ?v (xs ! i)) [0..<length xs]))" using c(2) by simp
  then have h: "holds c (header + start * ?w) (concat (map (\<lambda>i. ?v (xs ! (start + i))) [0..<k]))"
    using each r by (intro holds_concat) auto
  have s: "map ?v (slice xs start k) = map (\<lambda>i. ?v (xs ! (start + i))) [0..<k]"
    using r by (intro nth_equalityI) (simp_all add: slice_def)
  have "\<forall>j < k. length (?v (xs ! (start + j))) = ?w" using each r by auto
  then show l: "length (concat (map ?v (slice xs start k))) = k * ?w" unfolding s by (rule length_concat_rows)
  have h': "holds c (header + start * ?w) (concat (map ?v (slice xs start k)))" using h s by simp
  then have "header + start * ?w + k * ?w \<le> length c" "slice c (header + start * ?w) (k * ?w) = concat (map ?v (slice xs start k))"
    using l by (simp_all add: holds_def)
  then show "read_part io path (header + start * ?w) (k * ?w) fs = Inr (concat (map ?v (slice xs start k)))"
    using io c(1) by (simp add: read_part_def io_ok_def)
qed

lemma partition_loaded:
  assumes io: "io_ok io" and lb: "labels_ok n P lb" and n: "n = length (hm_rows ds)" and ds: "dataset_ok ds dim sz"
    and L: "lists_ok n P (al_labels lb) L" and p: "p < P"
    and r: "file_at fs rp hr cr (concat (map (vector_bytes ds (dim * sz)) (pl_core_backward L)))"
    and a: "file_at fs ap ha ca (concat (map (vector_bytes ds (dim * sz)) (pl_augmented_backward L)))"
    and paths: "rp \<noteq> []" "ap \<noteq> []"
  shows "ace_load_partition_dataset_from_disk io sz p dim P lb L (True, rp) (True, ap) hr ha
      (Some (core_size n (al_labels lb) p + augmented_size n (al_labels lb) p, dim)) fs =
    Inr (concat (map (vector_bytes ds (dim * sz)) (partition_rows n (al_labels lb) L p)))"
proof -
  let ?l = "al_labels lb" and ?w = "dim * sz" and ?v = "vector_bytes ds (dim * sz)"
  note f = lists_ok_facts[OF L labels_ok_in[OF lb]] and room = partition_room[OF labels_ok_in[OF lb] p]
  have hist: "al_core lb ! p = core_size n ?l p" "al_augmented lb ! p = augmented_size n ?l p"
    using lb p by (simp_all add: labels_ok_def core_size_def augmented_size_def)
  have offs: "p < length (pl_core_offsets L)" "p < length (pl_augmented_offsets L)" using L p by (simp_all add: lists_ok_def starts_def del: upt_Suc)
  have w: "0 < ?w" using ds by (simp add: dataset_ok_def)
  note rc = part_read[OF io r ds, of "core_start n ?l p" "core_size n ?l p"]
  note ra = part_read[OF io a ds, of "augmented_start n ?l p" "augmented_size n ?l p"]
  have c: "read_part io rp (hr + core_start n ?l p * ?w) (core_size n ?l p * ?w) fs = Inr (concat (map ?v (slice (pl_core_backward L) (core_start n ?l p) (core_size n ?l p))))"
    "length (concat (map ?v (slice (pl_core_backward L) (core_start n ?l p) (core_size n ?l p)))) = core_size n ?l p * ?w"
    using rc room f(1,3) n by simp_all
  have d: "read_part io ap (ha + augmented_start n ?l p * ?w) (augmented_size n ?l p * ?w) fs = Inr (concat (map ?v (slice (pl_augmented_backward L) (augmented_start n ?l p) (augmented_size n ?l p))))"
    "length (concat (map ?v (slice (pl_augmented_backward L) (augmented_start n ?l p) (augmented_size n ?l p)))) = augmented_size n ?l p * ?w"
    using ra room f(2,4) n by simp_all
  have zero: "slice xs k 0 = []" for xs :: "nat list" and k by (simp add: slice_def)
  show ?thesis
    using c d w p offs hist paths f(6,7)[OF p]
    by (cases "core_size n ?l p = 0"; cases "augmented_size n ?l p = 0")
      (simp_all add: ace_load_partition_dataset_from_disk_def Let_def bind_expects expect_complete_read_def partition_rows_def zero del: length_concat)
qed

text \<open>
  C16: A partition read from the files the disk build has written is, byte for byte, the partition the
  memory build gathers from the dataset with the same lists, also when its core or augmented part is empty.
\<close>

theorem ace_partition_read_back:
  assumes "io_ok io" "labels_ok n P lb" "n = length (hm_rows ds)" "0 < n" "n < 2 ^ 32" "dataset_ok ds dim sz" "list_arrays n P True L0"
    and "ace_create_forward_and_backward_lists n P lb [] L0 = Some (Inr L)" "files_created fs rt at mt n (dim * sz) cr ca cm"
    and "ace_reorder_and_store_dataset io lib junk sz ds dim P lb (pl_core_backward L) rt at mt fs = (Inr (), fs')"
    and "p < P" "fst rt \<noteq> []" "fst at \<noteq> []"
    and "length sub = core_size n (al_labels lb) p + augmented_size n (al_labels lb) p"
  shows "ace_load_partition_dataset_from_disk io sz p dim P lb L (True, fst rt) (True, fst at) (snd rt) (snd at) (Some (length sub, dim)) fs' =
    Inr (concat (ace_gather_partition_dataset (dim * sz) (core_size n (al_labels lb) p) (augmented_size n (al_labels lb) p) p ds L sub))"
proof -
  have P: "0 < P" using assms(11) by simp
  have L: "lists_ok n P (al_labels lb) L" "sorted_lists n P (al_labels lb) L" using disk_lists[OF assms(2,4,5) P assms(7), of "[]"] assms(8) by auto
  have g: "grouped (core_of (al_labels lb)) n P = pl_core_backward L" "grouped (augmented_of (al_labels lb)) n P = pl_augmented_backward L"
    using L(2) assms(2) by (auto simp: labels_ok_def sorted_lists_def intro!: sorted_grouped)
  have "length (pl_core_backward L) = n" using L(1) by (simp add: lists_ok_def blocks_def)
  then have "file_at fs' (fst rt) (snd rt) cr (concat (map (vector_bytes ds (dim * sz)) (pl_core_backward L))) \<and>
    file_at fs' (fst at) (snd at) ca (concat (map (vector_bytes ds (dim * sz)) (pl_augmented_backward L)))"
    using dataset_stored[OF assms(1-4,6,9), of "pl_core_backward L" lib junk] assms(10) unfolding g by auto
  note load = partition_loaded[OF assms(1,2,3,6) L(1) assms(11) conjunct1[OF this] conjunct2[OF this] assms(12,13)]
  have "vector_bytes ds (dim * sz) = (\<lambda>i. take (dim * sz) (hm_rows ds ! i))" by (intro ext) (simp add: vector_bytes_def)
  then show ?thesis
    using load gather_rows[OF L(1) labels_ok_in[OF assms(2)] assms(11,14), of "dim * sz" ds] assms(14) by simp
qed

definition demo_io :: disk_io where
  "demo_io = \<lparr>io_write = (\<lambda>_ off data c. (True, overwrite c off data)), io_read = (\<lambda>_ off n c. Inr (slice c off n))\<rparr>"

definition demo_vectors :: host_matrix where
  "demo_vectors = \<lparr>hm_rows = [[5, 6], [7, 8], [9, 10]], hm_extent = 2\<rparr>"

definition demo_store :: store_lib where
  "demo_store = \<lparr>st_free = 1000, st_share = (\<lambda>free parts. free div (2 * parts)), st_bound = (\<lambda>n. 2 * n)\<rparr>"

definition demo_files :: directory where
  "demo_files = [''r'' \<mapsto> replicate 8 1, ''a'' \<mapsto> replicate 7 2, ''m'' \<mapsto> replicate 12 3]"

lemma demo_store_ok:
  "io_ok demo_io" "dataset_ok demo_vectors 2 1"
  "files_created demo_files (''r'', 2) (''a'', 1) (''m'', 0) 3 (2 * 1) (replicate 8 1) (replicate 7 2) (replicate 12 3)"
  "list_arrays 3 3 True (demo_lists [0, 0, 0])" "3 = length (hm_rows demo_vectors)"
  by (auto simp: io_ok_def demo_io_def dataset_ok_def demo_vectors_def files_created_def demo_files_def list_arrays_def demo_lists_def)

theorem ace_dataset_reordered_witness:
  "\<exists>fs'. ace_reorder_and_store_dataset demo_io demo_store [0, 0] 1 demo_vectors 2 3 demo_labelled [1, 0, 2] (''r'', 2) (''a'', 1) (''m'', 0) demo_files = (Inr (), fs') \<and>
     file_at fs' ''r'' 2 (replicate 8 1) [7, 8, 5, 6, 9, 10]"
proof -
  note h = ace_dataset_reordered[OF demo_store_ok(1) demo_labelled_ok demo_store_ok(5) _ _ demo_store_ok(2) _ demo_store_ok(4) demo_disk_lists demo_store_ok(3),
    of demo_store "[0, 0]"]
  have "concat (map (vector_bytes demo_vectors (2 * 1)) [1, 0, 2]) = [7, 8, 5, 6, 9, 10]" by (simp add: vector_bytes_def demo_vectors_def)
  then show ?thesis using h by auto
qed

text \<open>
  A write that fails while the last buffers are flushed, here on a full disk, is an exception in an OpenMP region:
  the process ends, no handler runs.
\<close>

lemma last_flush_ends_the_process:
  "fst (ace_reorder_and_store_dataset (demo_io\<lparr>io_write := (\<lambda>_ _ _ c. (False, c))\<rparr>) demo_store [0, 0] 1 demo_vectors 2 3 demo_labelled [1, 0, 2]
     (''r'', 2) (''a'', 1) (''m'', 0) demo_files) = Inl Terminated"
proof -
  let ?io = "demo_io\<lparr>io_write := (\<lambda>_ _ _ c. (False, c))\<rparr>"
  let ?core = "fresh_lane (''r'', 2) 3 83 (al_core demo_labelled) [0, 0]" and ?aug = "fresh_lane (''a'', 1) 3 83 (al_augmented demo_labelled) [0, 0]"
  have rows: "buffer_rows demo_store 3 (2 * 1) = 83" by (simp add: buffer_rows_def demo_store_def)
  have u: "length (hm_rows demo_vectors) = 3" "hm_extent demo_vectors = 2" by (simp_all add: demo_vectors_def)
  have upt: "[0..<3] = [0, 1, 2]" by (simp add: upt_rec)
  have three: "replicate 3 x = [x, x, x]" for x :: 'x by (simp add: numeral_eq_Suc)
  have totals: "fold (\<lambda>p t. t + al_core demo_labelled ! p) [0..<3] 0 = 3" "fold (\<lambda>p t. t + al_augmented demo_labelled ! p) [0..<3] 0 = 3"
    by (simp_all add: demo_labelled_def upt)
  have loop: "\<exists>lanes. fold_sr (store_vector ?io (2 * 1) 83 demo_vectors (al_labels demo_labelled)) [0..<3] (?core, ?aug) demo_files = (Inr lanes, demo_files) \<and>
      ln_path (fst lanes) = ''r'' \<and> ln_counts (fst lanes) ! 0 = 1 \<and> take 1 (ln_buffers (fst lanes) ! 0) = [[7, 8]]"
    by (simp add: store_vector_def buffer_vector_def Let_def demo_vectors_def demo_labelled_def fresh_lane_def upt three numeral_eq_Suc(1))
  then obtain lanes where l: "fold_sr (store_vector ?io (2 * 1) 83 demo_vectors (al_labels demo_labelled)) [0..<3] (?core, ?aug) demo_files = (Inr lanes, demo_files)"
      "ln_path (fst lanes) = ''r''" "ln_counts (fst lanes) ! 0 = 1" "take 1 (ln_buffers (fst lanes) ! 0) = [[7, 8]]" by blast
  obtain fs' where flush: "fold_sr (flush_lane ?io (2 * 1)) [0..<3] (fst lanes) demo_files = (Inl IncompleteWrite, fs')"
    using l(2,3,4) by (simp add: upt flush_lane_def Let_def write_file_def demo_files_def)
  show ?thesis
    using flush unfolding ace_reorder_and_store_dataset_def Let_def u totals rows l(1) by (simp add: bind_expects expects_def)
qed

lemma demo_stored:
  "\<exists>fs'. ace_reorder_and_store_dataset demo_io demo_store [0, 0] 1 demo_vectors 2 3 demo_labelled [1, 0, 2] (''r'', 2) (''a'', 1) (''m'', 0) demo_files = (Inr (), fs')"
  using dataset_stored[OF demo_store_ok(1) demo_labelled_ok demo_store_ok(5) _ demo_store_ok(2,3), of "[1, 0, 2]" demo_store "[0, 0]"] by auto

theorem ace_partition_read_back_witness:
  "\<exists>fs' L. ace_reorder_and_store_dataset demo_io demo_store [0, 0] 1 demo_vectors 2 3 demo_labelled [1, 0, 2] (''r'', 2) (''a'', 1) (''m'', 0) demo_files = (Inr (), fs') \<and>
     ace_load_partition_dataset_from_disk demo_io 1 2 2 3 demo_labelled L (True, ''r'') (True, ''a'') 2 1 (Some (1, 2)) fs' =
       Inr (concat (ace_gather_partition_dataset (2 * 1) 0 1 2 demo_vectors L [[0, 0]]))"
proof -
  obtain fs' where fs': "ace_reorder_and_store_dataset demo_io demo_store [0, 0] 1 demo_vectors 2 3 demo_labelled
      (pl_core_backward \<lparr>pl_core_forward = [1, 0, 2], pl_core_backward = [1, 0, 2], pl_augmented_backward = [0, 1, 2],
         pl_core_offsets = [0, 1, 3, 3], pl_augmented_offsets = [0, 1, 2, 3]\<rparr>) (''r'', 2) (''a'', 1) (''m'', 0) demo_files = (Inr (), fs')"
    using demo_stored by auto
  have sizes: "core_size 3 (al_labels demo_labelled) 2 = 0" "augmented_size 3 (al_labels demo_labelled) 2 = 1"
    by (simp_all add: core_size_def augmented_size_def bucket_def core_of_def augmented_of_def demo_labelled_def numeral_eq_Suc)
  note h = ace_partition_read_back[OF demo_store_ok(1) demo_labelled_ok demo_store_ok(5) _ _ demo_store_ok(2,4) demo_disk_lists demo_store_ok(3) fs',
    of 2 "[[0, 0]]", unfolded sizes]
  show ?thesis using h fs' by (intro exI conjI) auto
qed

end
