(* ===== verification/AceMemory.thy ===== *)
theory AceMemory imports AcePartition begin

text \<open>
  How many partitions the ACE build uses and whether it works on disk: the memory estimates
  (\<^verbatim>\<open>cpp/src/neighbors/detail/cagra/cagra_ace.cuh\<close>, \<^verbatim>\<open>cagra_helpers.cpp\<close>), the configured limits and the
  adjustments of the partition count. Sizes are \<^verbatim>\<open>size_t\<close>s: sums and products of sizes of the data stay far
  below the range, and of the subtractions two take a fixed part from the total that contains it
  (\<open>static_within_required\<close>), but the third, the device memory less the fixed overhead, can go below zero
  and then wraps around (\<open>size_minus\<close>). What is computed in \<^verbatim>\<open>double\<close> goes through a record
  of the operations of \<^verbatim>\<open>double\<close>, whose values HOL does not have.
\<close>

section \<open>Degrees and workspace sizes\<close>

definition check_graph_degree :: "nat \<Rightarrow> nat \<Rightarrow> nat \<Rightarrow> ace_error + nat \<times> nat" where
  "check_graph_degree intermediate_degree graph_degree dataset_size =
     bind_r (expects (2 \<le> dataset_size) TooFewRows) (\<lambda>_.
       let intermediate_degree' = (if dataset_size \<le> intermediate_degree then dataset_size - 1 else intermediate_degree);
           graph_degree' = (if intermediate_degree' < graph_degree then intermediate_degree' else graph_degree)
       in Inr (intermediate_degree', graph_degree'))"

record workspace_sizes =
  ws_host :: nat
  ws_dev :: nat
  ws_host_fixed :: nat
  ws_dev_fixed :: nat

definition kOptimizeBatchSize :: nat where "kOptimizeBatchSize = 256 * 1024"

definition optimize_workspace_size :: "bool \<Rightarrow> nat \<Rightarrow> nat \<Rightarrow> nat \<Rightarrow> nat \<Rightarrow> bool \<Rightarrow> ace_error + workspace_sizes" where
  "optimize_workspace_size debug n_rows graph_degree intermediate_degree index_size mst_optimize =
     bind_r (expects (0 < graph_degree) WorkspaceArguments) (\<lambda>_.
     bind_r (expects (graph_degree \<le> intermediate_degree) WorkspaceArguments) (\<lambda>_.
     let mst_host_fixed = (if mst_optimize then (graph_degree - 1) * (graph_degree - 1) * index_size else 0);
         mst_host = (if mst_optimize
           then n_rows * index_size + n_rows * graph_degree * index_size + n_rows * graph_degree * index_size +
                n_rows * index_size * 7 + mst_host_fixed
           else 0);
         batch_size = min kOptimizeBatchSize n_rows;
         prune_dev_fixed = batch_size * intermediate_degree + batch_size * 4 + 2 * batch_size * graph_degree * index_size;
         prune_dev = n_rows * intermediate_degree * index_size + prune_dev_fixed;
         natural_degree_dev = n_rows * 4;
         rev_dev = n_rows * graph_degree * index_size + n_rows * 4 + n_rows * index_size;
         combine_host_fixed = graph_degree * 4;
         combine_host = n_rows * 4 + combine_host_fixed;
         combine_dev_fixed = 2 * batch_size * graph_degree * index_size +
           (if mst_optimize then 2 * batch_size * graph_degree * index_size + 2 * batch_size * 4 else 0);
         combine_dev = combine_dev_fixed;
         debug_host_size = (if debug then n_rows * graph_degree * 4 + n_rows * 4 + graph_degree * 4 else 0)
     in Inr \<lparr>ws_host = mst_host + combine_host + debug_host_size,
             ws_dev = natural_degree_dev + max prune_dev (rev_dev + combine_dev),
             ws_host_fixed = mst_host_fixed + combine_host_fixed,
             ws_dev_fixed = max prune_dev_fixed combine_dev_fixed\<rparr>))"

lemma workspace_parts:
  assumes "optimize_workspace_size debug n_rows d i s mst = Inr w"
  shows "ws_host_fixed w \<le> ws_host w" "ws_dev_fixed w \<le> ws_dev w"
  using assms by (auto simp: optimize_workspace_size_def Let_def bind_expects split: if_splits)

section \<open>Memory estimates\<close>

text \<open>
  Operations of \<^verbatim>\<open>double\<close> (\<open>db_lit n k\<close> is the literal \<open>n / 10 ^ k\<close>, \<open>db_size\<close> the conversion to
  \<^verbatim>\<open>size_t\<close>) and what the machine answers: available host memory, total device memory, the size of raft's
  workspace, whether debug messages are logged, and raft's rounded-up division.
\<close>

record 'd mem_env =
  db_of :: "nat \<Rightarrow> 'd"
  db_lit :: "nat \<Rightarrow> nat \<Rightarrow> 'd"
  db_mul :: "'d \<Rightarrow> 'd \<Rightarrow> 'd"
  db_sub :: "'d \<Rightarrow> 'd \<Rightarrow> 'd"
  db_div :: "'d \<Rightarrow> 'd \<Rightarrow> 'd"
  db_ceil :: "'d \<Rightarrow> 'd"
  db_le :: "'d \<Rightarrow> 'd \<Rightarrow> bool"
  db_less :: "'d \<Rightarrow> 'd \<Rightarrow> bool"
  db_size :: "'d \<Rightarrow> nat"
  me_host_available :: nat
  me_device_total :: nat
  me_workspace :: nat
  me_debug :: bool
  me_div_up :: "nat \<Rightarrow> nat \<Rightarrow> nat"

record ace_memory_requirements =
  am_partition_labels_size :: nat
  am_id_mapping_size :: nat
  am_sub_dataset_size :: nat
  am_sub_graph_size :: nat
  am_cagra_graph_size :: nat
  am_total_size :: nat
  am_available_host_memory :: nat
  am_available_gpu_memory :: nat

definition usable_cpu_memory_fraction :: "'d mem_env \<Rightarrow> 'd" where "usable_cpu_memory_fraction me = db_lit me 8 1"
definition imbalance_factor :: "'d mem_env \<Rightarrow> 'd" where "imbalance_factor me = db_lit me 3 0"
definition vector_expansion_factor :: "'d mem_env \<Rightarrow> 'd" where "vector_expansion_factor me = db_lit me 2 0"

definition ace_resolve_available_memory :: "'d mem_env \<Rightarrow> nat \<Rightarrow> 'd option \<Rightarrow> nat" where
  "ace_resolve_available_memory me actual_bytes configured_gb =
     (case configured_gb of
        None \<Rightarrow> actual_bytes
      | Some gb \<Rightarrow>
          if db_le me gb (db_of me 0) then actual_bytes
          else let configured_bytes = db_size me (db_mul me gb (db_of me (2 ^ 30)))
               in if actual_bytes < configured_bytes then actual_bytes else configured_bytes)"

text \<open>Subtraction of \<^verbatim>\<open>size_t\<close>s.\<close>

definition size_minus :: "nat \<Rightarrow> nat \<Rightarrow> nat" where
  "size_minus a b = nat ((int a - int b) mod 2 ^ 64)"

definition ace_suggest_partition_count :: "'d mem_env \<Rightarrow> nat \<Rightarrow> nat \<Rightarrow> 'd \<Rightarrow> nat" where
  "ace_suggest_partition_count me n_partitions dynamic_bytes available_bytes =
     (let suggested = db_size me (db_ceil me (db_div me (db_of me ((dynamic_bytes * n_partitions) mod 2 ^ 64)) available_bytes))
      in max suggested (n_partitions + 1))"

text \<open>The numbers of the build the estimates depend on.\<close>

record 'd ace_sizes =
  sz_rows :: nat
  sz_dim :: nat
  sz_elem :: nat
  sz_intermediate :: nat
  sz_degree :: nat
  sz_connectivity :: bool
  sz_max_host_gb :: "'d option"
  sz_max_gpu_gb :: "'d option"

definition sub_partition_size :: "'d mem_env \<Rightarrow> 'd ace_sizes \<Rightarrow> nat \<Rightarrow> nat" where
  "sub_partition_size me z n_partitions =
     db_size me (db_mul me (db_mul me (imbalance_factor me) (vector_expansion_factor me)) (db_of me (me_div_up me (sz_rows z) n_partitions)))"

definition ace_check_use_disk_mode :: "'d mem_env \<Rightarrow> 'd ace_sizes \<Rightarrow> bool \<Rightarrow> string \<Rightarrow> nat \<Rightarrow> ace_error + bool \<times> ace_memory_requirements" where
  "ace_check_use_disk_mode me z use_disk build_dir n_partitions =
     bind_r (expects (0 < me_host_available me) NoHostMemory) (\<lambda>_.
     let available_host_memory = ace_resolve_available_memory me (me_host_available me) (sz_max_host_gb z);
         part = sub_partition_size me z n_partitions
     in bind_r (optimize_workspace_size (me_debug me) part (sz_degree z) (sz_intermediate z) 4 (sz_connectivity z)) (\<lambda>ws.
     let expanded = db_size me (db_mul me (db_mul me (vector_expansion_factor me) (db_of me (sz_rows z))) (db_of me 4));
         sub_dataset_size = part * sz_dim z * sz_elem z;
         sub_graph_size = part * (sz_intermediate z + sz_degree z) * 4;
         cagra_graph_size = sz_rows z * sz_degree z * 4;
         mem = \<lparr>am_partition_labels_size = expanded, am_id_mapping_size = expanded, am_sub_dataset_size = sub_dataset_size,
                am_sub_graph_size = sub_graph_size, am_cagra_graph_size = cagra_graph_size,
                am_total_size = expanded + expanded + sub_dataset_size + sub_graph_size + cagra_graph_size + ws_host ws,
                am_available_host_memory = available_host_memory,
                am_available_gpu_memory = ace_resolve_available_memory me (me_device_total me) (sz_max_gpu_gb z)\<rparr>;
         host_memory_limited = (db_size me (db_mul me (usable_cpu_memory_fraction me) (db_of me available_host_memory)) < am_total_size mem);
         gpu_memory_required = max sub_dataset_size (ws_dev ws) + me_workspace me;
         gpu_memory_limited = (am_available_gpu_memory mem < gpu_memory_required);
         use_disk_mode = (use_disk \<or> host_memory_limited \<or> gpu_memory_limited)
     in bind_r (if use_disk_mode then expects (build_dir \<noteq> []) NoBuildDir else Inr ()) (\<lambda>_. Inr (use_disk_mode, mem))))"

section \<open>The number of partitions\<close>

definition ace_resolve_partition_count :: "nat \<Rightarrow> nat" where
  "ace_resolve_partition_count n_partitions = (if n_partitions = 0 then 2 else if n_partitions = 1 then 2 else n_partitions)"

definition ace_validate_partition_count :: "nat \<Rightarrow> nat \<Rightarrow> ace_error + unit" where
  "ace_validate_partition_count n_partitions dataset_size = expects (n_partitions \<le> dataset_size) TooManyPartitions"

text \<open>The beginning of the build: the requested count, checked, and reduced so that partitions are not tiny.\<close>

definition initial_partitions :: "nat \<Rightarrow> nat \<Rightarrow> ace_error + nat" where
  "initial_partitions dataset_size npartitions =
     (let n_partitions = ace_resolve_partition_count npartitions in
      bind_r (ace_validate_partition_count n_partitions dataset_size) (\<lambda>_.
        let min_required_per_partition = 1000 in
        Inr (if dataset_size div min_required_per_partition < n_partitions then
               let reduced = dataset_size div min_required_per_partition in if reduced < 2 then 2 else reduced
             else n_partitions)))"

text \<open>
  The host memory that is left for the scaling part is computed in \<^verbatim>\<open>double\<close>, the device memory in
  \<^verbatim>\<open>size_t\<close> and converted afterwards.
\<close>

definition ace_validate_disk_mode_partitions :: "'d mem_env \<Rightarrow> 'd ace_sizes \<Rightarrow> nat \<Rightarrow> ace_memory_requirements \<Rightarrow>
    ace_error + nat \<times> ace_memory_requirements" where
  "ace_validate_disk_mode_partitions me z n_partitions mem =
     bind_r (optimize_workspace_size (me_debug me) (sub_partition_size me z n_partitions) (sz_degree z) (sz_intermediate z) 4 (sz_connectivity z)) (\<lambda>ws.
     let usable = db_mul me (usable_cpu_memory_fraction me) (db_of me (am_available_host_memory mem));
         disk_mode_host_required = am_partition_labels_size mem + am_id_mapping_size mem + am_sub_dataset_size mem +
           am_sub_graph_size mem + ws_host ws;
         host_memory_insufficient = (db_size me usable < disk_mode_host_required);
         disk_mode_host_static = am_partition_labels_size mem + am_id_mapping_size mem + ws_host_fixed ws;
         host_scaling = db_sub me usable (db_of me disk_mode_host_static)
     in bind_r (expects (host_memory_insufficient \<longrightarrow> db_less me (db_of me 0) host_scaling) HostOverhead) (\<lambda>_.
     let host_suggested_partitions = (if host_memory_insufficient
           then ace_suggest_partition_count me n_partitions (size_minus disk_mode_host_required disk_mode_host_static) host_scaling
           else n_partitions);
         disk_mode_gpu_required = max (am_sub_dataset_size mem) (ws_dev ws) + me_workspace me;
         gpu_memory_insufficient = (am_available_gpu_memory mem < disk_mode_gpu_required);
         disk_mode_gpu_static = ws_dev_fixed ws + me_workspace me;
         gpu_scaling = db_of me (size_minus (am_available_gpu_memory mem) disk_mode_gpu_static)
     in bind_r (expects (gpu_memory_insufficient \<longrightarrow> db_less me (db_of me 0) gpu_scaling) GpuOverhead) (\<lambda>_.
     let gpu_suggested_partitions = (if gpu_memory_insufficient
           then ace_suggest_partition_count me n_partitions (size_minus disk_mode_gpu_required disk_mode_gpu_static) gpu_scaling
           else n_partitions)
     in if host_memory_insufficient \<or> gpu_memory_insufficient then
          let new_n_partitions = max host_suggested_partitions gpu_suggested_partitions;
              new_part = sub_partition_size me z new_n_partitions
          in bind_r (optimize_workspace_size (me_debug me) new_part (sz_degree z) (sz_intermediate z) 4 (sz_connectivity z)) (\<lambda>new_ws.
             let sub_dataset_size = new_part * sz_dim z * sz_elem z;
                 sub_graph_size = new_part * (sz_intermediate z + sz_degree z) * 4
             in Inr (new_n_partitions,
                  mem\<lparr>am_sub_dataset_size := sub_dataset_size, am_sub_graph_size := sub_graph_size,
                      am_total_size := am_partition_labels_size mem + am_id_mapping_size mem + sub_dataset_size + sub_graph_size +
                        am_cagra_graph_size mem + ws_host new_ws\<rparr>))
        else Inr (n_partitions, mem))))"

text \<open>The part of the build that settles the mode and the count.\<close>

definition plan_build :: "'d mem_env \<Rightarrow> 'd ace_sizes \<Rightarrow> bool \<Rightarrow> string \<Rightarrow> nat \<Rightarrow> ace_error + bool \<times> nat" where
  "plan_build me z use_disk build_dir n_partitions =
     bind_r (ace_check_use_disk_mode me z use_disk build_dir n_partitions) (\<lambda>(use_disk_mode, mem).
       if use_disk_mode then
         bind_r (ace_validate_disk_mode_partitions me z n_partitions mem) (\<lambda>(n_partitions', mem').
         bind_r (ace_validate_partition_count n_partitions' (sz_rows z)) (\<lambda>_. Inr (True, n_partitions')))
       else Inr (False, n_partitions))"

section \<open>The count stays in range\<close>

lemma size_minus_exact: "b \<le> a \<Longrightarrow> a < 2 ^ 64 \<Longrightarrow> size_minus a b = a - b"
  by (simp add: size_minus_def of_nat_diff[symmetric] del: of_nat_diff)

lemma size_minus_wraps: "a < b \<Longrightarrow> b < 2 ^ 64 \<Longrightarrow> size_minus a b = 2 ^ 64 - (b - a)"
proof -
  assume "a < b" "b < 2 ^ 64"
  then have "(int a - int b) mod 2 ^ 64 = int a - int b + 2 ^ 64"
    by (subst mod_add_self2[symmetric], intro mod_pos_pos_trivial) simp_all
  then show ?thesis using \<open>a < b\<close> \<open>b < 2 ^ 64\<close> by (simp add: size_minus_def)
qed

text \<open>The dynamic parts are differences that never go below zero.\<close>

lemma static_within_required:
  assumes "optimize_workspace_size debug n_rows d i s mst = Inr ws"
  shows "labels + ids + ws_host_fixed ws \<le> labels + ids + data + graph + ws_host ws"
    "ws_dev_fixed ws + extra \<le> max data (ws_dev ws) + extra"
  using workspace_parts[OF assms] by auto

lemma initial_count:
  assumes "initial_partitions n requested = Inr m"
  shows "2 \<le> m" "m \<le> n" "m \<le> max 2 (n div 1000)" "m \<le> max 2 requested"
  using assms by (auto simp: initial_partitions_def ace_validate_partition_count_def ace_resolve_partition_count_def Let_def bind_expects split: if_splits)

lemma suggested_count: "n < ace_suggest_partition_count me n required scaling"
  by (simp add: ace_suggest_partition_count_def Let_def)

lemma validated_count:
  assumes "ace_validate_disk_mode_partitions me z m mem = Inr (m', mem')"
  shows "m' = m \<or> m < m'"
  using assms suggested_count[of m me]
  unfolding ace_validate_disk_mode_partitions_def Let_def bind_r_Inr_iff
  by (elim exE conjE) (force simp: less_max_iff_disj bind_r_Inr_iff split: if_splits)

lemma planned_count:
  assumes "plan_build me z use_disk dir m = Inr (disk, m')" "m \<le> sz_rows z"
  shows "m \<le> m'" "m' \<le> sz_rows z" "disk \<Longrightarrow> dir \<noteq> []" "\<not> disk \<Longrightarrow> m' = m \<and> \<not> use_disk"
proof -
  obtain ud mem where c: "ace_check_use_disk_mode me z use_disk dir m = Inr (ud, mem)"
    "(if ud then bind_r (ace_validate_disk_mode_partitions me z m mem) (\<lambda>(n', mem').
       bind_r (ace_validate_partition_count n' (sz_rows z)) (\<lambda>_. Inr (True, n'))) else Inr (False, m)) = Inr (disk, m')"
    using assms(1) by (auto simp: plan_build_def bind_r_Inr_iff)
  have u: "(use_disk \<longrightarrow> ud) \<and> (ud \<longrightarrow> dir \<noteq> [])"
    using c(1) by (auto simp: ace_check_use_disk_mode_def Let_def bind_expects bind_r_Inr_iff split: if_splits)
  show "m \<le> m'" "m' \<le> sz_rows z" "disk \<Longrightarrow> dir \<noteq> []" "\<not> disk \<Longrightarrow> m' = m \<and> \<not> use_disk"
    using c(2) u assms(2) validated_count[of me z m mem]
    by (auto simp: ace_validate_partition_count_def bind_r_Inr_iff bind_expects split: if_splits prod.splits)
qed

text \<open>
  C36: The partition count of a build that gets past its checks is at least 2, as the labelling needs, and
  never more than the rows of the dataset; memory limits only raise it, and only in disk mode, which has a
  directory and is never left when it was asked for. Too large a request is refused before anything else.
\<close>

theorem ace_partition_count_bounds:
  assumes "initial_partitions (sz_rows z) requested = Inr m" "plan_build me z use_disk dir m = Inr (disk, m')"
  shows "2 \<le> m' \<and> m' \<le> sz_rows z \<and> m \<le> max 2 (sz_rows z div 1000) \<and> m \<le> m' \<and> (m < m' \<longrightarrow> disk) \<and> (disk \<longrightarrow> dir \<noteq> []) \<and> (use_disk \<longrightarrow> disk)"
  using initial_count[OF assms(1)] planned_count[OF assms(2)] by (metis order_trans nat_less_le)

text \<open>
  The device memory left for the scaling part does go below zero, when the fixed overhead alone exceeds
  the memory; the difference is then close to \<open>2 ^ 64\<close>, so that the check meant for this case passes.
\<close>

lemma gpu_overhead_never_refused:
  assumes "available < static" "static < 2 ^ 64" and pos: "\<And>n. 0 < n \<Longrightarrow> db_less me (db_of me 0) (db_of me n)"
  shows "db_less me (db_of me 0) (db_of me (size_minus available static))"
  by (rule pos) (use assms(1,2) size_minus_wraps[OF assms(1,2)] in simp)

theorem ace_partition_count_refused:
  "initial_partitions n requested = Inl TooManyPartitions \<longleftrightarrow> n < max 2 requested"
  by (auto simp: initial_partitions_def ace_validate_partition_count_def ace_resolve_partition_count_def Let_def bind_expects)

text \<open>A machine with exact arithmetic on tenths, 1 TB of memory and a device that is too small.\<close>

definition demo_machine :: "int mem_env" where
  "demo_machine = \<lparr>db_of = (\<lambda>n. 10 * int n), db_lit = (\<lambda>n k. int n * 10 div 10 ^ k), db_mul = (\<lambda>x y. x * y div 10), db_sub = (-),
     db_div = (\<lambda>x y. 10 * x div y), db_ceil = (\<lambda>x. (x + 9) div 10 * 10), db_le = (\<le>), db_less = (<), db_size = (\<lambda>x. nat (x div 10)),
     me_host_available = 10 ^ 12, me_device_total = 10 ^ 10, me_workspace = 1000, me_debug = False, me_div_up = (\<lambda>n d. (n + d - 1) div d)\<rparr>"

definition demo_sizes :: "int ace_sizes" where
  "demo_sizes = \<lparr>sz_rows = 5000, sz_dim = 8, sz_elem = 4, sz_intermediate = 48, sz_degree = 32, sz_connectivity = False,
     sz_max_host_gb = None, sz_max_gpu_gb = None\<rparr>"

lemma demo_planned: "plan_build demo_machine demo_sizes True ''d'' 5 = Inr (True, 5)"
  by (simp add: plan_build_def ace_check_use_disk_mode_def ace_validate_disk_mode_partitions_def demo_machine_def demo_sizes_def Let_def
    expects_def bind_r_def optimize_workspace_size_def ace_resolve_available_memory_def sub_partition_size_def kOptimizeBatchSize_def
    imbalance_factor_def vector_expansion_factor_def usable_cpu_memory_fraction_def ace_validate_partition_count_def)

text \<open>With 500 bytes of device memory and a workspace of 1000 the build goes on, with one partition more.\<close>

lemma demo_tiny_device_accepted: "plan_build (demo_machine\<lparr>me_device_total := 500\<rparr>) demo_sizes True ''d'' 5 = Inr (True, 6)"
  by (simp add: plan_build_def ace_check_use_disk_mode_def ace_validate_disk_mode_partitions_def demo_machine_def demo_sizes_def Let_def
    expects_def bind_r_def optimize_workspace_size_def ace_resolve_available_memory_def sub_partition_size_def kOptimizeBatchSize_def
    imbalance_factor_def vector_expansion_factor_def usable_cpu_memory_fraction_def ace_validate_partition_count_def
    ace_suggest_partition_count_def size_minus_def)

theorem ace_partition_count_bounds_witness:
  "plan_build demo_machine demo_sizes True ''d'' 5 = Inr (True, 5) \<and> 2 \<le> (5 :: nat) \<and> 5 \<le> sz_rows demo_sizes"
proof -
  have "initial_partitions (sz_rows demo_sizes) 9 = Inr 5"
    by (simp add: initial_partitions_def ace_resolve_partition_count_def ace_validate_partition_count_def demo_sizes_def expects_def bind_r_def)
  from ace_partition_count_bounds[OF this demo_planned] demo_planned show ?thesis by simp
qed

end
