(* ===== verification/AceBuild.thy ===== *)
theory AceBuild imports AceStore AceMemory begin

text \<open>
  The ACE build as a whole (\<^verbatim>\<open>cpp/src/neighbors/detail/cagra/cagra_ace.cuh\<close>): the workspace directory with
  its artifacts and their removal after a failure, the loop over the partitions, and the index that
  refers to the files (\<^verbatim>\<open>cpp/include/cuvs/neighbors/cagra.hpp\<close>). k-means, distances, the index of a
  partition and the system are arguments.
\<close>

section \<open>The workspace\<close>

datatype artifact = reordered_dataset | augmented_dataset | dataset_mapping | cagra_graph

fun artifact_index :: "artifact \<Rightarrow> nat" where
  "artifact_index reordered_dataset = 0"
| "artifact_index augmented_dataset = 1"
| "artifact_index dataset_mapping = 2"
| "artifact_index cagra_graph = 3"

record disk_workspace =
  dw_build_dir :: string
  dw_artifacts :: "string list"
  dw_created :: "bool list"
  dw_directory_created :: bool
  dw_committed :: bool

definition ace_disk_workspace :: "string \<Rightarrow> disk_workspace" where
  "ace_disk_workspace build_dir =
     \<lparr>dw_build_dir = build_dir,
      dw_artifacts = map (path_join build_dir) [''reordered_dataset.npy'', ''augmented_dataset.npy'', ''dataset_mapping.npy'', ''cagra_graph.npy''],
      dw_created = replicate 4 False, dw_directory_created = False, dw_committed = False\<rparr>"

text \<open>
  The disk: the files, and which paths are directories. The system says whether a directory may be made
  where nothing is, whether it can be inspected, and whether a file or a directory is removed.
\<close>

record ace_disk =
  dk_files :: directory
  dk_dirs :: "string \<Rightarrow> bool"

record dir_calls =
  dc_mkdir :: "string \<Rightarrow> bool"
  dc_inspect :: "string \<Rightarrow> bool"
  dc_remove :: "string \<Rightarrow> bool"
  dc_rmdir :: "directory \<Rightarrow> string \<Rightarrow> bool"

text \<open>The state of a build, which survives an exception.\<close>

record build_state =
  bs_ws :: disk_workspace
  bs_disk :: ace_disk

definition artifact_path :: "disk_workspace \<Rightarrow> artifact \<Rightarrow> string" where
  "artifact_path w which = dw_artifacts w ! artifact_index which"

definition initialize_workspace :: "dir_calls \<Rightarrow> build_state \<Rightarrow> (ace_error + unit) \<times> build_state" where
  "initialize_workspace dc s =
     (let d = dw_build_dir (bs_ws s) in
      if \<not> dk_dirs (bs_disk s) d \<and> dk_files (bs_disk s) d = None then
        if dc_mkdir dc d
        then (Inr (), s\<lparr>bs_ws := (bs_ws s)\<lparr>dw_directory_created := True\<rparr>, bs_disk := (bs_disk s)\<lparr>dk_dirs := (dk_dirs (bs_disk s))(d := True)\<rparr>\<rparr>)
        else (Inl MkdirFailed, s)
      else (bind_r (expects (dc_inspect dc d) InspectFailed) (\<lambda>_. expects (dk_dirs (bs_disk s) d) NotADirectory), s))"

definition mark_artifact_created :: "artifact \<Rightarrow> build_state \<Rightarrow> build_state" where
  "mark_artifact_created which s = s\<lparr>bs_ws := (bs_ws s)\<lparr>dw_created := (dw_created (bs_ws s))[artifact_index which := True]\<rparr>\<rparr>"

definition remove_artifact :: "dir_calls \<Rightarrow> artifact \<Rightarrow> build_state \<Rightarrow> (ace_error + bool) \<times> build_state" where
  "remove_artifact dc which s =
     (let path = artifact_path (bs_ws s) which in
      if dk_files (bs_disk s) path = None then (Inr False, s)
      else if \<not> dc_remove dc path then (Inl RemoveFailed, s)
      else (Inr True, s\<lparr>bs_ws := (bs_ws s)\<lparr>dw_created := (dw_created (bs_ws s))[artifact_index which := False]\<rparr>,
                        bs_disk := (bs_disk s)\<lparr>dk_files := (dk_files (bs_disk s))(path := None)\<rparr>\<rparr>))"

definition commit_workspace :: "build_state \<Rightarrow> build_state" where
  "commit_workspace s = s\<lparr>bs_ws := (bs_ws s)\<lparr>dw_committed := True\<rparr>\<rparr>"

definition cleanup_artifact :: "dir_calls \<Rightarrow> disk_workspace \<Rightarrow> nat \<Rightarrow> ace_disk \<Rightarrow> ace_disk" where
  "cleanup_artifact dc w i dk =
     (if dw_created w ! i \<and> dc_remove dc (dw_artifacts w ! i)
      then dk\<lparr>dk_files := (dk_files dk)(dw_artifacts w ! i := None)\<rparr> else dk)"

definition cleanup :: "dir_calls \<Rightarrow> build_state \<Rightarrow> ace_disk" where
  "cleanup dc s =
     (let w = bs_ws s in
      if dw_committed w then bs_disk s
      else let dk = fold (cleanup_artifact dc w) (rev [0..<length (dw_artifacts w)]) (bs_disk s)
        in if dw_directory_created w \<and> dc_rmdir dc (dk_files dk) (dw_build_dir w)
           then dk\<lparr>dk_dirs := (dk_dirs dk)(dw_build_dir w := False)\<rparr> else dk)"

section \<open>The index over the files\<close>

record cagra_index = ace_index +
  ci_dataset_fd :: "(bool \<times> string) option"

definition update_dataset_fd :: "npy_reader \<Rightarrow> directory \<Rightarrow> bool \<times> string \<Rightarrow> cagra_index \<Rightarrow> ace_error + cagra_index" where
  "update_dataset_fd rd fs fd idx =
     bind_r (expects (fst fd) BadDescriptor) (\<lambda>_.
       (case open_npy_file rd fs (snd fd) of
          Inl _ \<Rightarrow> Inl IndexFailed
        | Inr header \<Rightarrow>
            bind_r (expects (length (nf_shape header) = 2) IndexFailed) (\<lambda>_.
              Inr (idx\<lparr>ix_size := nf_shape header ! 0, ix_dim := nf_shape header ! 1, ci_dataset_fd := Some fd\<rparr>))))"

definition update_graph_fd :: "npy_reader \<Rightarrow> directory \<Rightarrow> bool \<times> string \<Rightarrow> cagra_index \<Rightarrow> ace_error + cagra_index" where
  "update_graph_fd rd fs fd idx =
     bind_r (expects (fst fd) BadDescriptor) (\<lambda>_.
       (case open_npy_file rd fs (snd fd) of
          Inl _ \<Rightarrow> Inl IndexFailed
        | Inr header \<Rightarrow>
            bind_r (expects (length (nf_shape header) = 2) IndexFailed) (\<lambda>_.
            bind_r (expects (ci_dataset_fd idx \<noteq> None \<and> ix_size idx \<noteq> 0 \<longrightarrow> ix_size idx = nf_shape header ! 0) IndexFailed) (\<lambda>_.
              Inr (idx\<lparr>ix_size := nf_shape header ! 0, ix_graph_degree := nf_shape header ! 1, ix_graph_fd := Some fd\<rparr>)))))"

definition update_mapping_fd :: "npy_reader \<Rightarrow> directory \<Rightarrow> bool \<times> string \<Rightarrow> cagra_index \<Rightarrow> ace_error + cagra_index" where
  "update_mapping_fd rd fs fd idx =
     bind_r (expects (fst fd) BadDescriptor) (\<lambda>_.
       (case open_npy_file rd fs (snd fd) of
          Inl _ \<Rightarrow> Inl IndexFailed
        | Inr header \<Rightarrow>
            bind_r (expects (length (nf_shape header) = 1) IndexFailed) (\<lambda>_.
            bind_r (expects (ci_dataset_fd idx \<noteq> None \<and> ix_size idx \<noteq> 0 \<longrightarrow> nf_shape header ! 0 = ix_size idx) IndexFailed) (\<lambda>_.
              Inr (idx\<lparr>ix_mapping_fd := Some fd\<rparr>)))))"

section \<open>The build\<close>

text \<open>
  What the build calls. The index of a partition is built on the device or on the host from the bytes of
  its rows; the creation of a NumPy file depends on the header raft makes, on the system and on a script
  of system calls. \<open>be_fits\<close> compares the size of a partition with the free device memory, \<open>be_alloc\<close> says
  whether the device buffer can be allocated, \<open>be_threads\<close> is the order in which the threads of a grid run,
  \<open>be_schedule\<close> the interleaving of the parallel loop.
\<close>

record ('f, 'd) build_env =
  be_labels :: "'f label_lib"
  be_io :: disk_io
  be_store :: store_lib
  be_memory :: "'d mem_env"
  be_dirs :: dir_calls
  be_reader :: npy_reader
  be_header :: "bool \<Rightarrow> nat list \<Rightarrow> numpy_error + bytes" \<comment> \<open>of \<^verbatim>\<open>T\<close> or of \<^verbatim>\<open>IdxT\<close>\<close>
  be_can_open :: "string \<Rightarrow> bool"
  be_can_allocate :: "nat \<Rightarrow> bool"
  be_script :: "string \<Rightarrow> syscall list"
  be_fits :: "nat \<Rightarrow> bool"
  be_alloc :: "nat \<Rightarrow> bool"
  be_device_build :: "bytes \<Rightarrow> nat \<Rightarrow> ace_error + device_graph"
  be_host_build :: "bytes \<Rightarrow> nat \<Rightarrow> ace_error + device_graph"
  be_threads :: "nat \<Rightarrow> nat list"
  be_schedule :: "nat list"
  be_attach :: "nat list list \<Rightarrow> ace_error + unit"
  be_uninitialized :: bytes

record 'd build_params =
  bp_is_ace :: bool
  bp_npartitions :: nat
  bp_build_dir :: string
  bp_use_disk :: bool
  bp_intermediate :: nat
  bp_degree :: nat
  bp_metric :: distance_type
  bp_connectivity :: bool
  bp_max_host_gb :: "'d option"
  bp_max_gpu_gb :: "'d option"

text \<open>The index that is returned: over the files, or with the graph in memory.\<close>

datatype built_index = DiskIndex cagra_index | MemoryIndex "nat list list"

definition on_files :: "(directory \<Rightarrow> (ace_error + 'a) \<times> directory) \<Rightarrow> build_state \<Rightarrow> (ace_error + 'a) \<times> build_state" where
  "on_files f s = (case f (dk_files (bs_disk s)) of (r, fs) \<Rightarrow> (r, s\<lparr>bs_disk := (bs_disk s)\<lparr>dk_files := fs\<rparr>\<rparr>))"

text \<open>
  An artifact is created exclusively and then marked. No result of \<open>create_numpy_file\<close> means that the
  build has not ended, which the error \<open>StillRunning\<close> stands for.
\<close>

definition create_artifact :: "('f, 'd) build_env \<Rightarrow> bool \<Rightarrow> nat \<Rightarrow> nat list \<Rightarrow> artifact \<Rightarrow> build_state \<Rightarrow> (ace_error + nat) \<times> build_state" where
  "create_artifact env is_data elem_size shape which s =
     (let path = artifact_path (bs_ws s) which in
      bind_sr (on_files (\<lambda>fs.
        (case create_numpy_file fs path (be_header env is_data shape) (word_of_nat elem_size) (map word_of_nat shape) True
                (be_can_open env path \<and> \<not> dk_dirs (bs_disk s) path) (be_can_allocate env) (be_script env path) of
           (None, fs') \<Rightarrow> (Inl StillRunning, fs')
         | (Some (Inl _), fs') \<Rightarrow> (Inl NumpyFailed, fs')
         | (Some (Inr header_size), fs') \<Rightarrow> (Inr header_size, fs'))) s) (\<lambda>header_size s'.
       (Inr header_size, mark_artifact_created which s')))"

definition create_artifacts :: "('f, 'd) build_env \<Rightarrow> nat \<Rightarrow> nat \<Rightarrow> nat \<Rightarrow> nat \<Rightarrow> build_state \<Rightarrow> (ace_error + nat \<times> nat \<times> nat \<times> nat) \<times> build_state" where
  "create_artifacts env sz dataset_size dim graph_degree s =
     bind_sr (initialize_workspace (be_dirs env) s) (\<lambda>_ s.
     bind_sr (create_artifact env True sz [dataset_size, dim] reordered_dataset s) (\<lambda>reordered_header_size s.
     bind_sr (create_artifact env True sz [dataset_size, dim] augmented_dataset s) (\<lambda>augmented_header_size s.
     bind_sr (create_artifact env False 4 [dataset_size] dataset_mapping s) (\<lambda>mapping_header_size s.
     bind_sr (create_artifact env False 4 [dataset_size, graph_degree] cagra_graph s) (\<lambda>graph_header_size s.
       (Inr (reordered_header_size, augmented_header_size, mapping_header_size, graph_header_size), s))))))"

text \<open>The graph of a partition. Running out of device memory falls back to the host.\<close>

definition build_partition_graph :: "('f, 'd) build_env \<Rightarrow> bool \<Rightarrow> nat \<Rightarrow> host_matrix \<Rightarrow> nat \<Rightarrow> nat \<Rightarrow> ace_labels \<Rightarrow> ace_lists \<Rightarrow>
    string \<times> nat \<Rightarrow> string \<times> nat \<Rightarrow> nat \<Rightarrow> directory \<Rightarrow> ace_error + device_graph" where
  "build_partition_graph env disk sz dataset dim n_partitions lb L reordered augmented partition_id fs =
     (let core_size = al_core lb ! partition_id;
          augmented_size = al_augmented lb ! partition_id;
          sub_dataset_size = core_size + augmented_size;
          load = ace_load_partition_dataset_from_disk (be_io env) sz partition_id dim n_partitions lb L
            (True, fst reordered) (True, fst augmented) (snd reordered) (snd augmented) (Some (sub_dataset_size, dim)) fs;
          sub_ds_bytes = sub_dataset_size * dim * sz;
          host_read = bind_r load (\<lambda>sub_dataset. be_host_build env sub_dataset sub_dataset_size)
      in if disk then
           if be_fits env sub_ds_bytes then
             (case (if be_alloc env sub_ds_bytes then bind_r load (\<lambda>sub_dataset. be_device_build env sub_dataset sub_dataset_size)
                    else Inl OutOfDeviceMemory) of
                Inl OutOfDeviceMemory \<Rightarrow> host_read
              | Inl e \<Rightarrow> Inl e
              | Inr g \<Rightarrow> Inr g)
           else host_read
         else be_host_build env (concat (ace_gather_partition_dataset (dim * sz) core_size augmented_size partition_id dataset L
                (replicate sub_dataset_size (be_uninitialized env)))) sub_dataset_size)"

definition process_partition :: "('f, 'd) build_env \<Rightarrow> bool \<Rightarrow> nat \<Rightarrow> host_matrix \<Rightarrow> nat \<Rightarrow> nat \<Rightarrow> nat \<Rightarrow> ace_labels \<Rightarrow> ace_lists \<Rightarrow>
    string \<times> nat \<Rightarrow> string \<times> nat \<Rightarrow> string \<times> nat \<Rightarrow> nat \<Rightarrow> nat list list \<Rightarrow> build_state \<Rightarrow> (ace_error + nat list list) \<times> build_state" where
  "process_partition env disk sz dataset dim graph_degree n_partitions lb L reordered augmented graph partition_id search_graph s =
     (let core_size = al_core lb ! partition_id;
          augmented_size = al_augmented lb ! partition_id
      in if core_size + augmented_size = 0 then (Inr search_graph, s)
         else case build_partition_graph env disk sz dataset dim n_partitions lb L reordered augmented partition_id (dk_files (bs_disk s)) of
           Inl e \<Rightarrow> (Inl e, s)
         | Inr sub_graph \<Rightarrow>
             if disk then
               (case ace_adjust_sub_graph_ids_disk (be_threads env (core_size * graph_degree)) core_size augmented_size graph_degree partition_id sub_graph
                       \<lparr>dg_rows = core_size, dg_cols = graph_degree, dg_data = replicate (core_size * graph_degree) 0\<rparr> L of
                  Inl e \<Rightarrow> (Inl e, s)
                | Inr adjusted \<Rightarrow>
                    let graph_offset = pl_core_offsets L ! partition_id * graph_degree * 4 + snd graph
                    in bind_sr (on_files (write_file (be_io env) (fst graph) (array_bytes (put_uint 4) (dg_data adjusted)) graph_offset) s) (\<lambda>_ s'.
                         (Inr search_graph, s')))
             else (Inr (ace_adjust_sub_graph_ids core_size graph_degree partition_id (copy_sub_graph sub_graph core_size graph_degree) L search_graph), s))"

definition open_disk_index :: "npy_reader \<Rightarrow> distance_type \<Rightarrow> string \<Rightarrow> string \<Rightarrow> string \<Rightarrow> directory \<Rightarrow> ace_error + cagra_index" where
  "open_disk_index rd metric reordered graph mapping fs =
     (let idx = \<lparr>ix_size = 0, ix_dim = 0, ix_graph_degree = 0, ix_metric = metric, ix_graph_fd = None, ix_mapping_fd = None, ci_dataset_fd = None\<rparr>
      in bind_r (update_dataset_fd rd fs (True, reordered) idx) (\<lambda>idx.
         bind_r (update_graph_fd rd fs (True, graph) idx) (\<lambda>idx.
           update_mapping_fd rd fs (True, mapping) idx)))"

definition new_arrays :: "nat \<Rightarrow> nat \<Rightarrow> bool \<Rightarrow> ace_lists" where
  "new_arrays dataset_size n_partitions disk =
     \<lparr>pl_core_forward = replicate (if disk then dataset_size else 0) 0, pl_core_backward = replicate dataset_size 0,
      pl_augmented_backward = replicate dataset_size 0, pl_core_offsets = replicate (n_partitions + 1) 0,
      pl_augmented_offsets = replicate (n_partitions + 1) 0\<rparr>"

definition new_labels :: "nat \<Rightarrow> nat \<Rightarrow> ace_labels" where
  "new_labels dataset_size n_partitions =
     \<lparr>al_labels = replicate dataset_size (0, 0), al_core = replicate n_partitions 0, al_augmented = replicate n_partitions 0\<rparr>"

definition create_lists :: "nat \<Rightarrow> nat \<Rightarrow> ace_labels \<Rightarrow> nat list \<Rightarrow> bool \<Rightarrow> ace_error + ace_lists" where
  "create_lists dataset_size n_partitions lb schedule disk =
     (case ace_create_forward_and_backward_lists dataset_size n_partitions lb schedule (new_arrays dataset_size n_partitions disk) of
        None \<Rightarrow> Inl StillRunning
      | Some r \<Rightarrow> r)"

text \<open>The body of the \<^verbatim>\<open>try\<close> block, once the mode and the number of partitions are settled.\<close>

definition build_partitions :: "('f, 'd) build_env \<Rightarrow> 'd build_params \<Rightarrow> bool \<Rightarrow> nat \<Rightarrow> nat \<Rightarrow> nat \<Rightarrow> host_matrix \<Rightarrow> nat \<Rightarrow> build_state \<Rightarrow>
    (ace_error + built_index) \<times> build_state" where
  "build_partitions env bp disk sz graph_degree n_partitions dataset dim s =
     (let dataset_size = length (hm_rows dataset);
          path = artifact_path (bs_ws s)
      in
      bind_sr (if disk then create_artifacts env sz dataset_size dim graph_degree s else (Inr (0, 0, 0, 0), s)) (\<lambda>(rh, ah, mh, gh) s.
      bind_sr (ace_get_partition_labels (be_labels env) sz dataset dim n_partitions (new_labels dataset_size n_partitions), s) (\<lambda>lb s.
      bind_sr (create_lists dataset_size n_partitions lb (be_schedule env) disk, s) (\<lambda>L s.
      bind_sr (if disk then on_files (ace_reorder_and_store_dataset (be_io env) (be_store env) (be_uninitialized env) sz dataset dim n_partitions lb
                  (pl_core_backward L) (path reordered_dataset, rh) (path augmented_dataset, ah) (path dataset_mapping, mh)) s
               else (Inr (), s)) (\<lambda>_ s.
      bind_sr (fold_sr (process_partition env disk sz dataset dim graph_degree n_partitions lb L (path reordered_dataset, rh)
                  (path augmented_dataset, ah) (path cagra_graph, gh)) [0..<n_partitions]
                (if disk then [] else replicate dataset_size (replicate graph_degree 0)) s) (\<lambda>search_graph s.
      bind_sr (if disk then remove_artifact (be_dirs env) augmented_dataset s else (Inr False, s)) (\<lambda>_ s.
      bind_sr (if disk then (map_sum id DiskIndex (open_disk_index (be_reader env) (bp_metric bp) (path reordered_dataset) (path cagra_graph)
                  (path dataset_mapping) (dk_files (bs_disk s))), s)
               else (bind_r (be_attach env search_graph) (\<lambda>_. Inr (MemoryIndex search_graph)), s)) (\<lambda>idx s.
        (Inr idx, commit_workspace s)))))))))"

definition build_ace :: "('f, 'd) build_env \<Rightarrow> 'd build_params \<Rightarrow> nat \<Rightarrow> host_matrix \<Rightarrow> nat \<Rightarrow> ace_disk \<Rightarrow> (ace_error + built_index) \<times> ace_disk" where
  "build_ace env bp sz dataset dim dk =
     (let dataset_size = length (hm_rows dataset) in
      case bind_r (expects (bp_is_ace bp) NotAceParams) (\<lambda>_.
           bind_r (expects (0 < dataset_size) EmptyDataset) (\<lambda>_.
           bind_r (expects (0 < dim) NoDimension) (\<lambda>_.
           bind_r (expects (0 < bp_intermediate bp) NoDegree) (\<lambda>_.
           bind_r (expects (0 < bp_degree bp) NoDegree) (\<lambda>_.
             initial_partitions dataset_size (bp_npartitions bp)))))) of
        Inl e \<Rightarrow> (Inl e, dk)
      | Inr n_partitions \<Rightarrow>
          let s0 = \<lparr>bs_ws = ace_disk_workspace (bp_build_dir bp), bs_disk = dk\<rparr>;
              result =
                bind_sr (check_graph_degree (bp_intermediate bp) (bp_degree bp) dataset_size, s0) (\<lambda>(intermediate_degree, graph_degree) s.
                bind_sr (plan_build (be_memory env)
                    \<lparr>sz_rows = dataset_size, sz_dim = dim, sz_elem = sz, sz_intermediate = intermediate_degree, sz_degree = graph_degree,
                     sz_connectivity = bp_connectivity bp, sz_max_host_gb = bp_max_host_gb bp, sz_max_gpu_gb = bp_max_gpu_gb bp\<rparr>
                    (bp_use_disk bp) (bp_build_dir bp) n_partitions, s) (\<lambda>(disk, n_partitions) s.
                  build_partitions env bp disk sz graph_degree n_partitions dataset dim s))
          in (case result of
                (Inr idx, s) \<Rightarrow> (Inr idx, bs_disk s)
              | (Inl e, s) \<Rightarrow> (Inl e, if thrown e then cleanup (be_dirs env) s else bs_disk s)))"

section \<open>A failed build leaves no trace\<close>

text \<open>What a step changes of the files: no path outside of a set.\<close>

definition only :: "string set \<Rightarrow> directory \<Rightarrow> 'a \<times> directory \<Rightarrow> bool" where
  "only S fs m \<longleftrightarrow> (\<forall>q. q \<notin> S \<longrightarrow> snd m q = fs q)"

lemma only_refl [simp]: "only S fs (r, fs)"
  by (simp add: only_def)

lemma only_bind:
  assumes "only S fs m" "\<And>a fs'. m = (Inr a, fs') \<Longrightarrow> only S fs' (f a fs')"
  shows "only S fs (bind_sr m f)"
  using assms by (cases m; cases "fst m") (auto simp: only_def)

lemma only_region: "only S fs m \<Longrightarrow> only S fs (omp_region m)"
  by (cases m rule: omp_region.cases) (simp_all add: only_def)

lemma only_write: "path \<in> S \<Longrightarrow> only S fs (write_file io path data off fs)"
  by (auto simp: only_def write_file_def split: option.splits prod.splits)

lemma only_flush: "ln_path ln \<in> S \<Longrightarrow> only S fs (flush_lane io vs p ln fs)"
  unfolding flush_lane_def Let_def by (auto intro!: only_bind only_write)

lemma flush_path: "flush_lane io vs p ln fs = (Inr ln', fs') \<Longrightarrow> ln_path ln' = ln_path ln"
  by (auto simp: flush_lane_def Let_def bind_sr_Inr_iff split: if_splits)

lemma only_buffer: "ln_path ln \<in> S \<Longrightarrow> only S fs (buffer_vector io vs cap v p ln fs)"
  by (auto simp: buffer_vector_def Let_def intro!: only_flush)

lemma buffer_path: "buffer_vector io vs cap v p ln fs = (Inr ln', fs') \<Longrightarrow> ln_path ln' = ln_path ln"
  by (auto simp: buffer_vector_def Let_def dest!: flush_path split: if_splits)

lemma only_fold:
  assumes "Q a" "\<And>x a fs. x \<in> set xs \<Longrightarrow> Q a \<Longrightarrow> only S fs (f x a fs) \<and> (\<forall>a' fs'. f x a fs = (Inr a', fs') \<longrightarrow> Q a')"
  shows "only S fs (fold_sr f xs a fs)" "fold_sr f xs a fs = (Inr a', fs') \<Longrightarrow> Q a'"
proof -
  show "only S fs (fold_sr f xs a fs)" using assms
  proof (induction xs arbitrary: a fs)
    case (Cons x xs)
    have "only S fs (f x a fs) \<and> (\<forall>a' fs'. f x a fs = (Inr a', fs') \<longrightarrow> Q a')" by (rule Cons.prems(2)) (simp_all add: Cons.prems(1))
    then have "only S fs (f x a fs)" "\<And>a' fs'. f x a fs = (Inr a', fs') \<Longrightarrow> only S fs' (fold_sr f xs a' fs')"
      using Cons.IH Cons.prems(2) by (simp, meson list.set_intros(2))
    then show ?case by (auto intro!: only_bind)
  qed simp
  show "fold_sr f xs a fs = (Inr a', fs') \<Longrightarrow> Q a'" using assms
  proof (induction xs arbitrary: a fs)
    case (Cons x xs)
    obtain b s where b: "f x a fs = (Inr b, s)" "fold_sr f xs b s = (Inr a', fs')" using Cons.prems(1) by (auto simp: bind_sr_Inr_iff)
    have "Q b" using Cons.prems(2,3) b(1) by (metis list.set_intros(1))
    then show ?case using Cons.IH[OF b(2)] Cons.prems(3) by (metis list.set_intros(2))
  qed simp
qed

lemma only_reorder:
  assumes S: "fst rt \<in> S" "fst at \<in> S" "fst mt \<in> S"
  shows "only S fs (ace_reorder_and_store_dataset io lib junk sz ds dim P lb bw rt at mt fs)"
proof -
  have stored: "only S fs (store_vector io vs cap ds labels i lanes fs) \<and>
      (\<forall>lanes' fs'. store_vector io vs cap ds labels i lanes fs = (Inr lanes', fs') \<longrightarrow> ln_path (fst lanes') \<in> S \<and> ln_path (snd lanes') \<in> S)"
    if "ln_path (fst lanes) \<in> S \<and> ln_path (snd lanes) \<in> S" for vs cap labels i lanes fs
    using that unfolding store_vector_def Let_def
    by (auto simp: split_beta bind_sr_Inr_iff intro!: only_bind only_buffer dest!: buffer_path)
  have flushed: "only S fs (fold_sr (flush_lane io vs) ps ln fs)" if "ln_path ln \<in> S" for vs ps ln fs
    by (rule only_fold(1)[where Q = "\<lambda>ln. ln_path ln \<in> S"]) (use that in \<open>auto intro: only_flush dest: flush_path\<close>)
  let ?lanes = "(fresh_lane rt P (buffer_rows lib P (dim * sz)) (al_core lb) junk, fresh_lane at P (buffer_rows lib P (dim * sz)) (al_augmented lb) junk)"
  have Q: "ln_path (fst ?lanes) \<in> S \<and> ln_path (snd ?lanes) \<in> S" using S by (simp add: fresh_lane_def)
  let ?Q = "\<lambda>lanes :: lane \<times> lane. ln_path (fst lanes) \<in> S \<and> ln_path (snd lanes) \<in> S"
  let ?run = "fold_sr (store_vector io (dim * sz) (buffer_rows lib P (dim * sz)) ds (al_labels lb)) [0..<length (hm_rows ds)] ?lanes fs"
  have loop1: "only S fs ?run" by (rule only_fold(1)[where Q = ?Q, OF Q]) (rule stored)
  have loop2: "?Q lanes" if "?run = (Inr lanes, fs1)" for lanes fs1
    using only_fold(2)[where Q = ?Q, OF Q _ that] stored by blast
  let ?cap = "buffer_rows lib P (dim * sz)"
  have "only S fs (bind_sr (fold_sr (store_vector io (dim * sz) ?cap ds (al_labels lb)) [0..<length (hm_rows ds)] ?lanes fs) (\<lambda>lanes fs1.
      bind_sr (omp_region (fold_sr (flush_lane io (dim * sz)) [0..<P] (fst lanes) fs1)) (\<lambda>_ fs2.
      bind_sr (omp_region (fold_sr (flush_lane io (dim * sz)) [0..<P] (snd lanes) fs2)) (\<lambda>_ fs3.
        write_file io (fst mt) (array_bytes (put_uint 4) bw) (snd mt) fs3))))"
  proof (rule only_bind[OF loop1])
    fix lanes fs1
    assume "fold_sr (store_vector io (dim * sz) ?cap ds (al_labels lb)) [0..<length (hm_rows ds)] ?lanes fs = (Inr lanes, fs1)"
    then have "ln_path (fst lanes) \<in> S \<and> ln_path (snd lanes) \<in> S" by (rule loop2)
    then show "only S fs1 (bind_sr (omp_region (fold_sr (flush_lane io (dim * sz)) [0..<P] (fst lanes) fs1)) (\<lambda>_ fs2.
      bind_sr (omp_region (fold_sr (flush_lane io (dim * sz)) [0..<P] (snd lanes) fs2)) (\<lambda>_ fs3.
        write_file io (fst mt) (array_bytes (put_uint 4) bw) (snd mt) fs3)))"
      by (intro only_bind only_region flushed only_write S) auto
  qed
  then show ?thesis
    unfolding ace_reorder_and_store_dataset_def Let_def by (simp split: sum.splits)
qed

text \<open>
  While a build runs: the marked artifacts did not exist before, everything else is as it was, and the
  directory is new if the build has made it.
\<close>

definition build_inv :: "string \<Rightarrow> ace_disk \<Rightarrow> bool list \<Rightarrow> build_state \<Rightarrow> bool" where
  "build_inv d dk0 marks s \<longleftrightarrow>
     (let w = bs_ws s; dk = bs_disk s in
      dw_build_dir w = d \<and> dw_artifacts w = dw_artifacts (ace_disk_workspace d) \<and> dw_created w = marks \<and> length marks = 4 \<and> \<not> dw_committed w \<and>
      (\<forall>i < 4. marks ! i \<longrightarrow> dk_files dk0 (dw_artifacts w ! i) = None) \<and>
      (\<forall>q. (\<forall>i < 4. marks ! i \<longrightarrow> q \<noteq> dw_artifacts w ! i) \<longrightarrow> dk_files dk q = dk_files dk0 q) \<and>
      (if dw_directory_created w then \<not> dk_dirs dk0 d \<and> dk_dirs dk = (dk_dirs dk0)(d := True) else dk_dirs dk = dk_dirs dk0))"

text \<open>
  Removals succeed: of any file, and of a directory without files. Before the build every file is in a
  directory.
\<close>

definition removals_ok :: "dir_calls \<Rightarrow> bool" where
  "removals_ok dc \<longleftrightarrow> (\<forall>p. dc_remove dc p) \<and> (\<forall>fs d. (\<forall>q. fs q \<noteq> None \<longrightarrow> parent_path q \<noteq> d) \<longrightarrow> dc_rmdir dc fs d)"

definition tree_ok :: "ace_disk \<Rightarrow> bool" where
  "tree_ok dk \<longleftrightarrow> (\<forall>q. dk_files dk q \<noteq> None \<longrightarrow> dk_dirs dk (parent_path q))"

lemma cleanup_files:
  assumes "\<forall>p. dc_remove dc p"
  shows "dk_dirs (fold (cleanup_artifact dc w) is dk) = dk_dirs dk \<and>
    (\<forall>q. dk_files (fold (cleanup_artifact dc w) is dk) q = (if \<exists>i \<in> set is. dw_created w ! i \<and> q = dw_artifacts w ! i then None else dk_files dk q))"
  using assms by (induction "is" arbitrary: dk) (auto simp: cleanup_artifact_def)

lemma cleanup_restores:
  assumes inv: "build_inv d dk0 marks s" and dc: "removals_ok dc" and tree: "tree_ok dk0"
  shows "cleanup dc s = dk0"
proof -
  let ?w = "bs_ws s" and ?dk = "bs_disk s"
  have arts: "length (dw_artifacts ?w) = 4" using inv by (simp add: build_inv_def Let_def ace_disk_workspace_def)
  let ?f = "fold (cleanup_artifact dc ?w) (rev [0..<length (dw_artifacts ?w)]) ?dk"
  have c: "dk_dirs ?f = dk_dirs ?dk"
    "\<And>q. dk_files ?f q = (if \<exists>i < 4. dw_created ?w ! i \<and> q = dw_artifacts ?w ! i then None else dk_files ?dk q)"
    using cleanup_files[of dc ?w "rev [0..<length (dw_artifacts ?w)]" ?dk] dc arts by (auto simp: removals_ok_def)
  have "dk_files ?f q = dk_files dk0 q" for q
    unfolding c(2) using inv by (auto simp: build_inv_def Let_def)
  then have files: "dk_files ?f = dk_files dk0" by (rule ext)
  show ?thesis
  proof (cases "dw_directory_created ?w")
    case True
    then have d: "\<not> dk_dirs dk0 d" "dk_dirs ?dk = (dk_dirs dk0)(d := True)" "dw_build_dir ?w = d"
      using inv by (simp_all add: build_inv_def Let_def)
    have "dc_rmdir dc (dk_files dk0) d" using dc tree d(1) unfolding removals_ok_def tree_ok_def by metis
    then show ?thesis using True d c(1) files inv
      by (auto simp: cleanup_def Let_def build_inv_def fun_upd_idem_iff intro!: ace_disk.equality)
  next
    case False
    then show ?thesis using c(1) files inv by (auto simp: cleanup_def Let_def build_inv_def intro!: ace_disk.equality)
  qed
qed

lemma inv_start: "build_inv d dk (replicate 4 False) \<lparr>bs_ws = ace_disk_workspace d, bs_disk = dk\<rparr>"
  by (simp add: build_inv_def ace_disk_workspace_def Let_def)

text \<open>A failure leaves the invariant, with the marks of that moment.\<close>

definition fails_inv :: "string \<Rightarrow> ace_disk \<Rightarrow> (ace_error + 'a) \<times> build_state \<Rightarrow> bool" where
  "fails_inv d dk0 m \<longleftrightarrow> (\<forall>e. fst m = Inl e \<longrightarrow> thrown e \<longrightarrow> (\<exists>marks. build_inv d dk0 marks (snd m)))"

lemma fails_bind:
  assumes "fails_inv d dk0 m" "\<And>a s. m = (Inr a, s) \<Longrightarrow> fails_inv d dk0 (f a s)"
  shows "fails_inv d dk0 (bind_sr m f)"
  using assms by (cases m; cases "fst m") (auto simp: fails_inv_def)

lemma fails_here: "build_inv d dk0 marks s \<Longrightarrow> fails_inv d dk0 (r, s)"
  by (auto simp: fails_inv_def)

lemma fails_done: "fails_inv d dk0 (Inr a, s)"
  by (simp add: fails_inv_def)

lemma inv_on_files:
  assumes "build_inv d dk0 marks s" "only S (dk_files (bs_disk s)) (f (dk_files (bs_disk s)))"
    and "S \<subseteq> {dw_artifacts (ace_disk_workspace d) ! i |i. i < 4 \<and> marks ! i}" "on_files f s = (r, s')"
  shows "build_inv d dk0 marks s'"
  using assms by (fastforce simp: build_inv_def only_def on_files_def Let_def split: prod.splits)

lemma inv_initialize:
  assumes "build_inv d dk0 (replicate 4 False) s" "\<not> dw_directory_created (bs_ws s)" "initialize_workspace dc s = (r, s')"
  shows "build_inv d dk0 (replicate 4 False) s'"
  using assms by (auto simp: initialize_workspace_def build_inv_def Let_def split: if_splits)

lemma inv_create:
  assumes inv: "build_inv d dk0 marks s" and run: "create_artifact env b elem shape which s = (r, s')"
  shows "r \<noteq> Inl StillRunning \<Longrightarrow> (\<exists>marks'. build_inv d dk0 marks' s')"
    "r = Inr hs \<Longrightarrow> build_inv d dk0 (marks[artifact_index which := True]) s'"
proof -
  let ?path = "artifact_path (bs_ws s) which"
  obtain res fs' where cr: "create_numpy_file (dk_files (bs_disk s)) ?path (be_header env b shape) (word_of_nat elem) (map word_of_nat shape) True
      (be_can_open env ?path \<and> \<not> dk_dirs (bs_disk s) ?path) (be_can_allocate env) (be_script env ?path) = (res, fs')" by force
  have i: "artifact_index which < 4" by (cases which) simp_all
  have m: "length marks = 4" "dw_created (bs_ws s) = marks" using inv by (simp_all add: build_inv_def Let_def)
  have ok: "build_inv d dk0 (marks[artifact_index which := True]) (mark_artifact_created which (s\<lparr>bs_disk := (bs_disk s)\<lparr>dk_files := fs'\<rparr>\<rparr>))"
    if res: "res = Some (Inr h)" for h
  proof -
    obtain fc where fc: "dk_files (bs_disk s) ?path = None" "fs' = (dk_files (bs_disk s))(?path \<mapsto> fc)"
      using exclusive_create_succeeded[OF cr[unfolded res]] by blast
    have "dk_files dk0 ?path = None"
      using inv fc(1) by (auto simp: build_inv_def Let_def artifact_path_def) metis
    then show ?thesis using inv fc(2) i m
      by (auto simp: build_inv_def Let_def mark_artifact_created_def artifact_path_def nth_list_update)
  qed
  have same: "s\<lparr>bs_disk := (bs_disk s)\<lparr>dk_files := fs'\<rparr>\<rparr> = s" if res: "res = Some (Inl e)" for e
    using exclusive_create_failed[OF cr[unfolded res]] by (cases s; cases "bs_disk s") auto
  have "r \<noteq> Inl StillRunning \<Longrightarrow> (\<exists>e. res = Some (Inl e)) \<and> s' = s \<or> (\<exists>h. res = Some (Inr h)) \<and>
      s' = mark_artifact_created which (s\<lparr>bs_disk := (bs_disk s)\<lparr>dk_files := fs'\<rparr>\<rparr>)"
    using run cr same by (auto simp: create_artifact_def on_files_def Let_def bind_sr_def split: option.splits sum.splits)
  then show "r \<noteq> Inl StillRunning \<Longrightarrow> (\<exists>marks'. build_inv d dk0 marks' s')" using ok inv by blast
  have "r = Inr hs \<Longrightarrow> (\<exists>h. res = Some (Inr h)) \<and> s' = mark_artifact_created which (s\<lparr>bs_disk := (bs_disk s)\<lparr>dk_files := fs'\<rparr>\<rparr>)"
    using run cr by (auto simp: create_artifact_def on_files_def Let_def bind_sr_def split: option.splits sum.splits)
  then show "r = Inr hs \<Longrightarrow> build_inv d dk0 (marks[artifact_index which := True]) s'" using ok by blast
qed

abbreviation "all_marked \<equiv> replicate 4 True"

lemma fails_inv_create:
  assumes "build_inv d dk0 marks s"
  shows "fails_inv d dk0 (create_artifact env b elem shape which s)"
proof -
  obtain r s' where m: "create_artifact env b elem shape which s = (r, s')" by force
  show ?thesis using inv_create(1)[OF assms m] unfolding m fails_inv_def thrown_def by auto
qed

lemma fails_create_bind:
  assumes "build_inv d dk0 marks s"
    and "\<And>h s'. build_inv d dk0 (marks[artifact_index which := True]) s' \<Longrightarrow> fails_inv d dk0 (f h s')"
  shows "fails_inv d dk0 (bind_sr (create_artifact env b elem shape which s) f)"
  by (rule fails_bind[OF fails_inv_create[OF assms(1)]]) (use inv_create(2)[OF assms(1) _ refl] assms(2) in blast)

lemma inv_create_artifacts:
  assumes inv: "build_inv d dk0 (replicate 4 False) s" and d: "\<not> dw_directory_created (bs_ws s)"
  shows "fails_inv d dk0 (create_artifacts env sz n dim deg s)"
    "create_artifacts env sz n dim deg s = (Inr hs, s') \<Longrightarrow> build_inv d dk0 all_marked s'"
proof -
  have i: "build_inv d dk0 (replicate 4 False) s1" if "initialize_workspace (be_dirs env) s = (r, s1)" for r s1
    by (rule inv_initialize[OF inv d that])
  note c = inv_create(2)[OF _ _ refl]
  have u: "(replicate 4 False)[0 := True, Suc 0 := True, 2 := True, 3 := True] = all_marked" by (simp add: numeral_eq_Suc)
  show "create_artifacts env sz n dim deg s = (Inr hs, s') \<Longrightarrow> build_inv d dk0 all_marked s'"
    unfolding create_artifacts_def bind_sr_Inr_iff
    by (elim exE conjE) (drule i, drule (1) c, drule (1) c, drule (1) c, drule (1) c, simp add: u)
  have init: "fails_inv d dk0 (initialize_workspace (be_dirs env) s)"
    using i by (metis fails_here prod.collapse)
  show "fails_inv d dk0 (create_artifacts env sz n dim deg s)"
    unfolding create_artifacts_def
    by (rule fails_bind[OF init], drule i, (rule fails_create_bind, assumption)+, rule fails_done)
qed

lemma inv_process:
  assumes inv: "build_inv d dk0 all_marked s" and g: "fst graph = artifact_path (bs_ws s) cagra_graph"
  shows "build_inv d dk0 all_marked (snd (process_partition env disk sz ds dim deg P lb L rt at graph p sg s)) \<and>
    bs_ws (snd (process_partition env disk sz ds dim deg P lb L rt at graph p sg s)) = bs_ws s"
proof -
  have path: "fst graph \<in> {dw_artifacts (ace_disk_workspace d) ! i |i. i < 4 \<and> all_marked ! i}"
    using inv g by (auto simp: build_inv_def Let_def artifact_path_def intro!: exI[of _ 3])
  have wr: "build_inv d dk0 all_marked (snd (on_files (write_file io (fst graph) data off) s)) \<and>
      bs_ws (snd (on_files (write_file io (fst graph) data off) s)) = bs_ws s" for io data off
  proof -
    obtain r s' where m: "on_files (write_file io (fst graph) data off) s = (r, s')" by force
    have "bs_ws s' = bs_ws s" using m by (auto simp: on_files_def split: prod.splits)
    moreover have "build_inv d dk0 all_marked s'"
      by (rule inv_on_files[where S = "{fst graph}", OF inv only_write _ m]) (use path in auto)
    ultimately show ?thesis using m by simp
  qed
  have post: "snd (bind_sr m (\<lambda>_ s'. (Inr x, s'))) = snd m" for m :: "(ace_error + unit) \<times> build_state" and x :: "nat list list"
    by (cases m; cases "fst m") auto
  show ?thesis
    using inv wr by (auto simp: process_partition_def Let_def post split: sum.splits)
qed

lemma inv_process_all:
  assumes "build_inv d dk0 all_marked s" "fst graph = artifact_path (bs_ws s) cagra_graph"
  shows "build_inv d dk0 all_marked (snd (fold_sr (process_partition env disk sz ds dim deg P lb L rt at graph) ps sg s)) \<and>
    bs_ws (snd (fold_sr (process_partition env disk sz ds dim deg P lb L rt at graph) ps sg s)) = bs_ws s"
  using assms
proof (induction ps arbitrary: sg s)
  case (Cons p ps)
  let ?m = "process_partition env disk sz ds dim deg P lb L rt at graph p sg s"
  have m: "build_inv d dk0 all_marked (snd ?m)" "bs_ws (snd ?m) = bs_ws s" using inv_process[OF Cons.prems] by blast+
  show ?case
  proof (cases "fst ?m")
    case (Inl e)
    then have "fold_sr (process_partition env disk sz ds dim deg P lb L rt at graph) (p # ps) sg s = (Inl e, snd ?m)"
      by (metis bind_sr_simps(1) fold_sr.simps(2) prod.collapse)
    then show ?thesis using m by simp
  next
    case (Inr b)
    then have "fold_sr (process_partition env disk sz ds dim deg P lb L rt at graph) (p # ps) sg s =
        fold_sr (process_partition env disk sz ds dim deg P lb L rt at graph) ps b (snd ?m)"
      by (metis bind_sr_simps(2) fold_sr.simps(2) prod.collapse)
    then show ?thesis using Cons.IH[OF m(1), of b] m Cons.prems(2) by simp
  qed
qed simp

lemma build_inv_files:
  assumes "build_inv d dk0 marks s"
  shows "k < 4 \<Longrightarrow> marks ! k \<Longrightarrow> dk_files dk0 (dw_artifacts (bs_ws s) ! k) = None"
    "(\<And>k. k < 4 \<Longrightarrow> marks ! k \<Longrightarrow> q \<noteq> dw_artifacts (bs_ws s) ! k) \<Longrightarrow> dk_files (bs_disk s) q = dk_files dk0 q"
  using assms unfolding build_inv_def Let_def by blast+

lemma inv_remove:
  assumes inv: "build_inv d dk0 all_marked s" and run: "remove_artifact dc which s = (r, s')"
  shows "\<exists>marks. build_inv d dk0 marks s'"
proof (cases "s' = s")
  case False
  let ?i = "artifact_index which"
  let ?path = "dw_artifacts (bs_ws s) ! ?i"
  have i: "?i < 4" by (cases which) simp_all
  have s': "s' = s\<lparr>bs_ws := (bs_ws s)\<lparr>dw_created := (dw_created (bs_ws s))[?i := False]\<rparr>,
      bs_disk := (bs_disk s)\<lparr>dk_files := (dk_files (bs_disk s))(?path := None)\<rparr>\<rparr>"
    using run False by (auto simp: remove_artifact_def Let_def artifact_path_def split: if_splits)
  have before: "dk_files dk0 (dw_artifacts (bs_ws s) ! k) = None" if "k < 4" for k
    using build_inv_files(1)[OF inv that] that by simp
  have rest: "((dk_files (bs_disk s))(?path := None)) q = dk_files dk0 q"
    if q: "\<forall>k < 4. all_marked[?i := False] ! k \<longrightarrow> q \<noteq> dw_artifacts (bs_ws s) ! k" for q
  proof (cases "q = ?path")
    case False
    have "q \<noteq> dw_artifacts (bs_ws s) ! k" if "k < 4" for k
      using q False that by (cases "k = ?i") auto
    then show ?thesis using build_inv_files(2)[OF inv] False by simp
  qed (use before[OF i] in simp)
  have m: "dw_build_dir (bs_ws s) = d" "dw_artifacts (bs_ws s) = dw_artifacts (ace_disk_workspace d)" "dw_created (bs_ws s) = all_marked"
    "\<not> dw_committed (bs_ws s)" "if dw_directory_created (bs_ws s) then \<not> dk_dirs dk0 d \<and> dk_dirs (bs_disk s) = (dk_dirs dk0)(d := True)
      else dk_dirs (bs_disk s) = dk_dirs dk0"
    using inv unfolding build_inv_def Let_def by blast+
  have "build_inv d dk0 (all_marked[?i := False]) s'"
    unfolding build_inv_def Let_def s' using before rest m by simp
  then show ?thesis by blast
qed (use inv in blast)

lemma process_in_memory: "snd (fold_sr (process_partition env False sz ds dim deg P lb L rt at graph) ps sg s) = s"
proof (induction ps arbitrary: sg)
  case (Cons p ps)
  have "snd (process_partition env False sz ds dim deg P lb L rt at graph p sg s) = s"
    by (simp add: process_partition_def Let_def split: sum.splits)
  then obtain r where r: "process_partition env False sz ds dim deg P lb L rt at graph p sg s = (r, s)"
    by (metis prod.collapse)
  show ?case using Cons.IH by (cases r) (simp_all add: r)
qed simp

lemma artifact_in_set:
  "artifact_path (ace_disk_workspace d) which \<in> {dw_artifacts (ace_disk_workspace d) ! i |i. i < 4 \<and> all_marked ! i}"
proof -
  have i: "artifact_index which < 4" by (cases which) simp_all
  show ?thesis unfolding artifact_path_def using i by (intro CollectI exI[of _ "artifact_index which"]) simp
qed

lemma artifact_path_inv: "build_inv d dk0 marks s \<Longrightarrow> artifact_path (bs_ws s) which = artifact_path (ace_disk_workspace d) which"
  by (simp add: build_inv_def artifact_path_def Let_def)

lemma fails_inv_unchanged: "build_inv d dk0 marks s \<Longrightarrow> (\<And>a. fails_inv d dk0 (f a s)) \<Longrightarrow> fails_inv d dk0 (bind_sr (r, s) f)"
  by (rule fails_bind) (auto intro: fails_here)

lemma fails_process_in_memory:
  assumes inv: "build_inv d dk0 marks s" and f: "\<And>a. fails_inv d dk0 (f a s)"
  shows "fails_inv d dk0 (bind_sr (fold_sr (process_partition env False sz ds dim deg P lb L rt at graph) ps sg s) f)"
proof -
  obtain r where r: "fold_sr (process_partition env False sz ds dim deg P lb L rt at graph) ps sg s = (r, s)"
    using process_in_memory by (metis prod.collapse)
  show ?thesis unfolding r by (rule fails_inv_unchanged[OF inv]) (rule f)
qed

lemma fails_in_memory:
  assumes inv: "build_inv d dk0 marks s"
  shows "fails_inv d dk0 (build_partitions env bp False sz deg P ds dim s)"
  unfolding build_partitions_def Let_def if_False split_beta
  by (rule fails_inv_unchanged[OF inv] fails_process_in_memory[OF inv] fails_done)+

lemma inv_reorder:
  assumes inv: "build_inv d dk0 all_marked s"
    and run: "on_files (ace_reorder_and_store_dataset io lib junk sz ds dim P lb bw (artifact_path (bs_ws s0) reordered_dataset, rh)
        (artifact_path (bs_ws s0) augmented_dataset, ah) (artifact_path (bs_ws s0) dataset_mapping, mh)) s = (r, s')"
    and s0: "bs_ws s0 = ace_disk_workspace d"
  shows "build_inv d dk0 all_marked s'"
  by (rule inv_on_files[OF inv only_reorder _ run, where S = "{artifact_path (bs_ws s0) which |which. True}"])
     (use artifact_in_set[of d] s0 in auto)

lemma fails_after_partitions:
  assumes inv: "build_inv d dk0 all_marked s"
  shows "fails_inv d dk0 (bind_sr (remove_artifact dc which s) (\<lambda>_ s. bind_sr (F s, s) (\<lambda>idx s. (Inr (idx :: built_index), commit_workspace s))))"
proof -
  obtain r s2 where m: "remove_artifact dc which s = (r, s2)" by force
  obtain marks where inv2: "build_inv d dk0 marks s2" using inv_remove[OF inv m] by blast
  have tail: "fails_inv d dk0 (bind_sr (F s2, s2) (\<lambda>idx s. (Inr (idx :: built_index), commit_workspace s)))"
    by (rule fails_inv_unchanged[OF inv2]) (rule fails_done)
  show ?thesis unfolding m by (rule fails_inv_unchanged[OF inv2]) (rule tail)
qed

lemma fails_on_disk:
  assumes s: "s = \<lparr>bs_ws = ace_disk_workspace d, bs_disk = dk\<rparr>"
  shows "fails_inv d dk (build_partitions env bp True sz deg P ds dim s)"
proof -
  note inv0 = inv_start[of d dk, folded s]
  have nd: "\<not> dw_directory_created (bs_ws s)" and w: "bs_ws s = ace_disk_workspace d" by (simp_all add: s ace_disk_workspace_def)
  have stored: "fails_inv d dk (bind_sr (on_files (ace_reorder_and_store_dataset io lib junk sz ds dim P lb bw (artifact_path (bs_ws s) reordered_dataset, rh)
        (artifact_path (bs_ws s) augmented_dataset, ah) (artifact_path (bs_ws s) dataset_mapping, mh)) s1) f)"
    if inv: "build_inv d dk all_marked s1" and f: "\<And>a s2. build_inv d dk all_marked s2 \<Longrightarrow> fails_inv d dk (f a s2)"
    for s1 io lib junk lb bw rh ah mh and f :: "unit \<Rightarrow> build_state \<Rightarrow> (ace_error + built_index) \<times> build_state"
  proof -
    obtain r s2 where m: "on_files (ace_reorder_and_store_dataset io lib junk sz ds dim P lb bw (artifact_path (bs_ws s) reordered_dataset, rh)
        (artifact_path (bs_ws s) augmented_dataset, ah) (artifact_path (bs_ws s) dataset_mapping, mh)) s1 = (r, s2)" by force
    have inv2: "build_inv d dk all_marked s2" by (rule inv_reorder[OF inv m w])
    show ?thesis unfolding m by (rule fails_inv_unchanged[OF inv2]) (rule f[OF inv2])
  qed
  have processed: "fails_inv d dk (bind_sr (fold_sr (process_partition env True sz ds dim deg P lb L rt at (artifact_path (bs_ws s) cagra_graph, gh)) ps sg s1) f)"
    if inv: "build_inv d dk all_marked s1" and f: "\<And>a s2. build_inv d dk all_marked s2 \<Longrightarrow> fails_inv d dk (f a s2)"
    for s1 lb L rt at gh ps sg and f :: "nat list list \<Rightarrow> build_state \<Rightarrow> (ace_error + built_index) \<times> build_state"
  proof -
    obtain r s2 where m: "fold_sr (process_partition env True sz ds dim deg P lb L rt at (artifact_path (bs_ws s) cagra_graph, gh)) ps sg s1 = (r, s2)" by force
    have g: "fst (artifact_path (bs_ws s) cagra_graph, gh) = artifact_path (bs_ws s1) cagra_graph"
      using artifact_path_inv[OF inv] w by simp
    have inv2: "build_inv d dk all_marked s2" using inv_process_all[OF inv g] m by (metis snd_conv)
    show ?thesis unfolding m by (rule fails_inv_unchanged[OF inv2]) (rule f[OF inv2])
  qed
  show ?thesis unfolding build_partitions_def Let_def if_True split_beta
    by (rule fails_bind[OF inv_create_artifacts(1)[OF inv0 nd]], drule inv_create_artifacts(2)[OF inv0 nd], (rule fails_inv_unchanged, assumption)+,
        rule stored, assumption, rule processed, assumption, rule fails_after_partitions, assumption)
qed

lemma fails_build:
  assumes "s = \<lparr>bs_ws = ace_disk_workspace d, bs_disk = dk\<rparr>"
  shows "fails_inv d dk (build_partitions env bp disk sz deg P ds dim s)"
  using fails_on_disk[OF assms] fails_in_memory[OF inv_start] assms by (cases disk) auto

lemma build_ace_failed:
  assumes run: "build_ace env bp sz ds dim dk = (Inl e, dk')" and e: "thrown e"
  obtains "dk' = dk" | s marks where "build_inv (bp_build_dir bp) dk marks s" "dk' = cleanup (be_dirs env) s"
proof -
  let ?s0 = "\<lparr>bs_ws = ace_disk_workspace (bp_build_dir bp), bs_disk = dk\<rparr>"
  note inv = inv_start[of "bp_build_dir bp" dk]
  define R where "R n = bind_sr (check_graph_degree (bp_intermediate bp) (bp_degree bp) (length (hm_rows ds)), ?s0) (\<lambda>(intermediate_degree, graph_degree) s.
        bind_sr (plan_build (be_memory env)
          \<lparr>sz_rows = length (hm_rows ds), sz_dim = dim, sz_elem = sz, sz_intermediate = intermediate_degree, sz_degree = graph_degree,
           sz_connectivity = bp_connectivity bp, sz_max_host_gb = bp_max_host_gb bp, sz_max_gpu_gb = bp_max_gpu_gb bp\<rparr>
          (bp_use_disk bp) (bp_build_dir bp) n, s) (\<lambda>(disk, n_partitions) s.
          build_partitions env bp disk sz graph_degree n_partitions ds dim s))" for n
  have inside: "fails_inv (bp_build_dir bp) dk (R n)" for n
    unfolding R_def split_beta by (rule fails_inv_unchanged[OF inv])+ (rule fails_build[OF refl])
  have "dk' = dk \<or> (\<exists>n. (case R n of (Inr idx, s) \<Rightarrow> (Inr idx, bs_disk s)
      | (Inl e, s) \<Rightarrow> (Inl e, if thrown e then cleanup (be_dirs env) s else bs_disk s)) = (Inl e, dk'))"
    using run unfolding build_ace_def Let_def R_def[symmetric] by (simp split: sum.splits) blast
  then consider "dk' = dk" | n where "(case R n of (Inr idx, s) \<Rightarrow> (Inr idx, bs_disk s)
      | (Inl e, s) \<Rightarrow> (Inl e, if thrown e then cleanup (be_dirs env) s else bs_disk s)) = (Inl e, dk')" by blast
  then show thesis
  proof cases
    case (2 n)
    then have "fst (R n) = Inl e" "dk' = cleanup (be_dirs env) (snd (R n))" using e by (auto split: prod.splits sum.splits if_splits)
    then show thesis using inside[of n] e that(2) unfolding fails_inv_def by blast
  qed (rule that(1))
qed

text \<open>
  C10: An ACE build that throws leaves the disk as it found it: whatever step throws (the workspace directory,
  the creation of one of the four files, k-means, the labels, a write of a full buffer, a partition's index, the
  removal of the augmented file, the opening of the result), every file the build made is gone, a directory it made
  is gone, and no file that was there before has changed. Removals succeed, and the disk is a tree before the
  build. Not covered is a failing write of the last buffers, which ends the process inside of an OpenMP region.
\<close>

theorem ace_failure_restores:
  assumes "build_ace env bp sz ds dim dk = (Inl e, dk')" "thrown e" "removals_ok (be_dirs env)" "tree_ok dk"
  shows "dk' = dk"
proof (rule build_ace_failed[OF assms(1,2)])
  fix s marks assume "build_inv (bp_build_dir bp) dk marks s" "dk' = cleanup (be_dirs env) s"
  then show "dk' = dk" using cleanup_restores[OF _ assms(3,4)] by simp
qed simp

text \<open>A build whose directory can be made, whose first file is created, and whose second is refused.\<close>

definition demo_env :: "(int, int) build_env" where
  "demo_env = \<lparr>be_labels = demo_lib, be_io = demo_io, be_store = demo_store, be_memory = demo_machine,
     be_dirs = \<lparr>dc_mkdir = (\<lambda>_. True), dc_inspect = (\<lambda>_. True), dc_remove = (\<lambda>_. True), dc_rmdir = (\<lambda>_ _. True)\<rparr>,
     be_reader = (\<lambda>_. None), be_header = (\<lambda>_ _. Inr demo_header),
     be_can_open = (\<lambda>p. p = ''d/reordered_dataset.npy''), be_can_allocate = (\<lambda>_. True),
     be_script = (\<lambda>_. [Interrupted, Transferred 5000]), be_fits = (\<lambda>_. True), be_alloc = (\<lambda>_. True),
     be_device_build = (\<lambda>_ _. Inl OutOfDeviceMemory), be_host_build = (\<lambda>_ _. Inl OutOfDeviceMemory), be_threads = (\<lambda>n. [0..<n]),
     be_schedule = [], be_attach = (\<lambda>_. Inr ()), be_uninitialized = []\<rparr>"

definition demo_params :: "int build_params" where
  "demo_params = \<lparr>bp_is_ace = True, bp_npartitions = 2, bp_build_dir = ''d'', bp_use_disk = True, bp_intermediate = 4, bp_degree = 2,
     bp_metric = L2Expanded, bp_connectivity = False, bp_max_host_gb = None, bp_max_gpu_gb = None\<rparr>"

definition demo_disk :: ace_disk where
  "demo_disk = \<lparr>dk_files = [''e/x'' \<mapsto> [7]], dk_dirs = (\<lambda>p. p = ''e'')\<rparr>"

lemma demo_artifacts:
  "artifact_path (ace_disk_workspace ''d'') reordered_dataset = ''d/reordered_dataset.npy''"
  "artifact_path (ace_disk_workspace ''d'') augmented_dataset = ''d/augmented_dataset.npy''"
  by (simp_all add: artifact_path_def ace_disk_workspace_def path_join_def)

lemma demo_created:
  "\<exists>fc. create_numpy_file fs path (Inr demo_header) 1 [3, 2] True True (\<lambda>_. True) [Interrupted, Transferred 5000] =
     (Some (Inr 4096), fs(path \<mapsto> fc))" if "fs path = None"
proof -
  obtain a where a: "align_header demo_header = Inr a" "length a = 4096" using demo_aligned by blast
  then have "a \<noteq> []" by auto
  moreover have "data_bytes_of 1 [3, 2] = Inr 6" by (simp add: checked_mul_def expects_def word_le_nat_alt unat_div unat_max_word)
  moreover have "numpy_align_up 6 data_alignment = 4096" by (simp add: numpy_align_up_def data_alignment_def)
  then have "alloc_bytes_of 4096 6 = Inr 8192" by (simp add: alloc_bytes_of_def expects_def le_max_minus_iff)
  ultimately show ?thesis using that a by (auto simp del: data_bytes_of.simps simp: create_numpy_file_def Let_def ssize_max_def)
qed

lemma demo_fails: "\<exists>dk'. build_ace demo_env demo_params 1 demo_vectors 2 demo_disk = (Inl NumpyFailed, dk')"
proof -
  have u: "length (hm_rows demo_vectors) = 3" by (simp add: demo_vectors_def)
  let ?s0 = "\<lparr>bs_ws = ace_disk_workspace ''d'', bs_disk = demo_disk\<rparr>"
  have plan: "plan_build demo_machine
      \<lparr>sz_rows = 3, sz_dim = 2, sz_elem = 1, sz_intermediate = 2, sz_degree = 2, sz_connectivity = False, sz_max_host_gb = None, sz_max_gpu_gb = None\<rparr>
      True ''d'' 2 = Inr (True, 2)"
    by (simp add: plan_build_def ace_check_use_disk_mode_def ace_validate_disk_mode_partitions_def demo_machine_def Let_def
      expects_def bind_r_def optimize_workspace_size_def ace_resolve_available_memory_def sub_partition_size_def kOptimizeBatchSize_def
      imbalance_factor_def vector_expansion_factor_def usable_cpu_memory_fraction_def ace_validate_partition_count_def)
  have degree: "check_graph_degree 4 2 3 = Inr (2, 2)" by (simp add: check_graph_degree_def bind_expects)
  have initial: "initial_partitions 3 2 = Inr 2"
    by (simp add: initial_partitions_def ace_resolve_partition_count_def ace_validate_partition_count_def bind_expects)
  obtain fc where fc: "create_numpy_file (dk_files demo_disk) ''d/reordered_dataset.npy'' (Inr demo_header) 1 [3, 2] True True (\<lambda>_. True)
      [Interrupted, Transferred 5000] = (Some (Inr 4096), (dk_files demo_disk)(''d/reordered_dataset.npy'' \<mapsto> fc))"
    using demo_created[of "dk_files demo_disk" "''d/reordered_dataset.npy''"] by (auto simp: demo_disk_def)
  let ?s1 = "?s0\<lparr>bs_ws := (bs_ws ?s0)\<lparr>dw_directory_created := True\<rparr>, bs_disk := demo_disk\<lparr>dk_dirs := (dk_dirs demo_disk)(''d'' := True)\<rparr>\<rparr>"
  have made: "initialize_workspace (be_dirs demo_env) ?s0 = (Inr (), ?s1)"
    by (simp add: initialize_workspace_def demo_env_def demo_disk_def ace_disk_workspace_def Let_def)
  obtain s2 where first: "create_artifact demo_env True 1 [3, 2] reordered_dataset ?s1 = (Inr 4096, s2)"
      "dw_artifacts (bs_ws s2) = dw_artifacts (ace_disk_workspace ''d'')"
    using fc by (auto simp: create_artifact_def on_files_def demo_artifacts Let_def demo_env_def artifact_path_def ace_disk_workspace_def path_join_def
      demo_disk_def mark_artifact_created_def)
  have second: "create_artifact demo_env True 1 [3, 2] augmented_dataset s2 = (Inl NumpyFailed, s2\<lparr>bs_disk := (bs_disk s2)\<lparr>dk_files := dk_files (bs_disk s2)\<rparr>\<rparr>)"
    using first(2) by (simp add: create_artifact_def on_files_def Let_def demo_env_def artifact_path_def ace_disk_workspace_def path_join_def create_numpy_file_def)
  have created: "create_artifacts demo_env 1 3 2 2 ?s0 = (Inl NumpyFailed, s2\<lparr>bs_disk := (bs_disk s2)\<lparr>dk_files := dk_files (bs_disk s2)\<rparr>\<rparr>)"
    unfolding create_artifacts_def made bind_sr_simps first(1) second ..
  have built: "\<exists>s'. build_partitions demo_env demo_params True 1 2 2 demo_vectors 2 ?s0 = (Inl NumpyFailed, s')"
    unfolding build_partitions_def Let_def u if_True created bind_sr_simps by blast
  have params: "bp_is_ace demo_params" "bp_npartitions demo_params = 2" "bp_build_dir demo_params = ''d''" "bp_use_disk demo_params"
    "bp_intermediate demo_params = 4" "bp_degree demo_params = 2" "bp_connectivity demo_params = False" "bp_max_host_gb demo_params = None"
    "bp_max_gpu_gb demo_params = None" "be_memory demo_env = demo_machine" by (simp_all add: demo_params_def demo_env_def)
  obtain s' where "build_partitions demo_env demo_params True 1 2 2 demo_vectors 2 ?s0 = (Inl NumpyFailed, s')" using built by blast
  then show ?thesis
    using initial degree plan params unfolding build_ace_def Let_def u by (auto simp: bind_expects)
qed

theorem ace_failure_restores_witness:
  "build_ace demo_env demo_params 1 demo_vectors 2 demo_disk = (Inl NumpyFailed, demo_disk)"
proof -
  obtain dk' where r: "build_ace demo_env demo_params 1 demo_vectors 2 demo_disk = (Inl NumpyFailed, dk')" using demo_fails by blast
  have "removals_ok (be_dirs demo_env)" by (simp add: removals_ok_def demo_env_def)
  moreover have "tree_ok demo_disk" by (simp add: tree_ok_def demo_disk_def parent_path_def)
  ultimately show ?thesis using ace_failure_restores[OF r] r by (simp add: thrown_def)
qed

end
