(* ===== verification/AceModes.thy ===== *)
theory AceModes imports AceBuild begin

text \<open>
  The two modes of the ACE build (\<^verbatim>\<open>cpp/src/neighbors/detail/cagra/cagra_ace.cuh\<close>): the loop over the
  partitions in disk mode, from the files to the graph file, against the loop in memory. When each of them
  succeeds, and that partitions with the same index get the same rows of the graph.
\<close>














text \<open>The refused write, for a partition without core rows of which the index is built.\<close>

lemma empty_core_partition_fails:
  assumes "al_core lb ! p = 0" "0 < al_augmented lb ! p" "pl_augmented_offsets L ! p + al_augmented lb ! p \<le> length (pl_augmented_backward L)"
    and "build_partition_graph env True sz ds dim P lb L rt at p (dk_files (bs_disk s)) = Inr g" "dg_cols g = deg"
  shows "fst (process_partition env True sz ds dim deg P lb L rt at graph p search_graph s) = Inl EmptyWrite"
  using assms
  by (simp add: process_partition_def Let_def ace_adjust_sub_graph_ids_disk_def bind_expects on_files_def write_file_def array_bytes_def)

section \<open>The loop in memory\<close>




section \<open>The loop on disk\<close>






section \<open>The modes agree\<close>



section \<open>When the loop on disk fails\<close>

















end
