(* ===== verification/Spec2Isabelle.thy ===== *)
theory Spec2Isabelle
  imports CagraHashmap HostMemory KvikioStream NumpyFile DenseDataset Agglomerative TieredIndex Bbq HnswLayered HnswLoad AceModes
begin

text \<open>
  A verification development for the host-side core of cuVS, the library of vector search algorithms
  whose C++ and CUDA sources are under \<^verbatim>\<open>cpp/\<close> (paths below are relative to the root of the
  repository).

  \<^bold>\<open>The program.\<close> Indexes over vectors are built on the device from a dataset, kept as graphs or lists,
  searched, extended, and written to and read from files. The device kernels compute distances and
  neighbours; around them host code decides what is kept where, lays out memory and files, checks what
  it reads, and repairs or refuses what does not fit. This development models that host code, data
  structures and loops of the kernels (the hash set of the CAGRA search, the parallel cut of a dendrogram,
  the translation of the ids of a partition) and the places where the parts meet.

  \<^bold>\<open>Conventions.\<close> \<open>RAFT_EXPECTS\<close> and \<open>RAFT_FAIL\<close> throw: fallible code returns a sum, \<open>Inl\<close> an error of
  the component's own error type. State is passed explicitly, in records that have the fields of the
  classes. Values of \<^verbatim>\<open>size_t\<close> are natural numbers where an explicit check or a bound keeps them from
  wrapping, otherwise words or numbers modulo the width. What is not under \<^verbatim>\<open>cpp/\<close> (raft, CUDA, kvikio,
  hnswlib, the operating system) is an argument of the definitions that use it: a record of functions or
  a script of outcomes, with named hypotheses that state documented behaviour; witnesses instantiate them.

  \<^bold>\<open>Theories.\<close>
  \<^item> \<open>Prelude\<close>: results and their rules, word types, byte strings, lemmas on lists and cyclic probing;
    \<open>ByteArrays\<close>: arrays inside byte strings, what a range of a file holds, loops over batches of rows
    with their invariants; \<open>Buckets\<close>: a counting sort of rows by key and the places it gives, also when
    the rows come in any order. Nothing in them is specific to a component.
  \<^item> \<open>CagraHashmap\<close> (\<^verbatim>\<open>cpp/src/neighbors/detail/cagra/hashmap.hpp\<close>): \<open>init\<close>, \<open>insert\<close>, \<open>search\<close>, \<open>remove\<close> on
    a table of words of any width, the team insertion, and insertion by many threads as a step relation
    over \<^verbatim>\<open>atomicCAS\<close>. The table refines a finite set through a probe-chain invariant; under every
    interleaving one thread wins a key and the chains stay unbroken.
  \<^item> \<open>HostMemory\<close> (\<^verbatim>\<open>cpp/src/util/host_memory.cpp\<close>): mounts, control groups and limits. The figure returned
    is the tightest limit along the hierarchy, the walk ends at the mount, paths stay below it.
  \<^item> \<open>FileIO\<close>, \<open>KvikioStream\<close>, \<open>NumpyFile\<close> (\<^verbatim>\<open>cpp/src/util/file_io.cpp\<close>, \<^verbatim>\<open>cpp/include/cuvs/util/file_io.hpp\<close>,
    \<^verbatim>\<open>kvikio_io.hpp\<close>, \<^verbatim>\<open>serialize_validation.hpp\<close>): positional transfers with retries over any outcomes of the
    system calls, the buffered output stream and the mixed input stream, NumPy files with their headers
    and exclusive creation, and the checks of serialized metadata. The streams refine a plain file; a
    failed write leaves a prefix, and a write buffer in front changes nothing.
  \<^item> \<open>DenseDataset\<close> (\<^verbatim>\<open>cpp/include/cuvs/neighbors/common.hpp\<close>, \<^verbatim>\<open>cpp/src/neighbors/detail/dataset_serialize.hpp\<close>):
    row strides, copies between strides, the serialized form and its readers. Writing and reading is a
    round trip, skipping agrees with reading as far as the stream can seek, all readers agree.
  \<^item> \<open>Agglomerative\<close> (\<^verbatim>\<open>cpp/src/cluster/detail/agglomerative.cuh\<close>): union-find, the host dendrogram and the
    two kernels that cut it, under arbitrary interleavings. The dendrogram is that of single linkage and
    the labels are the connected components of the shortest edges.
  \<^item> \<open>Bbq\<close> (\<^verbatim>\<open>cpp/src/preprocessing/quantize/detail/bbq_cpu_quantize.hpp\<close>, \<^verbatim>\<open>bbq.hpp\<close>): the packing of codes, the
    scalar quantizer over a record of floating-point operations, the cache of quantized datasets on disk
    and the datasets of several quantizers.
  \<^item> \<open>HnswLayered\<close>, \<open>HnswArtifact\<close>, \<open>HnswLoad\<close> (\<^verbatim>\<open>cpp/src/neighbors/detail/hnsw.hpp\<close>, \<^verbatim>\<open>hnsw_layered_format.hpp\<close>): the
    plan that groups rows by level, the writer of the layered artifact from the graph on disk, and its
    loader. The plan refines a stable sort; writing and loading is a round trip of the whole hierarchy;
    the artifact appears atomically; a file that loads gives a well-formed index unless it lists rows in a
    layer of level 0, which the loader copies outside the index.
  \<^item> \<open>AcePartition\<close>, \<open>AceGraph\<close>, \<open>AceStore\<close>, \<open>AceMemory\<close>, \<open>AceBuild\<close>, \<open>AceModes\<close>
    (\<^verbatim>\<open>cpp/src/neighbors/detail/cagra/cagra_ace.cuh\<close>, with \<^verbatim>\<open>cagra_build.cuh\<close>, \<^verbatim>\<open>cagra_helpers.cpp\<close> and
    \<^verbatim>\<open>cpp/include/cuvs/neighbors/cagra.hpp\<close>): the partitioned build of a CAGRA graph. \<open>AcePartition\<close> has the
    labels and the lists of a partition, made sequentially or by parallel iterations with atomic counters;
    \<open>AceGraph\<close> the gathering of a partition and the translation of its ids, on the host and by a kernel;
    \<open>AceStore\<close> the reordering to disk through buffers and the reading back; \<open>AceMemory\<close> the memory estimates and
    the number of partitions; \<open>AceBuild\<close> the workspace and the build as a whole, with the theorem that an
    exception leaves no trace on disk; \<open>AceModes\<close> when the loops of the disk and the memory mode succeed, and
    that they give one graph where the partitions have one index.
  \<^item> \<open>TieredIndex\<close> (\<^verbatim>\<open>cpp/src/neighbors/detail/tiered_index.cuh\<close>, \<^verbatim>\<open>cpp/src/neighbors/tiered_index.cu\<close>): the growing
    brute-force storage, building, extending, compacting, merging and searching, with the ANN index as
    an abstract operation.

  \<^bold>\<open>How the parts meet.\<close> \<open>KvikioStream\<close> and \<open>NumpyFile\<close> use the transfers of \<open>FileIO\<close>; \<open>Bbq\<close>, \<open>HnswLayered\<close> and
  \<open>TieredIndex\<close> use the directory and the distance types of \<open>NumpyFile\<close>; \<open>HnswArtifact\<close> builds on the plan of
  \<open>HnswLayered\<close> and \<open>HnswLoad\<close> reads what \<open>HnswArtifact\<close> writes; \<open>AceBuild\<close> creates its files with \<open>NumpyFile\<close> and makes
  the index over files that \<open>HnswArtifact\<close> reads; the plan of \<open>HnswLayered\<close> and the lists of \<open>AcePartition\<close> share
  \<open>Buckets\<close>; \<open>TieredIndex\<close> keeps the datasets of \<open>DenseDataset\<close>. Interfaces between a client and a
  provider are locales, interpreted on the model's own definitions in the theory of the provider.

  \<^bold>\<open>Bounds.\<close> Recursion is structural or has a measure; there is no fuel, except that a loop over file
  system calls consumes a script of outcomes, one per call: a theorem about a transfer speaks of every
  script that answers as long as the transfer asks. The bounds of the artifact (at most \<open>2 ^ 31\<close> rows,
  degree at most 20000, levels at most 255) are those of the \<^verbatim>\<open>int\<close> entry point, of hnswlib's limit on
  its parameter, and of the \<^verbatim>\<open>uint8_t\<close> levels; under them no size wraps. The theorems of the ACE build are for
  datasets of fewer than \<open>2 ^ 32\<close> rows, whose ids are \<^verbatim>\<open>uint32_t\<close>. A parallel loop is a schedule, the order in
  which its iterations make their steps; the theorems hold for every schedule that completes the loop.

  \<^bold>\<open>Not modelled.\<close> The distance and graph kernels (CAGRA graph optimisation and search, IVF, NN-descent, Vamana,
  k-means, brute force), whose results are floating-point values of parallel device code; the bindings in
  other languages and the C interface, which only convert arguments; JIT compilation; logging, timing and
  statistics. The components listed as not modelled in the manifest say so one by one.
\<close>

end
